(* ===== verification/Prelude.thy ===== *)
theory Prelude
  imports Complex_Main "HOL-Library.Multiset" "HOL-Library.Word"
begin

text \<open>
  Shared vocabulary of the development: theorem collections that the component theories fill
  and their proofs use, the generic list facts about in-place vector loops, and the vector
  helper \<^verbatim>\<open>vectorMultiErase\<close> of src/src/common/basics.h, which the range file, the animator and
  the filter tree all call.

  Conventions used everywhere: a C++ \<^verbatim>\<open>std::vector\<close>, \<^verbatim>\<open>std::list\<close> or \<^verbatim>\<open>std::deque\<close> is a list,
  \<^verbatim>\<open>std::string\<close> is a character list, a pointer is a natural number with 0 for null, and an
  access that C++ leaves undefined (out of range, dangling) is the value None of an option.
\<close>

named_theorems erase_simps \<open>what the vector erasing loops compute\<close>
named_theorems step_defs \<open>definitions of state-changing operations, for unfolding\<close>

section \<open>Lists\<close>

lemma take_drop_Cons: "n < length xs \<Longrightarrow> take n xs @ xs ! n # drop (Suc n) xs = xs"
  by (simp add: Cons_nth_drop_Suc)

lemma distinct_find_unique:
  assumes "distinct (map f xs)" "x \<in> set xs"
  shows "find (\<lambda>y. f y = f x) xs = Some x"
  using assms by (induction xs) auto

lemma find_Some_in: "find P xs = Some x \<Longrightarrow> x \<in> set xs \<and> P x"
  by (induction xs) (auto split: if_splits)

lemma find_None_iff_filter: "find P xs = None \<longleftrightarrow> filter P xs = []"
  by (induction xs) auto

lemma dropWhile_append_stop:
  "(\<forall>x \<in> set xs. P x) \<Longrightarrow> ys = [] \<or> \<not> P (hd ys) \<Longrightarrow> dropWhile P (xs @ ys) = ys"
  by (cases ys) auto

lemma takeWhile_append_stop:
  "(\<forall>x \<in> set xs. P x) \<Longrightarrow> ys = [] \<or> \<not> P (hd ys) \<Longrightarrow> takeWhile P (xs @ ys) = xs"
  by (cases ys) auto

lemma dropWhile_split:
  "\<forall>x \<in> set xs. P x \<Longrightarrow> \<not> P y \<Longrightarrow> dropWhile P (xs @ y # ys) = y # ys"
  by simp

section \<open>vectorMultiErase\<close>

text \<open>
  The loop of \<^verbatim>\<open>vectorMultiErase\<close> walks the vector with an index, counting the killed
  elements in \<open>shift\<close> and copying each survivor \<open>shift\<close> places down; the vector is then
  shrunk by \<open>shift\<close>. The caller must pass one flag per element.
\<close>

fun vme_loop :: "bool list \<Rightarrow> nat \<Rightarrow> nat \<Rightarrow> 'a list \<Rightarrow> 'a list \<times> nat" where
  "vme_loop [] ui shift vec = (vec, shift)"
| "vme_loop (k # ks) ui shift vec =
     (if k then vme_loop ks (Suc ui) (Suc shift) vec
      else if shift > 0 then vme_loop ks (Suc ui) shift (vec[ui - shift := vec ! ui])
      else vme_loop ks (Suc ui) shift vec)"

definition vectorMultiErase :: "'a list \<Rightarrow> bool list \<Rightarrow> 'a list" where
  "vectorMultiErase vec wantKill =
     (if vec = [] then vec
      else (case vme_loop wantKill 0 0 vec of (v, shift) \<Rightarrow> take (length vec - shift) v))"

definition keep_unkilled :: "'a list \<Rightarrow> bool list \<Rightarrow> 'a list" where
  "keep_unkilled vec wantKill = map fst (filter (\<lambda>p. \<not> snd p) (zip vec wantKill))"

text \<open>
  Loop invariant: the first \<open>ui - shift\<close> cells hold the survivors of the part already read,
  the cells from \<open>ui\<close> on are untouched.
\<close>

lemma vme_loop_inv:
  assumes "vec = done @ gap @ rest" "length gap = shift" "length done + shift = ui"
    and "length ks = length rest"
  shows "\<exists>gap'. vme_loop ks ui shift vec = (done @ keep_unkilled rest ks @ gap', length gap')"
  using assms
proof (induction ks ui shift vec arbitrary: "done" gap rest rule: vme_loop.induct)
  case (1 ui shift vec)
  then show ?case by (auto simp: keep_unkilled_def)
next
  case (2 k ks ui shift vec)
  then obtain r rs where rest: "rest = r # rs" by (cases rest) auto
  show ?case
  proof (cases k)
    case True
    then show ?thesis
      using "2.IH"(1)[of "done" "gap @ [r]" rs] "2.prems" rest by (simp add: keep_unkilled_def)
  next
    case False
    show ?thesis
    proof (cases gap)
      case Nil
      then show ?thesis
        using "2.IH"(3)[of "done @ [r]" "[]" rs] "2.prems" rest False
        by (simp add: keep_unkilled_def)
    next
      case (Cons g gs)
      have upd: "vec[ui - shift := vec ! ui] = (done @ [r]) @ (gs @ [r]) @ rs"
        using "2.prems" rest Cons by (auto simp: nth_append list_update_append)
      then show ?thesis
        using "2.IH"(2)[of "done @ [r]" "gs @ [r]" rs] "2.prems" rest False Cons
        by (simp add: keep_unkilled_def)
    qed
  qed
qed

lemma vectorMultiErase_eq [erase_simps]:
  assumes "length vec = length wantKill"
  shows "vectorMultiErase vec wantKill = keep_unkilled vec wantKill"
proof -
  obtain gap' where eq: "vme_loop wantKill 0 0 vec = (keep_unkilled vec wantKill @ gap', length gap')"
    using vme_loop_inv[of vec "[]" "[]" vec 0 0 wantKill] assms by auto
  have len: "length (fst (vme_loop ks ui s v)) = length v" for ks ui s and v :: "'a list"
    by (induction ks ui s v rule: vme_loop.induct) auto
  have "length vec = length (keep_unkilled vec wantKill) + length gap'"
    using len[of wantKill 0 0 vec] eq by simp
  then show ?thesis
    using eq by (cases "vec = []") (auto simp: vectorMultiErase_def keep_unkilled_def)
qed

lemma keep_unkilled_flags:
  "keep_unkilled vec (map P vec) = filter (\<lambda>x. \<not> P x) vec"
  by (induction vec) (auto simp: keep_unkilled_def)

lemma keep_unkilled_Nil [simp]: "keep_unkilled [] ks = []"
  by (simp add: keep_unkilled_def)

lemma keep_unkilled_Cons [simp]:
  "keep_unkilled (x # xs) (k # ks) = (if k then keep_unkilled xs ks else x # keep_unkilled xs ks)"
  by (simp add: keep_unkilled_def)

lemma length_keep_unkilled:
  "length xs = length ks \<Longrightarrow> length ys = length ks \<Longrightarrow>
   length (keep_unkilled xs ks) = length (keep_unkilled ys ks)"
  by (induction ks arbitrary: xs ys) (auto simp: length_Suc_conv)

section \<open>Ordered maps\<close>

text \<open>A \<^verbatim>\<open>std::map\<close> with number keys as the list of its entries in key order.\<close>

fun map_put :: "nat \<Rightarrow> 'v \<Rightarrow> (nat \<times> 'v) list \<Rightarrow> (nat \<times> 'v) list" where
  "map_put k v [] = [(k, v)]"
| "map_put k v ((i, x) # m) = (if k < i then (k, v) # (i, x) # m else if k = i then (k, v) # m else (i, x) # map_put k v m)"

lemma map_of_map_put: "map_of (map_put k v m) = (map_of m)(k \<mapsto> v)" if "sorted_wrt (<) (map fst m)"
  using that
proof (induction k v m rule: map_put.induct)
  case (2 k v i x m)
  have "map_of m k = None" if "k < i"
  proof -
    have "k \<notin> fst ` set m" using "2.prems" that by force
    then show ?thesis by (simp add: map_of_eq_None_iff)
  qed
  then show ?case using 2 by (auto simp: fun_eq_iff)
qed auto

lemma map_put_keys: "fst ` set (map_put k v m) = insert k (fst ` set m)"
  by (induction k v m rule: map_put.induct) auto

lemma map_put_sorted: "sorted_wrt (<) (map fst m) \<Longrightarrow> sorted_wrt (<) (map fst (map_put k v m))"
proof (induction k v m rule: map_put.induct)
  case (2 k v i x m)
  have "\<forall>y \<in> fst ` set (map_put k v m). i < y" if "i < k"
    using "2.prems" that by (simp add: map_put_keys)
  then show ?case using 2 by auto
qed auto

section \<open>Overlapping intervals\<close>

text \<open>\<^verbatim>\<open>rangesOverlap\<close> of src/src/common/basics.h, for every ordered type.\<close>

definition rangesOverlap :: "'a::linorder \<Rightarrow> 'a \<Rightarrow> 'a \<Rightarrow> 'a \<Rightarrow> bool" where
  "rangesOverlap minA maxA minB maxB =
     (if (minA \<le> minB \<and> maxA \<ge> minB) \<or> (minA \<le> maxB \<and> maxA \<ge> maxB) then True
      else if (minB \<le> minA \<and> maxB \<ge> minA) \<or> (minB \<le> maxA \<and> maxB \<ge> maxA) then True
      else False)"

lemma rangesOverlap_iff:
  "a \<le> b \<Longrightarrow> c \<le> d \<Longrightarrow> rangesOverlap a b c d \<longleftrightarrow> (\<exists>x. a \<le> x \<and> x \<le> b \<and> c \<le> x \<and> x \<le> d)"
proof
  assume "a \<le> b" "c \<le> d" "rangesOverlap a b c d"
  then have "a \<le> c \<and> c \<le> b \<or> c \<le> a \<and> a \<le> d \<or> a \<le> d \<and> d \<le> b \<or> c \<le> b \<and> b \<le> d"
    by (auto simp: rangesOverlap_def split: if_splits)
  then show "\<exists>x. a \<le> x \<and> x \<le> b \<and> c \<le> x \<and> x \<le> d" using \<open>a \<le> b\<close> \<open>c \<le> d\<close> by blast
next
  assume "\<exists>x. a \<le> x \<and> x \<le> b \<and> c \<le> x \<and> x \<le> d"
  then obtain x where x: "a \<le> x" "x \<le> b" "c \<le> x" "x \<le> d" by blast
  show "rangesOverlap a b c d"
  proof (cases "a \<le> c")
    case True
    moreover have "c \<le> b" using x by (meson order_trans)
    ultimately show ?thesis by (simp add: rangesOverlap_def)
  next
    case False
    then have "c \<le> a" by simp
    moreover have "a \<le> d" using x by (meson order_trans)
    ultimately show ?thesis by (simp add: rangesOverlap_def)
  qed
qed

lemma rangesOverlap_ends:
  "a \<le> b \<Longrightarrow> c \<le> d \<Longrightarrow> rangesOverlap a b c d \<longleftrightarrow> a \<le> d \<and> c \<le> b"
  by (auto simp: rangesOverlap_def)

section \<open>Indexed access\<close>

text \<open>\<^verbatim>\<open>operator[]\<close> of a vector: None is the undefined access.\<close>

definition elem_at :: "'a list \<Rightarrow> nat \<Rightarrow> 'a option" where
  "elem_at xs i = (if i < length xs then Some (xs ! i) else None)"

definition set_at :: "nat \<Rightarrow> 'a \<Rightarrow> 'a list \<Rightarrow> 'a list option" where
  "set_at i x xs = (if i < length xs then Some (xs[i := x]) else None)"

text \<open>The first index of an element that satisfies a test: a search loop with \<^verbatim>\<open>break\<close>.\<close>

fun find_index :: "('a \<Rightarrow> bool) \<Rightarrow> 'a list \<Rightarrow> nat option" where
  "find_index P [] = None"
| "find_index P (x # xs) = (if P x then Some 0 else map_option Suc (find_index P xs))"

lemma find_index_Some: "find_index P xs = Some i \<Longrightarrow> i < length xs \<and> P (xs ! i) \<and> (\<forall>j < i. \<not> P (xs ! j))"
proof (induction xs arbitrary: i)
  case (Cons x xs)
  show ?case
  proof (cases "P x")
    case False
    then obtain k where "find_index P xs = Some k" "i = Suc k" using Cons.prems by auto
    then show ?thesis using Cons.IH False by (auto simp: nth_Cons split: nat.splits)
  qed (use Cons.prems in auto)
qed simp

lemma find_index_None: "find_index P xs = None \<longleftrightarrow> (\<forall>x \<in> set xs. \<not> P x)"
  by (induction xs) auto

lemma set_nth_update: "i < length xs \<Longrightarrow> set (xs[i := x]) = insert x (set (take i xs) \<union> set (drop (Suc i) xs))"
  by (simp add: upd_conv_take_nth_drop)

lemma zip_keep_unkilled:
  "length xs = length ks \<Longrightarrow> length ys = length ks \<Longrightarrow>
   zip (keep_unkilled xs ks) (keep_unkilled ys ks) = keep_unkilled (zip xs ys) ks"
  by (induction ks arbitrary: xs ys) (auto simp: length_Suc_conv)

end
