(* ===== verification/TreeHH.thy ===== *)
theory TreeHH
  imports Prelude "HOL-Library.Sublist"
begin

text \<open>
  The container \<^verbatim>\<open>tree<T>\<close> of src/src/backend/tree.hh, at the level its clients see: an ordered
  forest whose nodes have an identity (the address of the \<^verbatim>\<open>tree_node_\<close>), so that an iterator is
  an address and stays valid while other nodes are inserted or erased. The sibling and parent
  links of a node are the shape of the \<open>tnode\<close> value; \<open>roots\<close> are the nodes strictly between
  the sentinels \<^verbatim>\<open>head\<close> and \<^verbatim>\<open>feet\<close>. New nodes take their address from \<open>next_addr\<close>.
\<close>

datatype 'a tnode = TNode (addr: nat) (tdata: 'a) (kids: "'a tnode list")

record 'a ptree =
  roots :: "'a tnode list"
  next_addr :: nat

definition empty_ptree :: "'a ptree" where
  "empty_ptree = \<lparr>roots = [], next_addr = 1\<rparr>"

section \<open>Traversal\<close>

text \<open>
  \<open>walk anc n\<close> lists the nodes below and including \<open>n\<close> in the order \<^verbatim>\<open>pre_order_iterator\<close> visits
  them, each with the chain of its ancestors' addresses (nearest first), which is what following
  the parent pointers from the node yields.
\<close>

fun walk :: "nat list \<Rightarrow> 'a tnode \<Rightarrow> (nat list \<times> 'a tnode) list"
  and walks :: "nat list \<Rightarrow> 'a tnode list \<Rightarrow> (nat list \<times> 'a tnode) list" where
  "walk anc (TNode a x ks) = (anc, TNode a x ks) # walks (a # anc) ks"
| "walks anc [] = []"
| "walks anc (n # ns) = walk anc n @ walks anc ns"

definition entries :: "'a ptree \<Rightarrow> (nat list \<times> 'a tnode) list" where
  "entries t = walks [] (roots t)"

text \<open>Addresses and data in the same order, without the ancestors.\<close>

fun flat :: "'a tnode \<Rightarrow> (nat \<times> 'a) list" and items :: "'a tnode list \<Rightarrow> (nat \<times> 'a) list" where
  "flat (TNode a x ks) = (a, x) # items ks"
| "items [] = []"
| "items (n # ns) = flat n @ items ns"

definition addrs :: "'a ptree \<Rightarrow> nat list" where
  "addrs t = map (addr \<circ> snd) (entries t)"

definition datas :: "'a ptree \<Rightarrow> 'a list" where
  "datas t = map (tdata \<circ> snd) (entries t)"

definition entry_at :: "'a ptree \<Rightarrow> nat \<Rightarrow> (nat list \<times> 'a tnode) option" where
  "entry_at t a = find (\<lambda>e. addr (snd e) = a) (entries t)"

text \<open>\<^verbatim>\<open>std::find(t.begin(), t.end(), x)\<close>: the first node in depth-first order holding \<open>x\<close>.\<close>

definition find_data :: "'a ptree \<Rightarrow> 'a \<Rightarrow> nat option" where
  "find_data t x = map_option (addr \<circ> snd) (find (\<lambda>e. tdata (snd e) = x) (entries t))"

definition tree_size :: "'a ptree \<Rightarrow> nat" where
  "tree_size t = length (entries t)"

definition tree_depth :: "'a ptree \<Rightarrow> nat \<Rightarrow> nat option" where
  "tree_depth t a = map_option (\<lambda>e. length (fst e)) (entry_at t a)"

definition tree_parent :: "'a ptree \<Rightarrow> nat \<Rightarrow> nat option" where
  "tree_parent t a = (case entry_at t a of Some (p # _, _) \<Rightarrow> Some p | _ \<Rightarrow> None)"

fun node_max_depth :: "'a tnode \<Rightarrow> nat" where
  "node_max_depth (TNode a x ks) =
     (if ks = [] then 0 else Suc (foldr max (map node_max_depth ks) 0))"

text \<open>\<^verbatim>\<open>max_depth()\<close> is -1 on the empty tree.\<close>

definition max_depth :: "'a ptree \<Rightarrow> int" where
  "max_depth t = foldr max (map (\<lambda>n. int (node_max_depth n)) (roots t)) (-1)"

text \<open>The breadth-first iterator: a queue that is fed with the children of the node it leaves.\<close>

function bfs :: "'a tnode list \<Rightarrow> 'a tnode list" where
  "bfs [] = []"
| "bfs (n # q) = n # bfs (q @ kids n)"
  by pat_completeness auto
termination
proof (relation "measure (\<lambda>q. sum_list (map size q))")
  have sz: "size n = Suc (size_list size (kids n)) + 0" for n :: "'a tnode" by (cases n) simp
  have "size_list size ks = sum_list (map size ks) + length ks" for ks :: "'a tnode list"
    by (induction ks) auto
  then show "(q @ kids n, n # q) \<in> measure (\<lambda>q. sum_list (map size q))" for n :: "'a tnode" and q
    using sz[of n] by (simp)
qed simp

text \<open>The leaf iterator visits the childless nodes in depth-first order.\<close>

definition leaves :: "'a ptree \<Rightarrow> (nat list \<times> 'a tnode) list" where
  "leaves t = filter (\<lambda>e. kids (snd e) = []) (entries t)"

section \<open>Operations\<close>

text \<open>
  Every modification of the links replaces one node of a sibling list by zero or more nodes in
  place. \<open>splice_at a g\<close> does that at the node with address \<open>a\<close>.
\<close>

fun splice_node :: "nat \<Rightarrow> ('a tnode \<Rightarrow> 'a tnode list) \<Rightarrow> 'a tnode \<Rightarrow> 'a tnode list"
  and splice_at :: "nat \<Rightarrow> ('a tnode \<Rightarrow> 'a tnode list) \<Rightarrow> 'a tnode list \<Rightarrow> 'a tnode list" where
  "splice_node a g (TNode b x ks) =
     (if b = a then g (TNode b x ks) else [TNode b x (splice_at a g ks)])"
| "splice_at a g [] = []"
| "splice_at a g (n # ns) = splice_node a g n @ splice_at a g ns"

text \<open>A position is an address, or None for \<^verbatim>\<open>end()\<close> (the sentinel \<^verbatim>\<open>feet\<close>).\<close>

definition tree_begin :: "'a ptree \<Rightarrow> nat option" where
  "tree_begin t = (case roots t of [] \<Rightarrow> None | n # _ \<Rightarrow> Some (addr n))"

definition tree_insert :: "'a ptree \<Rightarrow> nat option \<Rightarrow> 'a \<Rightarrow> 'a ptree \<times> nat" where
  "tree_insert t pos x =
     (let new = TNode (next_addr t) x []
      in (t\<lparr>roots := (case pos of None \<Rightarrow> roots t @ [new]
                       | Some a \<Rightarrow> splice_at a (\<lambda>n. [new, n]) (roots t)),
            next_addr := Suc (next_addr t)\<rparr>, next_addr t))"

definition insert_after :: "'a ptree \<Rightarrow> nat \<Rightarrow> 'a \<Rightarrow> 'a ptree \<times> nat" where
  "insert_after t a x =
     (t\<lparr>roots := splice_at a (\<lambda>n. [n, TNode (next_addr t) x []]) (roots t),
        next_addr := Suc (next_addr t)\<rparr>, next_addr t)"

definition append_child :: "'a ptree \<Rightarrow> nat \<Rightarrow> 'a \<Rightarrow> 'a ptree \<times> nat" where
  "append_child t a x =
     (t\<lparr>roots := splice_at a (\<lambda>n. [TNode (addr n) (tdata n) (kids n @ [TNode (next_addr t) x []])]) (roots t),
        next_addr := Suc (next_addr t)\<rparr>, next_addr t)"

definition erase_children :: "'a ptree \<Rightarrow> nat \<Rightarrow> 'a ptree" where
  "erase_children t a = t\<lparr>roots := splice_at a (\<lambda>n. [TNode (addr n) (tdata n) []]) (roots t)\<rparr>"

definition erase :: "'a ptree \<Rightarrow> nat \<Rightarrow> 'a ptree" where
  "erase t a = t\<lparr>roots := splice_at a (\<lambda>n. []) (roots t)\<rparr>"

definition clear_tree :: "'a ptree \<Rightarrow> 'a ptree" where
  "clear_tree t = t\<lparr>roots := []\<rparr>"

text \<open>
  \<^verbatim>\<open>replace(position, from)\<close> puts a copy of the subtree \<open>from\<close> (of this or another tree) in place
  of the node at \<open>position\<close>, whose old subtree is freed. The copy's nodes are allocated in
  depth-first order, by \<^verbatim>\<open>append_child\<close>.
\<close>

fun relabel :: "nat \<Rightarrow> 'a tnode \<Rightarrow> 'a tnode \<times> nat"
  and relabels :: "nat \<Rightarrow> 'a tnode list \<Rightarrow> 'a tnode list \<times> nat" where
  "relabel n (TNode a x ks) = (let (ks', n') = relabels (Suc n) ks in (TNode n x ks', n'))"
| "relabels n [] = ([], n)"
| "relabels n (k # ks) =
     (let (k', n1) = relabel n k; (ks', n2) = relabels n1 ks in (k' # ks', n2))"

definition replace :: "'a ptree \<Rightarrow> nat \<Rightarrow> 'a tnode \<Rightarrow> 'a ptree \<times> nat" where
  "replace t a from =
     (let (c, n') = relabel (next_addr t) from
      in (t\<lparr>roots := splice_at a (\<lambda>_. [c]) (roots t), next_addr := n'\<rparr>, addr c))"

definition insert_subtree :: "'a ptree \<Rightarrow> nat option \<Rightarrow> 'a \<Rightarrow> 'a tnode \<Rightarrow> 'a ptree \<times> nat" where
  "insert_subtree t pos dummy from = (let (t1, d) = tree_insert t pos dummy in replace t1 d from)"

definition insert_subtree_after :: "'a ptree \<Rightarrow> nat \<Rightarrow> 'a \<Rightarrow> 'a tnode \<Rightarrow> 'a ptree \<times> nat" where
  "insert_subtree_after t a dummy from = (let (t1, d) = insert_after t a dummy in replace t1 d from)"

text \<open>
  \<^verbatim>\<open>copy_\<close> (copy construction and assignment) first inserts one placeholder per top node, then
  replaces the placeholders in order by the top nodes' subtrees: the result is a copy of the forest
  whose addresses come after those of the placeholders.
\<close>

definition copy_tree :: "'a ptree \<Rightarrow> 'a ptree" where
  "copy_tree other = (let (rs, n') = relabels (Suc (length (roots other))) (roots other) in \<lparr>roots = rs, next_addr = n'\<rparr>)"

text \<open>The algorithms \<^verbatim>\<open>std::for_each\<close>-style writes through an iterator: \<^verbatim>\<open>*it = f(*it)\<close> for all nodes.\<close>

fun map_node :: "('a \<Rightarrow> 'b) \<Rightarrow> 'a tnode \<Rightarrow> 'b tnode" where
  "map_node f (TNode a x ks) = TNode a (f x) (map (map_node f) ks)"

section \<open>What the traversals visit\<close>

definition wf_ptree :: "'a ptree \<Rightarrow> bool" where
  "wf_ptree t \<longleftrightarrow> distinct (addrs t) \<and> (\<forall>a \<in> set (addrs t). a < next_addr t)"

lemma map_walk:
  fixes n :: "'a tnode" and ns :: "'a tnode list"
  shows "map (\<lambda>e. (addr (snd e), tdata (snd e))) (walk anc n) = flat n"
    and "map (\<lambda>e. (addr (snd e), tdata (snd e))) (walks anc ns) = items ns"
  by (induction anc n and anc ns rule: walk_walks.induct) simp_all

lemma walks_append [simp]: "walks anc (xs @ ys) = walks anc xs @ walks anc ys"
  by (induction xs) auto

lemma items_append [simp]: "items (xs @ ys) = items xs @ items ys"
  by (induction xs) auto

lemma splice_append [simp]: "splice_at a g (xs @ ys) = splice_at a g xs @ splice_at a g ys"
  by (induction xs) auto

lemma addrs_items: "addrs t = map fst (items (roots t))"
  by (simp add: addrs_def entries_def flip: map_walk(2)[of "[]"])

lemma datas_items: "datas t = map snd (items (roots t))"
  by (simp add: datas_def entries_def flip: map_walk(2)[of "[]"])

lemma length_addrs: "length (addrs t) = tree_size t"
  by (simp add: addrs_def tree_size_def)

lemma in_walks: "e \<in> set (walks anc ns) \<longleftrightarrow> (\<exists>n \<in> set ns. e \<in> set (walk anc n))"
  by (induction ns) auto

lemma walk_self: "(anc, n) \<in> set (walk anc n)"
  by (cases n) auto

lemma flat_addr: "(addr n, tdata n) \<in> set (flat n)"
  by (cases n) auto

lemma entry_item: "e \<in> set (walks anc ns) \<Longrightarrow> (addr (snd e), tdata (snd e)) \<in> set (items ns)"
  using map_walk(2)[of anc ns] by (metis (no_types, lifting) image_eqI list.set_map)

lemma walk_anc_suffix:
  fixes n :: "'a tnode" and ns :: "'a tnode list"
  shows "(anc', m) \<in> set (walk anc n) \<Longrightarrow> suffix anc anc'"
    and "(anc', m) \<in> set (walks anc ns) \<Longrightarrow> suffix anc anc'"
  by (induction anc n and anc ns rule: walk_walks.induct)
    (auto dest: suffix_ConsD intro: suffix_ConsD2)

text \<open>The subtree below a visited node is visited contiguously, right after it.\<close>

lemma walk_subtree:
  fixes n :: "'a tnode" and ns :: "'a tnode list"
  shows "(anc', m) \<in> set (walk anc n) \<Longrightarrow>
      \<exists>pre post. walk anc n = pre @ walk anc' m @ post \<and>
        (post = [] \<or> length (fst (hd post)) \<le> length anc')"
    and "(anc', m) \<in> set (walks anc ns) \<Longrightarrow>
      \<exists>pre post. walks anc ns = pre @ walk anc' m @ post \<and>
        (post = [] \<or> length (fst (hd post)) \<le> length anc')"
proof (induction anc n and anc ns rule: walk_walks.induct)
  case (1 anc a x ks)
  show ?case
  proof (cases "(anc', m) = (anc, TNode a x ks)")
    case True
    then show ?thesis by (intro exI[of _ "[]"]) auto
  next
    case False
    with 1 obtain pre post where "walks (a # anc) ks = pre @ walk anc' m @ post"
      "post = [] \<or> length (fst (hd post)) \<le> length anc'" by auto
    then show ?thesis by (intro exI[of _ "(anc, TNode a x ks) # pre"] exI[of _ post]) simp
  qed
next
  case (3 anc n ns)
  show ?case
  proof (cases "(anc', m) \<in> set (walk anc n)")
    case True
    then obtain pre post where eq: "walk anc n = pre @ walk anc' m @ post"
      and post: "post = [] \<or> length (fst (hd post)) \<le> length anc'" using 3 by blast
    have "length anc \<le> length anc'"
      using walk_anc_suffix(1)[OF True] by (auto simp: suffix_def)
    moreover have "walks anc ns = [] \<or> length (fst (hd (walks anc ns))) = length anc"
      by (cases ns; cases "hd ns") auto
    ultimately have "post @ walks anc ns = [] \<or>
        length (fst (hd (post @ walks anc ns))) \<le> length anc'"
      using post by (cases post) auto
    then show ?thesis by (intro exI[of _ pre] exI[of _ "post @ walks anc ns"]) (simp add: eq)
  next
    case False
    with 3 obtain pre post where "walks anc ns = pre @ walk anc' m @ post"
      "post = [] \<or> length (fst (hd post)) \<le> length anc'" by auto
    then show ?thesis by (intro exI[of _ "walk anc n @ pre"] exI[of _ post]) simp
  qed
qed simp

text \<open>
  The scan the filter tree uses for "this node and everything below it": start at the node, go on
  in depth-first order, stop at the first later node that is not deeper than the start.
\<close>

definition scan_from :: "'a ptree \<Rightarrow> nat \<Rightarrow> (nat list \<times> 'a tnode) list" where
  "scan_from t a = dropWhile (\<lambda>e. addr (snd e) \<noteq> a) (entries t)"

definition scan_subtree :: "'a ptree \<Rightarrow> nat \<Rightarrow> (nat list \<times> 'a tnode) list" where
  "scan_subtree t a =
     (case scan_from t a of [] \<Rightarrow> []
      | e # es \<Rightarrow> e # takeWhile (\<lambda>e'. length (fst e) < length (fst e')) es)"

lemma walk_Cons: "walk anc n = (anc, n) # walks (addr n # anc) (kids n)"
  by (cases n) auto

lemma walks_deeper: "e \<in> set (walks (a # anc) ns) \<Longrightarrow> length anc < length (fst e)"
  using walk_anc_suffix(2)[of "fst e" "snd e" "a # anc" ns] by (auto simp: suffix_def)

lemma scan_from_split:
  assumes "distinct (addrs t)" "(anc, n) \<in> set (entries t)"
  shows "\<exists>pre post. entries t = pre @ walk anc n @ post \<and> scan_from t (addr n) = walk anc n @ post \<and>
    (post = [] \<or> length (fst (hd post)) \<le> length anc)"
proof -
  obtain pre post where eq: "entries t = pre @ walk anc n @ post"
    and post: "post = [] \<or> length (fst (hd post)) \<le> length anc"
    using walk_subtree(2) assms(2) unfolding entries_def by blast
  have "addr n \<notin> (\<lambda>e. addr (snd e)) ` set pre"
    using assms(1) eq by (simp add: addrs_def walk_Cons)
  then have "\<forall>e \<in> set pre. addr (snd e) \<noteq> addr n" by force
  then have "scan_from t (addr n) = walk anc n @ post"
    by (simp add: scan_from_def eq walk_Cons)
  then show ?thesis using eq post by blast
qed

theorem scan_subtree_eq:
  assumes "distinct (addrs t)" "(anc, n) \<in> set (entries t)"
  shows "scan_subtree t (addr n) = walk anc n"
proof -
  obtain post where sf: "scan_from t (addr n) = walk anc n @ post"
    and post: "post = [] \<or> length (fst (hd post)) \<le> length anc"
    using scan_from_split[OF assms] by blast
  have "takeWhile (\<lambda>e'. length anc < length (fst e')) (walks (addr n # anc) (kids n) @ post)
      = walks (addr n # anc) (kids n)"
    using post by (intro takeWhile_append_stop) (auto dest: walks_deeper)
  then show ?thesis using sf by (simp add: scan_subtree_def walk_Cons)
qed

lemma entry_at_Some:
  assumes "distinct (addrs t)" "(anc, n) \<in> set (entries t)"
  shows "entry_at t (addr n) = Some (anc, n)"
  using distinct_find_unique[of "\<lambda>e. addr (snd e)" "entries t" "(anc, n)"] assms
  by (simp add: entry_at_def addrs_def comp_def)

lemma entry_at_SomeD: "entry_at t a = Some (anc, n) \<Longrightarrow> (anc, n) \<in> set (entries t) \<and> addr n = a"
  unfolding entry_at_def by (drule find_Some_in) auto

lemma entry_at_None: "entry_at t a = None \<longleftrightarrow> a \<notin> set (addrs t)"
  by (force simp: entry_at_def addrs_def find_None_iff)

lemma find_data_SomeD:
  "find_data t x = Some a \<Longrightarrow> \<exists>anc n. (anc, n) \<in> set (entries t) \<and> addr n = a \<and> tdata n = x"
  by (force simp: find_data_def dest: find_Some_in)

lemma find_data_None: "find_data t x = None \<longleftrightarrow> x \<notin> set (datas t)"
  by (force simp: find_data_def datas_def find_None_iff)

section \<open>Effect of a splice on the contents\<close>

lemma splice_notin:
  fixes n :: "'a tnode" and ns :: "'a tnode list"
  shows "a \<notin> fst ` set (flat n) \<Longrightarrow> splice_node a g n = [n]"
    and "a \<notin> fst ` set (items ns) \<Longrightarrow> splice_at a g ns = ns"
  by (induction n and ns rule: flat_items.induct) (auto simp: image_Un)

lemma splice_items:
  fixes n :: "'a tnode" and ns :: "'a tnode list"
  shows "distinct (map fst (flat n)) \<Longrightarrow> (anc, m) \<in> set (walk b n) \<Longrightarrow>
      mset (items (splice_node (addr m) g n)) + mset (flat m) = mset (flat n) + mset (items (g m))"
    and "distinct (map fst (items ns)) \<Longrightarrow> (anc, m) \<in> set (walks b ns) \<Longrightarrow>
      mset (items (splice_at (addr m) g ns)) + mset (flat m) = mset (items ns) + mset (items (g m))"
proof (induction b n and b ns rule: walk_walks.induct)
  case (1 b a x ks)
  show ?case
  proof (cases "m = TNode a x ks")
    case True
    then show ?thesis by simp
  next
    case False
    then have "(anc, m) \<in> set (walks (a # b) ks)" using 1 by auto
    moreover from this have "addr m \<noteq> a"
      using 1 entry_item[of "(anc, m)" "a # b" ks] by (auto simp: rev_image_eqI)
    ultimately show ?thesis using 1 by simp
  qed
next
  case (3 b n ns)
  show ?case
  proof (cases "(anc, m) \<in> set (walk b n)")
    case True
    then have "addr m \<in> fst ` set (flat n)"
      using entry_item[of "(anc, m)" b "[n]"] by (force)
    with 3 have "splice_at (addr m) g ns = ns" by (intro splice_notin) auto
    then show ?thesis using 3 True by simp
  next
    case False
    then have inn: "(anc, m) \<in> set (walks b ns)" using 3 by auto
    then have "addr m \<in> fst ` set (items ns)"
      using entry_item[of "(anc, m)" b ns] by (force)
    with 3 have "splice_node (addr m) g n = [n]" by (intro splice_notin) auto
    then show ?thesis using 3 inn by simp
  qed
qed simp

text \<open>A node outside the spliced subtree keeps its place; only the children below it may change.\<close>

lemma walk_splice_other:
  fixes n :: "'a tnode" and ns :: "'a tnode list"
  shows "(anc, TNode c x ks) \<in> set (walk b n) \<Longrightarrow> a \<notin> set anc \<Longrightarrow> c \<noteq> a \<Longrightarrow>
      (anc, TNode c x (splice_at a g ks)) \<in> set (walks b (splice_node a g n))"
    and "(anc, TNode c x ks) \<in> set (walks b ns) \<Longrightarrow> a \<notin> set anc \<Longrightarrow> c \<noteq> a \<Longrightarrow>
      (anc, TNode c x (splice_at a g ks)) \<in> set (walks b (splice_at a g ns))"
proof (induction b n and b ns rule: walk_walks.induct)
  case (1 b d y ls)
  then show ?case
    using walk_anc_suffix(2)[of anc "TNode c x ks" "d # b" ls] by (auto simp: suffix_def)
qed auto

text \<open>The nodes put in place of the spliced node are visited below the same ancestors.\<close>

lemma walk_splice_new:
  fixes n :: "'a tnode" and ns :: "'a tnode list"
  shows "distinct (map fst (flat n)) \<Longrightarrow> (anc, m) \<in> set (walk b n) \<Longrightarrow>
      set (walks anc (g m)) \<subseteq> set (walks b (splice_node (addr m) g n))"
    and "distinct (map fst (items ns)) \<Longrightarrow> (anc, m) \<in> set (walks b ns) \<Longrightarrow>
      set (walks anc (g m)) \<subseteq> set (walks b (splice_at (addr m) g ns))"
proof (induction b n and b ns rule: walk_walks.induct)
  case (1 b a x ks)
  show ?case
  proof (cases "(anc, m) = (b, TNode a x ks)")
    case True
    then show ?thesis by simp
  next
    case False
    then have "(anc, m) \<in> set (walks (a # b) ks)" using 1 by auto
    moreover from this have "addr m \<noteq> a"
      using 1 entry_item[of "(anc, m)" "a # b" ks] by (auto simp: rev_image_eqI)
    ultimately show ?thesis using 1 by auto
  qed
qed auto

section \<open>Well-formedness and contents after each operation\<close>

definition imset :: "'a ptree \<Rightarrow> (nat \<times> 'a) multiset" where
  "imset t = mset (items (roots t))"

lemma mset_datas: "mset (datas t) = image_mset snd (imset t)"
  by (simp add: datas_items imset_def)

lemma mset_addrs: "mset (addrs t) = image_mset fst (imset t)"
  by (simp add: addrs_items imset_def)

lemma wf_ptree_distinct: "wf_ptree t \<Longrightarrow> distinct (map fst (items (roots t)))"
  by (simp add: wf_ptree_def addrs_items)

lemma wf_ptree_entry_less: "wf_ptree t \<Longrightarrow> (anc, n) \<in> set (entries t) \<Longrightarrow> addr n < next_addr t"
  by (force simp: wf_ptree_def addrs_def)

lemma wf_ptree_extend:
  assumes "wf_ptree t" and sub: "imset t' \<subseteq># imset t + mset new"
    and "distinct (map fst new)" "\<forall>i \<in> set new. next_addr t \<le> fst i \<and> fst i < next_addr t'"
    and "next_addr t \<le> next_addr t'"
  shows "wf_ptree t'"
proof -
  have wt: "distinct (addrs t)" "\<forall>a \<in> set (addrs t). a < next_addr t"
    using assms(1) by (auto simp: wf_ptree_def)
  have "distinct (addrs t @ map fst new)"
    using wt assms(3,4) by auto (metis fst_conv leD)
  moreover have le: "mset (addrs t') \<subseteq># mset (addrs t @ map fst new)"
    using image_mset_subseteq_mono[OF sub, of fst] by (simp add: mset_addrs)
  ultimately have "distinct (addrs t')"
    by (metis distinct_append mset_append mset_eq_imp_distinct_iff ex_mset subset_mset.le_iff_add)
  moreover have "a < next_addr t'" if "a \<in> set (addrs t')" for a
  proof -
    have "a \<in> set (addrs t @ map fst new)" using set_mset_mono[OF le] that by auto
    then show ?thesis using wt(2) assms(4,5) by (auto intro: less_le_trans)
  qed
  ultimately show ?thesis by (simp add: wf_ptree_def)
qed

lemma relabel_facts:
  fixes n :: "'a tnode" and ns :: "'a tnode list"
  shows "relabel k n = (c, k') \<Longrightarrow> map fst (flat c) = [k..<k'] \<and>
      map snd (flat c) = map snd (flat n) \<and> k < k' \<and> addr c = k \<and> tdata c = tdata n"
    and "relabels k ns = (cs, k') \<Longrightarrow> map fst (items cs) = [k..<k'] \<and>
      map snd (items cs) = map snd (items ns) \<and> k \<le> k'"
proof (induction k n and k ns arbitrary: c k' and cs k' rule: relabel_relabels.induct)
  case (1 k a x ks)
  then obtain cs where "relabels (Suc k) ks = (cs, k')" "c = TNode k x cs"
    by (auto split: prod.splits)
  with 1 show ?case by (auto simp: upt_conv_Cons Suc_le_eq)
next
  case (3 k n ns)
  then obtain c k1 cs' where "relabel k n = (c, k1)" "relabels k1 ns = (cs', k')" "cs = c # cs'"
    by (auto split: prod.splits)
  with 3 have c: "map fst (flat c) = [k..<k1]" "map snd (flat c) = map snd (flat n)" "k < k1"
    and cs': "map fst (items cs') = [k1..<k']" "map snd (items cs') = map snd (items ns)" "k1 \<le> k'"
    by auto
  from cs'(3) obtain d where "k' = k1 + d" using le_Suc_ex by blast
  then show ?case
    using c cs' \<open>cs = c # cs'\<close> upt_add_eq_append[of k k1 d] by simp
qed simp

lemma append_child_facts:
  assumes "wf_ptree t" "(anc, p) \<in> set (entries t)" "append_child t (addr p) x = (t', a)"
  shows "imset t' = add_mset (a, x) (imset t)" "a = next_addr t" "next_addr t' = Suc a"
    "(addr p # anc, TNode a x []) \<in> set (entries t')"
proof -
  let ?g = "\<lambda>n. [TNode (addr n) (tdata n) (kids n @ [TNode (next_addr t) x []])]"
  have t': "t' = t\<lparr>roots := splice_at (addr p) ?g (roots t), next_addr := Suc (next_addr t)\<rparr>"
    and a: "a = next_addr t"
    using assms(3) by (auto simp: append_child_def)
  have "mset (items (?g p)) = add_mset (a, x) (mset (flat p))"
    by (cases p) (simp add: a)
  then show "imset t' = add_mset (a, x) (imset t)"
    using splice_items(2)[of "roots t" anc p "[]" ?g] wf_ptree_distinct[OF assms(1)] assms(2)
    by (simp add: entries_def t' imset_def)
  show "a = next_addr t" "next_addr t' = Suc a" by (simp_all add: a t')
  have "(addr p # anc, TNode a x []) \<in> set (walks anc (?g p))" by (simp add: a)
  then show "(addr p # anc, TNode a x []) \<in> set (entries t')"
    using walk_splice_new(2)[of "roots t" anc p "[]" ?g] wf_ptree_distinct[OF assms(1)] assms(2)
    by (auto simp: entries_def t')
qed

lemma insert_after_facts:
  assumes "wf_ptree t" "(anc, p) \<in> set (entries t)" "insert_after t (addr p) x = (t', a)"
  shows "imset t' = add_mset (a, x) (imset t)" "a = next_addr t" "next_addr t' = Suc a"
    "(anc, TNode a x []) \<in> set (entries t')"
proof -
  let ?g = "\<lambda>n. [n, TNode (next_addr t) x []]"
  have t': "t' = t\<lparr>roots := splice_at (addr p) ?g (roots t), next_addr := Suc (next_addr t)\<rparr>"
    and a: "a = next_addr t"
    using assms(3) by (auto simp: insert_after_def)
  show "imset t' = add_mset (a, x) (imset t)"
    using splice_items(2)[of "roots t" anc p "[]" ?g] wf_ptree_distinct[OF assms(1)] assms(2)
    by (simp add: entries_def t' imset_def a)
  show "a = next_addr t" "next_addr t' = Suc a" by (simp_all add: a t')
  show "(anc, TNode a x []) \<in> set (entries t')"
    using walk_splice_new(2)[of "roots t" anc p "[]" ?g] wf_ptree_distinct[OF assms(1)] assms(2)
    by (auto simp: entries_def t' a)
qed

lemma insert_begin_facts:
  assumes "wf_ptree t" "tree_insert t (tree_begin t) x = (t', a)"
  shows "imset t' = add_mset (a, x) (imset t)" "a = next_addr t" "next_addr t' = Suc a"
    "([], TNode a x []) \<in> set (entries t')"
  using assms
  by (cases "roots t"; auto simp: tree_insert_def tree_begin_def imset_def entries_def Let_def
      splice_notin wf_ptree_def addrs_items; case_tac aa; auto)+

lemma erase_facts:
  assumes "wf_ptree t" "(anc, n) \<in> set (entries t)"
  shows "imset (erase t (addr n)) + mset (flat n) = imset t"
    "next_addr (erase t (addr n)) = next_addr t"
  using splice_items(2)[of "roots t" anc n "[]" "\<lambda>_. []"] wf_ptree_distinct[OF assms(1)] assms(2)
  by (simp_all add: erase_def imset_def entries_def)

lemma replace_facts:
  assumes "wf_ptree t" "(anc, n) \<in> set (entries t)" "replace t (addr n) from = (t', a)"
    "relabel (next_addr t) from = (c, k')"
  shows "imset t' + mset (flat n) = imset t + mset (flat c)" "a = addr c" "next_addr t' = k'"
    "set (walk anc c) \<subseteq> set (entries t')"
  using splice_items(2)[of "roots t" anc n "[]" "\<lambda>_. [c]"]
    walk_splice_new(2)[of "roots t" anc n "[]" "\<lambda>_. [c]"]
    wf_ptree_distinct[OF assms(1)] assms(2,3,4)
  by (auto simp: replace_def imset_def entries_def)

lemma wf_add_item:
  assumes "wf_ptree t" "imset t' = add_mset (a, x) (imset t)" "a = next_addr t" "next_addr t' = Suc a"
  shows "wf_ptree t'"
  by (rule wf_ptree_extend[OF assms(1), where new = "[(a, x)]"]) (use assms in auto)

lemma wf_erase:
  assumes "wf_ptree t" "(anc, n) \<in> set (entries t)"
  shows "wf_ptree (erase t (addr n))"
  by (rule wf_ptree_extend[OF assms(1), where new = "[]"])
    (use erase_facts[OF assms] in \<open>auto, metis mset_subset_eq_add_left\<close>)

lemma wf_replace:
  assumes "wf_ptree t" "(anc, n) \<in> set (entries t)" "replace t (addr n) from = (t', a)"
  shows "wf_ptree t'"
proof -
  obtain c k' where c: "relabel (next_addr t) from = (c, k')" by fastforce
  note rf = replace_facts[OF assms c]
  show ?thesis
  proof (rule wf_ptree_extend[OF assms(1), where new = "flat c"])
    show "imset t' \<subseteq># imset t + mset (flat c)"
      using rf(1) by (metis mset_subset_eq_add_left)
    have fc: "map fst (flat c) = [next_addr t..<k']" "next_addr t < k'"
      using relabel_facts(1)[OF c] by auto
    then show "distinct (map fst (flat c))" "next_addr t \<le> next_addr t'"
      using rf(3) by auto
    show "\<forall>i \<in> set (flat c). next_addr t \<le> fst i \<and> fst i < next_addr t'"
      using fc(1) rf(3) by (metis atLeastLessThan_iff image_eqI list.set_map set_upt)
  qed
qed

section \<open>Locality\<close>

text \<open>
  A splice keeps the nodes below the spliced node when its replacement does; the insertions do,
  the removals do not.
\<close>

definition keeps_below :: "('a tnode \<Rightarrow> 'a tnode list) \<Rightarrow> bool" where
  "keeps_below g \<longleftrightarrow> (\<forall>b m. set (walks (addr m # b) (kids m)) \<subseteq> set (walks b (g m)))"

lemma keeps_below_append: "keeps_below (\<lambda>n. [TNode (addr n) (tdata n) (kids n @ new)])"
  by (auto simp: keeps_below_def)

lemma keeps_below_after: "keeps_below (\<lambda>n. n # new)"
  by (auto simp: keeps_below_def walk_Cons)

lemma walk_splice_below:
  fixes n :: "'a tnode" and ns :: "'a tnode list"
  assumes "keeps_below g"
  shows "distinct (map fst (flat n)) \<Longrightarrow> (anc, m) \<in> set (walk b n) \<Longrightarrow> a \<in> set anc \<Longrightarrow> a \<notin> set b \<Longrightarrow>
      (anc, m) \<in> set (walks b (splice_node a g n))"
    and "distinct (map fst (items ns)) \<Longrightarrow> (anc, m) \<in> set (walks b ns) \<Longrightarrow> a \<in> set anc \<Longrightarrow> a \<notin> set b \<Longrightarrow>
      (anc, m) \<in> set (walks b (splice_at a g ns))"
proof (induction b n and b ns rule: walk_walks.induct)
  case (1 b c x ks)
  then have inn: "(anc, m) \<in> set (walks (c # b) ks)" by auto
  show ?case
  proof (cases "c = a")
    case True
    then show ?thesis
      using inn assms unfolding keeps_below_def
      by (metis (no_types) splice_node.simps subsetD tnode.sel(1) tnode.sel(3))
  next
    case False
    then show ?thesis using 1 inn by auto
  qed
qed auto

lemma entry_kept:
  assumes "distinct (map fst (items ns))" "(anc, n) \<in> set (walks [] ns)" "a \<notin> fst ` set (flat n)"
    "a \<notin> set anc \<or> keeps_below g"
  shows "(anc, n) \<in> set (walks [] (splice_at a g ns))"
proof (cases "a \<in> set anc")
  case True
  then show ?thesis using walk_splice_below(2)[of g ns anc n "[]" a] assms by auto
next
  case False
  obtain c x ks where n: "n = TNode c x ks" by (cases n)
  then have "c \<noteq> a" "splice_at a g ks = ks" using assms(3) by (auto intro: splice_notin)
  then show ?thesis using walk_splice_other(2)[of anc c x ks "[]" ns a g] False assms(2) n by simp
qed

text \<open>Ancestors and subtrees are the same relation seen from both ends.\<close>

lemma anc_in_subtree:
  fixes n :: "'a tnode" and ns :: "'a tnode list"
  shows "(anc', m) \<in> set (walk b n) \<Longrightarrow> a \<in> set anc' \<Longrightarrow> a \<notin> set b \<Longrightarrow>
      \<exists>anc k. (anc, k) \<in> set (walk b n) \<and> addr k = a \<and> (anc', m) \<in> set (walk anc k)"
    and "(anc', m) \<in> set (walks b ns) \<Longrightarrow> a \<in> set anc' \<Longrightarrow> a \<notin> set b \<Longrightarrow>
      \<exists>anc k. (anc, k) \<in> set (walks b ns) \<and> addr k = a \<and> (anc', m) \<in> set (walk anc k)"
proof (induction b n and b ns rule: walk_walks.induct)
  case (1 b c x ks)
  then have inn: "(anc', m) \<in> set (walks (c # b) ks)" by auto
  show ?case
  proof (cases "c = a")
    case True
    then show ?thesis using 1 by (intro exI[of _ b] exI[of _ "TNode c x ks"]) simp
  next
    case False
    then show ?thesis using 1 inn by auto
  qed
next
  case (3 b n ns)
  show ?case
  proof (cases "(anc', m) \<in> set (walk b n)")
    case True
    with 3(1)[OF _ 3(4,5)] obtain anc k where
      "(anc, k) \<in> set (walk b n)" "addr k = a" "(anc', m) \<in> set (walk anc k)" by blast
    then show ?thesis by (intro exI[of _ anc] exI[of _ k]) simp
  next
    case False
    with 3(3) have "(anc', m) \<in> set (walks b ns)" by simp
    with 3(2)[OF _ 3(4,5)] obtain anc k where
      "(anc, k) \<in> set (walks b ns)" "addr k = a" "(anc', m) \<in> set (walk anc k)" by blast
    then show ?thesis by (intro exI[of _ anc] exI[of _ k]) simp
  qed
qed simp

lemma subtree_entries:
  fixes n :: "'a tnode" and ns :: "'a tnode list"
  shows "(anc, k) \<in> set (walk b n) \<Longrightarrow> set (walk anc k) \<subseteq> set (walk b n)"
    and "(anc, k) \<in> set (walks b ns) \<Longrightarrow> set (walk anc k) \<subseteq> set (walks b ns)"
  using walk_subtree(1)[of anc k b n] walk_subtree(2)[of anc k b ns] by auto

lemma flat_walk: "fst ` set (flat n) = (\<lambda>e. addr (snd e)) ` set (walk anc n)"
proof -
  have "fst ` set (flat n) = fst ` set (map (\<lambda>e. (addr (snd e), tdata (snd e))) (walk anc n))"
    by (simp only: map_walk(1))
  then show ?thesis by (simp add: image_image)
qed

lemma entries_inj:
  assumes "distinct (addrs t)" "(anc, n) \<in> set (entries t)" "(anc', n') \<in> set (entries t)" "addr n = addr n'"
  shows "anc = anc' \<and> n = n'"
proof -
  have "Some (anc, n) = Some (anc', n')"
    using entry_at_Some[OF assms(1,2)] entry_at_Some[OF assms(1,3)] by (metis assms(4))
  then show ?thesis by blast
qed

lemma in_subtree_iff:
  assumes "distinct (addrs t)" "(anc, n) \<in> set (entries t)" "(anc', m) \<in> set (entries t)"
  shows "(anc', m) \<in> set (walk anc n) \<longleftrightarrow> m = n \<or> addr n \<in> set anc'"
proof
  assume "(anc', m) \<in> set (walk anc n)"
  then consider "m = n" | "(anc', m) \<in> set (walks (addr n # anc) (kids n))" by (auto simp: walk_Cons)
  then show "m = n \<or> addr n \<in> set anc'"
  proof cases
    case 2
    from walk_anc_suffix(2)[OF this] show ?thesis by (auto dest: set_mono_suffix)
  qed simp
next
  assume "m = n \<or> addr n \<in> set anc'"
  then show "(anc', m) \<in> set (walk anc n)"
  proof
    assume "m = n"
    then show ?thesis using entries_inj[OF assms] by (simp add: walk_self)
  next
    assume "addr n \<in> set anc'"
    then obtain anc2 k where "(anc2, k) \<in> set (entries t)" "addr k = addr n" "(anc', m) \<in> set (walk anc2 k)"
      using anc_in_subtree(2)[of anc' m "[]" "roots t" "addr n"] assms(3) by (auto simp: entries_def)
    then show ?thesis using entries_inj[OF assms(1,2), of anc2 k] by simp
  qed
qed

lemma anc_entry:
  assumes "(anc, n) \<in> set (entries t)" "a \<in> set anc"
  shows "a \<in> set (addrs t)"
  using anc_in_subtree(2)[of anc n "[]" "roots t" a] assms by (force simp: entries_def addrs_def)

lemma find_data_unique:
  assumes "distinct (datas t)" "(anc, n) \<in> set (entries t)"
  shows "find_data t (tdata n) = Some (addr n)"
  using distinct_find_unique[of "\<lambda>e. tdata (snd e)" "entries t" "(anc, n)"] assms
  by (simp add: find_data_def datas_def comp_def)

lemma datas_entry: "x \<in> set (datas t) \<longleftrightarrow> (\<exists>anc n. (anc, n) \<in> set (entries t) \<and> tdata n = x)"
  by (force simp: datas_def)

lemma scan_subtree_items:
  assumes "distinct (addrs t)" "(anc, n) \<in> set (entries t)"
  shows "map (tdata \<circ> snd) (scan_subtree t (addr n)) = map snd (flat n)"
proof -
  have "map snd (flat n) = map snd (map (\<lambda>e. (addr (snd e), tdata (snd e))) (walk anc n))"
    by (simp only: map_walk(1))
  then show ?thesis by (simp add: scan_subtree_eq[OF assms] comp_def)
qed

lemma walk_not_anc:
  fixes k :: "'a tnode" and ks :: "'a tnode list"
  shows "distinct (map fst (flat k)) \<Longrightarrow> (a, m) \<in> set (walk b k) \<Longrightarrow> \<forall>x \<in> set b. x \<notin> fst ` set (flat k) \<Longrightarrow> addr m \<notin> set a"
    and "distinct (map fst (items ks)) \<Longrightarrow> (a, m) \<in> set (walks b ks) \<Longrightarrow> \<forall>x \<in> set b. x \<notin> fst ` set (items ks) \<Longrightarrow> addr m \<notin> set a"
  by (induction b k and b ks rule: walk_walks.induct) (auto simp: image_Un)

lemma walk_self_not_anc:
  assumes "distinct (addrs t)" "(anc, n) \<in> set (entries t)"
  shows "addr n \<notin> set anc"
  using walk_not_anc(2)[of "roots t" anc n "[]"] assms by (simp add: entries_def addrs_items)

section \<open>Parents come first\<close>

lemma walk_not_top: "(b, m) \<in> set (walk b k) \<Longrightarrow> m = k"
  by (auto simp: walk_Cons dest: walks_deeper)


text \<open>Every entry but those at the top (chain \<open>b\<close>) comes after the entry of its parent.\<close>

fun parents_seen :: "nat list \<Rightarrow> (nat list \<times> 'a tnode) set \<Rightarrow> (nat list \<times> 'a tnode) list \<Rightarrow> bool" where
  "parents_seen b seen [] = True"
| "parents_seen b seen (e # es) =
     ((fst e = b \<or> (\<exists>p \<in> seen. fst e = addr (snd p) # fst p)) \<and> parents_seen b (insert e seen) es)"

lemma parents_seen_mono: "parents_seen b seen es \<Longrightarrow> seen \<subseteq> seen' \<Longrightarrow> parents_seen b seen' es"
proof (induction es arbitrary: seen seen')
  case (Cons e es)
  have "insert e seen \<subseteq> insert e seen'" using Cons.prems by blast
  then show ?case using Cons.IH[of "insert e seen" "insert e seen'"] Cons.prems by auto
qed simp

lemma parents_seen_append:
  "parents_seen b seen (xs @ ys) \<longleftrightarrow> parents_seen b seen xs \<and> parents_seen b (seen \<union> set xs) ys"
  by (induction xs arbitrary: seen) (auto simp: Un_assoc insert_is_Un[symmetric] Un_left_commute)

lemma parents_seen_down:
  "parents_seen (addr n # b) seen es \<Longrightarrow> (b, n) \<in> seen \<Longrightarrow> parents_seen b' seen es"
proof (induction es arbitrary: seen)
  case (Cons e es)
  then have "parents_seen b' (insert e seen) es" by simp
  moreover have "\<exists>p \<in> seen. fst e = addr (snd p) # fst p" using Cons.prems by force
  ultimately show ?case by simp
qed simp

lemma parents_seen_walk:
  fixes n :: "'a tnode" and ns :: "'a tnode list"
  shows "parents_seen b seen (walk b n)" and "parents_seen b seen (walks b ns)"
proof (induction b n and b ns arbitrary: seen and seen rule: walk_walks.induct)
  case (1 b a x ks)
  have "parents_seen (addr (TNode a x ks) # b) (insert (b, TNode a x ks) seen) (walks (a # b) ks)"
    using 1 by simp
  then show ?case using parents_seen_down[of "TNode a x ks" b _ _ b] by simp
next
  case (3 b n ns)
  then show ?case by (simp add: parents_seen_append)
qed simp

lemma entry_parent:
  assumes "(a # anc, n) \<in> set (entries t)"
  shows "\<exists>k. (anc, k) \<in> set (entries t) \<and> addr k = a \<and> n \<in> set (kids k)"
proof -
  have "b = a # anc \<or> (\<exists>k. (anc, k) \<in> set (walk b m) \<and> addr k = a \<and> n \<in> set (kids k))"
    if "(a # anc, n) \<in> set (walk b m)" for b and m :: "'a tnode"
    using that
  proof (induction m arbitrary: b rule: measure_induct_rule[where f = size])
    case (less m)
    show ?case
    proof (cases "(a # anc, n) = (b, m)")
      case False
      then obtain k where k: "k \<in> set (kids m)" "(a # anc, n) \<in> set (walk (addr m # b) k)"
        using less.prems by (auto simp: walk_Cons[of b m] in_walks)
      have "size k < size m" using k(1) by (cases m) (auto simp: less_Suc_eq_le intro: size_list_estimation')
      from less.IH[OF this k(2)] show ?thesis
      proof
        assume eq: "addr m # b = a # anc"
        have "(addr m # b, n) \<in> set (walk (addr m # b) k)" using k(2) eq by simp
        then have "n = k" using walk_not_top[of "addr m # b" n k] by blast
        then show ?thesis using k(1) eq walk_self[of anc m] by auto
      next
        assume "\<exists>j. (anc, j) \<in> set (walk (addr m # b) k) \<and> addr j = a \<and> n \<in> set (kids j)"
        then show ?thesis using k(1) by (auto simp: walk_Cons[of b m] in_walks)
      qed
    qed simp
  qed
  note main = this
  obtain r where r: "r \<in> set (roots t)" "(a # anc, n) \<in> set (walk [] r)"
    using assms by (auto simp: entries_def in_walks)
  from main[OF r(2)] r(1) show ?thesis by (auto simp: entries_def in_walks)
qed

section \<open>The outline of a tree\<close>

text \<open>
  The nodes in depth-first order, each with its depth: this list determines the tree, its order included, and leaves
  out the addresses of the nodes.
\<close>

definition depthList :: "nat list \<Rightarrow> 'a tnode list \<Rightarrow> (nat \<times> 'a) list" where
  "depthList b ns = map (\<lambda>e. (length (fst e), tdata (snd e))) (walks b ns)"

definition outline :: "'a ptree \<Rightarrow> (nat \<times> 'a) list" where
  "outline t = map (\<lambda>e. (length (fst e), tdata (snd e))) (entries t)"

lemma outline_depthList: "outline t = depthList [] (roots t)"
  by (simp add: outline_def depthList_def entries_def)

lemma outline_datas: "map snd (outline t) = datas t"
  by (simp add: outline_def datas_def)

lemma depthList_append [simp]: "depthList b (xs @ ys) = depthList b xs @ depthList b ys" "depthList b [] = []"
  by (simp_all add: depthList_def)

lemma depthList_Cons: "depthList b (n # ns) = depthList b [n] @ depthList b ns"
  by (simp add: depthList_def)

lemma depthList_node: "depthList b [TNode a x ks] = (length b, x) # depthList (a # b) ks"
  by (simp add: depthList_def)

lemma depthList_data: "map snd (depthList b ns) = map snd (items ns)"
  using map_walk(2)[of b ns] by (simp add: depthList_def comp_def flip: map_walk(2)[of b ns])

text \<open>A splice exchanges one part of the outline.\<close>

lemma splice_depthList:
  fixes n :: "'a tnode" and ns :: "'a tnode list"
  shows "distinct (map fst (flat n)) \<Longrightarrow> (anc, m) \<in> set (walk b n) \<Longrightarrow>
      \<exists>pre post. depthList b [n] = pre @ depthList anc [m] @ post \<and>
        depthList b (splice_node (addr m) g n) = pre @ depthList anc (g m) @ post"
    and "distinct (map fst (items ns)) \<Longrightarrow> (anc, m) \<in> set (walks b ns) \<Longrightarrow>
      \<exists>pre post. depthList b ns = pre @ depthList anc [m] @ post \<and>
        depthList b (splice_at (addr m) g ns) = pre @ depthList anc (g m) @ post"
proof (induction b n and b ns rule: walk_walks.induct)
  case (1 b a x ks)
  show ?case
  proof (cases "(anc, m) = (b, TNode a x ks)")
    case True
    then show ?thesis by (intro exI[of _ "[]"]) simp
  next
    case False
    then have m: "(anc, m) \<in> set (walks (a # b) ks)" using 1 by auto
    then have "addr m \<noteq> a"
      using 1 entry_item[of "(anc, m)" "a # b" ks] by (auto simp: rev_image_eqI)
    moreover obtain pre post where "depthList (a # b) ks = pre @ depthList anc [m] @ post"
      "depthList (a # b) (splice_at (addr m) g ks) = pre @ depthList anc (g m) @ post" using 1 m by auto
    ultimately show ?thesis
      by (intro exI[of _ "(length b, x) # pre"] exI[of _ post]) (simp add: depthList_node)
  qed
next
  case (3 b n ns)
  show ?case
  proof (cases "(anc, m) \<in> set (walk b n)")
    case True
    then have "addr m \<in> fst ` set (flat n)"
      using entry_item[of "(anc, m)" b "[n]"] by (force)
    with 3 have "splice_at (addr m) g ns = ns" by (intro splice_notin) auto
    moreover obtain pre post where "depthList b [n] = pre @ depthList anc [m] @ post"
      "depthList b (splice_node (addr m) g n) = pre @ depthList anc (g m) @ post" using 3 True by auto
    ultimately show ?thesis
      using depthList_Cons[of b n ns]
      by (intro exI[of _ pre] exI[of _ "post @ depthList b ns"]) simp
  next
    case False
    then have inn: "(anc, m) \<in> set (walks b ns)" using 3 by auto
    then have "addr m \<in> fst ` set (items ns)"
      using entry_item[of "(anc, m)" b ns] by (force)
    with 3 have "splice_node (addr m) g n = [n]" by (intro splice_notin) auto
    moreover obtain pre post where "depthList b ns = pre @ depthList anc [m] @ post"
      "depthList b (splice_at (addr m) g ns) = pre @ depthList anc (g m) @ post" using 3 inn by auto
    ultimately show ?thesis
      using depthList_Cons[of b n ns] depthList_Cons[of b n "splice_at (addr m) g ns"]
      by (intro exI[of _ "depthList b [n] @ pre"] exI[of _ post]) simp
  qed
qed simp

lemma splice_outline:
  assumes "wf_ptree t" "(anc, m) \<in> set (entries t)" "roots t' = splice_at (addr m) g (roots t)"
  obtains pre post where "outline t = pre @ depthList anc [m] @ post" "outline t' = pre @ depthList anc (g m) @ post"
  using splice_depthList(2)[OF wf_ptree_distinct[OF assms(1)] assms(2)[unfolded entries_def], of g] assms(3)
  by (auto simp: outline_depthList)

text \<open>Depths alone, which neither relabelling nor cloning changes.\<close>

fun depthsOf :: "nat \<Rightarrow> 'a tnode \<Rightarrow> nat list" and depthsOfs :: "nat \<Rightarrow> 'a tnode list \<Rightarrow> nat list" where
  "depthsOf d (TNode a x ks) = d # depthsOfs (Suc d) ks"
| "depthsOfs d [] = []"
| "depthsOfs d (n # ns) = depthsOf d n @ depthsOfs d ns"

lemma depths_fst:
  fixes n :: "'a tnode" and ns :: "'a tnode list"
  shows "map fst (depthList b [n]) = depthsOf (length b) n" "map fst (depthList b ns) = depthsOfs (length b) ns"
proof -
  have "map (length \<circ> fst) (walk b n) = depthsOf (length b) n"
    "map (length \<circ> fst) (walks b ns) = depthsOfs (length b) ns" for b and n :: "'a tnode" and ns :: "'a tnode list"
    by (induction b n and b ns rule: walk_walks.induct) simp_all
  then show "map fst (depthList b [n]) = depthsOf (length b) n" "map fst (depthList b ns) = depthsOfs (length b) ns"
    by (simp_all add: depthList_def comp_def)
qed

lemma depthList_zip: "depthList b [n] = zip (depthsOf (length b) n) (map snd (flat n))"
  using depths_fst(1)[of b n] depthList_data[of b "[n]"] by (metis append_Nil2 items.simps(1,2) zip_map_fst_snd)

lemma depths_shift:
  fixes n :: "'a tnode" and ns :: "'a tnode list"
  shows "depthsOf (d + k) n = map (\<lambda>e. e + k) (depthsOf d n)" "depthsOfs (d + k) ns = map (\<lambda>e. e + k) (depthsOfs d ns)"
  by (induction d n and d ns rule: depthsOf_depthsOfs.induct) simp_all

lemma relabel_depthsOf:
  fixes n :: "'a tnode" and ns :: "'a tnode list"
  shows "relabel k n = (c, k') \<Longrightarrow> depthsOf d c = depthsOf d n"
    and "relabels k ns = (cs, k') \<Longrightarrow> depthsOfs d cs = depthsOfs d ns"
  by (induction k n and k ns arbitrary: c k' d and cs k' d rule: relabel_relabels.induct)
    (auto split: prod.splits)

lemma depthsOf_hd: "\<exists>ds. depthsOf d n = d # ds \<and> (\<forall>e \<in> set (depthsOf d n). d \<le> e)"
proof -
  have "\<forall>e \<in> set (depthsOf d n). d \<le> e" "\<forall>e \<in> set (depthsOfs d ns). d \<le> e" for n :: "'a tnode" and ns :: "'a tnode list" and d
    by (induction d n and d ns rule: depthsOf_depthsOfs.induct) auto
  then show ?thesis by (cases n) (fastforce dest: Suc_leD)
qed

end
