(* ===== verification/Filters.thy ===== *)
theory Filters
  imports Prelude
begin

text \<open>
  The objects the filter tree holds: \<^verbatim>\<open>Filter\<close> and \<^verbatim>\<open>FilterStreamData\<close> of
  src/src/backend/filter.h and filter.cpp, in an explicit heap. The fields of the base class are
  fields of the record \<open>filt\<close>; what a subclass adds is \<open>f_priv\<close>, and the virtual methods a
  subclass implements are the fields of \<open>vtable\<close>, a parameter of every operation that calls
  them. \<open>ub\<close> becomes true, and stays so, when a pointer to an object that does not exist is
  dereferenced or freed. Addresses are never reused. \<open>v_refresh\<close> returns None for an error code
  when the method throws \<^verbatim>\<open>std::bad_alloc\<close>, \<open>v_numBytesForCache\<close> returns None for \<^verbatim>\<open>(size_t)-1\<close>.
\<close>

type_synonym fptr = nat
type_synonym sptr = nat

definition NUM_STREAM_TYPES :: nat where "NUM_STREAM_TYPES = 7"
definition STREAMTYPE_MASK_ALL :: "32 word" where
  "STREAMTYPE_MASK_ALL = and (push_bit NUM_STREAM_TYPES 1 - 1) 0xFF"

definition STREAM_TYPE_IONS :: "32 word" where "STREAM_TYPE_IONS = 1"
definition STREAM_TYPE_PLOT :: "32 word" where "STREAM_TYPE_PLOT = 2"
definition STREAM_TYPE_DRAW :: "32 word" where "STREAM_TYPE_DRAW = 8"
definition STREAM_TYPE_RANGE :: "32 word" where "STREAM_TYPE_RANGE = 16"
definition STREAM_TYPE_VOXEL :: "32 word" where "STREAM_TYPE_VOXEL = 32"

datatype filterType = FILTER_TYPE_DATALOAD | FILTER_TYPE_IONDOWNSAMPLE | FILTER_TYPE_RANGEFILE
  | FILTER_TYPE_SPECTRUMPLOT | FILTER_TYPE_IONCLIP | FILTER_TYPE_IONCOLOURFILTER
  | FILTER_TYPE_PROFILE | FILTER_TYPE_BOUNDBOX | FILTER_TYPE_TRANSFORM | FILTER_TYPE_EXTERNALPROC
  | FILTER_TYPE_SPATIAL_ANALYSIS | FILTER_TYPE_CLUSTER_ANALYSIS | FILTER_TYPE_VOXELS
  | FILTER_TYPE_IONINFO | FILTER_TYPE_ANNOTATION | FILTER_TYPE_PROXIGRAM

text \<open>\<^verbatim>\<open>cached\<close> is an \<^verbatim>\<open>unsigned int\<close> used as a boolean; it starts as -1, which counts as true.\<close>

record stream =
  s_type :: "32 word"
  s_parent :: fptr
  s_cached :: nat
  s_nbasic :: nat

record 'p filt =
  f_type :: filterType
  f_priv :: 'p
  f_userString :: string
  f_cache :: bool
  f_cacheOK :: bool
  f_outputs :: "sptr list"
  f_console :: "string list"
  f_devices :: "nat list"
  f_numStreams :: "nat list"

record 'p world =
  filts :: "fptr \<Rightarrow> 'p filt option"
  strms :: "sptr \<Rightarrow> stream option"
  next_f :: fptr
  next_s :: sptr
  ub :: bool

record 'p vtable =
  v_typeString :: "'p filt \<Rightarrow> string"
  v_emit :: "'p filt \<Rightarrow> 32 word"
  v_block :: "'p filt \<Rightarrow> 32 word"
  v_use :: "'p filt \<Rightarrow> 32 word"
  v_clonePriv :: "'p \<Rightarrow> 'p"
  v_clearPriv :: "'p \<Rightarrow> 'p"
  v_initFilter :: "fptr \<Rightarrow> sptr list \<Rightarrow> 'p world \<Rightarrow> 'p world \<times> sptr list"
  v_refresh :: "fptr \<Rightarrow> sptr list \<Rightarrow> 'p world \<Rightarrow> 'p world \<times> sptr list \<times> nat option"
  v_setProperty :: "fptr \<Rightarrow> nat \<Rightarrow> string \<Rightarrow> 'p world \<Rightarrow> 'p world \<times> bool \<times> bool"
  v_numBytesForCache :: "'p filt \<Rightarrow> nat \<Rightarrow> nat option"
  v_monitorNeedsRefresh :: "'p filt \<Rightarrow> bool"
  v_canBeHazardous :: "'p filt \<Rightarrow> bool"
  v_stateOverrides :: "'p filt \<Rightarrow> string list"
  v_isPureDataSource :: "'p filt \<Rightarrow> bool"
  v_isUsefulAsAppend :: "'p filt \<Rightarrow> bool"

section \<open>Access through pointers\<close>

definition upd_filt :: "fptr \<Rightarrow> ('p filt \<Rightarrow> 'p filt) \<Rightarrow> 'p world \<Rightarrow> 'p world" where
  "upd_filt p g w = (case filts w p of None \<Rightarrow> w\<lparr>ub := True\<rparr>
     | Some f \<Rightarrow> w\<lparr>filts := (filts w)(p \<mapsto> g f)\<rparr>)"

text \<open>Reading a field; the default value only appears together with a dangling pointer.\<close>

definition get_filt :: "'a \<Rightarrow> ('p filt \<Rightarrow> 'a) \<Rightarrow> 'p world \<Rightarrow> fptr \<Rightarrow> 'a" where
  "get_filt d g w p = (case filts w p of None \<Rightarrow> d | Some f \<Rightarrow> g f)"

definition deleteStream :: "sptr \<Rightarrow> 'p world \<Rightarrow> 'p world" where
  "deleteStream s w = (if s = 0 then w
     else case strms w s of None \<Rightarrow> w\<lparr>ub := True\<rparr>
        | Some _ \<Rightarrow> w\<lparr>strms := (strms w)(s := None)\<rparr>)"

definition deleteStreams :: "sptr list \<Rightarrow> 'p world \<Rightarrow> 'p world" where
  "deleteStreams ss w = fold deleteStream ss w"

definition streamCached :: "'p world \<Rightarrow> sptr \<Rightarrow> bool" where
  "streamCached w s = (case strms w s of None \<Rightarrow> False | Some d \<Rightarrow> s_cached d \<noteq> 0)"

definition streamType :: "'p world \<Rightarrow> sptr \<Rightarrow> 32 word" where
  "streamType w s = (case strms w s of None \<Rightarrow> 0 | Some d \<Rightarrow> s_type d)"

section \<open>Operations of the base class\<close>

definition newFilter :: "filterType \<Rightarrow> 'p \<Rightarrow> 'p filt" where
  "newFilter ty priv = \<lparr>f_type = ty, f_priv = priv, f_userString = [], f_cache = True,
     f_cacheOK = False, f_outputs = [], f_console = [], f_devices = [],
     f_numStreams = replicate NUM_STREAM_TYPES 0\<rparr>"

definition haveCache :: "'p world \<Rightarrow> fptr \<Rightarrow> bool" where
  "haveCache w p = get_filt False f_cacheOK w p"

definition clearCache :: "'p vtable \<Rightarrow> fptr \<Rightarrow> 'p world \<Rightarrow> 'p world" where
  "clearCache V p w = (case filts w p of None \<Rightarrow> w\<lparr>ub := True\<rparr>
     | Some f \<Rightarrow> deleteStreams (f_outputs f)
         (w\<lparr>filts := (filts w)(p \<mapsto> f\<lparr>f_cacheOK := False, f_outputs := [],
                                  f_priv := v_clearPriv V (f_priv f)\<rparr>)\<rparr>))"

definition clearDevices :: "fptr \<Rightarrow> 'p world \<Rightarrow> 'p world" where
  "clearDevices p w = upd_filt p (\<lambda>f. f\<lparr>f_devices := []\<rparr>) w"

definition clearConsole :: "fptr \<Rightarrow> 'p world \<Rightarrow> 'p world" where
  "clearConsole p w = upd_filt p (\<lambda>f. f\<lparr>f_console := []\<rparr>) w"

definition setCaching :: "fptr \<Rightarrow> bool \<Rightarrow> 'p world \<Rightarrow> 'p world" where
  "setCaching p b w = upd_filt p (\<lambda>f. f\<lparr>f_cache := b\<rparr>) w"

definition getUserString :: "'p vtable \<Rightarrow> 'p filt \<Rightarrow> string" where
  "getUserString V f = (if f_userString f \<noteq> [] then f_userString f else v_typeString V f)"

text \<open>The destructor runs before the memory is released. It calls the base class \<^verbatim>\<open>clearCache\<close>.\<close>

definition deleteFilter :: "fptr \<Rightarrow> 'p world \<Rightarrow> 'p world" where
  "deleteFilter p w = (if p = 0 then w else case filts w p of None \<Rightarrow> w\<lparr>ub := True\<rparr>
     | Some f \<Rightarrow> (if f_cacheOK f then deleteStreams (f_outputs f) else id)
                   (w\<lparr>filts := (filts w)(p := None)\<rparr>))"

definition deleteFilters :: "fptr list \<Rightarrow> 'p world \<Rightarrow> 'p world" where
  "deleteFilters ps w = fold deleteFilter ps w"

definition clone_of :: "'p vtable \<Rightarrow> 'p filt \<Rightarrow> 'p filt" where
  "clone_of V f = (newFilter (f_type f) (v_clonePriv V (f_priv f)))
     \<lparr>f_cache := f_cache f, f_userString := f_userString f\<rparr>"

definition cloneUncached :: "'p vtable \<Rightarrow> fptr \<Rightarrow> 'p world \<Rightarrow> fptr \<times> 'p world" where
  "cloneUncached V p w = (case filts w p of None \<Rightarrow> (0, w\<lparr>ub := True\<rparr>)
     | Some f \<Rightarrow> (next_f w, w\<lparr>filts := (filts w)(next_f w \<mapsto> clone_of V f), next_f := Suc (next_f w)\<rparr>))"

definition numElements :: "'p world \<Rightarrow> sptr list \<Rightarrow> 32 word \<Rightarrow> nat" where
  "numElements w v msk = sum_list (map (\<lambda>s. case strms w s of None \<Rightarrow> 0
     | Some d \<Rightarrow> if and (s_type d) msk \<noteq> 0 then s_nbasic d else 0) v)"

definition cacheAsNeeded :: "fptr \<Rightarrow> sptr \<Rightarrow> 'p world \<Rightarrow> 'p world" where
  "cacheAsNeeded p s w = (case (filts w p, strms w s) of
     (Some f, Some d) \<Rightarrow>
        (if f_cache f
         then w\<lparr>strms := (strms w)(s \<mapsto> d\<lparr>s_cached := 1\<rparr>),
                filts := (filts w)(p \<mapsto> f\<lparr>f_outputs := f_outputs f @ [s], f_cacheOK := True\<rparr>)\<rparr>
         else w\<lparr>strms := (strms w)(s \<mapsto> d\<lparr>s_cached := 0\<rparr>)\<rparr>)
   | _ \<Rightarrow> w\<lparr>ub := True\<rparr>)"

definition propagateStreams ::
    "'p world \<Rightarrow> sptr list \<Rightarrow> sptr list \<Rightarrow> 64 word \<Rightarrow> bool \<Rightarrow> sptr list" where
  "propagateStreams w dataIn dataOut msk invertMask =
     (let m = (if invertMask then not msk else msk)
      in dataOut @ filter (\<lambda>s. and (ucast (streamType w s)) m \<noteq> 0) dataIn)"

definition propagateCache :: "'p world \<Rightarrow> fptr \<Rightarrow> sptr list \<Rightarrow> sptr list" where
  "propagateCache w p getOut =
     propagateStreams w (get_filt [] f_outputs w p) getOut (ucast STREAMTYPE_MASK_ALL) False"

text \<open>The default \<^verbatim>\<open>initFilter\<close> hands its input on.\<close>

definition initFilter_default :: "fptr \<Rightarrow> sptr list \<Rightarrow> 'p world \<Rightarrow> 'p world \<times> sptr list" where
  "initFilter_default p dataIn w = (w, dataIn)"

text \<open>
  \<^verbatim>\<open>getBitNum\<close> of src/src/common/basics.cpp shifts until the lowest bit is set, which never
  happens for 0; None is the loop that has not ended within its fuel.
\<close>

fun getBitNum_loop :: "nat \<Rightarrow> 32 word \<Rightarrow> nat \<Rightarrow> nat option" where
  "getBitNum_loop 0 u j = None"
| "getBitNum_loop (Suc fuel) u j =
     (if and u 1 = 0 then getBitNum_loop fuel (drop_bit 1 u) (Suc j) else Some j)"

definition getBitNum :: "32 word \<Rightarrow> nat option" where
  "getBitNum u = getBitNum_loop 32 u 0"

text \<open>\<^verbatim>\<open>numStreamsLastRefresh\<close> is an array of 7 counters; a stream type without a counter is out of range.\<close>

definition updateOutputInfo :: "fptr \<Rightarrow> sptr list \<Rightarrow> 'p world \<Rightarrow> 'p world" where
  "updateOutputInfo p dataOut w =
     (let idx = map (\<lambda>s. getBitNum (streamType w s)) dataOut;
          good = (\<lambda>i. case i of None \<Rightarrow> False | Some j \<Rightarrow> j < NUM_STREAM_TYPES);
          counts = fold (\<lambda>i c. c[the i := c ! the i + 1]) (filter good idx)
                     (replicate NUM_STREAM_TYPES 0);
          w1 = upd_filt p (\<lambda>f. f\<lparr>f_numStreams := counts\<rparr>) w
      in if list_all good idx then w1 else w1\<lparr>ub := True\<rparr>)"

section \<open>Ownership of cached streams\<close>

text \<open>
  Every cached output stream exists, is marked as cached, and belongs to one filter; a filter
  without a valid cache holds none.
\<close>

definition outputs_of :: "'p world \<Rightarrow> fptr \<Rightarrow> sptr list" where
  "outputs_of w p = get_filt [] f_outputs w p"

definition caches_ok :: "'p world \<Rightarrow> bool" where
  "caches_ok w \<longleftrightarrow>
     (\<forall>p. distinct (outputs_of w p) \<and> (\<not> haveCache w p \<longrightarrow> outputs_of w p = [])) \<and>
     (\<forall>p. \<forall>s \<in> set (outputs_of w p). s \<noteq> 0 \<and> streamCached w s) \<and>
     (\<forall>p q. p \<noteq> q \<longrightarrow> set (outputs_of w p) \<inter> set (outputs_of w q) = {})"

lemma streamCached_live: "streamCached w s \<Longrightarrow> strms w s \<noteq> None"
  by (auto simp: streamCached_def split: option.splits)

lemma deleteStreams_Nil [simp]: "deleteStreams [] w = w"
  by (simp add: deleteStreams_def)

lemma deleteStreams_Cons [simp]: "deleteStreams (s # ss) w = deleteStreams ss (deleteStream s w)"
  by (simp add: deleteStreams_def)

lemma deleteStream_strms:
  "strms (deleteStream s w) = (if s = 0 then strms w else (strms w)(s := None))"
  by (auto simp: deleteStream_def split: option.splits)

lemma deleteStreams_strms:
  "0 \<notin> set ss \<Longrightarrow> strms (deleteStreams ss w) = (\<lambda>s. if s \<in> set ss then None else strms w s)"
  by (induction ss arbitrary: w) (auto simp: deleteStream_strms)

lemma deleteStream_other [simp]:
  "filts (deleteStream s w) = filts w" "next_f (deleteStream s w) = next_f w"
  "next_s (deleteStream s w) = next_s w"
  by (auto simp: deleteStream_def split: option.splits)

lemma deleteStreams_other [simp]:
  "filts (deleteStreams ss w) = filts w" "next_f (deleteStreams ss w) = next_f w"
  "next_s (deleteStreams ss w) = next_s w"
  by (induction ss arbitrary: w) auto

text \<open>Freeing distinct live pointers is defined.\<close>

lemma deleteStreams_ub:
  "distinct ss \<Longrightarrow> \<forall>s \<in> set ss. s \<noteq> 0 \<and> strms w s \<noteq> None \<Longrightarrow> ub (deleteStreams ss w) = ub w"
proof (induction ss arbitrary: w)
  case (Cons a ss)
  moreover have "ub (deleteStream a w) = ub w"
    using Cons.prems by (auto simp: deleteStream_def)
  moreover have "\<forall>s \<in> set ss. s \<noteq> 0 \<and> strms (deleteStream a w) s \<noteq> None"
    using Cons.prems by (auto simp: deleteStream_strms)
  ultimately show ?case by simp
qed simp

text \<open>
  Dropping the outputs of one filter, together with its cache flag or with the filter itself, is
  the common effect of \<^verbatim>\<open>clearCache\<close> and of the destructor.
\<close>

lemma drop_outputs:
  assumes ok: "caches_ok w" and f: "filts w p = Some f"
    and w1: "strms w1 = strms w" "ub w1 = ub w" "filts w1 = (filts w)(p := g)"
      "case g of None \<Rightarrow> True | Some f' \<Rightarrow> f_outputs f' = []"
  shows "ub (deleteStreams (f_outputs f) w1) = ub w"
    "caches_ok (deleteStreams (f_outputs f) w1)"
    "strms (deleteStreams (f_outputs f) w1) = (\<lambda>s. if s \<in> set (f_outputs f) then None else strms w s)"
proof -
  let ?w = "deleteStreams (f_outputs f) w1"
  have o: "outputs_of w p = f_outputs f" using f by (simp add: outputs_of_def get_filt_def)
  have live: "distinct (f_outputs f)" "\<forall>s \<in> set (f_outputs f). s \<noteq> 0 \<and> strms w1 s \<noteq> None"
    using ok o w1(1) unfolding caches_ok_def by (metis, metis streamCached_live)
  show "ub ?w = ub w" using deleteStreams_ub[OF live] w1(2) by simp
  have "0 \<notin> set (f_outputs f)" using live by auto
  from deleteStreams_strms[OF this, of w1]
  show st: "strms ?w = (\<lambda>s. if s \<in> set (f_outputs f) then None else strms w s)" by (simp only: w1(1))
  have os: "outputs_of ?w q = (if q = p then [] else outputs_of w q)" for q
    using w1(3,4) by (auto simp: outputs_of_def get_filt_def split: option.splits)
  have hc: "q \<noteq> p \<Longrightarrow> haveCache ?w q = haveCache w q" for q
    using w1(3) by (simp add: haveCache_def get_filt_def)
  have "streamCached ?w s" if "s \<in> set (outputs_of w q)" "q \<noteq> p" for s q
  proof -
    have "s \<notin> set (f_outputs f)" using ok that o unfolding caches_ok_def by (metis disjoint_iff)
    then show ?thesis using ok that(1) by (auto simp: caches_ok_def streamCached_def st)
  qed
  then have sc: "\<forall>q. \<forall>s \<in> set (outputs_of ?w q). s \<noteq> 0 \<and> streamCached ?w s"
    using ok by (auto simp: os caches_ok_def)
  have "\<forall>q. distinct (outputs_of ?w q) \<and> (\<not> haveCache ?w q \<longrightarrow> outputs_of ?w q = [])"
    using ok hc by (auto simp: os caches_ok_def)
  moreover have "\<forall>q r. q \<noteq> r \<longrightarrow> set (outputs_of ?w q) \<inter> set (outputs_of ?w r) = {}"
    using ok by (simp add: os caches_ok_def)
  ultimately show "caches_ok ?w" using sc unfolding caches_ok_def by blast
qed

lemma clearCache_facts:
  assumes "caches_ok w" "filts w p = Some f"
  shows "ub (clearCache V p w) = ub w" "caches_ok (clearCache V p w)"
    "filts (clearCache V p w) = (filts w)(p \<mapsto> f\<lparr>f_cacheOK := False, f_outputs := [], f_priv := v_clearPriv V (f_priv f)\<rparr>)"
proof -
  let ?g = "f\<lparr>f_cacheOK := False, f_outputs := [], f_priv := v_clearPriv V (f_priv f)\<rparr>"
  have c: "clearCache V p w = deleteStreams (f_outputs f) (w\<lparr>filts := (filts w)(p \<mapsto> ?g)\<rparr>)"
    using assms(2) by (simp add: clearCache_def)
  show "ub (clearCache V p w) = ub w" "caches_ok (clearCache V p w)"
    unfolding c by (rule drop_outputs[OF assms, where g = "Some ?g"]; simp)+
  show "filts (clearCache V p w) = (filts w)(p \<mapsto> ?g)" by (simp add: c)
qed

lemma deleteFilter_facts:
  assumes "caches_ok w" "filts w p = Some f" "p \<noteq> 0"
  shows "ub (deleteFilter p w) = ub w" "caches_ok (deleteFilter p w)"
    "filts (deleteFilter p w) = (filts w)(p := None)"
    "strms (deleteFilter p w) = (\<lambda>s. if s \<in> set (outputs_of w p) then None else strms w s)"
proof -
  have o: "outputs_of w p = f_outputs f" "haveCache w p = f_cacheOK f"
    using assms(2) by (simp_all add: outputs_of_def haveCache_def get_filt_def)
  have "\<not> f_cacheOK f \<Longrightarrow> f_outputs f = []" using assms(1) o unfolding caches_ok_def by metis
  then have c: "deleteFilter p w = deleteStreams (f_outputs f) (w\<lparr>filts := (filts w)(p := None)\<rparr>)"
    using assms(2,3) by (auto simp: deleteFilter_def)
  show "ub (deleteFilter p w) = ub w" "caches_ok (deleteFilter p w)"
    "strms (deleteFilter p w) = (\<lambda>s. if s \<in> set (outputs_of w p) then None else strms w s)"
    unfolding c o by (rule drop_outputs[OF assms(1,2), where g = None]; simp)+
  show "filts (deleteFilter p w) = (filts w)(p := None)" by (simp add: c)
qed

lemma deleteFilters_facts:
  assumes "caches_ok w" "distinct ps" "\<forall>p \<in> set ps. p \<noteq> 0 \<and> filts w p \<noteq> None"
  shows "ub (deleteFilters ps w) = ub w \<and> caches_ok (deleteFilters ps w) \<and>
    filts (deleteFilters ps w) = (\<lambda>p. if p \<in> set ps then None else filts w p)"
  using assms
proof (induction ps arbitrary: w)
  case (Cons p ps)
  then obtain f where f: "filts w p = Some f" by auto
  note df = deleteFilter_facts[OF Cons.prems(1) f]
  have p: "p \<noteq> 0" "distinct ps" using Cons.prems by simp_all
  have "\<forall>q \<in> set ps. q \<noteq> 0 \<and> filts (deleteFilter p w) q \<noteq> None"
    using Cons.prems df(3)[OF p(1)] by auto
  from Cons.IH[OF df(2)[OF p(1)] p(2) this] df(1,3)[OF p(1)]
  show ?case by (auto simp: deleteFilters_def fun_eq_iff)
qed (simp add: deleteFilters_def)

lemma deleteFilters_strms:
  assumes "caches_ok w" "distinct ps" "\<forall>p \<in> set ps. p \<noteq> 0 \<and> filts w p \<noteq> None" "q \<notin> set ps" "s \<in> set (outputs_of w q)"
  shows "strms (deleteFilters ps w) s = strms w s"
  using assms
proof (induction ps arbitrary: w)
  case (Cons p ps)
  then obtain f where f: "filts w p = Some f" by auto
  have p: "p \<noteq> 0" "distinct ps" "p \<noteq> q" using Cons.prems by auto
  note df = deleteFilter_facts[OF Cons.prems(1) f p(1)]
  have "\<forall>r \<in> set ps. r \<noteq> 0 \<and> filts (deleteFilter p w) r \<noteq> None"
    using Cons.prems df(3) by auto
  moreover have "outputs_of (deleteFilter p w) q = outputs_of w q"
    using p(3) df(3) by (simp add: outputs_of_def get_filt_def)
  moreover have "s \<notin> set (outputs_of w p)"
    using Cons.prems(1,5) p(3) unfolding caches_ok_def by (metis disjoint_iff)
  ultimately show ?case
    using Cons.IH[OF df(2) p(2)] Cons.prems(4,5) df(4) by (simp add: deleteFilters_def)
qed (simp add: deleteFilters_def)

lemma deleteFilters_next_f: "next_f (deleteFilters ps w) = next_f w"
  by (induction ps arbitrary: w) (auto simp: deleteFilters_def deleteFilter_def split: option.splits)

lemma clearCaches_next_f: "next_f (fold (clearCache V) ps w) = next_f w"
  by (induction ps arbitrary: w) (auto simp: clearCache_def split: option.splits)

lemma clearCaches_facts:
  assumes "caches_ok w" "\<forall>p \<in> set ps. filts w p \<noteq> None"
  shows "ub (fold (clearCache V) ps w) = ub w \<and> caches_ok (fold (clearCache V) ps w) \<and>
    (\<forall>p. map_option f_cacheOK (filts (fold (clearCache V) ps w) p) =
         map_option (\<lambda>f. f_cacheOK f \<and> p \<notin> set ps) (filts w p))"
  using assms
proof (induction ps arbitrary: w)
  case (Cons p ps)
  then obtain f where f: "filts w p = Some f" by auto
  note cf = clearCache_facts[OF Cons.prems(1) f, of V]
  have "\<forall>q \<in> set ps. filts (clearCache V p w) q \<noteq> None" using Cons.prems(2) cf(3) by auto
  from Cons.IH[OF cf(2) this] show ?case using cf f
    by (auto simp: option.map_comp comp_def split: if_splits)
qed (simp add: option.map_id0 flip: option.map_comp)

definition world_ok :: "'p world \<Rightarrow> bool" where
  "world_ok w \<longleftrightarrow> caches_ok w \<and> 0 < next_f w \<and> (\<forall>p \<ge> next_f w. filts w p = None)"

lemma clone_no_cache [simp]: "f_outputs (clone_of V f) = []" "f_cacheOK (clone_of V f) = False"
  "f_type (clone_of V f) = f_type f" "f_userString (clone_of V f) = f_userString f"
  by (simp_all add: clone_of_def newFilter_def)

lemma cloneUncached_facts:
  assumes "world_ok w" "filts w p = Some f" "cloneUncached V p w = (q, w')"
  shows "q = next_f w" "next_f w' = Suc q" "filts w' = (filts w)(q \<mapsto> clone_of V f)"
    "strms w' = strms w" "ub w' = ub w" "world_ok w'"
proof -
  have w': "w' = w\<lparr>filts := (filts w)(next_f w \<mapsto> clone_of V f), next_f := Suc (next_f w)\<rparr>"
    and q: "q = next_f w" using assms(2,3) by (auto simp: cloneUncached_def)
  show "q = next_f w" "next_f w' = Suc q" "filts w' = (filts w)(q \<mapsto> clone_of V f)"
    "strms w' = strms w" "ub w' = ub w" by (simp_all add: w' q)
  have "filts w (next_f w) = None" using assms(1) by (simp add: world_ok_def)
  then have "outputs_of w' = outputs_of w" "haveCache w' = haveCache w"
    by (auto simp: w' outputs_of_def haveCache_def get_filt_def fun_eq_iff)
  moreover have "streamCached w' = streamCached w" by (auto simp: w' streamCached_def fun_eq_iff)
  ultimately have "caches_ok w'" using assms(1) by (simp add: world_ok_def caches_ok_def)
  then show "world_ok w'" using assms(1) by (simp add: world_ok_def w')
qed

end
