(* ===== verification/RefreshCollector.thy ===== *)
theory RefreshCollector
  imports Filters
begin

text \<open>
  \<^verbatim>\<open>FilterRefreshCollector\<close> of src/src/backend/filtertree.cpp, the garbage collector of the
  intermediate stream data of a refresh: \<open>nodes\<close> holds one list of tracked pointers per level,
  \<open>forgotten\<close> the pointers that became output and must not be freed.
\<close>

record collector =
  nodes :: "sptr list list"
  forgotten :: "sptr set"

definition new_collector :: collector where
  "new_collector = \<lparr>nodes = [], forgotten = {}\<rparr>"

definition tracksSelf :: "'p world \<Rightarrow> sptr \<Rightarrow> bool" where
  "tracksSelf w s = streamCached w s"

definition tracked :: "collector \<Rightarrow> sptr set" where
  "tracked c = \<Union> (set ` set (nodes c))"

text \<open>The scan over the levels (the body of the inner loop of \<^verbatim>\<open>trackPointers\<close> and \<^verbatim>\<open>isTracked\<close>).\<close>

definition isTracked :: "collector \<Rightarrow> sptr \<Rightarrow> bool" where
  "isTracked c s = list_ex (\<lambda>l. s \<in> set l) (nodes c)"

definition trackPointers :: "'p world \<Rightarrow> sptr list \<Rightarrow> collector \<Rightarrow> collector" where
  "trackPointers w v c =
     c\<lparr>nodes := nodes c @ [filter (\<lambda>s. \<not> tracksSelf w s \<and> \<not> (isTracked c s \<or> s \<in> forgotten c)) v]\<rparr>"

fun forget_one :: "sptr \<Rightarrow> sptr list list \<Rightarrow> sptr list list \<times> bool" where
  "forget_one s [] = ([], False)"
| "forget_one s (l # ls) =
     (if s \<in> set l then (remove1 s l # ls, True)
      else (let (ls', b) = forget_one s ls in (l # ls', b)))"

fun forgetPointers :: "sptr list \<Rightarrow> collector \<Rightarrow> collector" where
  "forgetPointers [] c = c"
| "forgetPointers (s # v) c =
     (let (ns, b) = forget_one s (nodes c)
      in forgetPointers v (if b then c\<lparr>nodes := ns, forgotten := insert s (forgotten c)\<rparr> else c))"

definition collectAll :: "'p world \<Rightarrow> collector \<Rightarrow> 'p world \<times> collector" where
  "collectAll w c = (deleteStreams (concat (nodes c)) w, c\<lparr>nodes := []\<rparr>)"

text \<open>\<^verbatim>\<open>resize\<close> to a larger size would add empty levels.\<close>

definition resize_to :: "nat \<Rightarrow> 'a list list \<Rightarrow> 'a list list" where
  "resize_to n xs = take n xs @ replicate (n - length xs) []"

definition collectToLevel :: "nat \<Rightarrow> 'p world \<Rightarrow> collector \<Rightarrow> 'p world \<times> collector" where
  "collectToLevel level w c =
     (deleteStreams (concat (drop (level + 1) (nodes c))) w, c\<lparr>nodes := resize_to level (nodes c)\<rparr>)"

section \<open>Invariant\<close>

text \<open>
  What \<^verbatim>\<open>checkSanity\<close> asserts: no pointer is tracked twice, none of them tracks itself, none is
  forgotten; and every tracked stream still exists.
\<close>

definition sane :: "'p world \<Rightarrow> collector \<Rightarrow> bool" where
  "sane w c \<longleftrightarrow> distinct (concat (nodes c)) \<and>
     (\<forall>s \<in> set (concat (nodes c)). s \<noteq> 0 \<and> strms w s \<noteq> None \<and> \<not> tracksSelf w s \<and> s \<notin> forgotten c)"

lemma deleteStreams_append: "deleteStreams (xs @ ys) w = deleteStreams ys (deleteStreams xs w)"
  by (simp add: deleteStreams_def)

lemma isTracked_iff: "isTracked c s \<longleftrightarrow> s \<in> set (concat (nodes c))"
  by (auto simp: isTracked_def list_ex_iff)

lemma sane_new: "sane w new_collector"
  by (simp add: sane_def new_collector_def)

lemma sane_track:
  assumes "sane w c" "distinct v" "\<forall>s \<in> set v. s \<noteq> 0 \<and> strms w s \<noteq> None"
  shows "sane w (trackPointers w v c)"
  using assms by (auto simp: sane_def trackPointers_def isTracked_iff)

lemma forget_one_found: "snd (forget_one s ls) \<longleftrightarrow> s \<in> set (concat ls)"
  by (induction ls) (auto split: prod.splits)

lemma forget_one_facts:
  assumes "distinct (concat ls)"
  shows "set (concat (fst (forget_one s ls))) = set (concat ls) - {s} \<and>
    distinct (concat (fst (forget_one s ls))) \<and> length (fst (forget_one s ls)) = length ls"
  using assms
proof (induction ls)
  case (Cons l ls)
  then have IH: "set (concat (fst (forget_one s ls))) = set (concat ls) - {s}"
    "distinct (concat (fst (forget_one s ls)))" "length (fst (forget_one s ls)) = length ls"
    by (simp_all)
  show ?case
  proof (cases "s \<in> set l")
    case True
    then show ?thesis using Cons.prems
      by (auto simp: set_remove1_eq distinct_remove1)
  next
    case False
    then have "fst (forget_one s (l # ls)) = l # fst (forget_one s ls)"
      by (simp split: prod.splits)
    moreover have "set (concat (l # fst (forget_one s ls))) = set (concat (l # ls)) - {s}"
      using IH(1) False by (simp only: concat.simps set_append) blast
    moreover have "distinct (concat (l # fst (forget_one s ls)))"
      using IH(1,2) Cons.prems by (simp only: concat.simps distinct_append) blast
    ultimately show ?thesis using IH(3) by simp
  qed
qed simp

lemma sane_forget:
  "sane w c \<Longrightarrow> sane w (forgetPointers v c) \<and>
   length (nodes (forgetPointers v c)) = length (nodes c) \<and>
   set (concat (nodes (forgetPointers v c))) = set (concat (nodes c)) - set v \<and>
   forgotten (forgetPointers v c) = forgotten c \<union> (set v \<inter> set (concat (nodes c)))"
proof (induction v c rule: forgetPointers.induct)
  case (2 s v c)
  obtain ns b where f: "forget_one s (nodes c) = (ns, b)" by fastforce
  define c' where "c' = (if b then c\<lparr>nodes := ns, forgotten := insert s (forgotten c)\<rparr> else c)"
  have d: "distinct (concat (nodes c))" using 2 by (simp add: sane_def)
  have b: "b \<longleftrightarrow> s \<in> set (concat (nodes c))" using forget_one_found[of s "nodes c"] f by simp
  have facts: "set (concat ns) = set (concat (nodes c)) - {s}" "distinct (concat ns)"
    "length ns = length (nodes c)"
    using forget_one_facts[OF d, of s] f by simp_all
  have nodes': "set (concat (nodes c')) = set (concat (nodes c)) - {s}"
    "length (nodes c') = length (nodes c)"
    "forgotten c' = forgotten c \<union> ({s} \<inter> set (concat (nodes c)))"
    using facts b by (auto simp: c'_def)
  have "sane w c'"
    using "2.prems" facts by (auto simp: sane_def c'_def)
  moreover have "forgetPointers (s # v) c = forgetPointers v c'" by (simp add: f c'_def)
  ultimately show ?case using "2.IH"[of "(ns, b)" ns b] nodes' f by (auto simp: c'_def)
qed simp

text \<open>Collecting frees each tracked stream of the collected levels once.\<close>

lemma sane_collectAll:
  assumes "sane w c" "collectAll w c = (w', c')"
  shows "ub w' = ub w" "sane w' c'" "nodes c' = []"
    "strms w' = (\<lambda>s. if s \<in> set (concat (nodes c)) then None else strms w s)"
proof -
  have w': "w' = deleteStreams (concat (nodes c)) w" and c': "c' = c\<lparr>nodes := []\<rparr>"
    using assms(2) by (auto simp: collectAll_def)
  show "ub w' = ub w" using assms(1) by (auto simp: w' sane_def intro!: deleteStreams_ub)
  show "sane w' c'" "nodes c' = []" by (auto simp: c' sane_def)
  have "0 \<notin> set (concat (nodes c))" using assms(1) by (auto simp: sane_def)
  from deleteStreams_strms[OF this]
  show "strms w' = (\<lambda>s. if s \<in> set (concat (nodes c)) then None else strms w s)"
    by (simp add: w')
qed

lemma concat_resize: "set (concat (resize_to n ls)) = set (concat (take n ls))"
  by (induction "n - length ls") (auto simp: resize_to_def)

lemma resize_shrink: "n \<le> length ls \<Longrightarrow> resize_to n ls = take n ls"
  by (simp add: resize_to_def)

lemma sane_collectToLevel:
  assumes "sane w c" "collectToLevel n w c = (w', c')"
  shows "ub w' = ub w" "sane w' c'" "length (nodes c') = n" "forgotten c' = forgotten c"
    "strms w' = (\<lambda>s. if s \<in> set (concat (drop (n + 1) (nodes c))) then None else strms w s)"
proof -
  let ?d = "concat (drop (n + 1) (nodes c))" and ?t = "concat (take n (nodes c))"
  have w': "w' = deleteStreams ?d w" and c': "c' = c\<lparr>nodes := resize_to n (nodes c)\<rparr>"
    using assms(2) by (auto simp: collectToLevel_def)
  have sub: "set ?d \<subseteq> set (concat (nodes c))"
    by (auto dest: in_set_dropD)
  have split: "concat (nodes c) = ?t @ concat (drop n (nodes c))"
    by (metis append_take_drop_id concat_append)
  have split2: "set ?d \<subseteq> set (concat (drop n (nodes c)))"
    by (auto simp flip: drop_drop dest: in_set_dropD) (metis UnionI drop_drop image_eqI in_set_dropD add.commute plus_1_eq_Suc)
  have d: "distinct ?d"
    using assms(1) unfolding sane_def
    by (metis append_take_drop_id concat_append distinct_append)
  show "ub w' = ub w"
    unfolding w' using assms(1) sub by (intro deleteStreams_ub d) (auto simp: sane_def)
  have "0 \<notin> set ?d" using assms(1) sub by (auto simp: sane_def)
  from deleteStreams_strms[OF this]
  show st: "strms w' = (\<lambda>s. if s \<in> set ?d then None else strms w s)" by (simp add: w')
  show "length (nodes c') = n" "forgotten c' = forgotten c" by (simp_all add: c' resize_to_def)
  have disj: "set ?t \<inter> set ?d = {}"
    using assms(1) split split2 unfolding sane_def by (metis distinct_append disjoint_iff subsetD)
  have "distinct ?t" using assms(1) split unfolding sane_def by (metis distinct_append)
  then have "distinct (concat (nodes c'))" by (simp add: c' resize_to_def)
  moreover have "s \<noteq> 0 \<and> strms w' s \<noteq> None \<and> \<not> tracksSelf w' s \<and> s \<notin> forgotten c'"
    if "s \<in> set (concat (nodes c'))" for s
  proof -
    have "s \<in> set ?t" using that by (simp add: c' resize_to_def)
    then have "s \<notin> set ?d" "s \<in> set (concat (nodes c))" using disj split by auto
    then show ?thesis using assms(1) by (auto simp: sane_def st c' tracksSelf_def streamCached_def)
  qed
  ultimately show "sane w' c'" by (simp add: sane_def)
qed

text \<open>
  What a collection down to \<open>n\<close> does to the tracked streams: the levels below \<open>n\<close> stay tracked,
  those above \<open>n\<close> are freed, and level \<open>n\<close> itself is dropped from the list without being freed.
\<close>

lemma collectToLevel_leak:
  assumes "sane w c" "n < length (nodes c)" "collectToLevel n w c = (w', c')" "s \<in> set (nodes c ! n)"
  shows "strms w' s = strms w s" "\<not> isTracked c' s"
proof -
  have split: "concat (nodes c) = concat (take n (nodes c)) @ nodes c ! n @ concat (drop (n + 1) (nodes c))"
    using take_drop_Cons[OF assms(2)] by (metis Suc_eq_plus1 concat.simps(2) concat_append)
  then have "s \<notin> set (concat (drop (n + 1) (nodes c)))" "s \<notin> set (concat (take n (nodes c)))"
    using assms(1,4) by (auto simp: sane_def simp del: concat_append)
  then show "strms w' s = strms w s" "\<not> isTracked c' s"
    using sane_collectToLevel(5)[OF assms(1,3)] assms(3)
    by (auto simp: isTracked_iff collectToLevel_def resize_to_def)
qed

end
