(* ===== verification/FilterTree.thy ===== *)
theory FilterTree
  imports TreeHH RefreshCollector
begin

text \<open>
  The tree operations of \<^verbatim>\<open>FilterTree\<close> (src/src/backend/filtertree.cpp). The tree holds filter
  pointers; the filters live in the \<open>world\<close>, shared with the caller. Each operation takes and
  returns the tree object and the world. Null is the pointer 0. A \<^verbatim>\<open>std::find\<close> that ends at
  \<^verbatim>\<open>end()\<close> where the code goes on to use the iterator sets \<open>ub\<close>.
\<close>

datatype cacheStrategy = CACHE_DEPTH_FIRST | CACHE_NEVER

record filterTree =
  ft :: "fptr ptree"
  cacheStrategy :: cacheStrategy
  maxCachePercent :: nat
  amRefreshing :: bool

definition DEFAULT_MAX_CACHE_PERCENT :: nat where "DEFAULT_MAX_CACHE_PERCENT = 50"

definition newFilterTree :: filterTree where
  "newFilterTree = \<lparr>ft = empty_ptree, cacheStrategy = CACHE_DEPTH_FIRST,
     maxCachePercent = DEFAULT_MAX_CACHE_PERCENT, amRefreshing = False\<rparr>"

section \<open>Initialisation of the filters\<close>

definition popPointerStack :: "sptr list list \<Rightarrow> nat \<Rightarrow> sptr list list" where
  "popPointerStack stk depth = drop (length stk - depth) stk"

text \<open>
  The depth-first loop: each filter's \<^verbatim>\<open>initFilter\<close> reads the top of \<open>stk\<close> (head first) and its
  result is pushed. The stack is never empty when it is read, see \<open>init_loop_walks\<close>.
\<close>

fun init_loop :: "'p vtable \<Rightarrow> (nat list \<times> fptr tnode) list \<Rightarrow> sptr list list \<Rightarrow>
    'p world \<times> collector \<Rightarrow> sptr list list \<times> 'p world \<times> collector" where
  "init_loop V [] stk (w, c) = (stk, w, c)"
| "init_loop V ((anc, n) # es) stk (w, c) =
     (let popLevel = length anc + 1;
          stk1 = popPointerStack stk popLevel;
          (w1, c1) = collectToLevel popLevel w c;
          (w2, curData) = v_initFilter V (tdata n) (hd stk1) w1
      in init_loop V es (curData # stk1) (w2, trackPointers w2 curData c1))"

definition initFilterTree :: "'p vtable \<Rightarrow> fptr ptree \<Rightarrow> 'p world \<Rightarrow> 'p world" where
  "initFilterTree V t w =
     (let (stk, w1, c1) = init_loop V (entries t) [[]] (w, trackPointers w [] new_collector)
      in fst (collectAll w1 c1))"

section \<open>Construction, copy and destruction\<close>

fun clone_nodes :: "'p vtable \<Rightarrow> fptr tnode \<Rightarrow> 'p world \<Rightarrow> fptr tnode \<times> 'p world"
  and clone_forest :: "'p vtable \<Rightarrow> fptr tnode list \<Rightarrow> 'p world \<Rightarrow> fptr tnode list \<times> 'p world" where
  "clone_nodes V (TNode a p ks) w =
     (let (q, w1) = cloneUncached V p w; (ks', w2) = clone_forest V ks w1 in (TNode a q ks', w2))"
| "clone_forest V [] w = ([], w)"
| "clone_forest V (n # ns) w =
     (let (n', w1) = clone_nodes V n w; (ns', w2) = clone_forest V ns w1 in (n' # ns', w2))"

definition cloneAll :: "'p vtable \<Rightarrow> fptr ptree \<Rightarrow> 'p world \<Rightarrow> fptr ptree \<times> 'p world" where
  "cloneAll V t w = (let (rs, w') = clone_forest V (roots t) w in (t\<lparr>roots := rs\<rparr>, w'))"

definition copyFilterTree :: "'p vtable \<Rightarrow> filterTree \<Rightarrow> 'p world \<Rightarrow> filterTree \<times> 'p world" where
  "copyFilterTree V orig w = (let (t, w') = cloneAll V (copy_tree (ft orig)) w
     in (\<lparr>ft = t, cacheStrategy = cacheStrategy orig, maxCachePercent = maxCachePercent orig,
          amRefreshing = False\<rparr>, w'))"

definition ft_clear :: "filterTree \<Rightarrow> 'p world \<Rightarrow> filterTree \<times> 'p world" where
  "ft_clear F w = (F\<lparr>ft := clear_tree (ft F)\<rparr>, deleteFilters (datas (ft F)) w)"

definition assignFilterTree ::
    "'p vtable \<Rightarrow> filterTree \<Rightarrow> filterTree \<Rightarrow> 'p world \<Rightarrow> filterTree \<times> 'p world" where
  "assignFilterTree V this orig w =
     (let (F, w1) = ft_clear this w;
          (t, w2) = cloneAll V (copy_tree (ft orig)) w1
      in (F\<lparr>ft := t, cacheStrategy := cacheStrategy orig, maxCachePercent := maxCachePercent orig\<rparr>, w2))"

definition ft_swap :: "filterTree \<Rightarrow> filterTree \<Rightarrow> filterTree \<times> filterTree" where
  "ft_swap a b =
     (a\<lparr>ft := copy_tree (ft b), cacheStrategy := cacheStrategy b, maxCachePercent := maxCachePercent b\<rparr>,
      b\<lparr>ft := copy_tree (copy_tree (ft a)), cacheStrategy := cacheStrategy a, maxCachePercent := maxCachePercent a\<rparr>)"

section \<open>Queries\<close>

text \<open>\<^verbatim>\<open>isChild\<close> climbs from the child to its base node and compares each parent on the way.\<close>

definition isChild :: "fptr ptree \<Rightarrow> nat \<Rightarrow> nat \<Rightarrow> bool" where
  "isChild t testParent testChild =
     (case entry_at t testChild of None \<Rightarrow> False | Some (anc, _) \<Rightarrow> list_ex (\<lambda>p. p = testParent) anc)"

definition contains :: "filterTree \<Rightarrow> fptr \<Rightarrow> bool" where
  "contains F f = (find_data (ft F) f \<noteq> None)"

definition countChildFilters :: "fptr ptree \<Rightarrow> nat list \<Rightarrow> nat" where
  "countChildFilters t ns =
     card (set (concat (map (\<lambda>a. map (tdata \<circ> snd) (scan_from t a)) ns))) - length ns"

definition getFiltersByType :: "'p world \<Rightarrow> filterTree \<Rightarrow> filterType \<Rightarrow> fptr list" where
  "getFiltersByType w F ty = filter (\<lambda>p. get_filt False (\<lambda>f. f_type f = ty) w p) (datas (ft F))"

definition hasStateOverrides :: "'p vtable \<Rightarrow> 'p world \<Rightarrow> filterTree \<Rightarrow> bool" where
  "hasStateOverrides V w F = list_ex (\<lambda>p. get_filt [] (v_stateOverrides V) w p \<noteq> []) (datas (ft F))"

definition hasUpdates :: "'p vtable \<Rightarrow> 'p world \<Rightarrow> filterTree \<Rightarrow> bool" where
  "hasUpdates V w F = list_ex (\<lambda>p. get_filt False (v_monitorNeedsRefresh V) w p) (datas (ft F))"

definition hasHazardousContents :: "'p vtable \<Rightarrow> 'p world \<Rightarrow> filterTree \<Rightarrow> bool" where
  "hasHazardousContents V w F = list_ex (\<lambda>p. get_filt False (v_canBeHazardous V) w p) (datas (ft F))"

definition filterTypeNum :: "filterType \<Rightarrow> nat" where
  "filterTypeNum ty = (case ty of FILTER_TYPE_DATALOAD \<Rightarrow> 0 | FILTER_TYPE_IONDOWNSAMPLE \<Rightarrow> 1
     | FILTER_TYPE_RANGEFILE \<Rightarrow> 2 | FILTER_TYPE_SPECTRUMPLOT \<Rightarrow> 3 | FILTER_TYPE_IONCLIP \<Rightarrow> 4
     | FILTER_TYPE_IONCOLOURFILTER \<Rightarrow> 5 | FILTER_TYPE_PROFILE \<Rightarrow> 6 | FILTER_TYPE_BOUNDBOX \<Rightarrow> 7
     | FILTER_TYPE_TRANSFORM \<Rightarrow> 8 | FILTER_TYPE_EXTERNALPROC \<Rightarrow> 9
     | FILTER_TYPE_SPATIAL_ANALYSIS \<Rightarrow> 10 | FILTER_TYPE_CLUSTER_ANALYSIS \<Rightarrow> 11
     | FILTER_TYPE_VOXELS \<Rightarrow> 12 | FILTER_TYPE_IONINFO \<Rightarrow> 13 | FILTER_TYPE_ANNOTATION \<Rightarrow> 14
     | FILTER_TYPE_PROXIGRAM \<Rightarrow> 15)"

definition cacheCount :: "'p world \<Rightarrow> filterTree \<Rightarrow> 32 word \<Rightarrow> nat" where
  "cacheCount w F typeMask = length (filter (\<lambda>p.
     and (of_nat (get_filt 0 (\<lambda>f. filterTypeNum (f_type f)) w p)) typeMask \<noteq> (0 :: 32 word) \<and> haveCache w p)
     (datas (ft F)))"

section \<open>Cache control\<close>

text \<open>The scan from a node to the first later node that is not deeper.\<close>

definition scan_filters :: "fptr ptree \<Rightarrow> nat \<Rightarrow> fptr list" where
  "scan_filters t a = map (tdata \<circ> snd) (scan_subtree t a)"

definition clearCaches :: "'p vtable \<Rightarrow> fptr list \<Rightarrow> 'p world \<Rightarrow> 'p world" where
  "clearCaches V ps w = fold (clearCache V) ps w"

definition purgeCache :: "'p vtable \<Rightarrow> filterTree \<Rightarrow> 'p world \<Rightarrow> 'p world" where
  "purgeCache V F w = clearCaches V (datas (ft F)) w"

definition ft_clearCache ::
    "'p vtable \<Rightarrow> filterTree \<Rightarrow> fptr \<Rightarrow> bool \<Rightarrow> 'p world \<Rightarrow> 'p world" where
  "ft_clearCache V F flt includeSelf w =
     (if flt = 0 then clearCaches V (datas (ft F)) w
      else case find_data (ft F) flt of None \<Rightarrow> w\<lparr>ub := True\<rparr>
         | Some a \<Rightarrow> clearCaches V (filter (\<lambda>p. \<not> (\<not> includeSelf \<and> p = flt)) (scan_filters (ft F) a)) w)"

definition clearCacheByType :: "'p vtable \<Rightarrow> filterTree \<Rightarrow> filterType \<Rightarrow> 'p world \<Rightarrow> 'p world" where
  "clearCacheByType V F ty w = fold (\<lambda>p w. if get_filt False (\<lambda>f. f_type f = ty) w p
     then ft_clearCache V F p True w else w) (datas (ft F)) w"

definition setCachePercent :: "nat \<Rightarrow> filterTree \<Rightarrow> filterTree" where
  "setCachePercent newCache F = (if newCache = 0 then F\<lparr>cacheStrategy := CACHE_NEVER\<rparr>
     else F\<lparr>cacheStrategy := CACHE_DEPTH_FIRST, maxCachePercent := newCache\<rparr>)"

definition setFilterProperty :: "'p vtable \<Rightarrow> filterTree \<Rightarrow> fptr \<Rightarrow> nat \<Rightarrow> string \<Rightarrow> 'p world \<Rightarrow>
    'p world \<times> bool \<times> bool" where
  "setFilterProperty V F target key val w =
     (let (w1, ok, needUpdate) = v_setProperty V target key val w
      in if \<not> ok then (w1, False, needUpdate)
         else let w2 = (if needUpdate
                 then (case find_data (ft F) target of None \<Rightarrow> w1
                       | Some a \<Rightarrow> clearCaches V (filter (\<lambda>p. p \<noteq> target) (scan_filters (ft F) a)) w1)
                 else w1)
              in (initFilterTree V (ft F) w2, True, needUpdate))"

section \<open>The explicit stack is the recursion over the tree\<close>

text \<open>
  The reference: each filter is initialised with the output of its parent (the base filters with
  no input), in depth-first order. \<open>d\<close> is the depth of the nodes.
\<close>

fun init_node :: "'p vtable \<Rightarrow> nat \<Rightarrow> sptr list \<Rightarrow> fptr tnode \<Rightarrow> 'p world \<times> collector \<Rightarrow> 'p world \<times> collector"
  and init_nodes :: "'p vtable \<Rightarrow> nat \<Rightarrow> sptr list \<Rightarrow> fptr tnode list \<Rightarrow> 'p world \<times> collector \<Rightarrow> 'p world \<times> collector" where
  "init_node V d inp (TNode a p ks) s =
     (let (w1, c1) = collectToLevel (d + 1) (fst s) (snd s);
          (w2, out) = v_initFilter V p inp w1
      in init_nodes V (d + 1) out ks (w2, trackPointers w2 out c1))"
| "init_nodes V d inp [] s = s"
| "init_nodes V d inp (n # ns) s = init_nodes V d inp ns (init_node V d inp n s)"

lemma popPointerStack_length: "length (popPointerStack stk k) = min (length stk) k"
  by (simp add: popPointerStack_def)

lemma popPointerStack_Suc:
  "Suc k \<le> length stk \<Longrightarrow> popPointerStack stk (Suc k) = x # base \<Longrightarrow> popPointerStack stk k = base"
  by (auto simp: popPointerStack_def Suc_diff_Suc drop_Suc tl_drop dest: arg_cong[of _ _ tl])
    (metis Suc_diff_le diff_Suc_Suc drop_Suc list.sel(3) tl_drop)

lemma init_loop_walks:
  fixes n :: "fptr tnode" and ns :: "fptr tnode list"
  shows "length anc + 1 \<le> length stk \<Longrightarrow>
     \<exists>stk'. init_loop V (walk anc n @ rest) stk s =
        init_loop V rest stk' (init_node V (length anc) (hd (popPointerStack stk (length anc + 1))) n s) \<and>
      length anc + 1 \<le> length stk' \<and>
      popPointerStack stk' (length anc + 1) = popPointerStack stk (length anc + 1)"
    and "length anc + 1 \<le> length stk \<Longrightarrow>
     \<exists>stk'. init_loop V (walks anc ns @ rest) stk s =
        init_loop V rest stk' (init_nodes V (length anc) (hd (popPointerStack stk (length anc + 1))) ns s) \<and>
      length anc + 1 \<le> length stk' \<and>
      popPointerStack stk' (length anc + 1) = popPointerStack stk (length anc + 1)"
proof (induction anc n and anc ns arbitrary: stk s rest and stk s rest rule: walk_walks.induct)
  case (1 anc a x ks)
  let ?base = "popPointerStack stk (length anc + 1)"
  obtain w c where s: "s = (w, c)" by fastforce
  obtain w1 c1 where c1: "collectToLevel (length anc + 1) w c = (w1, c1)" by fastforce
  obtain w2 out where out: "v_initFilter V x (hd ?base) w1 = (w2, out)" by fastforce
  have lb: "length ?base = length anc + 1" using 1 by (simp add: popPointerStack_length)
  have top: "popPointerStack (out # ?base) (length (a # anc) + 1) = out # ?base"
    using lb by (simp add: popPointerStack_def)
  obtain stk' where stk': "init_loop V (walks (a # anc) ks @ rest) (out # ?base) (w2, trackPointers w2 out c1) =
      init_loop V rest stk' (init_nodes V (length (a # anc)) out ks (w2, trackPointers w2 out c1))"
    "length (a # anc) + 1 \<le> length stk'" "popPointerStack stk' (length (a # anc) + 1) = out # ?base"
    using "1.IH"[of "out # ?base" rest "(w2, trackPointers w2 out c1)"] lb top by auto
  show ?case
    using stk' c1 out popPointerStack_Suc[of "length anc + 1" stk' out ?base]
    by (intro exI[of _ stk']) (simp add: s Let_def)
next
  case (3 anc n ns)
  obtain stk1 where s1: "init_loop V (walk anc n @ walks anc ns @ rest) stk s = init_loop V (walks anc ns @ rest) stk1
        (init_node V (length anc) (hd (popPointerStack stk (length anc + 1))) n s)"
    "length anc + 1 \<le> length stk1"
    "popPointerStack stk1 (length anc + 1) = popPointerStack stk (length anc + 1)"
    using "3.IH"(1)[OF 3(3), of "walks anc ns @ rest" s] by blast
  show ?case
    using "3.IH"(2)[OF s1(2), of rest "init_node V (length anc) (hd (popPointerStack stk (length anc + 1))) n s"] s1
    by simp
qed auto

lemma initFilterTree_recursion:
  "initFilterTree V t w =
     (let (w1, c1) = init_nodes V 0 [] (roots t) (w, trackPointers w [] new_collector)
      in fst (collectAll w1 c1))"
proof -
  obtain stk' where "init_loop V (entries t) [[]] (w, trackPointers w [] new_collector) =
      (stk', init_nodes V 0 [] (roots t) (w, trackPointers w [] new_collector))"
    using init_loop_walks(2)[of "[]" "[[]]" V "roots t" "[]" "(w, trackPointers w [] new_collector)"]
    by (auto simp: entries_def popPointerStack_def) (metis init_loop.simps(1) surj_pair)
  then show ?thesis by (simp add: initFilterTree_def split: prod.splits)
qed

section \<open>What the tree relies on from \<^verbatim>\<open>initFilter\<close>\<close>

text \<open>
  \<open>frame\<close>: nothing undefined happened, and no filter was made, vanished or lost its cache.
\<close>

definition frame :: "'p world \<Rightarrow> 'p world \<Rightarrow> bool" where
  "frame w w' \<longleftrightarrow> ub w' = ub w \<and> next_f w' = next_f w \<and> (\<forall>p. filts w' p = None \<longleftrightarrow> filts w p = None) \<and>
     outputs_of w' = outputs_of w \<and> haveCache w' = haveCache w \<and>
     (\<forall>s. streamCached w s \<longrightarrow> strms w' s = strms w s)"

lemma frame_refl [simp]: "frame w w"
  by (simp add: frame_def)

lemma frame_trans:
  assumes "frame w1 w2" "frame w2 w3" shows "frame w1 w3"
proof -
  have "strms w3 s = strms w1 s" if "streamCached w1 s" for s
    using that assms by (auto simp: frame_def streamCached_def)
  then show ?thesis using assms by (simp add: frame_def)
qed

lemma frame_caches_ok:
  assumes "frame w w'" "caches_ok w" shows "caches_ok w'"
proof -
  have "streamCached w' s" if "streamCached w s" for s
    using that assms(1) by (auto simp: frame_def streamCached_def)
  then show ?thesis using assms by (simp add: frame_def caches_ok_def)
qed

lemma frame_world_ok: "frame w w' \<Longrightarrow> world_ok w \<Longrightarrow> world_ok w'"
  using frame_caches_ok[of w w'] by (simp add: world_ok_def frame_def)

text \<open>
  The contract of the virtual method: on a live filter and distinct, live, uncached input streams
  it frees nothing, touches no cache, and returns distinct streams that are inputs or new, none of
  them cached (the source: caching is forbidden in filter initialisation).
\<close>

definition good_streams :: "'p world \<Rightarrow> sptr list \<Rightarrow> bool" where
  "good_streams w ss \<longleftrightarrow> distinct ss \<and> (\<forall>s \<in> set ss. s \<noteq> 0 \<and> strms w s \<noteq> None \<and> \<not> streamCached w s)"

locale filter_init =
  fixes init :: "fptr \<Rightarrow> sptr list \<Rightarrow> 'p world \<Rightarrow> 'p world \<times> sptr list"
  assumes init_frame: "filts w p \<noteq> None \<Longrightarrow> good_streams w inp \<Longrightarrow> init p inp w = (w', out) \<Longrightarrow>
      frame w w' \<and> (\<forall>s. strms w s \<noteq> None \<longrightarrow> strms w' s = strms w s)"
    and init_out: "filts w p \<noteq> None \<Longrightarrow> good_streams w inp \<Longrightarrow> init p inp w = (w', out) \<Longrightarrow>
      good_streams w' out \<and> (\<forall>s \<in> set out. s \<in> set inp \<or> strms w s = None)"
begin

text \<open>The state of the traversal at depth \<open>d\<close>: the parent's output is tracked at a level above.\<close>

definition init_inv :: "nat \<Rightarrow> sptr list \<Rightarrow> 'p world \<Rightarrow> collector \<Rightarrow> bool" where
  "init_inv d inp w c \<longleftrightarrow> sane w c \<and> forgotten c = {} \<and> d + 1 \<le> length (nodes c) \<and>
     distinct inp \<and> set inp \<subseteq> set (concat (take (d + 1) (nodes c)))"

lemma init_inv_good: "init_inv d inp w c \<Longrightarrow> good_streams w inp"
  by (auto simp: init_inv_def good_streams_def sane_def tracksSelf_def dest!: subsetD in_set_takeD)

lemma init_collect:
  assumes "init_inv d inp w c" "collectToLevel (d + 1) w c = (w1, c1)"
  shows "init_inv d inp w1 c1" "frame w w1" "nodes c1 = take (d + 1) (nodes c)"
proof -
  have s: "sane w c" and len: "d + 1 \<le> length (nodes c)" using assms(1) by (auto simp: init_inv_def)
  note ct = sane_collectToLevel[OF s assms(2)]
  have w1: "w1 = deleteStreams (concat (drop (d + 1 + 1) (nodes c))) w"
    using assms(2) by (simp add: collectToLevel_def)
  show n: "nodes c1 = take (d + 1) (nodes c)"
    using assms(2) len by (auto simp: collectToLevel_def resize_shrink)
  show "init_inv d inp w1 c1" using assms(1) ct n by (auto simp: init_inv_def)
  have "s \<notin> set (concat (drop (d + 1 + 1) (nodes c)))" if "streamCached w s" for s
    using that s by (auto simp: sane_def tracksSelf_def dest: in_set_dropD)
  then have "strms w1 s = strms w s" if "streamCached w s" for s using that ct(5) by simp
  moreover have "filts w1 = filts w" "next_f w1 = next_f w" by (simp_all add: w1)
  ultimately show "frame w w1"
    using ct(1) by (simp add: frame_def outputs_of_def haveCache_def get_filt_def fun_eq_iff)
qed

lemma init_step:
  assumes "init_inv d inp w c" "filts w p \<noteq> None" "collectToLevel (d + 1) w c = (w1, c1)"
    "init p inp w1 = (w2, out)"
  shows "init_inv (d + 1) out w2 (trackPointers w2 out c1)" "frame w w2"
    "take (d + 1) (nodes (trackPointers w2 out c1)) = take (d + 1) (nodes c)"
proof -
  note ic = init_collect[OF assms(1,3)]
  have live: "filts w1 p \<noteq> None" using assms(2) ic(2) by (simp add: frame_def)
  note fr = init_frame[OF live init_inv_good[OF ic(1)] assms(4)]
  note ou = init_out[OF live init_inv_good[OF ic(1)] assms(4)]
  show "frame w w2" using frame_trans[OF ic(2)] fr by blast
  have len: "length (nodes c1) = d + 1" using ic(1,3) assms(1) by (simp add: init_inv_def)
  show tk: "take (d + 1) (nodes (trackPointers w2 out c1)) = take (d + 1) (nodes c)"
    using ic(3) len by (simp add: trackPointers_def)
  have s1: "sane w1 c1" using ic(1) by (simp add: init_inv_def)
  have keep: "\<forall>s \<in> set (concat (nodes c1)). strms w2 s = strms w1 s"
    using s1 fr by (auto simp: sane_def)
  then have "sane w2 c1" using s1 by (simp add: sane_def tracksSelf_def streamCached_def)
  then have "sane w2 (trackPointers w2 out c1)"
    using ou by (intro sane_track) (auto simp: good_streams_def)
  moreover have "set out \<subseteq> set (concat (nodes (trackPointers w2 out c1)))"
    using ou ic(1) by (auto simp: trackPointers_def good_streams_def tracksSelf_def isTracked_iff init_inv_def)
  moreover have "length (nodes (trackPointers w2 out c1)) = d + 2" by (simp add: trackPointers_def len)
  moreover have "forgotten (trackPointers w2 out c1) = {}"
    using ic(1) by (simp add: trackPointers_def init_inv_def)
  ultimately show "init_inv (d + 1) out w2 (trackPointers w2 out c1)"
    using ou by (simp add: init_inv_def good_streams_def)
qed

lemma init_inv_up:
  assumes "init_inv d inp w c" "init_inv (d + 1) out w' c'"
    "take (d + 1 + 1) (nodes c') = take (d + 1 + 1) ns" "take (d + 1) ns = take (d + 1) (nodes c)"
  shows "init_inv d inp w' c'" "take (d + 1) (nodes c') = take (d + 1) (nodes c)"
proof -
  have "take (d + 1) (take (d + 1 + 1) (nodes c')) = take (d + 1) (take (d + 1 + 1) ns)"
    using assms(3) by simp
  then show t: "take (d + 1) (nodes c') = take (d + 1) (nodes c)"
    using assms(4) by (simp add: min_def)
  show "init_inv d inp w' c'" using assms(1,2) unfolding init_inv_def t by simp
qed

lemma init_nodes_inv:
  fixes n :: "fptr tnode" and ns :: "fptr tnode list"
  shows "v_initFilter V = init \<Longrightarrow> init_inv d inp (fst s) (snd s) \<Longrightarrow>
      \<forall>p \<in> snd ` set (flat n). filts (fst s) p \<noteq> None \<Longrightarrow> init_node V d inp n s = (w', c') \<Longrightarrow>
      init_inv d inp w' c' \<and> frame (fst s) w' \<and> take (d + 1) (nodes c') = take (d + 1) (nodes (snd s))"
    and "v_initFilter V = init \<Longrightarrow> init_inv d inp (fst s) (snd s) \<Longrightarrow>
      \<forall>p \<in> snd ` set (items ns). filts (fst s) p \<noteq> None \<Longrightarrow> init_nodes V d inp ns s = (w', c') \<Longrightarrow>
      init_inv d inp w' c' \<and> frame (fst s) w' \<and> take (d + 1) (nodes c') = take (d + 1) (nodes (snd s))"
proof (induction V d inp n s and V d inp ns s arbitrary: w' c' and w' c' rule: init_node_init_nodes.induct)
  case (1 V d inp a p ks s)
  obtain w1 c1 where c1: "collectToLevel (d + 1) (fst s) (snd s) = (w1, c1)" by fastforce
  obtain w2 out where i: "init p inp w1 = (w2, out)" by fastforce
  have lv: "filts (fst s) p \<noteq> None" using 1(4) by simp
  note st = init_step[OF 1(3) lv c1 i]
  have "\<forall>p \<in> snd ` set (items ks). filts w2 p \<noteq> None"
    using 1(4) st(2) by (simp add: frame_def)
  moreover have "init_nodes V (d + 1) out ks (w2, trackPointers w2 out c1) = (w', c')"
    using 1(2,5) c1 i by (simp add: Let_def)
  moreover have "v_initFilter V p inp w1 = (w2, out)" using 1(2) i by simp
  ultimately have IH: "init_inv (d + 1) out w' c'" "frame w2 w'"
    "take (d + 1 + 1) (nodes c') = take (d + 1 + 1) (nodes (trackPointers w2 out c1))"
    using 1(1)[OF c1[symmetric] refl _ refl, of w2 out w' c'] 1(2) st(1) by auto
  show ?case
    using init_inv_up[OF 1(3) IH(1,3) st(3)] frame_trans[OF st(2) IH(2)] by simp
next
  case (3 V d inp n ns s)
  obtain w1 c1 where n: "init_node V d inp n s = (w1, c1)" by fastforce
  have "\<forall>p \<in> snd ` set (flat n). filts (fst s) p \<noteq> None" using 3(5) by auto
  from 3(1)[OF 3(3,4) this n] have IH1: "init_inv d inp w1 c1" "frame (fst s) w1"
    "take (d + 1) (nodes c1) = take (d + 1) (nodes (snd s))" by auto
  have "\<forall>p \<in> snd ` set (items ns). filts w1 p \<noteq> None" using 3(5) IH1(2) by (auto simp: frame_def)
  moreover have "init_nodes V d inp ns (w1, c1) = (w', c')" using 3(6) n by simp
  ultimately have "init_inv d inp w' c' \<and> frame w1 w' \<and> take (d + 1) (nodes c') = take (d + 1) (nodes c1)"
    using 3(2)[of w' c'] 3(3) IH1(1) n by simp
  then show ?case using IH1 frame_trans by metis
qed auto

lemma initFilterTree_frame:
  assumes V: "v_initFilter V = init" and live: "\<forall>p \<in> set (datas t). filts w p \<noteq> None"
  shows "frame w (initFilterTree V t w)"
proof -
  let ?c0 = "trackPointers w [] new_collector"
  have c0: "init_inv 0 [] w ?c0"
    using sane_track[OF sane_new] by (simp add: init_inv_def trackPointers_def new_collector_def sane_def)
  obtain w1 c1 where n: "init_nodes V 0 [] (roots t) (w, ?c0) = (w1, c1)" by fastforce
  have "\<forall>p \<in> snd ` set (items (roots t)). filts (fst (w, ?c0)) p \<noteq> None"
    using live by (simp add: datas_items)
  from init_nodes_inv(2)[OF V _ this n] c0 have i: "init_inv 0 [] w1 c1" "frame w w1" by auto
  obtain w2 c2 where c: "collectAll w1 c1 = (w2, c2)" by fastforce
  have s: "sane w1 c1" using i(1) by (simp add: init_inv_def)
  note ca = sane_collectAll[OF s c]
  have "filts w2 = filts w1" "next_f w2 = next_f w1" using c by (auto simp: collectAll_def)
  moreover have "strms w2 s = strms w1 s" if "streamCached w1 s" for s
    using that ca(4) \<open>sane w1 c1\<close> by (auto simp: sane_def tracksSelf_def)
  ultimately have "frame w1 w2"
    using ca(1) by (simp add: frame_def outputs_of_def haveCache_def get_filt_def fun_eq_iff)
  from frame_trans[OF i(2) this]
  have "frame w w2" .
  moreover have "initFilterTree V t w = w2"
    using n c by (simp add: initFilterTree_recursion)
  ultimately show ?thesis by simp
qed

end

text \<open>The base class implementation keeps the contract.\<close>

interpretation base_init: filter_init initFilter_default
  by unfold_locales (auto simp: initFilter_default_def)

text \<open>
  Property C8. If every filter's \<^verbatim>\<open>initFilter\<close> keeps its contract, initialising the tree frees no
  stream twice and no dangling pointer, keeps every filter and every cache, and leaves the cached
  streams as they were.
\<close>

theorem initFilterTree_safe:
  assumes "filter_init (v_initFilter V)" "\<forall>p \<in> set (datas t). filts w p \<noteq> None" "caches_ok w"
  shows "frame w (initFilterTree V t w) \<and> caches_ok (initFilterTree V t w)"
  using filter_init.initFilterTree_frame[OF assms(1) refl assms(2)] assms(3) frame_caches_ok by blast

end
