(* ===== verification/FilterTreeOps.thy ===== *)
theory FilterTreeOps
  imports FilterTree
begin

text \<open>
  The operations of \<^verbatim>\<open>FilterTree\<close> (src/src/backend/filtertree.cpp) that change the shape of the
  tree: adding, copying, moving and removing filters and branches.
\<close>

section \<open>Adding\<close>

definition addFilter :: "'p vtable \<Rightarrow> filterTree \<Rightarrow> fptr \<Rightarrow> fptr \<Rightarrow> 'p world \<Rightarrow> filterTree \<times> 'p world" where
  "addFilter V F f parentFilter w =
     (if parentFilter \<noteq> 0
      then case find_data (ft F) parentFilter of None \<Rightarrow> (F, w\<lparr>ub := True\<rparr>)
        | Some a \<Rightarrow> let t' = fst (append_child (ft F) a f)
            in (F\<lparr>ft := t'\<rparr>, initFilterTree V t' w)
      else let t' = (case tree_begin (ft F) of
                       None \<Rightarrow> fst (tree_insert (ft F) (tree_begin (ft F)) f)
                     | Some b \<Rightarrow> fst (insert_after (ft F) b f))
           in (F\<lparr>ft := t'\<rparr>, initFilterTree V t' w))"

text \<open>
  \<^verbatim>\<open>addFilterTree\<close> takes over the filters of \<open>G\<close>, whose tree is emptied. Results: this tree, the
  emptied one, the world.
\<close>

definition addFilterTree :: "filterTree \<Rightarrow> filterTree \<Rightarrow> fptr \<Rightarrow> 'p world \<Rightarrow>
    filterTree \<times> filterTree \<times> 'p world" where
  "addFilterTree F G parent w =
     (let G' = G\<lparr>ft := clear_tree (ft G)\<rparr> in
      if parent \<noteq> 0
      then case (find_data (ft F) parent, roots (ft G)) of
          (Some a, g # _) \<Rightarrow>
            (let (t1, it) = append_child (ft F) a 0;
                 t2 = fst (insert_subtree t1 (Some it) 0 g)
             in (F\<lparr>ft := erase t2 it\<rparr>, G', w))
        | _ \<Rightarrow> (F, G', w\<lparr>ub := True\<rparr>)
      else case roots (ft G) of
          [] \<Rightarrow> (F, G', w)
        | g # _ \<Rightarrow> (case tree_begin (ft F) of
              None \<Rightarrow> (F\<lparr>ft := fst (insert_subtree (ft F) (tree_begin (ft F)) 0 g)\<rparr>, G', w)
            | Some b \<Rightarrow> (F\<lparr>ft := fst (insert_subtree_after (ft F) b 0 g)\<rparr>, G', w)))"

section \<open>Copying a branch\<close>

text \<open>The temporary tree: a placeholder, replaced by the branch, whose filters are then cloned.\<close>

definition cloneBranch :: "'p vtable \<Rightarrow> fptr tnode \<Rightarrow> 'p world \<Rightarrow> fptr ptree \<times> 'p world" where
  "cloneBranch V n w =
     (let (t0, d) = tree_insert empty_ptree (tree_begin (empty_ptree :: fptr ptree)) 0;
          t1 = fst (replace t0 d n)
      in cloneAll V t1 w)"

definition graft :: "fptr ptree \<times> nat \<Rightarrow> fptr ptree \<Rightarrow> fptr ptree" where
  "graft tn tmp = (case (tn, roots tmp) of ((t, nd), n # _) \<Rightarrow> fst (replace t nd n) | ((t, _), []) \<Rightarrow> t)"

definition copyFilter :: "'p vtable \<Rightarrow> filterTree \<Rightarrow> fptr \<Rightarrow> fptr \<Rightarrow> 'p world \<Rightarrow>
    filterTree \<times> 'p world \<times> bool" where
  "copyFilter V F toCopy newParent w =
     (if newParent \<noteq> 0
      then case (find_data (ft F) toCopy, find_data (ft F) newParent) of
          (Some mv, Some pa) \<Rightarrow>
            if pa = mv then (F, w, False)
            else if isChild (ft F) mv pa then (F, w, False)
            else (case entry_at (ft F) mv of
                None \<Rightarrow> (F, w\<lparr>ub := True\<rparr>, False)
              | Some (_, n) \<Rightarrow>
                  (let (tmp, w1) = cloneBranch V n w;
                       t' = graft (append_child (ft F) pa 0) tmp
                   in (F\<lparr>ft := t'\<rparr>, initFilterTree V t' w1, pa \<noteq> mv)))
        | _ \<Rightarrow> (F, w\<lparr>ub := True\<rparr>, False)
      else case find_data (ft F) toCopy of
          None \<Rightarrow> (F, w, False)
        | Some mv \<Rightarrow> (case (entry_at (ft F) mv, tree_begin (ft F)) of
              (Some (_, n), Some b) \<Rightarrow>
                (let (tmp, w1) = cloneBranch V n w;
                     t' = graft (insert_after (ft F) b 0) tmp
                 in (F\<lparr>ft := t'\<rparr>, initFilterTree V t' w1, True))
            | _ \<Rightarrow> (F, w\<lparr>ub := True\<rparr>, False)))"

definition cloneSubtree :: "'p vtable \<Rightarrow> filterTree \<Rightarrow> fptr \<Rightarrow> 'p world \<Rightarrow> filterTree \<Rightarrow>
    filterTree \<times> 'p world" where
  "cloneSubtree V F target w G =
     (case find_data (ft F) target of None \<Rightarrow> (G, w\<lparr>ub := True\<rparr>)
      | Some a \<Rightarrow> (case entry_at (ft F) a of None \<Rightarrow> (G, w\<lparr>ub := True\<rparr>)
          | Some (_, n) \<Rightarrow>
              (let (t0, d) = tree_insert (ft G) (tree_begin (ft G)) 0;
                   (t1, w1) = cloneAll V (fst (replace t0 d n)) w
               in (G\<lparr>ft := t1\<rparr>, w1))))"

section \<open>Removing\<close>

definition removeSubtree :: "'p vtable \<Rightarrow> filterTree \<Rightarrow> fptr \<Rightarrow> 'p world \<Rightarrow> filterTree \<times> 'p world" where
  "removeSubtree V F removeFilt w =
     (let (t', w1) = (case find_data (ft F) removeFilt of None \<Rightarrow> (ft F, w)
            | Some a \<Rightarrow> (erase (erase_children (ft F) a) a, deleteFilters (scan_filters (ft F) a) w))
      in (F\<lparr>ft := t'\<rparr>, initFilterTree V t' w1))"

text \<open>
  \<^verbatim>\<open>stripHazardousContents\<close>: at a hazardous filter every filter from it to the end of the tree
  is freed, its branch is erased, and the loop goes on with the node after the branch.
\<close>

lemma length_dropWhile_less: "length (dropWhile P xs) < Suc (length xs)"
  by (induction xs) auto

function strip_loop :: "'p vtable \<Rightarrow> (nat list \<times> fptr tnode) list \<Rightarrow> fptr ptree \<times> 'p world \<Rightarrow>
    fptr ptree \<times> 'p world" where
  "strip_loop V [] (t, w) = (t, w)"
| "strip_loop V ((anc, n) # es) (t, w) =
     (case filts w (tdata n) of
        None \<Rightarrow> (t, w\<lparr>ub := True\<rparr>)
      | Some f \<Rightarrow>
          if v_canBeHazardous V f
          then strip_loop V (dropWhile (\<lambda>e. length anc < length (fst e)) es)
                 (erase t (addr n), deleteFilters (map (tdata \<circ> snd) ((anc, n) # es)) w)
          else strip_loop V es (t, w))"
  by pat_completeness auto
termination
  by (relation "measure (\<lambda>(V, es, s). length es)") (auto simp: length_dropWhile_less less_Suc_eq_le[symmetric])

definition stripHazardousContents :: "'p vtable \<Rightarrow> filterTree \<Rightarrow> 'p world \<Rightarrow> filterTree \<times> 'p world" where
  "stripHazardousContents V F w =
     (let (t', w') = strip_loop V (entries (ft F)) (ft F, w) in (F\<lparr>ft := t'\<rparr>, w'))"

section \<open>Moving\<close>

text \<open>
  The cache loop of \<^verbatim>\<open>reparentFilter\<close> runs to the end of the tree and skips the nodes at the
  depth of the moved filter.
\<close>

definition reparentCacheList :: "fptr ptree \<Rightarrow> nat \<Rightarrow> fptr list" where
  "reparentCacheList t mv = (case entry_at t mv of None \<Rightarrow> []
     | Some (anc, _) \<Rightarrow> map (tdata \<circ> snd) (filter (\<lambda>e. length (fst e) \<noteq> length anc) (scan_from t mv)))"

definition reparentFilter :: "'p vtable \<Rightarrow> filterTree \<Rightarrow> fptr \<Rightarrow> fptr \<Rightarrow> 'p world \<Rightarrow>
    filterTree \<times> 'p world \<times> bool" where
  "reparentFilter V F f newParent w =
     (case (find_data (ft F) f, if newParent = 0 then tree_begin (ft F) else find_data (ft F) newParent) of
        (Some mv, Some pa) \<Rightarrow>
          if newParent \<noteq> 0 \<and> pa \<in> set (map (addr \<circ> snd) (scan_subtree (ft F) mv)) then (F, w, False)
          else (let w1 = clearCache V f (clearCaches V (reparentCacheList (ft F) mv) w);
                    (t1, rn) = (if newParent = 0 then insert_after (ft F) pa 0 else append_child (ft F) pa 0)
                in case entry_at t1 mv of None \<Rightarrow> (F, w1\<lparr>ub := True\<rparr>, False)
                   | Some (_, n) \<Rightarrow>
                       (let t' = erase (fst (replace t1 rn n)) mv
                        in (F\<lparr>ft := t'\<rparr>, initFilterTree V t' w1, True)))
      | _ \<Rightarrow> (F, w\<lparr>ub := True\<rparr>, False))"

section \<open>Filters that stay alive\<close>

text \<open>Nothing undefined happened, the same filters exist, and the caches stay consistent.\<close>

definition live_frame :: "'p world \<Rightarrow> 'p world \<Rightarrow> bool" where
  "live_frame w w' \<longleftrightarrow> ub w' = ub w \<and> next_f w' = next_f w \<and> (\<forall>p. filts w' p = None \<longleftrightarrow> filts w p = None) \<and>
     (caches_ok w \<longrightarrow> caches_ok w')"

lemma frame_live_frame: "frame w w' \<Longrightarrow> live_frame w w'"
  using frame_caches_ok[of w w'] by (simp add: live_frame_def frame_def)

lemma live_frame_trans: "live_frame w1 w2 \<Longrightarrow> live_frame w2 w3 \<Longrightarrow> live_frame w1 w3"
  by (simp add: live_frame_def)

lemma live_frame_clearCaches:
  assumes "caches_ok w" "\<forall>p \<in> set ps. filts w p \<noteq> None"
  shows "live_frame w (fold (clearCache V) ps w)"
proof -
  note cf = clearCaches_facts[OF assms, of V]
  have "filts (fold (clearCache V) ps w) p = None \<longleftrightarrow> filts w p = None" for p
    using cf by (metis map_option_is_None)
  then show ?thesis using cf by (simp add: live_frame_def clearCaches_next_f)
qed

section \<open>Moving a branch inside the tree\<close>

lemma entry_flat_addrs:
  assumes "(anc, n) \<in> set (entries t)" shows "fst ` set (flat n) \<subseteq> set (addrs t)"
proof -
  have "set (walk anc n) \<subseteq> set (entries t)"
    using subtree_entries(2)[of anc n "[]" "roots t"] assms by (simp add: entries_def)
  then show ?thesis by (auto simp: flat_walk[of n anc] addrs_def)
qed

lemma entry_splice_kept:
  assumes "wf_ptree t" "(anc, n) \<in> set (entries t)" "a \<notin> fst ` set (flat n)"
    "a \<notin> set anc \<or> keeps_below g"
  shows "(anc, n) \<in> set (entries (t\<lparr>roots := splice_at a g (roots t), next_addr := k\<rparr>))"
  using entry_kept[of "roots t" anc n a g] assms wf_ptree_distinct[OF assms(1)] by (simp add: entries_def)

text \<open>
  The common part of both moves: \<open>t1\<close> is \<open>t\<close> with a placeholder below \<open>panc\<close>, the branch \<open>n\<close> is
  copied over the placeholder, and the original is erased.
\<close>

lemma move_facts:
  fixes t :: "'a ptree"
  assumes wf: "wf_ptree t" and mv: "(anc, n) \<in> set (entries t)"
    and t1: "imset t1 = add_mset (rn, x0) (imset t)" "rn = next_addr t" "next_addr t1 = Suc rn"
      "(panc, TNode rn x0 []) \<in> set (entries t1)" "(anc, n) \<in> set (entries t1)"
    and up: "addr n \<notin> set panc"
    and t': "t' = erase (fst (replace t1 rn n)) (addr n)"
  shows "wf_ptree t'" "mset (datas t') = mset (datas t)"
    "\<exists>c. (panc, c) \<in> set (entries t') \<and> map snd (flat c) = map snd (flat n) \<and> tdata c = tdata n"
    "\<And>i. i \<in># imset t \<Longrightarrow> fst i \<notin> fst ` set (flat n) \<Longrightarrow> i \<in># imset t'"
proof -
  have wf1: "wf_ptree t1" using wf_add_item[OF wf t1(1,2)] t1(3) by simp
  obtain t2 ca where rep: "replace t1 rn n = (t2, ca)" by fastforce
  obtain c k' where c: "relabel (next_addr t1) n = (c, k')" by fastforce
  note rl = relabel_facts(1)[OF c]
  have ph: "replace t1 (addr (TNode rn x0 [])) n = (t2, ca)" using rep by simp
  note rf = replace_facts[OF wf1 t1(4) ph c]
  have wf2: "wf_ptree t2" by (rule wf_replace[OF wf1 t1(4) ph])
  have lt: "\<forall>a \<in> fst ` set (flat n). a < rn" "\<forall>a \<in> set anc. a < rn"
    using entry_flat_addrs[OF mv] anc_entry[OF mv] wf t1(2) by (auto simp: wf_ptree_def)
  have t2: "t2 = t1\<lparr>roots := splice_at rn (\<lambda>_. [c]) (roots t1), next_addr := k'\<rparr>"
    using rep c by (auto simp: replace_def)
  have mv2: "(anc, n) \<in> set (entries t2)"
    unfolding t2 using lt by (intro entry_splice_kept[OF wf1 t1(5)]) auto
  have t'2: "t' = erase t2 (addr n)" using t' rep by simp
  show "wf_ptree t'" unfolding t'2 by (rule wf_erase[OF wf2 mv2])
  have im: "imset t' + mset (flat n) = imset t + mset (flat c)"
    using erase_facts(1)[OF wf2 mv2] rf(1) t1(1) t'2 by simp
  show "i \<in># imset t'" if "i \<in># imset t" "fst i \<notin> fst ` set (flat n)" for i
  proof -
    have "i \<in># imset t' + mset (flat n)" using that(1) im by simp
    then show ?thesis using that(2) by auto
  qed
  from im have "image_mset snd (imset t') + mset (map snd (flat n)) = image_mset snd (imset t) + mset (map snd (flat c))"
    by (metis image_mset_union mset_map)
  then show "mset (datas t') = mset (datas t)" using rl by (simp add: mset_datas)
  have "addr n \<in> fst ` set (flat n)" using flat_addr[of n] by force
  moreover have "\<forall>a \<in> fst ` set (flat c). rn < a"
    using rl t1(3) by (metis Suc_le_eq atLeastLessThan_iff list.set_map set_upt)
  ultimately have "addr n \<notin> fst ` set (flat c)" using lt(1) by fastforce
  moreover have "(panc, c) \<in> set (entries t2)" using rf(4) walk_self[of panc c] by auto
  ultimately have "(panc, c) \<in> set (entries t')"
    unfolding t'2 erase_def using entry_splice_kept[OF wf2, of panc c "addr n" "\<lambda>_. []" "next_addr t2"] up by simp
  then show "\<exists>c. (panc, c) \<in> set (entries t') \<and> map snd (flat c) = map snd (flat n) \<and> tdata c = tdata n"
    using rl by auto
qed

text \<open>A filter tree that holds each filter once, no null pointer, and only live filters.\<close>

definition ft_ok :: "'p world \<Rightarrow> filterTree \<Rightarrow> bool" where
  "ft_ok w F \<longleftrightarrow> wf_ptree (ft F) \<and> distinct (datas (ft F)) \<and>
     (\<forall>p \<in> set (datas (ft F)). p \<noteq> 0 \<and> filts w p \<noteq> None)"

lemma ft_ok_entry:
  assumes "ft_ok w F" "f \<in> set (datas (ft F))"
  obtains anc n where "(anc, n) \<in> set (entries (ft F))" "tdata n = f" "find_data (ft F) f = Some (addr n)"
  using assms by (metis datas_entry find_data_unique ft_ok_def)

lemma ft_ok_datas_eq:
  assumes "ft_ok w F" "wf_ptree t'" "mset (datas t') = mset (datas (ft F))"
  shows "distinct (datas t')" "set (datas t') = set (datas (ft F))"
  using assms by (auto simp: ft_ok_def dest: mset_eq_setD mset_eq_imp_distinct_iff)

lemma begin_entry: "tree_begin t = Some b \<Longrightarrow> \<exists>n. ([], n) \<in> set (entries t) \<and> addr n = b"
  by (auto simp: tree_begin_def entries_def split: list.splits intro: walk_self)

lemma append_child_kept:
  assumes "wf_ptree t" "(anc, n) \<in> set (entries t)" "pa \<notin> fst ` set (flat n)" "append_child t pa x = (t1, rn)"
  shows "(anc, n) \<in> set (entries t1)"
  using entry_splice_kept[OF assms(1,2,3)] keeps_below_append[of "[TNode (next_addr t) x []]"] assms(4)
  unfolding append_child_def by blast

lemma insert_after_kept:
  assumes "wf_ptree t" "([], b) \<in> set (entries t)" "(anc, n) \<in> set (entries t)"
    "insert_after t (addr b) x = (t1, rn)"
  shows "(anc, n) \<in> set (entries t1)"
proof -
  let ?g = "\<lambda>n. [n, TNode (next_addr t) x []]"
  have t1: "t1 = t\<lparr>roots := splice_at (addr b) ?g (roots t), next_addr := Suc (next_addr t)\<rparr>"
    using assms(4) by (auto simp: insert_after_def)
  have d: "distinct (addrs t)" using assms(1) by (simp add: wf_ptree_def)
  show ?thesis
  proof (cases "addr b \<in> fst ` set (flat n)")
    case False
    then show ?thesis
      unfolding t1 using keeps_below_after[of "[TNode (next_addr t) x []]"]
      by (intro entry_splice_kept[OF assms(1,3)]) auto
  next
    case True
    then obtain a m where m: "(a, m) \<in> set (walk anc n)" "addr m = addr b"
      by (auto simp: flat_walk[of n anc])
    then have "(a, m) \<in> set (entries t)"
      using subtree_entries(2)[of anc n "[]" "roots t"] assms(3) by (auto simp: entries_def)
    then have "a = []" "m = b" using entries_inj[OF d _ assms(2) m(2)] by auto
    then have "m = n"
      using in_subtree_iff[OF d assms(3,2)] m(1) by auto
    with m(1) \<open>a = []\<close> assms(2,3) have "anc = []" using entries_inj[OF d assms(3,2)] \<open>m = b\<close> by simp
    have "set (walks [] [b, TNode (next_addr t) x []]) \<subseteq> set (entries t1)"
      using walk_splice_new(2)[of "roots t" "[]" b "[]" ?g] wf_ptree_distinct[OF assms(1)] assms(2)
      by (auto simp: entries_def t1)
    then show ?thesis using walk_self[of "[]" b] \<open>m = n\<close> \<open>m = b\<close> \<open>anc = []\<close> by auto
  qed
qed

lemma clone_depthsOf:
  shows "clone_nodes V n w = (c, w') \<Longrightarrow> depthsOf d c = depthsOf d n"
    and "clone_forest V ns w = (cs, w') \<Longrightarrow> depthsOfs d cs = depthsOfs d ns"
  by (induction V n w and V ns w arbitrary: c w' d and cs w' d rule: clone_nodes_clone_forest.induct)
    (auto split: prod.splits)

text \<open>The tree seen through the filters: the parent of a filter and the filters of its branch.\<close>

definition parentOf :: "fptr ptree \<Rightarrow> fptr \<Rightarrow> fptr option" where
  "parentOf t f = (case find_data t f of None \<Rightarrow> None | Some a \<Rightarrow>
     (case tree_parent t a of None \<Rightarrow> None | Some pa \<Rightarrow> map_option (tdata \<circ> snd) (entry_at t pa)))"

definition branchOf :: "fptr ptree \<Rightarrow> fptr \<Rightarrow> fptr list" where
  "branchOf t f = (case find_data t f of None \<Rightarrow> [] | Some a \<Rightarrow> scan_filters t a)"

text \<open>The outline of a branch.\<close>

definition branchOutline :: "fptr ptree \<Rightarrow> fptr \<Rightarrow> (nat \<times> fptr) list" where
  "branchOutline t f = (case find_data t f of None \<Rightarrow> []
     | Some a \<Rightarrow> map (\<lambda>e. (length (fst e), tdata (snd e))) (scan_subtree t a))"

lemma branchOutline_entry:
  assumes "wf_ptree t" "distinct (datas t)" "(anc, n) \<in> set (entries t)"
  shows "branchOutline t (tdata n) = depthList anc [n]"
  using find_data_unique[OF assms(2,3)] scan_subtree_eq[OF _ assms(3)] assms(1)
  by (simp add: branchOutline_def depthList_def wf_ptree_def)

lemma branchOf_entry:
  assumes "wf_ptree t" "distinct (datas t)" "(anc, n) \<in> set (entries t)"
  shows "branchOf t (tdata n) = map snd (flat n)"
  using find_data_unique[OF assms(2,3)] scan_subtree_items[OF _ assms(3)] assms(1)
  by (simp add: branchOf_def scan_filters_def wf_ptree_def)

lemma entry_data:
  assumes "wf_ptree t" "(anc, m) \<in> set (entries t)" "(addr m, x) \<in># imset t"
  shows "tdata m = x"
proof -
  have "(addr m, tdata m) \<in> set (items (roots t))"
    using entry_item[of "(anc, m)" "[]" "roots t"] assms(2) by (simp add: entries_def)
  moreover have "(addr m, x) \<in> set (items (roots t))" using assms(3) by (simp add: imset_def)
  ultimately show ?thesis using wf_ptree_distinct[OF assms(1)] by (meson eq_key_imp_eq_value)
qed

lemma parentOf_root:
  assumes "wf_ptree t" "distinct (datas t)" "([], n) \<in> set (entries t)"
  shows "parentOf t (tdata n) = None"
  using find_data_unique[OF assms(2,3)] entry_at_Some[OF _ assms(3)] assms(1)
  by (simp add: parentOf_def tree_parent_def wf_ptree_def)

lemma parentOf_entry:
  assumes "wf_ptree t" "distinct (datas t)" "(pa # anc, n) \<in> set (entries t)" "(pa, x) \<in># imset t"
  shows "parentOf t (tdata n) = Some x"
proof -
  have d: "distinct (addrs t)" using assms(1) by (simp add: wf_ptree_def)
  have "pa \<in> set (addrs t)" using anc_entry[OF assms(3)] by simp
  then obtain anc' m where m: "(anc', m) \<in> set (entries t)" "addr m = pa"
    by (auto simp: addrs_def)
  then have "entry_at t pa = Some (anc', m)" using entry_at_Some[OF d] by blast
  moreover have "tdata m = x" using entry_data[OF assms(1) m(1)] m(2) assms(4) by simp
  ultimately show ?thesis
    using find_data_unique[OF assms(2,3)] entry_at_Some[OF d assms(3)]
    by (simp add: parentOf_def tree_parent_def)
qed

lemma branch_mem:
  assumes "wf_ptree t" "distinct (datas t)" "(anc, n) \<in> set (entries t)" "(panc, p) \<in> set (entries t)"
  shows "tdata p \<in> set (branchOf t (tdata n)) \<longleftrightarrow> addr p \<in> fst ` set (flat n)"
    "addr p \<in> fst ` set (flat n) \<longleftrightarrow> p = n \<or> addr n \<in> set panc"
proof -
  have d: "distinct (addrs t)" using assms(1) by (simp add: wf_ptree_def)
  have sub: "set (walk anc n) \<subseteq> set (entries t)"
    using subtree_entries(2)[of anc n "[]" "roots t"] assms(3) by (simp add: entries_def)
  have inj: "panc = a \<and> p = m" if "(a, m) \<in> set (entries t)" "tdata m = tdata p \<or> addr m = addr p" for a m
  proof -
    have "addr p = addr m"
      using that(2) find_data_unique[OF assms(2) that(1)] find_data_unique[OF assms(2) assms(4)]
      by (metis option.inject)
    from entries_inj[OF d assms(4) that(1) this] show ?thesis by simp
  qed
  have sn: "set (map snd (flat n)) = (\<lambda>e. tdata (snd e)) ` set (walk anc n)"
  proof -
    have "set (map snd (flat n)) = set (map snd (map (\<lambda>e. (addr (snd e), tdata (snd e))) (walk anc n)))"
      by (simp only: map_walk(1))
    then show ?thesis by (simp add: image_image)
  qed
  have one: "(panc, p) \<in> set (walk anc n)"
    if "e \<in> set (walk anc n)" "tdata (snd e) = tdata p \<or> addr (snd e) = addr p" for e
  proof -
    obtain a m where e: "e = (a, m)" by fastforce
    have "(a, m) \<in> set (entries t)" using that(1) sub e by blast
    moreover have "tdata m = tdata p \<or> addr m = addr p" using that(2) e by simp
    ultimately have "panc = a \<and> p = m" by (rule inj)
    then show ?thesis using that(1) e by simp
  qed
  have "tdata p \<in> set (branchOf t (tdata n)) \<longleftrightarrow> (panc, p) \<in> set (walk anc n)"
    unfolding branchOf_entry[OF assms(1-3)] sn
  proof
    assume "tdata p \<in> (\<lambda>e. tdata (snd e)) ` set (walk anc n)"
    then obtain e where "e \<in> set (walk anc n)" "tdata (snd e) = tdata p" by (metis imageE)
    then show "(panc, p) \<in> set (walk anc n)" by (intro one) auto
  next
    assume "(panc, p) \<in> set (walk anc n)"
    then show "tdata p \<in> (\<lambda>e. tdata (snd e)) ` set (walk anc n)"
      by (rule rev_image_eqI) simp
  qed
  moreover have "addr p \<in> fst ` set (flat n) \<longleftrightarrow> (panc, p) \<in> set (walk anc n)"
    unfolding flat_walk[of n anc]
  proof
    assume "addr p \<in> (\<lambda>e. addr (snd e)) ` set (walk anc n)"
    then obtain e where "e \<in> set (walk anc n)" "addr (snd e) = addr p" by (metis imageE)
    then show "(panc, p) \<in> set (walk anc n)" by (intro one) auto
  next
    assume "(panc, p) \<in> set (walk anc n)"
    then show "addr p \<in> (\<lambda>e. addr (snd e)) ` set (walk anc n)"
      by (rule rev_image_eqI) simp
  qed
  ultimately show "tdata p \<in> set (branchOf t (tdata n)) \<longleftrightarrow> addr p \<in> fst ` set (flat n)"
    "addr p \<in> fst ` set (flat n) \<longleftrightarrow> p = n \<or> addr n \<in> set panc"
    using in_subtree_iff[OF d assms(3,4)] by auto
qed

lemma reparentFilter_core:
  assumes ok: "ft_ok w F" and f: "f \<in> set (datas (ft F))" and p: "p \<in> set (datas (ft F))"
    and step: "reparentFilter V F f p w = (F', w', moved)"
  shows "(moved \<longleftrightarrow> p \<notin> set (branchOf (ft F) f)) \<and> (\<not> moved \<longrightarrow> F' = F \<and> w' = w) \<and>
    (moved \<longrightarrow> wf_ptree (ft F') \<and> mset (datas (ft F')) = mset (datas (ft F)) \<and>
       parentOf (ft F') f = Some p \<and> branchOf (ft F') f = branchOf (ft F) f \<and>
       (filter_init (v_initFilter V) \<longrightarrow> caches_ok w \<longrightarrow> live_frame w w'))"
proof -
  obtain anc n where n: "(anc, n) \<in> set (entries (ft F))" "tdata n = f" "find_data (ft F) f = Some (addr n)"
    using ft_ok_entry[OF ok f] .
  obtain panc pn where pn: "(panc, pn) \<in> set (entries (ft F))" "tdata pn = p" "find_data (ft F) p = Some (addr pn)"
    using ft_ok_entry[OF ok p] .
  have wf: "wf_ptree (ft F)" and dd: "distinct (datas (ft F))" and p0: "p \<noteq> 0"
    using ok p by (auto simp: ft_ok_def)
  have d: "distinct (addrs (ft F))" using wf by (simp add: wf_ptree_def)
  note mem = branch_mem[OF wf dd n(1) pn(1)]
  have scan: "addr pn \<in> set (map (addr \<circ> snd) (scan_subtree (ft F) (addr n))) \<longleftrightarrow> p \<in> set (branchOf (ft F) f)"
    using mem(1) n pn scan_subtree_eq[OF d n(1)] by (auto simp: flat_walk[of n anc])
  show ?thesis
  proof (cases "p \<in> set (branchOf (ft F) f)")
    case True
    then show ?thesis using step n pn p0 scan by (auto simp: reparentFilter_def)
  next
    case False
    then have out: "addr pn \<notin> fst ` set (flat n)" "addr n \<notin> set (addr pn # panc)"
      using mem n pn entries_inj[OF d n(1) pn(1)] by auto
    obtain t1 rn where t1: "append_child (ft F) (addr pn) 0 = (t1, rn)" by fastforce
    note af = append_child_facts[OF wf pn(1) t1]
    have kept: "(anc, n) \<in> set (entries t1)" by (rule append_child_kept[OF wf n(1) out(1) t1])
    have "wf_ptree t1" using wf_add_item[OF wf af(1,2)] af(2,3) by simp
    then have "entry_at t1 (addr n) = Some (anc, n)" using entry_at_Some kept by (auto simp: wf_ptree_def)
    then have F': "ft F' = erase (fst (replace t1 rn n)) (addr n)" and m: moved
      using step n(3) pn(3) p0 scan False t1 by (auto simp: reparentFilter_def Let_def split: if_splits)
    note mf = move_facts[OF wf n(1) af(1,2) _ af(4) kept out(2) F']
    obtain c where c: "(addr pn # panc, c) \<in> set (entries (ft F'))" "map snd (flat c) = map snd (flat n)" "tdata c = tdata n"
      using mf(3) af(2,3) by auto
    have w': "wf_ptree (ft F')" "mset (datas (ft F')) = mset (datas (ft F))" using mf(1,2) af(2,3) by auto
    note dd' = ft_ok_datas_eq(1)[OF ok w']
    have "(addr pn, p) \<in># imset (ft F)"
      using entry_item[of "(panc, pn)" "[]" "roots (ft F)"] pn by (simp add: imset_def entries_def)
    then have "(addr pn, p) \<in># imset (ft F')" using mf(4)[of "(addr pn, p)"] out(1) af(2,3) by auto
    from parentOf_entry[OF w'(1) dd' c(1) this] have "parentOf (ft F') f = Some p" using c(3) n(2) by simp
    moreover have "branchOf (ft F') f = branchOf (ft F) f"
      using branchOf_entry[OF w'(1) dd' c(1)] branchOf_entry[OF wf dd n(1)] c n by simp
    moreover have "live_frame w w'" if init: "filter_init (v_initFilter V)" and co: "caches_ok w"
    proof -
      let ?l = "reparentCacheList (ft F) (addr n) @ [f]"
      have st: "w' = initFilterTree V (ft F') (fold (clearCache V) ?l w)"
        using step n(3) pn(3) p0 scan False t1 F' \<open>entry_at t1 (addr n) = Some (anc, n)\<close>
        by (auto simp: reparentFilter_def Let_def clearCaches_def split: if_splits)
      have "set ?l \<subseteq> set (datas (ft F))"
        using f by (auto simp: reparentCacheList_def scan_from_def datas_def split: option.splits dest!: set_dropWhileD)
      then have "\<forall>p \<in> set ?l. filts w p \<noteq> None" using ok by (auto simp: ft_ok_def)
      from live_frame_clearCaches[OF co this, of V] have cl: "live_frame w (fold (clearCache V) ?l w)" .
      have "set (datas (ft F')) = set (datas (ft F))" using w'(2) by (rule mset_eq_setD)
      then have "\<forall>p \<in> set (datas (ft F')). filts (fold (clearCache V) ?l w) p \<noteq> None"
        using cl ok by (simp add: live_frame_def ft_ok_def)
      from filter_init.initFilterTree_frame[OF init refl this]
      have "live_frame (fold (clearCache V) ?l w) w'" unfolding st by (rule frame_live_frame)
      then show ?thesis by (rule live_frame_trans[OF cl])
    qed
    ultimately show ?thesis using False m w' by simp
  qed
qed


section \<open>Removing, adding, copying\<close>

lemma erase_erase_children:
  fixes t :: "'a ptree" shows "erase (erase_children t a) a = erase t a"
proof -
  let ?g = "\<lambda>n. [TNode (addr n) (tdata n) []]"
  have "splice_at a (\<lambda>_. []) (splice_node a ?g n) = splice_node a (\<lambda>_. []) n"
    and "splice_at a (\<lambda>_. []) (splice_at a ?g ns) = splice_at a (\<lambda>_. []) ns" for n :: "'a tnode" and ns :: "'a tnode list"
    by (induction n and ns rule: flat_items.induct) auto
  then show ?thesis by (simp add: erase_def erase_children_def)
qed

lemma frame_world_filters: "frame w w' \<Longrightarrow> filts w' p = None \<longleftrightarrow> filts w p = None"
  by (simp add: frame_def)

lemma removeSubtree_core:
  assumes "filter_init (v_initFilter V)" "ft_ok w F" "caches_ok w" "f \<in> set (datas (ft F))"
    and step: "removeSubtree V F f w = (F', w')"
  shows "mset (datas (ft F)) = mset (datas (ft F')) + mset (branchOf (ft F) f) \<and>
    (\<forall>p. filts w' p = None \<longleftrightarrow> filts w p = None \<or> p \<in> set (branchOf (ft F) f)) \<and>
    ub w' = ub w \<and> ft_ok w' F' \<and> caches_ok w' \<and> next_f w' = next_f w"
proof -
  let ?b = "branchOf (ft F) f"
  obtain anc n where n: "(anc, n) \<in> set (entries (ft F))" "tdata n = f" "find_data (ft F) f = Some (addr n)"
    using ft_ok_entry[OF assms(2,4)] .
  have wf: "wf_ptree (ft F)" and dd: "distinct (datas (ft F))" using assms(2) by (auto simp: ft_ok_def)
  have b: "?b = map snd (flat n)" using branchOf_entry[OF wf dd n(1)] n(2) by simp
  have sf: "scan_filters (ft F) (addr n) = ?b" using n(3) by (simp add: branchOf_def)
  have F': "ft F' = erase (ft F) (addr n)" and w': "w' = initFilterTree V (ft F') (deleteFilters ?b w)"
    using step n(3) sf by (auto simp: removeSubtree_def erase_erase_children)
  have "image_mset snd (imset (ft F')) + mset (map snd (flat n)) = image_mset snd (imset (ft F))"
    using erase_facts(1)[OF wf n(1)] F' by (metis image_mset_union mset_map)
  then have ms: "mset (datas (ft F)) = mset (datas (ft F')) + mset ?b" by (simp add: b mset_datas)
  have d2: "distinct (datas (ft F') @ ?b)" using ms dd by (metis mset_append mset_eq_imp_distinct_iff)
  have sub: "set (datas (ft F)) = set (datas (ft F')) \<union> set ?b"
    using arg_cong[OF ms, of set_mset] by simp
  have "\<forall>p \<in> set ?b. p \<noteq> 0 \<and> filts w p \<noteq> None" using assms(2) sub by (auto simp: ft_ok_def)
  with deleteFilters_facts[OF assms(3)] d2
  have del: "ub (deleteFilters ?b w) = ub w" "caches_ok (deleteFilters ?b w)"
    "filts (deleteFilters ?b w) = (\<lambda>p. if p \<in> set ?b then None else filts w p)" by auto
  have live: "\<forall>p \<in> set (datas (ft F')). filts (deleteFilters ?b w) p \<noteq> None \<and> p \<noteq> 0"
    using assms(2) sub d2 by (auto simp: ft_ok_def del(3))
  then have fr: "frame (deleteFilters ?b w) w'"
    using filter_init.initFilterTree_frame[OF assms(1) refl, of "ft F'"] unfolding w' by blast
  note frame_caches_ok[OF this del(2)]
  have "wf_ptree (ft F')" using wf_erase[OF wf n(1)] F' by simp
  then have "ft_ok w' F'" using live d2 fr(1) by (auto simp: ft_ok_def frame_def)
  moreover have "next_f w' = next_f w" using fr by (simp add: frame_def deleteFilters_next_f)
  ultimately show ?thesis using ms fr del(1,3) \<open>caches_ok w'\<close> by (auto simp: frame_def)
qed

lemma removeSubtree_detail:
  assumes "filter_init (v_initFilter V)" "ft_ok w F" "caches_ok w" "f \<in> set (datas (ft F))"
    and step: "removeSubtree V F f w = (F', w')"
  shows "outline (ft F') = filter (\<lambda>(d, p). p \<notin> set (branchOf (ft F) f)) (outline (ft F)) \<and>
    (\<forall>p. p \<notin> set (branchOf (ft F) f) \<longrightarrow> haveCache w' p = haveCache w p \<and> outputs_of w' p = outputs_of w p \<and>
      (\<forall>s \<in> set (outputs_of w p). strms w' s = strms w s))"
proof -
  let ?b = "branchOf (ft F) f"
  let ?w1 = "deleteFilters ?b w"
  obtain anc n where n: "(anc, n) \<in> set (entries (ft F))" "tdata n = f" "find_data (ft F) f = Some (addr n)"
    using ft_ok_entry[OF assms(2,4)] .
  have wf: "wf_ptree (ft F)" and dd: "distinct (datas (ft F))" using assms(2) by (auto simp: ft_ok_def)
  have b: "?b = map snd (flat n)" using branchOf_entry[OF wf dd n(1)] n(2) by simp
  have sf: "scan_filters (ft F) (addr n) = ?b" using n(3) by (simp add: branchOf_def)
  have F': "ft F' = erase (ft F) (addr n)" and w': "w' = initFilterTree V (ft F') ?w1"
    using step n(3) sf by (auto simp: removeSubtree_def erase_erase_children)
  note core = removeSubtree_core[OF assms]
  obtain pre post where o: "outline (ft F) = pre @ depthList anc [n] @ post" "outline (ft F') = pre @ post"
    using splice_outline[OF wf n(1), of "ft F'" "\<lambda>_. []"] F' by (auto simp: erase_def)
  have split: "datas (ft F) = map snd pre @ ?b @ map snd post"
    using arg_cong[OF o(1), of "map snd"] depthList_data[of anc "[n]"] b by (simp add: outline_datas)
  then have out: "\<forall>x \<in> set pre \<union> set post. snd x \<notin> set ?b" using dd by auto
  moreover have "\<forall>x \<in> set (depthList anc [n]). snd x \<in> set ?b"
    using depthList_data[of anc "[n]"] b by (metis append_Nil2 image_eqI items.simps(1,2) list.set_map)
  ultimately have "outline (ft F') = filter (\<lambda>(d, p). p \<notin> set ?b) (outline (ft F))"
    unfolding o filter_append by (simp add: split_beta filter_True filter_False)
  moreover have bl: "distinct ?b" "\<forall>p \<in> set ?b. p \<noteq> 0 \<and> filts w p \<noteq> None"
    using dd assms(2) split by (auto simp: ft_ok_def)
  note del = deleteFilters_facts[OF assms(3) bl]
  have "\<forall>p \<in> set (datas (ft F')). filts ?w1 p \<noteq> None"
    using assms(2) split out arg_cong[OF o(2), of "map snd"] del by (auto simp: outline_datas ft_ok_def)
  then have fr: "frame ?w1 w'"
    using filter_init.initFilterTree_frame[OF assms(1) refl, of "ft F'"] unfolding w' by blast
  have "haveCache w' p = haveCache w p \<and> outputs_of w' p = outputs_of w p \<and>
      (\<forall>s \<in> set (outputs_of w p). strms w' s = strms w s)" if "p \<notin> set ?b" for p
  proof -
    have f1: "haveCache ?w1 p = haveCache w p" "outputs_of ?w1 p = outputs_of w p"
      using del that by (simp_all add: haveCache_def outputs_of_def get_filt_def)
    have "streamCached ?w1 s" if "s \<in> set (outputs_of w p)" for s
      using del that f1(2) unfolding caches_ok_def by metis
    then have "strms w' s = strms w s" if "s \<in> set (outputs_of w p)" for s
      using fr that deleteFilters_strms[OF assms(3) bl \<open>p \<notin> set ?b\<close> that] by (simp add: frame_def)
    then show ?thesis using fr f1 by (simp add: frame_def)
  qed
  ultimately show ?thesis by blast
qed

text \<open>
  Property C22. Removing a filter takes exactly its branch out of the tree, whose other filters keep their places, order
  and depths, and frees exactly the filters of that branch, each once, together with their cached streams. Every
  other filter keeps its cache, with the same cached streams and these unchanged, and the tree remains well formed.
\<close>

theorem removeSubtree_exact:
  assumes "filter_init (v_initFilter V)" "ft_ok w F" "caches_ok w" "f \<in> set (datas (ft F))"
    and step: "removeSubtree V F f w = (F', w')"
  shows "outline (ft F') = filter (\<lambda>(d, p). p \<notin> set (branchOf (ft F) f)) (outline (ft F)) \<and>
    (\<forall>p. filts w' p = None \<longleftrightarrow> filts w p = None \<or> p \<in> set (branchOf (ft F) f)) \<and>
    (\<forall>p. p \<notin> set (branchOf (ft F) f) \<longrightarrow> haveCache w' p = haveCache w p \<and> outputs_of w' p = outputs_of w p \<and>
      (\<forall>s \<in> set (outputs_of w p). strms w' s = strms w s)) \<and>
    ub w' = ub w \<and> ft_ok w' F' \<and> caches_ok w'"
  using removeSubtree_core[OF assms(1-4) step] removeSubtree_detail[OF assms(1-4) step] by blast

lemma add_facts:
  assumes "ft_ok w F" "filter_init (v_initFilter V)" "f \<noteq> 0" "f \<notin> set (datas (ft F))" "filts w f \<noteq> None"
    and t': "imset t' = add_mset (a, f) (imset (ft F))" "a = next_addr (ft F)" "next_addr t' = Suc a"
  shows "wf_ptree t'" "mset (datas t') = add_mset f (mset (datas (ft F)))"
    "frame w (initFilterTree V t' w)" "ft_ok (initFilterTree V t' w) (F\<lparr>ft := t'\<rparr>)"
proof -
  show wf: "wf_ptree t'" using wf_add_item[of "ft F" t' a f] assms(1) t' by (simp add: ft_ok_def)
  show ms: "mset (datas t') = add_mset f (mset (datas (ft F)))" using t'(1) by (simp add: mset_datas)
  then have d: "distinct (datas t')" "set (datas t') = insert f (set (datas (ft F)))"
    using assms(1,4) mset_eq_imp_distinct_iff[of "datas t'" "f # datas (ft F)"] mset_eq_setD[of "datas t'" "f # datas (ft F)"]
    by (auto simp: ft_ok_def)
  then have live: "\<forall>p \<in> set (datas t'). p \<noteq> 0 \<and> filts w p \<noteq> None" using assms by (auto simp: ft_ok_def)
  then show fr: "frame w (initFilterTree V t' w)"
    using filter_init.initFilterTree_frame[OF assms(2) refl] by blast
  show "ft_ok (initFilterTree V t' w) (F\<lparr>ft := t'\<rparr>)"
    using wf d(1) live fr by (auto simp: ft_ok_def frame_def)
qed

lemma addFilter_core:
  assumes ok: "ft_ok w F" and init: "filter_init (v_initFilter V)"
    and f: "f \<noteq> 0" "f \<notin> set (datas (ft F))" "filts w f \<noteq> None"
    and p: "p = 0 \<or> p \<in> set (datas (ft F))" and step: "addFilter V F f p w = (F', w')"
  shows "mset (datas (ft F')) = add_mset f (mset (datas (ft F))) \<and>
    parentOf (ft F') f = (if p = 0 then None else Some p) \<and> branchOf (ft F') f = [f] \<and>
    ft_ok w' F' \<and> frame w w'"
proof -
  have wf: "wf_ptree (ft F)" using ok by (simp add: ft_ok_def)
  show ?thesis
  proof (cases "p = 0")
    case True
    have "\<exists>t' a. F' = F\<lparr>ft := t'\<rparr> \<and> w' = initFilterTree V t' w \<and> imset t' = add_mset (a, f) (imset (ft F)) \<and>
      a = next_addr (ft F) \<and> next_addr t' = Suc a \<and> ([], TNode a f []) \<in> set (entries t')"
    proof (cases "tree_begin (ft F)")
      case None
      obtain t' a where t': "tree_insert (ft F) (tree_begin (ft F)) f = (t', a)" by fastforce
      show ?thesis
        using insert_begin_facts[OF wf t'] step True None t'
        by (intro exI[of _ t'] exI[of _ a]) (auto simp: addFilter_def Let_def)
    next
      case (Some b)
      then obtain bn where bn: "([], bn) \<in> set (entries (ft F))" "addr bn = b" using begin_entry by blast
      obtain t' a where t': "insert_after (ft F) (addr bn) f = (t', a)" by fastforce
      show ?thesis
        using insert_after_facts[OF wf bn(1) t'] step True Some t' bn(2)
        by (intro exI[of _ t'] exI[of _ a]) (auto simp: addFilter_def Let_def)
    qed
    then obtain t' a where t': "F' = F\<lparr>ft := t'\<rparr>" "w' = initFilterTree V t' w"
      "imset t' = add_mset (a, f) (imset (ft F))" "a = next_addr (ft F)" "next_addr t' = Suc a"
      "([], TNode a f []) \<in> set (entries t')" by blast
    note ad = add_facts[OF ok init f t'(3,4,5)]
    have "distinct (datas t')" using ad(4) by (simp add: ft_ok_def)
    then show ?thesis
      using ad t' True parentOf_root[OF ad(1) _ t'(6)] branchOf_entry[OF ad(1) _ t'(6)] by auto
  next
    case False
    then obtain panc pn where pn: "(panc, pn) \<in> set (entries (ft F))" "tdata pn = p" "find_data (ft F) p = Some (addr pn)"
      using ft_ok_entry[OF ok] p by metis
    obtain t' a where ac: "append_child (ft F) (addr pn) f = (t', a)" by fastforce
    note af = append_child_facts[OF wf pn(1) ac]
    have t': "F' = F\<lparr>ft := t'\<rparr>" "w' = initFilterTree V t' w"
      using step False pn(3) ac by (auto simp: addFilter_def Let_def)
    note ad = add_facts[OF ok init f af(1,2,3)]
    have dd: "distinct (datas t')" using ad(4) by (simp add: ft_ok_def)
    have "(addr pn, p) \<in># imset (ft F)"
      using entry_item[of "(panc, pn)" "[]" "roots (ft F)"] pn by (simp add: imset_def entries_def)
    then have "(addr pn, p) \<in># imset t'" using af(1) by simp
    then show ?thesis
      using ad t' False dd parentOf_entry[OF ad(1) dd af(4)] branchOf_entry[OF ad(1) dd af(4)] by simp
  qed
qed

text \<open>
  Adding a live filter that is not in the tree puts it, without children, below the
  given parent, or among the base filters when no parent is given; the tree keeps its other
  filters and remains well formed, and no filter or cache is lost.
\<close>

theorem addFilter_placed:
  assumes ok: "ft_ok w F" and init: "filter_init (v_initFilter V)"
    and f: "f \<noteq> 0" "f \<notin> set (datas (ft F))" "filts w f \<noteq> None"
    and p: "p = 0 \<or> p \<in> set (datas (ft F))" and step: "addFilter V F f p w = (F', w')"
  shows "mset (datas (ft F')) = add_mset f (mset (datas (ft F))) \<and>
    parentOf (ft F') f = (if p = 0 then None else Some p) \<and> branchOf (ft F') f = [f] \<and>
    ft_ok w' F' \<and> frame w w'"
  by (rule addFilter_core[OF ok init f p step])

text \<open>Allocating new filters leaves the old ones alone.\<close>

definition frame_old :: "'p world \<Rightarrow> 'p world \<Rightarrow> bool" where
  "frame_old w w' \<longleftrightarrow> ub w' = ub w \<and> strms w' = strms w \<and> (\<forall>p < next_f w. filts w' p = filts w p)"

lemma world_ok_live: "world_ok w \<Longrightarrow> filts w p \<noteq> None \<Longrightarrow> p < next_f w"
  by (meson not_le world_ok_def)

lemma clone_forest_facts:
  fixes n :: "fptr tnode" and ns :: "fptr tnode list"
  shows "world_ok w \<Longrightarrow> \<forall>p \<in> snd ` set (flat n). filts w p \<noteq> None \<Longrightarrow> clone_nodes V n w = (n', w') \<Longrightarrow>
      map fst (flat n') = map fst (flat n) \<and> map snd (flat n') = [next_f w..<next_f w'] \<and> addr n' = addr n \<and>
      next_f w < next_f w' \<and> world_ok w' \<and> frame_old w w' \<and>
      map (filts w') (map snd (flat n')) = map (map_option (clone_of V) \<circ> filts w) (map snd (flat n))"
    and "world_ok w \<Longrightarrow> \<forall>p \<in> snd ` set (items ns). filts w p \<noteq> None \<Longrightarrow> clone_forest V ns w = (ns', w') \<Longrightarrow>
      map fst (items ns') = map fst (items ns) \<and> map snd (items ns') = [next_f w..<next_f w'] \<and>
      next_f w \<le> next_f w' \<and> world_ok w' \<and> frame_old w w' \<and>
      map (filts w') (map snd (items ns')) = map (map_option (clone_of V) \<circ> filts w) (map snd (items ns))"
proof (induction V n w and V ns w arbitrary: n' w' and ns' w' rule: clone_nodes_clone_forest.induct)
  case (1 V a p ks w)
  obtain f where f: "filts w p = Some f" using 1(3) by auto
  obtain q w1 where q: "cloneUncached V p w = (q, w1)" by fastforce
  obtain ks' where ks': "clone_forest V ks w1 = (ks', w')" "n' = TNode a q ks'"
    using 1(4) q by (auto split: prod.splits)
  note cf = cloneUncached_facts[OF 1(2) f q]
  have old: "filts w1 x = filts w x" if "x < next_f w" for x using that cf(1,3) by simp
  have live: "\<forall>x \<in> snd ` set (items ks). x < next_f w" using 1(3) world_ok_live[OF 1(2)] by simp
  then have "\<forall>x \<in> snd ` set (items ks). filts w1 x \<noteq> None" using 1(3) old by simp
  from 1(1)[OF q[symmetric] refl cf(6) this ks'(1)]
  have IH: "map fst (items ks') = map fst (items ks)" "map snd (items ks') = [next_f w1..<next_f w']"
    "next_f w1 \<le> next_f w'" "world_ok w'" "frame_old w1 w'"
    "map (filts w') (map snd (items ks')) = map (map_option (clone_of V) \<circ> filts w1) (map snd (items ks))"
    by blast+
  have "filts w' q = Some (clone_of V f)" using IH(5) cf(1-3) by (simp add: frame_old_def)
  moreover have "map (map_option (clone_of V) \<circ> filts w1) (map snd (items ks)) =
      map (map_option (clone_of V) \<circ> filts w) (map snd (items ks))"
    using live old by simp
  ultimately have "map (filts w') (q # map snd (items ks')) =
      map (map_option (clone_of V) \<circ> filts w) (p # map snd (items ks))"
    using f by (simp only: list.map IH(6) comp_apply option.map)
  then have m: "map (filts w') (map snd (flat n')) =
      map (map_option (clone_of V) \<circ> filts w) (map snd (flat (TNode a p ks)))"
    by (simp only: ks'(2) flat.simps list.map snd_conv)
  have fo: "frame_old w w'" using IH(5) cf old by (simp add: frame_old_def)
  have "q # [next_f w1..<next_f w'] = [next_f w..<next_f w']"
    using cf(1,2) IH(3) by (simp add: upt_conv_Cons)
  then have up: "map snd (flat n') = [next_f w..<next_f w']" using IH(2) ks'(2) by simp
  have "map fst (flat n') = map fst (flat (TNode a p ks))" "addr n' = addr (TNode a p ks)"
    "next_f w < next_f w'" using IH(1,3) ks'(2) cf(1,2) by simp_all
  with m fo up IH(4) show ?case by (intro conjI)
next
  case (3 V n ns w)
  obtain n1 w1 where n1: "clone_nodes V n w = (n1, w1)" by fastforce
  obtain ns1 where ns1: "clone_forest V ns w1 = (ns1, w')" "ns' = n1 # ns1"
    using 3(5) n1 by (auto split: prod.splits)
  have "\<forall>p \<in> snd ` set (flat n). filts w p \<noteq> None" using 3(4) by auto
  from 3(1)[OF 3(3) this n1]
  have A: "map fst (flat n1) = map fst (flat n)" "map snd (flat n1) = [next_f w..<next_f w1]"
    "next_f w < next_f w1" "world_ok w1" "frame_old w w1"
    "map (filts w1) (map snd (flat n1)) = map (map_option (clone_of V) \<circ> filts w) (map snd (flat n))"
    by blast+
  have live: "\<forall>x \<in> snd ` set (items ns). x < next_f w" using 3(4) world_ok_live[OF 3(3)] by auto
  have old: "filts w1 x = filts w x" if "x < next_f w" for x using that A(5) by (simp add: frame_old_def)
  have "\<forall>x \<in> snd ` set (items ns). filts w1 x \<noteq> None" using 3(4) live old by auto
  from 3(2)[OF n1[symmetric] refl A(4) this ns1(1)]
  have B: "map fst (items ns1) = map fst (items ns)" "map snd (items ns1) = [next_f w1..<next_f w']"
    "next_f w1 \<le> next_f w'" "world_ok w'" "frame_old w1 w'"
    "map (filts w') (map snd (items ns1)) = map (map_option (clone_of V) \<circ> filts w1) (map snd (items ns))"
    by blast+
  have "map (filts w') (map snd (flat n1)) = map (filts w1) (map snd (flat n1))"
    using B(5) by (simp add: A(2) frame_old_def)
  moreover have "map (map_option (clone_of V) \<circ> filts w1) (map snd (items ns)) =
      map (map_option (clone_of V) \<circ> filts w) (map snd (items ns))"
    using live old by simp
  ultimately have m: "map (filts w') (map snd (items ns')) =
      map (map_option (clone_of V) \<circ> filts w) (map snd (items (n # ns)))"
    by (simp only: ns1(2) items.simps map_append A(6) B(6))
  have fo: "frame_old w w'" using A(3,5) B(5) by (simp add: frame_old_def)
  have "[next_f w..<next_f w1] @ [next_f w1..<next_f w'] = [next_f w..<next_f w']"
    using A(3) B(3) upt_add_eq_append[of "next_f w" "next_f w1" "next_f w' - next_f w1"] by simp
  then have up: "map snd (items ns') = [next_f w..<next_f w']" using A(2) B(2) ns1(2) by simp
  have "map fst (items ns') = map fst (items (n # ns))" "next_f w \<le> next_f w'"
    using A(1,3) B(1,3) ns1(2) by simp_all
  with m fo up B(4) show ?case by (intro conjI)
qed (simp add: frame_old_def)

lemma cloneBranch_facts:
  assumes "world_ok w" "\<forall>p \<in> snd ` set (flat n). filts w p \<noteq> None" "cloneBranch V n w = (tmp, w1)"
  shows "\<exists>c. roots tmp = [c] \<and> map snd (flat c) = [next_f w..<next_f w1] \<and>
    length (flat c) = length (flat n)" "world_ok w1" "frame_old w w1" "next_f w < next_f w1"
    "map (filts w1) [next_f w..<next_f w1] = map (map_option (clone_of V) \<circ> filts w) (map snd (flat n))"
proof -
  obtain c k where c: "relabel (Suc 1) n = (c, k)" by fastforce
  note rl = relabel_facts(1)[OF c]
  obtain c' where c': "clone_nodes V c w = (c', w1)" "roots tmp = [c']"
    using assms(3) c by (auto simp: cloneBranch_def tree_insert_def tree_begin_def empty_ptree_def
        replace_def cloneAll_def Let_def split: prod.splits)
  have sn: "snd ` set (flat c) = snd ` set (flat n)" using rl by (metis list.set_map)
  note cf = clone_forest_facts(1)[OF assms(1) _ c'(1)]
  have cl: "map snd (flat c') = [next_f w..<next_f w1]" "next_f w < next_f w1" "world_ok w1" "frame_old w w1"
    "map (filts w1) (map snd (flat c')) = map (map_option (clone_of V) \<circ> filts w) (map snd (flat c))"
    "map fst (flat c') = map fst (flat c)"
    using cf assms(2) sn by (blast, blast, blast, blast, metis, metis)
  have "length (flat c') = length (flat n)"
    using arg_cong[OF cl(6), of length] arg_cong[OF conjunct1[OF conjunct2[OF rl]], of length] by simp
  then show "\<exists>c. roots tmp = [c] \<and> map snd (flat c) = [next_f w..<next_f w1] \<and>
    length (flat c) = length (flat n)" using c'(2) cl(1) by blast
  show "world_ok w1" "frame_old w w1" "next_f w < next_f w1" by (rule cl)+
  show "map (filts w1) [next_f w..<next_f w1] = map (map_option (clone_of V) \<circ> filts w) (map snd (flat n))"
    using cl(1,5) rl by metis
qed

lemma graft_facts:
  assumes "wf_ptree t" "imset t1 = add_mset (rn, 0) (imset t)" "rn = next_addr t" "next_addr t1 = Suc rn"
    "(panc, TNode rn 0 []) \<in> set (entries t1)" "roots tmp = [c]" "t' = graft (t1, rn) tmp"
  shows "wf_ptree t'" "mset (datas t') = mset (datas t) + mset (map snd (flat c))"
    "\<exists>d. (panc, d) \<in> set (entries t') \<and> map snd (flat d) = map snd (flat c) \<and> tdata d = tdata c"
    "imset t \<subseteq># imset t'"
proof -
  have wf1: "wf_ptree t1" using wf_add_item[OF assms(1,2,3)] assms(4) by simp
  obtain t2 a where rep: "replace t1 rn c = (t2, a)" by fastforce
  then have ph: "replace t1 (addr (TNode rn 0 [])) c = (t2, a)" by simp
  obtain d k where d: "relabel (next_addr t1) c = (d, k)" by fastforce
  note rl = relabel_facts(1)[OF d]
  note rf = replace_facts[OF wf1 assms(5) ph d]
  have t': "t' = t2" using assms(6,7) rep by (simp add: graft_def)
  show "wf_ptree t'" unfolding t' by (rule wf_replace[OF wf1 assms(5) ph])
  have im: "imset t' = imset t + mset (flat d)" using rf(1) assms(2) t' by simp
  then show "imset t \<subseteq># imset t'" by simp
  have "map snd (flat d) = map snd (flat c)" using rl by blast
  then show "mset (datas t') = mset (datas t) + mset (map snd (flat c))"
    unfolding mset_datas im by (metis image_mset_union mset_map)
  show "\<exists>d. (panc, d) \<in> set (entries t') \<and> map snd (flat d) = map snd (flat c) \<and> tdata d = tdata c"
    using rf(4) walk_self[of panc d] rl t' by auto
qed

lemma copyFilter_fresh:
  assumes ok: "ft_ok w F" and wo: "world_ok w" and init: "filter_init (v_initFilter V)"
    and f: "f \<in> set (datas (ft F))" and p: "p \<in> set (datas (ft F))"
    and step: "copyFilter V F f p w = (F', w', copied)"
  shows "(copied \<longleftrightarrow> p \<notin> set (branchOf (ft F) f)) \<and> (\<not> copied \<longrightarrow> F' = F \<and> w' = w) \<and>
    (copied \<longrightarrow> (\<exists>q qs. q = next_f w \<and> (\<forall>x \<in> set (q # qs). filts w x = None \<and> filts w' x \<noteq> None) \<and> distinct (q # qs) \<and>
        length (q # qs) = length (branchOf (ft F) f) \<and> branchOf (ft F') q = q # qs \<and>
        parentOf (ft F') q = Some p \<and> mset (datas (ft F')) = mset (datas (ft F)) + mset (q # qs)) \<and>
      ub w' = ub w \<and> ft_ok w' F' \<and> world_ok w' \<and> (\<forall>x. filts w x \<noteq> None \<longrightarrow> filts w' x \<noteq> None))"
proof -
  obtain anc n where n: "(anc, n) \<in> set (entries (ft F))" "tdata n = f" "find_data (ft F) f = Some (addr n)"
    using ft_ok_entry[OF ok f] .
  obtain panc pn where pn: "(panc, pn) \<in> set (entries (ft F))" "tdata pn = p" "find_data (ft F) p = Some (addr pn)"
    using ft_ok_entry[OF ok p] .
  have wf: "wf_ptree (ft F)" and dd: "distinct (datas (ft F))" and p0: "p \<noteq> 0"
    using ok p by (auto simp: ft_ok_def)
  have d: "distinct (addrs (ft F))" using wf by (simp add: wf_ptree_def)
  have br: "branchOf (ft F) f = map snd (flat n)" using branchOf_entry[OF wf dd n(1)] n(2) by simp
  have ic: "isChild (ft F) (addr n) (addr pn) \<longleftrightarrow> addr n \<in> set panc"
    using entry_at_Some[OF d pn(1)] by (simp add: isChild_def list_ex_iff)
  have refuse: "addr pn = addr n \<or> isChild (ft F) (addr n) (addr pn) \<longleftrightarrow> p \<in> set (branchOf (ft F) f)"
    using branch_mem[OF wf dd n(1) pn(1)] n(2) pn(2) ic entries_inj[OF d n(1) pn(1)] by metis
  show ?thesis
  proof (cases "p \<in> set (branchOf (ft F) f)")
    case True
    then show ?thesis using step n(3) pn(3) p0 refuse by (auto simp: copyFilter_def split: if_splits)
  next
    case False
    obtain t1 rn where t1: "append_child (ft F) (addr pn) 0 = (t1, rn)" by fastforce
    obtain tmp w1 where cb: "cloneBranch V n w = (tmp, w1)" by fastforce
    define t' where "t' = graft (t1, rn) tmp"
    have res: "ft F' = t'" "w' = initFilterTree V t' w1" copied
      using step n(3) pn(3) p0 refuse False t1 cb entry_at_Some[OF d n(1)]
      by (auto simp: copyFilter_def t'_def Let_def)
    have "snd ` set (flat n) \<subseteq> set (datas (ft F))"
      using subtree_entries(2)[of anc n "[]" "roots (ft F)"] n(1)
        arg_cong[OF map_walk(1)[of anc n], of set]
      by (force simp: datas_def entries_def)
    then have "\<forall>x \<in> snd ` set (flat n). filts w x \<noteq> None" using ok by (auto simp: ft_ok_def)
    note cf = cloneBranch_facts[OF wo this cb]
    obtain c where c: "roots tmp = [c]" "map snd (flat c) = [next_f w..<next_f w1]"
      "length (flat c) = length (flat n)" using cf(1) by blast
    note af = append_child_facts[OF wf pn(1) t1]
    have na: "next_addr t1 = Suc rn" using af(2,3) by simp
    note gf = graft_facts[OF wf af(1,2) na af(4) c(1) t'_def]
    have old: "x < next_f w" if "x \<in> set (datas (ft F))" for x
      using that ok world_ok_live[OF wo] by (auto simp: ft_ok_def)
    have ms: "mset (datas t') = mset (datas (ft F) @ [next_f w..<next_f w1])" using gf(2) c(2) by simp
    have "distinct (datas (ft F) @ [next_f w..<next_f w1])" using dd old by fastforce
    then have dd': "distinct (datas t')" using ms by (metis mset_eq_imp_distinct_iff)
    have st: "set (datas t') = set (datas (ft F)) \<union> {next_f w..<next_f w1}"
      using mset_eq_setD[OF ms] by simp
    have "filts w1 x \<noteq> None" if "x \<in> {next_f w..<next_f w1}" for x
    proof -
      have "filts w1 x \<in> set (map (filts w1) [next_f w..<next_f w1])" using that by simp
      then show ?thesis using cf(5) \<open>\<forall>x \<in> snd ` set (flat n). filts w x \<noteq> None\<close> by auto
    qed
    then have live: "x \<noteq> 0 \<and> filts w1 x \<noteq> None" if "x \<in> set (datas t')" for x
      using that st old ok cf(3) wo by (auto simp: ft_ok_def frame_old_def world_ok_def)
    then have fr: "frame w1 w'"
      using filter_init.initFilterTree_frame[OF init refl, of t' w1] res(2) by blast
    have ok': "ft_ok w' F'" using gf(1) dd' live fr res(1) by (auto simp: ft_ok_def frame_def)
    obtain e where e: "(addr pn # panc, e) \<in> set (entries t')" "map snd (flat e) = [next_f w..<next_f w1]"
      using gf(3) c(2) by auto
    have q: "tdata e = next_f w" "[next_f w..<next_f w1] = next_f w # [Suc (next_f w)..<next_f w1]"
      using e(2) cf(4) by (cases e; simp add: upt_conv_Cons)+
    have "(addr pn, p) \<in># imset (ft F)"
      using entry_item[of "(panc, pn)" "[]" "roots (ft F)"] pn by (simp add: imset_def entries_def)
    then have "(addr pn, p) \<in># imset t'" using gf(4) by (rule mset_subset_eqD[rotated])
    then have par: "parentOf t' (next_f w) = Some p" using parentOf_entry[OF gf(1) dd' e(1)] q(1) by simp
    have bra: "branchOf t' (next_f w) = next_f w # [Suc (next_f w)..<next_f w1]"
      using branchOf_entry[OF gf(1) dd' e(1)] q e(2) by simp
    have len: "length (next_f w # [Suc (next_f w)..<next_f w1]) = length (branchOf (ft F) f)"
      using br c(2,3) q(2) by (metis length_map)
    have "filts w x = None \<and> filts w' x \<noteq> None" if "x \<in> set (next_f w # [Suc (next_f w)..<next_f w1])" for x
      using that wo live st fr cf(4) by (auto simp: world_ok_def frame_def)
    moreover have "distinct (next_f w # [Suc (next_f w)..<next_f w1])" by simp
    moreover have "mset (datas t') = mset (datas (ft F)) + mset (next_f w # [Suc (next_f w)..<next_f w1])"
      using ms q(2) by (metis mset_append)
    moreover have "ub w' = ub w" "world_ok w'"
      using fr cf(2,3) frame_world_ok[OF fr] by (simp_all add: frame_def frame_old_def)
    moreover have "\<forall>x. filts w x \<noteq> None \<longrightarrow> filts w' x \<noteq> None"
      using fr cf(3) world_ok_live[OF wo] by (simp add: frame_def frame_old_def)
    ultimately show ?thesis using False res(1,3) len bra par ok' by blast
  qed
qed

lemma copyFilter_core:
  assumes ok: "ft_ok w F" and wo: "world_ok w" and init: "filter_init (v_initFilter V)"
    and f: "f \<in> set (datas (ft F))" and p: "p \<in> set (datas (ft F))"
    and step: "copyFilter V F f p w = (F', w', copied)"
  shows "(copied \<longleftrightarrow> p \<notin> set (branchOf (ft F) f)) \<and> (\<not> copied \<longrightarrow> F' = F \<and> w' = w) \<and>
    (copied \<longrightarrow> (\<exists>q qs. (\<forall>x \<in> set (q # qs). filts w x = None \<and> filts w' x \<noteq> None) \<and> distinct (q # qs) \<and>
        length (q # qs) = length (branchOf (ft F) f) \<and> branchOf (ft F') q = q # qs \<and>
        parentOf (ft F') q = Some p \<and> mset (datas (ft F')) = mset (datas (ft F)) + mset (q # qs)) \<and>
      ub w' = ub w \<and> ft_ok w' F' \<and> world_ok w' \<and> (\<forall>x. filts w x \<noteq> None \<longrightarrow> filts w' x \<noteq> None))"
  using copyFilter_fresh[OF assms] by blast

text \<open>The place of the copy, and what stands in it.\<close>

definition depthOf :: "fptr ptree \<Rightarrow> fptr \<Rightarrow> nat" where
  "depthOf t f = fst (hd (branchOutline t f))"

lemma branchOutline_depths:
  assumes "wf_ptree t" "distinct (datas t)" "(anc, n) \<in> set (entries t)"
  shows "branchOutline t (tdata n) = zip (depthsOf (length anc) n) (map snd (flat n))" "depthOf t (tdata n) = length anc"
  using branchOutline_entry[OF assms] depthsOf_hd[of "length anc" n] depths_fst(1)[of anc n]
  by (auto simp: depthList_zip depthOf_def hd_map[symmetric])

lemma graft_outline:
  assumes wf: "wf_ptree t" and pn: "(panc, pn) \<in> set (entries t)" and z: "0 \<notin> set (datas t)"
    and t1: "append_child t (addr pn) 0 = (t1, rn)" and c: "roots tmp = [c]"
  shows "\<exists>pre post. outline t = pre @ depthList panc [pn] @ post \<and>
    outline (graft (t1, rn) tmp) = pre @ depthList panc [pn] @ zip (depthsOf (Suc (length panc)) c) (map snd (flat c)) @ post"
proof -
  note af = append_child_facts[OF wf pn t1]
  have wf1: "wf_ptree t1" using wf_add_item[OF wf af(1,2)] af(2,3) by simp
  let ?g = "\<lambda>n. [TNode (addr n) (tdata n) (kids n @ [TNode rn (0 :: fptr) []])]"
  have "roots t1 = splice_at (addr pn) ?g (roots t)" using t1 af(2) by (auto simp: append_child_def)
  from splice_outline[OF wf pn this] obtain pre post
    where o: "outline t = pre @ depthList panc [pn] @ post" "outline t1 = pre @ depthList panc (?g pn) @ post" .
  have g: "depthList panc (?g pn) = depthList panc [pn] @ [(Suc (length panc), 0)]"
    by (cases pn) (simp add: depthList_node)
  obtain e k where e: "relabel (next_addr t1) c = (e, k)" by fastforce
  have gr: "roots (graft (t1, rn) tmp) = splice_at (addr (TNode rn (0 :: fptr) [])) (\<lambda>_. [e]) (roots t1)"
    using c e by (simp add: graft_def replace_def)
  from splice_outline[OF wf1 af(4) gr] obtain pre2 post2
    where o2: "outline t1 = pre2 @ [(Suc (length panc), 0)] @ post2"
      "outline (graft (t1, rn) tmp) = pre2 @ depthList (addr pn # panc) [e] @ post2"
    by (auto simp: depthList_node)
  have "(Suc (length panc), 0) \<notin> set (outline t)" using z unfolding outline_datas[symmetric] by force
  then have "(Suc (length panc), 0) \<notin> set (pre @ depthList panc [pn])" "(Suc (length panc), 0) \<notin> set post"
    unfolding o(1) by auto
  moreover have "(pre @ depthList panc [pn]) @ (Suc (length panc), 0) # post = pre2 @ (Suc (length panc), 0) # post2"
    using o(2) o2(1) g by simp
  ultimately have "pre2 = pre @ depthList panc [pn]" "post2 = post" using append_Cons_eq_iff by metis+
  moreover have "depthList (addr pn # panc) [e] = zip (depthsOf (Suc (length panc)) c) (map snd (flat c))"
    using depthList_zip[of "addr pn # panc" e] relabel_depthsOf(1)[OF e] relabel_facts(1)[OF e] by simp
  ultimately show ?thesis using o(1) o2(2) by auto
qed

lemma cloneBranch_depths:
  assumes "cloneBranch V n w = (tmp, w1)" "roots tmp = [c]"
  shows "depthsOf d c = depthsOf d n"
proof -
  obtain r k where r: "relabel (Suc 1) n = (r, k)" by fastforce
  have "\<exists>w'. clone_nodes V r w = (c, w')"
    using assms r by (auto simp: cloneBranch_def tree_insert_def tree_begin_def empty_ptree_def
        replace_def cloneAll_def Let_def split: prod.splits)
  then show ?thesis using clone_depthsOf(1) relabel_depthsOf(1)[OF r] by metis
qed

lemma depths_move:
  "zip (depthsOf e n) qs = map2 (\<lambda>(d, _) q. (d + e - l, q)) (zip (depthsOf l n) (map snd (flat n))) qs"
proof -
  have len: "length (depthsOf l n) = length (map snd (flat n))"
    using depthList_zip[of "replicate l 0" n] depths_fst(1)[of "replicate l 0" n] depthList_data[of "replicate l 0" "[n]"]
    by (metis append_Nil2 items.simps(1,2) length_map length_replicate)
  have "map (\<lambda>x. x + l) (depthsOf e n) = map (\<lambda>x. x + e) (depthsOf l n)"
    by (metis depths_shift(1) add.commute)
  from arg_cong[OF this, of "map (\<lambda>x. x - l)"]
  have "depthsOf e n = map (\<lambda>d. d + e - l) (depthsOf l n)" by (simp add: comp_def)
  also have "\<dots> = map (\<lambda>d. d + e - l) (map fst (zip (depthsOf l n) (map snd (flat n))))" using len by simp
  finally show ?thesis by (simp add: zip_map1 split_beta comp_def)
qed

lemma copyFilter_detail:
  assumes ok: "ft_ok w F" and wo: "world_ok w" and f: "f \<in> set (datas (ft F))" and p: "p \<in> set (datas (ft F))"
    and step: "copyFilter V F f p w = (F', w', True)"
  shows "\<exists>qs w1 pre post. w' = initFilterTree V (ft F') w1 \<and> branchOf (ft F') (hd qs) = qs \<and> hd qs = next_f w \<and> qs \<noteq> [] \<and>
    map (filts w1) qs = map (map_option (clone_of V) \<circ> filts w) (branchOf (ft F) f) \<and>
    (\<forall>x. filts w x \<noteq> None \<longrightarrow> filts w1 x = filts w x) \<and> strms w1 = strms w \<and>
    outline (ft F) = pre @ branchOutline (ft F) p @ post \<and>
    outline (ft F') = pre @ branchOutline (ft F) p @
      map2 (\<lambda>(d, _) q. (d + Suc (depthOf (ft F) p) - depthOf (ft F) f, q)) (branchOutline (ft F) f) qs @ post"
proof -
  obtain anc n where n: "(anc, n) \<in> set (entries (ft F))" "tdata n = f" "find_data (ft F) f = Some (addr n)"
    using ft_ok_entry[OF ok f] .
  obtain panc pn where pn: "(panc, pn) \<in> set (entries (ft F))" "tdata pn = p" "find_data (ft F) p = Some (addr pn)"
    using ft_ok_entry[OF ok p] .
  have wf: "wf_ptree (ft F)" and dd: "distinct (datas (ft F))" and z: "0 \<notin> set (datas (ft F))" and p0: "p \<noteq> 0"
    using ok p by (auto simp: ft_ok_def)
  have d: "distinct (addrs (ft F))" using wf by (simp add: wf_ptree_def)
  have br: "branchOf (ft F) f = map snd (flat n)" using branchOf_entry[OF wf dd n(1)] n(2) by simp
  obtain t1 rn where t1: "append_child (ft F) (addr pn) 0 = (t1, rn)" by fastforce
  obtain tmp w1 where cb: "cloneBranch V n w = (tmp, w1)" by fastforce
  have res: "ft F' = graft (t1, rn) tmp" "w' = initFilterTree V (ft F') w1"
    using step n(3) pn(3) p0 t1 cb entry_at_Some[OF d n(1)]
    by (auto simp: copyFilter_def Let_def split: if_splits)
  have "snd ` set (flat n) \<subseteq> set (datas (ft F))"
    using subtree_entries(2)[of anc n "[]" "roots (ft F)"] n(1) arg_cong[OF map_walk(1)[of anc n], of set]
    by (force simp: datas_def entries_def)
  then have live: "\<forall>x \<in> snd ` set (flat n). filts w x \<noteq> None" using ok by (auto simp: ft_ok_def)
  note cf = cloneBranch_facts[OF wo live cb]
  obtain c where c: "roots tmp = [c]" "map snd (flat c) = [next_f w..<next_f w1]" using cf(1) by blast
  from graft_outline[OF wf pn(1) z t1 c(1)] obtain pre post where o: "outline (ft F) = pre @ depthList panc [pn] @ post"
    "outline (ft F') = pre @ depthList panc [pn] @ zip (depthsOf (Suc (length panc)) c) (map snd (flat c)) @ post"
    unfolding res(1) by blast
  note bn = branchOutline_depths[OF wf dd n(1), unfolded n(2)] and bp = branchOutline_depths[OF wf dd pn(1), unfolded pn(2)]
  have bd: "branchOutline (ft F) p = depthList panc [pn]" using branchOutline_entry[OF wf dd pn(1)] pn(2) by simp
  have mv: "zip (depthsOf (Suc (length panc)) c) (map snd (flat c)) =
    map2 (\<lambda>(d, _) q. (d + Suc (depthOf (ft F) p) - depthOf (ft F) f, q)) (branchOutline (ft F) f) [next_f w..<next_f w1]"
    unfolding cloneBranch_depths[OF cb c(1)] c(2) bn bp(2) by (rule depths_move)
  obtain e where e: "(addr pn # panc, e) \<in> set (entries (ft F'))" "map snd (flat e) = map snd (flat c)"
    "wf_ptree (ft F')" "mset (datas (ft F')) = mset (datas (ft F) @ [next_f w..<next_f w1])"
  proof -
    note af = append_child_facts[OF wf pn(1) t1]
    have na: "next_addr t1 = Suc rn" using af(2,3) by simp
    from graft_facts[OF wf af(1,2) na af(4) c(1) res(1)] c(2) that show thesis by auto
  qed
  have "distinct (datas (ft F) @ [next_f w..<next_f w1])"
    using dd ok world_ok_live[OF wo] by (fastforce simp: ft_ok_def)
  then have dd': "distinct (datas (ft F'))" using e(4) by (metis mset_eq_imp_distinct_iff)
  have hd: "hd [next_f w..<next_f w1] = tdata e" "[next_f w..<next_f w1] \<noteq> []"
    using e(2) c(2) cf(4) by (cases e; simp add: upt_conv_Cons)+
  have "branchOf (ft F') (hd [next_f w..<next_f w1]) = [next_f w..<next_f w1]"
    using branchOf_entry[OF e(3) dd' e(1)] hd e(2) c(2) by simp
  moreover have "\<forall>x. filts w x \<noteq> None \<longrightarrow> filts w1 x = filts w x" "strms w1 = strms w"
    using cf(3) world_ok_live[OF wo] by (simp_all add: frame_old_def)
  moreover have "outline (ft F) = pre @ branchOutline (ft F) p @ post" using o(1) bd by simp
  moreover have "outline (ft F') = pre @ branchOutline (ft F) p @
      map2 (\<lambda>(d, _) q. (d + Suc (depthOf (ft F) p) - depthOf (ft F) f, q)) (branchOutline (ft F) f) [next_f w..<next_f w1] @ post"
    using o(2) bd mv by simp
  moreover have "map (filts w1) [next_f w..<next_f w1] = map (map_option (clone_of V) \<circ> filts w) (branchOf (ft F) f)"
    using cf(5) br by simp
  ultimately have "w' = initFilterTree V (ft F') w1 \<and>
      branchOf (ft F') (hd [next_f w..<next_f w1]) = [next_f w..<next_f w1] \<and> hd [next_f w..<next_f w1] = next_f w \<and>
      [next_f w..<next_f w1] \<noteq> [] \<and>
      map (filts w1) [next_f w..<next_f w1] = map (map_option (clone_of V) \<circ> filts w) (branchOf (ft F) f) \<and>
      (\<forall>x. filts w x \<noteq> None \<longrightarrow> filts w1 x = filts w x) \<and> strms w1 = strms w \<and>
      outline (ft F) = pre @ branchOutline (ft F) p @ post \<and>
      outline (ft F') = pre @ branchOutline (ft F) p @
        map2 (\<lambda>(d, _) q. (d + Suc (depthOf (ft F) p) - depthOf (ft F) f, q)) (branchOutline (ft F) f) [next_f w..<next_f w1] @ post"
    using res(2) hd(2) cf(4) by (intro conjI) simp_all
  then show ?thesis by (intro exI)
qed

text \<open>
  Property C23. Copying a branch below a filter is refused exactly when that filter lies in the
  branch, and then nothing changes. Otherwise new filters are created, one for each filter of the branch and in the same
  order, each the clone of its original. The tree holds its old filters at their old places, and the new ones as the
  last child of the given filter, with the depths of their originals relative to the root of the branch. Until the tree
  is initialised again the old filters and every stream are unchanged; afterwards no filter or cache is lost and the tree is
  well formed.
\<close>

theorem copyFilter_clones:
  assumes ok: "ft_ok w F" and wo: "world_ok w" and init: "filter_init (v_initFilter V)"
    and f: "f \<in> set (datas (ft F))" and p: "p \<in> set (datas (ft F))"
    and step: "copyFilter V F f p w = (F', w', copied)"
  shows "(copied \<longleftrightarrow> p \<notin> set (branchOf (ft F) f)) \<and> (\<not> copied \<longrightarrow> F' = F \<and> w' = w) \<and>
    (copied \<longrightarrow> (\<exists>q qs w1 pre post.
        (\<forall>x \<in> set (q # qs). filts w x = None \<and> filts w' x \<noteq> None) \<and> distinct (q # qs) \<and>
        length (q # qs) = length (branchOf (ft F) f) \<and> branchOf (ft F') q = q # qs \<and>
        parentOf (ft F') q = Some p \<and> mset (datas (ft F')) = mset (datas (ft F)) + mset (q # qs) \<and>
        w' = initFilterTree V (ft F') w1 \<and>
        map (filts w1) (q # qs) = map (map_option (clone_of V) \<circ> filts w) (branchOf (ft F) f) \<and>
        (\<forall>x. filts w x \<noteq> None \<longrightarrow> filts w1 x = filts w x) \<and> strms w1 = strms w \<and>
        outline (ft F) = pre @ branchOutline (ft F) p @ post \<and>
        outline (ft F') = pre @ branchOutline (ft F) p @
          map2 (\<lambda>(d, _) x. (d + Suc (depthOf (ft F) p) - depthOf (ft F) f, x)) (branchOutline (ft F) f) (q # qs) @ post) \<and>
      ub w' = ub w \<and> ft_ok w' F' \<and> caches_ok w')"
proof (cases copied)
  case True
  have step': "copyFilter V F f p w = (F', w', True)" using step True by simp
  note core = copyFilter_fresh[OF ok wo init f p step]
  from core True obtain q qs where q0: "q = next_f w" and q: "\<forall>x \<in> set (q # qs). filts w x = None \<and> filts w' x \<noteq> None" "distinct (q # qs)"
    "length (q # qs) = length (branchOf (ft F) f)" "branchOf (ft F') q = q # qs" "parentOf (ft F') q = Some p"
    "mset (datas (ft F')) = mset (datas (ft F)) + mset (q # qs)" by blast
  from copyFilter_detail[OF ok wo f p step'] obtain qs' w1 pre post
    where r: "w' = initFilterTree V (ft F') w1" "branchOf (ft F') (hd qs') = qs'" "hd qs' = next_f w"
      "map (filts w1) qs' = map (map_option (clone_of V) \<circ> filts w) (branchOf (ft F) f)"
      "\<forall>x. filts w x \<noteq> None \<longrightarrow> filts w1 x = filts w x" "strms w1 = strms w"
      "outline (ft F) = pre @ branchOutline (ft F) p @ post"
      "outline (ft F') = pre @ branchOutline (ft F) p @
        map2 (\<lambda>(d, _) x. (d + Suc (depthOf (ft F) p) - depthOf (ft F) f, x)) (branchOutline (ft F) f) qs' @ post" by blast
  have eq: "qs' = q # qs" using r(2,3) q(4) q0 by simp
  have "\<exists>q qs w1 pre post.
        (\<forall>x \<in> set (q # qs). filts w x = None \<and> filts w' x \<noteq> None) \<and> distinct (q # qs) \<and>
        length (q # qs) = length (branchOf (ft F) f) \<and> branchOf (ft F') q = q # qs \<and>
        parentOf (ft F') q = Some p \<and> mset (datas (ft F')) = mset (datas (ft F)) + mset (q # qs) \<and>
        w' = initFilterTree V (ft F') w1 \<and>
        map (filts w1) (q # qs) = map (map_option (clone_of V) \<circ> filts w) (branchOf (ft F) f) \<and>
        (\<forall>x. filts w x \<noteq> None \<longrightarrow> filts w1 x = filts w x) \<and> strms w1 = strms w \<and>
        outline (ft F) = pre @ branchOutline (ft F) p @ post \<and>
        outline (ft F') = pre @ branchOutline (ft F) p @
          map2 (\<lambda>(d, _) x. (d + Suc (depthOf (ft F) p) - depthOf (ft F) f, x)) (branchOutline (ft F) f) (q # qs) @ post"
    by (intro exI conjI) (rule q r[unfolded eq])+
  then show ?thesis using core True by (simp add: world_ok_def)
next
  case False
  then show ?thesis using copyFilter_fresh[OF ok wo init f p step] by blast
qed

section \<open>Clearing caches\<close>

lemma haveCache_map: "haveCache w p = (map_option f_cacheOK (filts w p) = Some True)"
  by (simp add: haveCache_def get_filt_def split: option.splits)


text \<open>
  \<^verbatim>\<open>isChild\<close> holds between two filters of the tree exactly when the second lies
  strictly inside the branch of the first.
\<close>

theorem isChild_branch:
  assumes "ft_ok w F" "find_data (ft F) f = Some a" "find_data (ft F) g = Some b"
  shows "isChild (ft F) a b \<longleftrightarrow> g \<in> set (branchOf (ft F) f) \<and> g \<noteq> f"
proof -
  have wf: "wf_ptree (ft F)" and dd: "distinct (datas (ft F))" using assms(1) by (auto simp: ft_ok_def)
  have d: "distinct (addrs (ft F))" using wf by (simp add: wf_ptree_def)
  obtain anc n where n: "(anc, n) \<in> set (entries (ft F))" "addr n = a" "tdata n = f"
    using find_data_SomeD[OF assms(2)] by blast
  obtain ganc m where m: "(ganc, m) \<in> set (entries (ft F))" "addr m = b" "tdata m = g"
    using find_data_SomeD[OF assms(3)] by blast
  have "isChild (ft F) a b \<longleftrightarrow> addr n \<in> set ganc"
    using entry_at_Some[OF d m(1)] m(2) n(2) by (simp add: isChild_def list_ex_iff)
  moreover have "addr n \<in> set ganc \<Longrightarrow> m \<noteq> n" using walk_self_not_anc[OF d m(1)] by blast
  moreover have "m = n \<longleftrightarrow> g = f"
    using find_data_unique[OF dd n(1)] find_data_unique[OF dd m(1)] entries_inj[OF d m(1) n(1)] m(3) n(3)
    by (metis option.inject)
  ultimately show ?thesis using branch_mem[OF wf dd n(1) m(1)] n(3) m(3) by auto
qed

end
