(* ===== verification/FilterTreeRefresh.thy ===== *)
theory FilterTreeRefresh
  imports FilterTreeOps
begin

text \<open>
  The refresh of the filter tree (src/src/backend/filtertree.cpp): which filters must be refreshed
  (\<^verbatim>\<open>getAccumulatedPropagationMaps\<close>, \<^verbatim>\<open>getFilterRefreshStarts\<close>), the refresh itself
  (\<^verbatim>\<open>refreshFilterTree\<close>), and the disposal of its output (\<^verbatim>\<open>safeDeleteFilterList\<close>).
\<close>

section \<open>Propagation maps\<close>

definition node_data :: "fptr ptree \<Rightarrow> nat \<Rightarrow> fptr" where
  "node_data t a = (case entry_at t a of None \<Rightarrow> 0 | Some (_, n) \<Rightarrow> tdata n)"

definition emitMask :: "'p vtable \<Rightarrow> 'p world \<Rightarrow> fptr \<Rightarrow> 32 word" where
  "emitMask V w p = get_filt 0 (v_emit V) w p"

definition blockMask :: "'p vtable \<Rightarrow> 'p world \<Rightarrow> fptr \<Rightarrow> 32 word" where
  "blockMask V w p = get_filt 0 (v_block V) w p"

text \<open>\<^verbatim>\<open>std::map::insert\<close> keeps an existing entry; \<^verbatim>\<open>operator[]\<close> reads 0 for a missing one.\<close>

definition map_insert :: "'k \<Rightarrow> 'v \<Rightarrow> ('k \<rightharpoonup> 'v) \<Rightarrow> ('k \<rightharpoonup> 'v)" where
  "map_insert k v m = (if m k = None then m(k \<mapsto> v) else m)"

definition map_at :: "('k \<rightharpoonup> 'v::zero) \<Rightarrow> 'k \<Rightarrow> 'v" where
  "map_at m k = (case m k of None \<Rightarrow> 0 | Some v \<Rightarrow> v)"

text \<open>
  The loop is written with \<^verbatim>\<open>begin_breadth_first()\<close>, but assigns it to the depth-first iterator
  type, so the traversal is depth first.
\<close>

fun emit_loop :: "'p vtable \<Rightarrow> 'p world \<Rightarrow> fptr ptree \<Rightarrow> (nat list \<times> fptr tnode) list \<Rightarrow>
    (fptr \<rightharpoonup> 32 word) \<Rightarrow> (fptr \<rightharpoonup> 32 word)" where
  "emit_loop V w t [] m = m"
| "emit_loop V w t ((anc, n) # es) m =
     (let p = tdata n in
      case anc of
        [] \<Rightarrow> emit_loop V w t es (map_insert p (emitMask V w p) m)
      | a # _ \<Rightarrow>
         (let q = node_data t a;
              m1 = map_insert q 0 m;
              curEmit = and (map_at m1 q) (and (not (blockMask V w p)) STREAMTYPE_MASK_ALL)
          in emit_loop V w t es (map_insert p (or curEmit (emitMask V w p)) m1)))"

fun childBlock_loop :: "'p vtable \<Rightarrow> 'p world \<Rightarrow> fptr tnode list \<Rightarrow> 32 word \<Rightarrow> 32 word" where
  "childBlock_loop V w [] b = b"
| "childBlock_loop V w (k # ks) b =
     (if haveCache w (tdata k) then childBlock_loop V w ks (and b (blockMask V w (tdata k)))
      else and b 0)"

definition node_block :: "'p vtable \<Rightarrow> 'p world \<Rightarrow> fptr tnode \<Rightarrow> 32 word" where
  "node_block V w n =
     (if haveCache w (tdata n) then or (childBlock_loop V w (kids n) 0) (blockMask V w (tdata n)) else 0)"

definition block_level :: "'p vtable \<Rightarrow> 'p world \<Rightarrow> fptr ptree \<Rightarrow> nat \<Rightarrow>
    (fptr \<rightharpoonup> 32 word) \<Rightarrow> (fptr \<rightharpoonup> 32 word)" where
  "block_level V w t ui m = fold (\<lambda>e m. if length (fst e) \<noteq> ui then m
     else map_insert (tdata (snd e)) (node_block V w (snd e)) m) (entries t) m"

definition getAccumulatedPropagationMaps :: "'p vtable \<Rightarrow> 'p world \<Rightarrow> fptr ptree \<Rightarrow>
    (fptr \<rightharpoonup> 32 word) \<times> (fptr \<rightharpoonup> 32 word)" where
  "getAccumulatedPropagationMaps V w t =
     (emit_loop V w t (entries t) Map.empty,
      fold (block_level V w t) (rev [0..<nat (max_depth t + 1)]) Map.empty)"

section \<open>Where a refresh starts\<close>

fun starts_loop :: "fptr ptree \<Rightarrow> (fptr \<rightharpoonup> 32 word) \<Rightarrow> (fptr \<rightharpoonup> 32 word) \<Rightarrow> fptr set \<Rightarrow>
    (nat list \<times> fptr tnode) list \<Rightarrow> nat list \<Rightarrow> nat list" where
  "starts_loop t emits blocks leafSet [] seeds = seeds"
| "starts_loop t emits blocks leafSet ((anc, n) # es) seeds =
     (if list_ex (\<lambda>s. isChild t s (addr n)) seeds
      then starts_loop t emits blocks leafSet es seeds
      else if tdata n \<in> leafSet then starts_loop t emits blocks leafSet es (seeds @ [addr n])
      else let em = map_at emits (tdata n);
               bm = fold (\<lambda>k b. and b (map_at blocks (tdata k))) (kids n) (-1)
           in if and em (and (not bm) STREAMTYPE_MASK_ALL) \<noteq> 0
              then starts_loop t emits blocks leafSet es (seeds @ [addr n])
              else starts_loop t emits blocks leafSet es seeds)"

definition leafFilters :: "fptr ptree \<Rightarrow> fptr set" where
  "leafFilters t = set (map (tdata \<circ> snd) (leaves t))"

definition getFilterRefreshStarts :: "'p vtable \<Rightarrow> 'p world \<Rightarrow> fptr ptree \<Rightarrow> nat list" where
  "getFilterRefreshStarts V w t = (if tree_size t = 0 then [] else
     (let (emits, blocks) = getAccumulatedPropagationMaps V w t
      in starts_loop t emits blocks (leafFilters t) (entries t) []))"

section \<open>The refresh\<close>

text \<open>
  What the loop carries besides the stack. \<open>r_aborted\<close> is the abort flag as it is read after a
  filter has run; another thread may set it at any time.
\<close>

record 'p rstate =
  r_world :: "'p world"
  r_coll :: collector
  r_out :: "(fptr \<times> sptr list) list"
  r_devices :: "nat list"
  r_console :: "(fptr \<times> string) list"

record renv =
  r_aborted :: "fptr \<Rightarrow> bool"
  r_availRAM :: nat

definition FILTERTREE_REFRESH_ERR_MEM :: nat where "FILTERTREE_REFRESH_ERR_MEM = 100001"
definition FILTER_ERR_ABORT :: nat where "FILTER_ERR_ABORT = 1000000"

definition wantCache :: "filterTree \<Rightarrow> nat \<Rightarrow> nat option \<Rightarrow> bool" where
  "wantCache F ram cacheBytes = (case cacheBytes of None \<Rightarrow> False
     | Some b \<Rightarrow> (case cacheStrategy F of CACHE_NEVER \<Rightarrow> False
         | CACHE_DEPTH_FIRST \<Rightarrow> rat_of_nat b / (1024 * 1024) < rat_of_nat (maxCachePercent F) / 100 * rat_of_nat ram))"

text \<open>The error exit: the output streams that no cache owns are freed once each.\<close>

definition dropOutput :: "(fptr \<times> sptr list) list \<Rightarrow> 'p world \<Rightarrow> 'p world" where
  "dropOutput outs w = fold (\<lambda>s w. if \<not> streamCached w s then deleteStream s w else w)
     (sort (remdups (concat (map snd outs)))) w"

text \<open>One filter: \<open>d\<close> is its depth below the start node, \<open>inp\<close> the top of the stack.\<close>

definition refreshStep :: "'p vtable \<Rightarrow> filterTree \<Rightarrow> renv \<Rightarrow> fptr set \<Rightarrow> nat \<Rightarrow> sptr list \<Rightarrow> fptr \<Rightarrow>
    'p rstate \<Rightarrow> 'p rstate \<times> sptr list \<times> nat option" where
  "refreshStep V F env leafSet d inp p s =
     (let (w1, c1) = collectToLevel (d + 1) (r_world s) (r_coll s);
          w2 = (if haveCache w1 p then w1
                else setCaching p (wantCache F (r_availRAM env)
                       (get_filt None (\<lambda>f. v_numBytesForCache V f (numElements w1 inp STREAMTYPE_MASK_ALL)) w1 p)) w1);
          w3 = (if haveCache w2 p then w2 else clearConsole p w2);
          w4 = clearDevices p w3;
          (w5, curData, res) = v_refresh V p inp w4;
          errCode = (case res of None \<Rightarrow> FILTERTREE_REFRESH_ERR_MEM | Some e \<Rightarrow> e);
          s5 = s\<lparr>r_world := w5, r_coll := c1,
                 r_devices := r_devices s @ get_filt [] f_devices w5 p,
                 r_console := r_console s @ map (Pair p) (get_filt [] f_console w5 p)\<rparr>
      in if errCode \<noteq> 0 \<or> r_aborted env p
         then (let (w6, c6) = collectAll (dropOutput (r_out s5) w5) c1
               in (s5\<lparr>r_world := w6, r_coll := c6\<rparr>, curData,
                   Some (if r_aborted env p then FILTER_ERR_ABORT else errCode)))
         else let w6 = updateOutputInfo p curData w5
              in if p \<notin> leafSet
                 then (s5\<lparr>r_world := w6, r_coll := trackPointers w6 curData c1\<rparr>, curData, None)
                 else if curData \<noteq> []
                 then (s5\<lparr>r_world := w6, r_out := r_out s @ [(p, curData)],
                          r_coll := forgetPointers curData c1\<rparr>, curData, None)
                 else (s5\<lparr>r_world := w6\<rparr>, curData, None))"

fun refresh_loop :: "'p vtable \<Rightarrow> filterTree \<Rightarrow> renv \<Rightarrow> fptr set \<Rightarrow> nat \<Rightarrow> (nat list \<times> fptr tnode) list \<Rightarrow>
    sptr list list \<Rightarrow> 'p rstate \<Rightarrow> sptr list list \<times> 'p rstate \<times> nat option" where
  "refresh_loop V F env leafSet bd [] stk s = (stk, s, None)"
| "refresh_loop V F env leafSet bd ((anc, n) # es) stk s =
     (let d = length anc - bd;
          stk1 = popPointerStack stk (d + 1)
      in case refreshStep V F env leafSet d (hd stk1) (tdata n) s of
           (s1, curData, Some code) \<Rightarrow> ([], s1, Some code)
         | (s1, curData, None) \<Rightarrow>
             refresh_loop V F env leafSet bd es (if tdata n \<notin> leafSet then curData # stk1 else stk1) s1)"

text \<open>The nodes a start covers: itself and what \<^verbatim>\<open>isChild\<close> finds below it, up to the end of the tree.\<close>

definition start_nodes :: "fptr ptree \<Rightarrow> nat \<Rightarrow> (nat list \<times> fptr tnode) list" where
  "start_nodes t base = filter (\<lambda>e. addr (snd e) = base \<or> isChild t base (addr (snd e))) (scan_from t base)"

fun refresh_bases :: "'p vtable \<Rightarrow> filterTree \<Rightarrow> renv \<Rightarrow> fptr set \<Rightarrow> nat list \<Rightarrow> sptr list list \<Rightarrow>
    'p rstate \<Rightarrow> 'p rstate \<times> nat option" where
  "refresh_bases V F env leafSet [] stk s = (s, None)"
| "refresh_bases V F env leafSet (b # bs) stk s =
     (let (w1, c1) = collectAll (r_world s) (r_coll s);
          s1 = s\<lparr>r_world := w1, r_coll := trackPointers w1 [] c1\<rparr>;
          bd = (case tree_depth (ft F) b of None \<Rightarrow> 0 | Some x \<Rightarrow> x)
      in case refresh_loop V F env leafSet bd (start_nodes (ft F) b) stk s1 of
           (stk', s2, Some code) \<Rightarrow> (s2, Some code)
         | (stk', s2, None) \<Rightarrow> refresh_bases V F env leafSet bs stk' s2)"

text \<open>Output scrubbing: each pointer stays at its first occurrence, empty outputs vanish.\<close>

fun scrub_vec :: "sptr set \<Rightarrow> sptr list \<Rightarrow> sptr set \<times> sptr list" where
  "scrub_vec uniq [] = (uniq, [])"
| "scrub_vec uniq (s # ss) =
     (if s \<notin> uniq then (let (u, r) = scrub_vec (insert s uniq) ss in (u, s # r))
      else scrub_vec uniq ss)"

fun scrub :: "sptr set \<Rightarrow> (fptr \<times> sptr list) list \<Rightarrow> (fptr \<times> sptr list) list" where
  "scrub uniq [] = []"
| "scrub uniq ((p, v) # outs) =
     (let (u, v') = scrub_vec uniq v in if v' = [] then scrub u outs else (p, v') # scrub u outs)"

text \<open>The caches below filters that monitor something that changed are cleared first.\<close>

definition clearMonitored :: "'p vtable \<Rightarrow> fptr ptree \<Rightarrow> 'p world \<Rightarrow> 'p world" where
  "clearMonitored V t w = fold (\<lambda>e w. if get_filt False (v_monitorNeedsRefresh V) w (tdata (snd e))
     then clearCaches V (scan_filters t (addr (snd e))) w else w) (entries t) w"

definition refreshFilterTree :: "'p vtable \<Rightarrow> filterTree \<Rightarrow> renv \<Rightarrow> (fptr \<times> sptr list) list \<Rightarrow>
    nat list \<Rightarrow> (fptr \<times> string) list \<Rightarrow> 'p world \<Rightarrow> 'p rstate \<times> nat" where
  "refreshFilterTree V F env out0 dev0 cons0 w =
     (let s0 = \<lparr>r_world = w, r_coll = new_collector, r_out = out0, r_devices = dev0, r_console = cons0\<rparr> in
      if tree_size (ft F) = 0 then (s0, 0)
      else let w1 = initFilterTree V (ft F) (clearMonitored V (ft F) w)
           in case refresh_bases V F env (leafFilters (ft F)) (getFilterRefreshStarts V w1 (ft F)) [[]]
                     (s0\<lparr>r_world := w1\<rparr>) of
                (s1, Some code) \<Rightarrow> (s1, code)
              | (s1, None) \<Rightarrow>
                  (let (w2, c2) = collectAll (r_world s1) (r_coll s1)
                   in (s1\<lparr>r_world := w2, r_coll := c2, r_out := scrub {} (r_out s1)\<rparr>, 0)))"

definition getRefreshErrString :: "nat \<Rightarrow> string option" where
  "getRefreshErrString code = (if 100000 \<le> code \<and> code - 100000 < 2
     then Some ([[], ''Insufficient memory for refresh''] ! (code - 100000)) else None)"

section \<open>Disposing of the output\<close>

text \<open>One output vector: which streams are killed, and the world after freeing them.\<close>

fun killFlags :: "32 word \<Rightarrow> bool \<Rightarrow> sptr list \<Rightarrow> 'p world \<Rightarrow> bool list \<times> 'p world" where
  "killFlags typeMask maskPrevents [] w = ([], w)"
| "killFlags typeMask maskPrevents (s # ss) w =
     (if typeMask \<noteq> 0 \<and> ((and (streamType w s) typeMask \<noteq> 0) \<noteq> (\<not> maskPrevents))
      then (let (ks, w') = killFlags typeMask maskPrevents ss w in (False # ks, w'))
      else (let w1 = (if \<not> streamCached w s then deleteStream s w else w);
                (ks, w') = killFlags typeMask maskPrevents ss w1 in (True # ks, w')))"

fun safeDeleteFilterList :: "32 word \<Rightarrow> bool \<Rightarrow> (fptr \<times> sptr list) list \<Rightarrow> 'p world \<Rightarrow>
    (fptr \<times> sptr list) list \<times> 'p world" where
  "safeDeleteFilterList typeMask maskPrevents [] w = ([], w)"
| "safeDeleteFilterList typeMask maskPrevents ((p, v) # outs) w =
     (let (ks, w1) = killFlags typeMask maskPrevents v w;
          v' = vectorMultiErase v ks;
          (outs', w2) = safeDeleteFilterList typeMask maskPrevents outs w1
      in (if v' = [] then outs' else (p, v') # outs', w2))"

section \<open>The propagation maps are the accumulated masks\<close>

text \<open>
  The types that can be present in the output of the filter \<open>p\<close> at the end of a chain: what its
  parent passes on and \<open>p\<close> does not block, and what \<open>p\<close> emits. The list is the filter and its
  ancestors, nearest first.
\<close>

fun path_emit :: "'p vtable \<Rightarrow> 'p world \<Rightarrow> fptr list \<Rightarrow> 32 word" where
  "path_emit V w [] = 0"
| "path_emit V w [p] = emitMask V w p"
| "path_emit V w (p # q # ps) =
     or (and (path_emit V w (q # ps)) (and (not (blockMask V w p)) STREAMTYPE_MASK_ALL)) (emitMask V w p)"

definition path_of :: "fptr ptree \<Rightarrow> nat list \<times> fptr tnode \<Rightarrow> fptr list" where
  "path_of t e = tdata (snd e) # map (node_data t) (fst e)"

lemma node_data_entry: "distinct (addrs t) \<Longrightarrow> (anc, n) \<in> set (entries t) \<Longrightarrow> node_data t (addr n) = tdata n"
  using entry_at_Some[of t anc n] by (simp add: node_data_def)

lemma emit_loop_inv:
  assumes "entries t = pre @ es" "distinct (addrs t)" "distinct (datas t)" "parents_seen [] (set pre) es"
    and "dom m = tdata ` snd ` set pre" "\<forall>e \<in> set pre. m (tdata (snd e)) = Some (path_emit V w (path_of t e))"
  shows "dom (emit_loop V w t es m) = set (datas t) \<and>
    (\<forall>e \<in> set (entries t). emit_loop V w t es m (tdata (snd e)) = Some (path_emit V w (path_of t e)))"
  using assms
proof (induction es arbitrary: pre m)
  case Nil
  then show ?case by (auto simp: datas_def image_image)
next
  case (Cons e es)
  obtain anc n where e: "e = (anc, n)" by fastforce
  have dd: "distinct (map (tdata \<circ> snd) (pre @ e # es))" using Cons.prems(1,3) by (simp add: datas_def)
  have new: "tdata n \<notin> dom m" using dd Cons.prems(5) e by (auto simp: image_image)
  have "\<exists>m'. emit_loop V w t (e # es) m = emit_loop V w t es m' \<and>
      m' = m(tdata n \<mapsto> path_emit V w (path_of t e))"
  proof (cases anc)
    case Nil
    then show ?thesis using new e by (auto simp: map_insert_def path_of_def domIff Let_def)
  next
    case (Cons a up)
    then obtain k where k: "(up, k) \<in> set pre" "addr k = a"
      using Cons.prems(4) e by force
    then have "node_data t a = tdata k" using node_data_entry[OF Cons.prems(2)] Cons.prems(1) by auto
    moreover have "m (tdata k) = Some (path_emit V w (path_of t (up, k)))"
      using Cons.prems(6) k(1) by force
    moreover have "path_of t e = tdata n # path_of t (up, k)"
      using \<open>node_data t a = tdata k\<close> by (simp add: path_of_def e Cons)
    ultimately show ?thesis
      using new e Cons by (auto simp: map_insert_def map_at_def domIff Let_def path_of_def)
  qed
  then obtain m' where m': "emit_loop V w t (e # es) m = emit_loop V w t es m'"
    "m' = m(tdata n \<mapsto> path_emit V w (path_of t e))" by blast
  have "parents_seen [] (set (pre @ [e])) es" using Cons.prems(4) by simp
  moreover have "dom m' = tdata ` snd ` set (pre @ [e])" using m'(2) Cons.prems(5) e by auto
  moreover have "\<forall>x \<in> set (pre @ [e]). m' (tdata (snd x)) = Some (path_emit V w (path_of t x))"
  proof
    fix x assume x: "x \<in> set (pre @ [e])"
    show "m' (tdata (snd x)) = Some (path_emit V w (path_of t x))"
    proof (cases "x \<in> set pre")
      case True
      then have "tdata (snd x) \<in> dom m" using Cons.prems(5) by blast
      then have "tdata (snd x) \<noteq> tdata n" using new by metis
      then show ?thesis using m'(2) Cons.prems(6) True by simp
    qed (use x m'(2) e in simp)
  qed
  ultimately show ?case using Cons.IH[of "pre @ [e]" m'] Cons.prems(1-3) m'(1) by simp
qed

lemma emit_map:
  assumes "distinct (addrs t)" "distinct (datas t)" "e \<in> set (entries t)"
  shows "fst (getAccumulatedPropagationMaps V w t) (tdata (snd e)) = Some (path_emit V w (path_of t e))"
  using emit_loop_inv[of t "[]" "entries t" Map.empty V w] assms parents_seen_walk(2)[of "[]" "{}" "roots t"]
  by (simp add: getAccumulatedPropagationMaps_def entries_def)

lemma childBlock_zero: "childBlock_loop V w ks 0 = 0"
  by (induction ks) simp_all

definition own_block :: "'p vtable \<Rightarrow> 'p world \<Rightarrow> fptr \<Rightarrow> 32 word" where
  "own_block V w p = (if haveCache w p then blockMask V w p else 0)"

lemma node_block_eq: "node_block V w n = own_block V w (tdata n)"
  by (simp add: node_block_def childBlock_zero own_block_def)

lemma block_level_apply:
  assumes "\<forall>p v. m p = Some v \<longrightarrow> v = own_block V w p"
  shows "block_level V w t ui m p = (if m p \<noteq> None \<or> (\<exists>e \<in> set (entries t). length (fst e) = ui \<and> tdata (snd e) = p)
     then Some (own_block V w p) else None)"
proof -
  have "fold (\<lambda>e m. if length (fst e) \<noteq> ui then m else map_insert (tdata (snd e)) (node_block V w (snd e)) m) es m p =
      (if m p \<noteq> None \<or> (\<exists>e \<in> set es. length (fst e) = ui \<and> tdata (snd e) = p) then Some (own_block V w p) else None)"
    if "\<forall>p v. m p = Some v \<longrightarrow> v = own_block V w p" for m and es :: "(nat list \<times> fptr tnode) list"
    using that
  proof (induction es arbitrary: m)
    case Nil
    then show ?case by (cases "m p") auto
  next
    case (Cons e es)
    let ?m = "if length (fst e) \<noteq> ui then m else map_insert (tdata (snd e)) (node_block V w (snd e)) m"
    have ok: "\<forall>p v. ?m p = Some v \<longrightarrow> v = own_block V w p"
      using Cons.prems by (auto simp: map_insert_def node_block_eq split: if_splits)
    have "?m p \<noteq> None \<longleftrightarrow> m p \<noteq> None \<or> (length (fst e) = ui \<and> tdata (snd e) = p)"
      by (auto simp: map_insert_def)
    then show ?case using Cons.IH[OF ok] by auto
  qed
  from this[of m "entries t"] assms show ?thesis by (simp add: block_level_def)
qed

lemma block_levels_apply:
  assumes "\<forall>p v. m p = Some v \<longrightarrow> v = own_block V w p"
  shows "fold (block_level V w t) us m p =
    (if m p \<noteq> None \<or> (\<exists>e \<in> set (entries t). length (fst e) \<in> set us \<and> tdata (snd e) = p)
     then Some (own_block V w p) else None)"
  using assms
proof (induction us arbitrary: m)
  case Nil
  then show ?case by (cases "m p") auto
next
  case (Cons u us)
  have "\<forall>q v. block_level V w t u m q = Some v \<longrightarrow> v = own_block V w q"
    by (auto simp: block_level_apply[OF Cons.prems] split: if_splits)
  note IH = Cons.IH[OF this]
  have "block_level V w t u m p \<noteq> None \<longleftrightarrow>
      m p \<noteq> None \<or> (\<exists>e \<in> set (entries t). length (fst e) = u \<and> tdata (snd e) = p)"
    by (simp add: block_level_apply[OF Cons.prems])
  then show ?case unfolding fold.simps comp_apply IH by auto
qed

lemma le_max_foldr: "x \<in> set xs \<Longrightarrow> (x :: 'b :: linorder) \<le> foldr max xs z"
  by (induction xs) (auto simp: le_max_iff_disj)

lemma max_depth_bound:
  fixes n :: "'a tnode"
  shows "(anc, m) \<in> set (walk b n) \<Longrightarrow> length anc \<le> length b + node_max_depth n"
proof (induction n arbitrary: b rule: measure_induct_rule[where f = size])
  case (less n)
  show ?case
  proof (cases "(anc, m) = (b, n)")
    case False
    then obtain k where k: "k \<in> set (kids n)" "(anc, m) \<in> set (walk (addr n # b) k)"
      using less.prems by (auto simp: walk_Cons[of b n] in_walks)
    have "size k < size n" using k(1) by (cases n) (auto simp: less_Suc_eq_le intro: size_list_estimation')
    note IH = less.IH[OF this k(2)]
    have "node_max_depth k \<le> foldr max (map node_max_depth (kids n)) 0"
      using k(1) by (intro le_max_foldr) simp
    moreover have "node_max_depth n = Suc (foldr max (map node_max_depth (kids n)) 0)"
      using k(1) by (cases n) auto
    ultimately show ?thesis using IH by simp
  qed simp
qed

lemma depth_le_max: "(anc, n) \<in> set (entries t) \<Longrightarrow> int (length anc) \<le> max_depth t"
proof -
  assume "(anc, n) \<in> set (entries t)"
  then obtain r where r: "r \<in> set (roots t)" "(anc, n) \<in> set (walk [] r)" by (auto simp: entries_def in_walks)
  have "int (node_max_depth r) \<le> max_depth t" unfolding max_depth_def using r(1) by (intro le_max_foldr) simp
  then show ?thesis using max_depth_bound[OF r(2)] by simp
qed

lemma block_map:
  assumes "e \<in> set (entries t)"
  shows "snd (getAccumulatedPropagationMaps V w t) (tdata (snd e)) = Some (own_block V w (tdata (snd e)))"
proof -
  obtain anc n where e: "e = (anc, n)" by fastforce
  have "length anc \<in> set (rev [0..<nat (max_depth t + 1)])" using depth_le_max[of anc n t] assms e by auto
  moreover have "\<forall>p v. (Map.empty :: fptr \<rightharpoonup> 32 word) p = Some v \<longrightarrow> v = own_block V w p" by simp
  ultimately show ?thesis
    using assms unfolding getAccumulatedPropagationMaps_def snd_conv
    by (subst block_levels_apply) (auto simp: e intro!: bexI[of _ e])
qed

text \<open>
  Property C25. The emit map gives every filter the stream types that can leave it: its parent's
  types without the ones it blocks, plus the ones it emits. The block map gives every filter the
  types it blocks itself if it has a valid cache, and none otherwise (the masks of its children,
  which the comment in the source combines with it, never contribute).
\<close>

theorem propagationMaps_accumulated:
  assumes "wf_ptree t" "distinct (datas t)" "e \<in> set (entries t)"
  shows "fst (getAccumulatedPropagationMaps V w t) (tdata (snd e)) = Some (path_emit V w (path_of t e)) \<and>
    snd (getAccumulatedPropagationMaps V w t) (tdata (snd e)) =
      Some (if haveCache w (tdata (snd e)) then blockMask V w (tdata (snd e)) else 0)"
  using emit_map[of t e V w] block_map[of e t V w] assms by (simp add: wf_ptree_def own_block_def)

section \<open>The refresh starts cut the tree\<close>

definition blocked :: "32 word \<Rightarrow> 32 word \<Rightarrow> bool" where
  "blocked em bm \<longleftrightarrow> and em (and (not bm) STREAMTYPE_MASK_ALL) = 0"

lemma blocked_and: "blocked em (and a b) \<longleftrightarrow> blocked em a \<and> blocked em b"
  by (auto simp: blocked_def bit_eq_iff bit_simps)

lemma blocked_fold:
  "blocked em (fold (\<lambda>k b. and b (f k)) ks b) \<longleftrightarrow> blocked em b \<and> (\<forall>k \<in> set ks. blocked em (f k))"
  by (induction ks arbitrary: b) (auto simp: blocked_and)

lemma blocked_all: "blocked em (-1)"
  by (simp add: blocked_def)

lemma isChild_entry:
  "distinct (addrs t) \<Longrightarrow> (anc, n) \<in> set (entries t) \<Longrightarrow> isChild t s (addr n) \<longleftrightarrow> s \<in> set anc"
  by (simp add: isChild_def entry_at_Some list_ex_iff)

text \<open>The state of the loop after the entries \<open>pre\<close>; \<open>pass n\<close> is the test that lets it go further down.\<close>

definition starts_inv :: "(fptr tnode \<Rightarrow> bool) \<Rightarrow> (nat list \<times> fptr tnode) list \<Rightarrow> nat list \<Rightarrow> bool" where
  "starts_inv pass pre seeds \<longleftrightarrow> distinct seeds \<and> set seeds \<subseteq> (addr \<circ> snd) ` set pre \<and>
     (\<forall>(anc, n) \<in> set pre. set anc \<subseteq> (addr \<circ> snd) ` set pre \<and>
        (addr n \<in> set seeds \<longrightarrow> set anc \<inter> set seeds = {}) \<and>
        (addr n \<in> set seeds \<or> set anc \<inter> set seeds \<noteq> {} \<or> pass n))"

lemma starts_inv_step:
  assumes inv: "starts_inv pass pre seeds" and dist: "addr n \<notin> (addr \<circ> snd) ` set pre"
    and par: "anc = [] \<or> (\<exists>p \<in> set pre. anc = addr (snd p) # fst p)"
  shows "set anc \<inter> set seeds \<noteq> {} \<Longrightarrow> starts_inv pass (pre @ [(anc, n)]) seeds"
    and "pass n \<Longrightarrow> starts_inv pass (pre @ [(anc, n)]) seeds"
    and "set anc \<inter> set seeds = {} \<Longrightarrow> starts_inv pass (pre @ [(anc, n)]) (seeds @ [addr n])"
proof -
  have neq: "addr m \<noteq> addr n" if "(a, m) \<in> set pre" for a m using dist that by force
  have old_inv: "set a \<subseteq> (addr \<circ> snd) ` set pre" "addr m \<in> set seeds \<Longrightarrow> set a \<inter> set seeds = {}"
    "addr m \<in> set seeds \<or> set a \<inter> set seeds \<noteq> {} \<or> pass m" if "(a, m) \<in> set pre" for a m
    using bspec[OF conjunct2[OF conjunct2[OF inv[unfolded starts_inv_def]]] that] by simp_all
  have base: "distinct seeds" "set seeds \<subseteq> (addr \<circ> snd) ` set pre" using inv unfolding starts_inv_def by blast+
  have up: "set anc \<subseteq> (addr \<circ> snd) ` set pre"
  proof (cases "anc = []")
    case False
    then obtain a m where "(a, m) \<in> set pre" "anc = addr m # a" using par by auto
    then show ?thesis using old_inv(1)[of a m] by force
  qed simp
  have ns: "addr n \<notin> set seeds" using base(2) dist by blast
  have old: "addr n \<notin> set a" if "(a, m) \<in> set pre" for a m using old_inv(1)[OF that] dist by blast
  have img: "(addr \<circ> snd) ` set (pre @ [(anc, n)]) = insert (addr n) ((addr \<circ> snd) ` set pre)" by simp
  have skip: "starts_inv pass (pre @ [(anc, n)]) seeds" if "set anc \<inter> set seeds \<noteq> {} \<or> pass n"
    unfolding starts_inv_def
  proof (intro conjI ballI, unfold img)
    fix e assume "e \<in> set (pre @ [(anc, n)])"
    then show "case e of (a, m) \<Rightarrow> set a \<subseteq> insert (addr n) ((addr \<circ> snd) ` set pre) \<and>
        (addr m \<in> set seeds \<longrightarrow> set a \<inter> set seeds = {}) \<and>
        (addr m \<in> set seeds \<or> set a \<inter> set seeds \<noteq> {} \<or> pass m)"
      using old_inv[of "fst e" "snd e"] up ns that by (auto simp: subset_insertI2)
  qed (use base in auto)
  then show "starts_inv pass (pre @ [(anc, n)]) seeds" if "set anc \<inter> set seeds \<noteq> {}" using that by blast
  show "starts_inv pass (pre @ [(anc, n)]) seeds" if "pass n" using skip that by blast
  show "starts_inv pass (pre @ [(anc, n)]) (seeds @ [addr n])" if "set anc \<inter> set seeds = {}"
    unfolding starts_inv_def
  proof (intro conjI ballI, unfold img)
    have "addr n \<notin> set anc" using up dist by blast
    fix e assume "e \<in> set (pre @ [(anc, n)])"
    then consider "(fst e, snd e) \<in> set pre" | "e = (anc, n)" by auto
    then show "case e of (a, m) \<Rightarrow> set a \<subseteq> insert (addr n) ((addr \<circ> snd) ` set pre) \<and>
        (addr m \<in> set (seeds @ [addr n]) \<longrightarrow> set a \<inter> set (seeds @ [addr n]) = {}) \<and>
        (addr m \<in> set (seeds @ [addr n]) \<or> set a \<inter> set (seeds @ [addr n]) \<noteq> {} \<or> pass m)"
    proof cases
      case 1
      then show ?thesis using old_inv[OF 1] old[OF 1] neq[OF 1] by (auto split: prod.splits)
    next
      case 2
      then show ?thesis using up that \<open>addr n \<notin> set anc\<close> by auto
    qed
  qed (use base ns in auto)
qed

definition may_pass :: "(fptr \<rightharpoonup> 32 word) \<Rightarrow> (fptr \<rightharpoonup> 32 word) \<Rightarrow> fptr set \<Rightarrow> fptr tnode \<Rightarrow> bool" where
  "may_pass emits blocks leafSet n \<longleftrightarrow> tdata n \<notin> leafSet \<and>
     blocked (map_at emits (tdata n)) (fold (\<lambda>k b. and b (map_at blocks (tdata k))) (kids n) (-1))"

lemma starts_loop_inv:
  assumes "entries t = pre @ es" "distinct (addrs t)" "parents_seen [] (set pre) es"
    "starts_inv (may_pass emits blocks leafSet) pre seeds"
  shows "starts_inv (may_pass emits blocks leafSet) (entries t) (starts_loop t emits blocks leafSet es seeds)"
  using assms
proof (induction es arbitrary: pre seeds)
  case (Cons e es)
  obtain anc n where e: "e = (anc, n)" by fastforce
  have d: "addr n \<notin> (addr \<circ> snd) ` set pre"
    using Cons.prems(1,2) e by (auto simp: addrs_def)
  have par: "anc = [] \<or> (\<exists>p \<in> set pre. anc = addr (snd p) # fst p)" using Cons.prems(3) e by simp
  note step = starts_inv_step[OF Cons.prems(4) d par]
  have ch: "list_ex (\<lambda>s. isChild t s (addr n)) seeds \<longleftrightarrow> set anc \<inter> set seeds \<noteq> {}"
    using isChild_entry[OF Cons.prems(2), of anc n] Cons.prems(1) e by (auto simp: list_ex_iff)
  have "\<exists>seeds'. starts_loop t emits blocks leafSet (e # es) seeds = starts_loop t emits blocks leafSet es seeds' \<and>
      starts_inv (may_pass emits blocks leafSet) (pre @ [e]) seeds'"
  proof (cases "list_ex (\<lambda>s. isChild t s (addr n)) seeds")
    case True
    then show ?thesis using step(1) ch e by (intro exI[of _ seeds]) simp
  next
    case False
    show ?thesis
    proof (cases "may_pass emits blocks leafSet n")
      case True
      then have "starts_inv (may_pass emits blocks leafSet) (pre @ [e]) seeds" using step(2) e by simp
      moreover have "starts_loop t emits blocks leafSet (e # es) seeds = starts_loop t emits blocks leafSet es seeds"
        using True False e by (simp add: may_pass_def blocked_def Let_def)
      ultimately show ?thesis by blast
    next
      case npass: False
      have "starts_inv (may_pass emits blocks leafSet) (pre @ [e]) (seeds @ [addr n])"
        using step(3) False ch e by blast
      moreover have "starts_loop t emits blocks leafSet (e # es) seeds =
          starts_loop t emits blocks leafSet es (seeds @ [addr n])"
        using npass False e by (auto simp: may_pass_def blocked_def Let_def)
      ultimately show ?thesis by blast
    qed
  qed
  then obtain seeds' where s': "starts_loop t emits blocks leafSet (e # es) seeds = starts_loop t emits blocks leafSet es seeds'"
    "starts_inv (may_pass emits blocks leafSet) (pre @ [e]) seeds'" by blast
  show ?case unfolding s'(1) using Cons.IH[of "pre @ [e]" seeds'] Cons.prems(1-3) s'(2) by simp
qed simp

lemma chain_suffix:
  "(xs @ s # ys, n) \<in> set (entries t) \<Longrightarrow> \<exists>m. (ys, m) \<in> set (entries t) \<and> addr m = s"
proof (induction xs arbitrary: n)
  case (Cons x xs)
  then obtain k where "(xs @ s # ys, k) \<in> set (entries t)" using entry_parent[of x "xs @ s # ys" n t] by auto
  then show ?case by (rule Cons.IH)
qed (auto dest: entry_parent)

lemma leaf_filters_iff:
  assumes "distinct (addrs t)" "distinct (datas t)" "(anc, n) \<in> set (entries t)"
  shows "tdata n \<in> leafFilters t \<longleftrightarrow> kids n = []"
proof -
  have uniq: "m = n" if "(a, m) \<in> set (entries t)" "tdata m = tdata n" for a m
  proof -
    have "addr n = addr m"
      using find_data_unique[OF assms(2,3)] find_data_unique[OF assms(2) that(1)] that(2) by (metis option.inject)
    from entries_inj[OF assms(1,3) that(1) this] show ?thesis by simp
  qed
  show ?thesis
  proof
    assume "tdata n \<in> leafFilters t"
    then obtain a m where "(a, m) \<in> set (entries t)" "kids m = []" "tdata m = tdata n"
      by (auto simp: leafFilters_def leaves_def)
    then show "kids n = []" using uniq by blast
  next
    assume "kids n = []"
    then have "(anc, n) \<in> set (leaves t)" using assms(3) by (simp add: leaves_def)
    then show "tdata n \<in> leafFilters t" unfolding leafFilters_def by force
  qed
qed

lemma walk_kids: "(anc, n) \<in> set (entries t) \<Longrightarrow> k \<in> set (kids n) \<Longrightarrow> (addr n # anc, k) \<in> set (entries t)"
proof -
  assume n: "(anc, n) \<in> set (entries t)" and k: "k \<in> set (kids n)"
  have "(addr n # anc, k) \<in> set (walk anc n)"
    using walk_self[of "addr n # anc" k] k unfolding walk_Cons[of anc n] list.set in_walks insert_iff by blast
  then show ?thesis using subtree_entries(2)[of anc n "[]" "roots t"] n unfolding entries_def by blast
qed

text \<open>
  Property C6. The filters from which a refresh starts cut the tree: none of them lies below
  another, every leaf is below or at exactly one of them, and a filter that is skipped (not at or
  below a start) has children, each of which has a valid cache and blocks every stream type that
  can leave the filter, unless nothing leaves it.
\<close>

theorem refreshStarts_cut:
  assumes "wf_ptree t" "distinct (datas t)" "(anc, n) \<in> set (entries t)"
  shows "distinct (getFilterRefreshStarts V w t) \<and>
    (addr n \<in> set (getFilterRefreshStarts V w t) \<longrightarrow> set anc \<inter> set (getFilterRefreshStarts V w t) = {}) \<and>
    (kids n = [] \<longrightarrow> (\<exists>!s. s \<in> set (getFilterRefreshStarts V w t) \<and> s \<in> set (addr n # anc))) \<and>
    (set (addr n # anc) \<inter> set (getFilterRefreshStarts V w t) = {} \<longrightarrow> kids n \<noteq> [] \<and>
      (\<forall>k \<in> set (kids n). blocked (path_emit V w (path_of t (anc, n)))
        (if haveCache w (tdata k) then blockMask V w (tdata k) else 0)))"
proof -
  have d: "distinct (addrs t)" using assms(1) by (simp add: wf_ptree_def)
  obtain emits blocks where eb: "getAccumulatedPropagationMaps V w t = (emits, blocks)" by fastforce
  let ?S = "getFilterRefreshStarts V w t" and ?P = "may_pass emits blocks (leafFilters t)"
  have "entries t \<noteq> []" using assms(3) by auto
  then have "?S = starts_loop t emits blocks (leafFilters t) (entries t) []"
    using eb by (simp add: getFilterRefreshStarts_def tree_size_def)
  then have inv: "starts_inv ?P (entries t) ?S"
    using starts_loop_inv[of t "[]" "entries t" emits blocks "leafFilters t" "[]"] d
      parents_seen_walk(2)[of "[]" "{}" "roots t"] by (simp add: starts_inv_def entries_def)
  have pr: "addr m \<in> set ?S \<Longrightarrow> set a \<inter> set ?S = {}" "addr m \<in> set ?S \<or> set a \<inter> set ?S \<noteq> {} \<or> ?P m"
    if "(a, m) \<in> set (entries t)" for a m
    using bspec[OF conjunct2[OF conjunct2[OF inv[unfolded starts_inv_def]]] that] by simp_all
  have leaf: "tdata n \<in> leafFilters t \<longleftrightarrow> kids n = []" by (rule leaf_filters_iff[OF d assms(2,3)])
  have uniq: "s1 = s2" if s: "s1 \<in> set ?S" "s2 \<in> set ?S" "s1 \<in> set (addr n # anc)" "s2 \<in> set (addr n # anc)" for s1 s2
  proof (rule ccontr)
    assume ne: "s1 \<noteq> s2"
    have no: False if "x \<in> set ?S" "y \<in> set ?S" "addr n # anc = xs @ x # ys" "y \<in> set ys" for x y xs ys
    proof (cases xs)
      case Nil
      then show False using pr(1)[OF assms(3)] that by auto
    next
      case (Cons z zs)
      then have "(zs @ x # ys, n) \<in> set (entries t)" using that(3) assms(3) by simp
      then obtain m where "(ys, m) \<in> set (entries t)" "addr m = x" using chain_suffix by blast
      then show False using pr(1) that(1,2,4) by blast
    qed
    obtain xs ys where xy: "addr n # anc = xs @ s1 # ys" using split_list[OF s(3)] by blast
    with s(4) ne consider "s2 \<in> set ys" | "s2 \<in> set xs" by auto
    then show False
    proof cases
      case 2
      then obtain us vs where "xs = us @ s2 # vs" using split_list by fastforce
      then show False using no[of s2 s1 us "vs @ s1 # ys"] s(1,2) xy by simp
    qed (use no[OF s(1,2) xy] in blast)
  qed
  have skipped: "kids n \<noteq> [] \<and> (\<forall>k \<in> set (kids n). blocked (path_emit V w (path_of t (anc, n)))
        (if haveCache w (tdata k) then blockMask V w (tdata k) else 0))"
    if "set (addr n # anc) \<inter> set ?S = {}"
  proof -
    have p: "?P n" using pr(2)[OF assms(3)] that by auto
    have em: "map_at emits (tdata n) = path_emit V w (path_of t (anc, n))"
      using emit_map[OF d assms(2,3), of V w] eb by (simp add: map_at_def)
    have bk: "map_at blocks (tdata k) = own_block V w (tdata k)" if "k \<in> set (kids n)" for k
      using block_map[OF walk_kids[OF assms(3) that], of V w] eb by (simp add: map_at_def)
    have "\<forall>k \<in> set (kids n). blocked (path_emit V w (path_of t (anc, n))) (own_block V w (tdata k))"
      using p bk em by (auto simp: may_pass_def blocked_fold)
    then show ?thesis using p leaf by (auto simp: may_pass_def own_block_def)
  qed
  have "\<exists>s. s \<in> set ?S \<and> s \<in> set (addr n # anc)" if "kids n = []"
    using skipped that by blast
  then have "\<exists>!s. s \<in> set ?S \<and> s \<in> set (addr n # anc)" if "kids n = []"
    using uniq that by blast
  moreover have "distinct ?S" using inv by (simp add: starts_inv_def)
  ultimately show ?thesis using pr(1)[OF assms(3)] skipped by blast
qed

section \<open>Every filter is refreshed with its parent's output\<close>

text \<open>
  The reference for the refresh from one start node: the start gets no input, every filter below
  it gets the output of its parent, in depth-first order, until a filter fails or the user aborts.
\<close>

fun rf_node :: "'p vtable \<Rightarrow> filterTree \<Rightarrow> renv \<Rightarrow> fptr set \<Rightarrow> nat \<Rightarrow> sptr list \<Rightarrow> fptr tnode \<Rightarrow>
    'p rstate \<Rightarrow> 'p rstate \<times> nat option"
  and rf_nodes :: "'p vtable \<Rightarrow> filterTree \<Rightarrow> renv \<Rightarrow> fptr set \<Rightarrow> nat \<Rightarrow> sptr list \<Rightarrow> fptr tnode list \<Rightarrow>
    'p rstate \<Rightarrow> 'p rstate \<times> nat option" where
  "rf_node V F env leafSet d inp (TNode a p ks) s =
     (case refreshStep V F env leafSet d inp p s of
        (s1, out, Some code) \<Rightarrow> (s1, Some code)
      | (s1, out, None) \<Rightarrow> rf_nodes V F env leafSet (d + 1) out ks s1)"
| "rf_nodes V F env leafSet d inp [] s = (s, None)"
| "rf_nodes V F env leafSet d inp (n # ns) s =
     (case rf_node V F env leafSet d inp n s of
        (s1, Some code) \<Rightarrow> (s1, Some code)
      | (s1, None) \<Rightarrow> rf_nodes V F env leafSet d inp ns s1)"

fun rf_bases :: "'p vtable \<Rightarrow> filterTree \<Rightarrow> renv \<Rightarrow> fptr set \<Rightarrow> nat list \<Rightarrow> 'p rstate \<Rightarrow> 'p rstate \<times> nat option" where
  "rf_bases V F env leafSet [] s = (s, None)"
| "rf_bases V F env leafSet (b # bs) s =
     (let (w1, c1) = collectAll (r_world s) (r_coll s);
          s1 = s\<lparr>r_world := w1, r_coll := trackPointers w1 [] c1\<rparr>
      in case entry_at (ft F) b of
           None \<Rightarrow> (s1, None)
         | Some (_, n) \<Rightarrow>
             (case rf_node V F env leafSet 0 [] n s1 of
                (s2, Some code) \<Rightarrow> (s2, Some code)
              | (s2, None) \<Rightarrow> rf_bases V F env leafSet bs s2))"

text \<open>The two outcomes of running the loop over a piece of the traversal.\<close>

definition loop_result :: "(sptr list list \<times> 'p rstate \<times> nat option) \<Rightarrow> (sptr list list \<Rightarrow> 'p rstate \<Rightarrow>
    sptr list list \<times> 'p rstate \<times> nat option) \<Rightarrow> nat \<Rightarrow> sptr list list \<Rightarrow> 'p rstate \<times> nat option \<Rightarrow> bool" where
  "loop_result r cont k base out = (case out of
      (s', Some code) \<Rightarrow> r = ([], s', Some code)
    | (s', None) \<Rightarrow> \<exists>stk'. r = cont stk' s' \<and> k \<le> length stk' \<and> popPointerStack stk' k = base)"

lemma refresh_loop_walk:
  fixes n :: "fptr tnode" and ns :: "fptr tnode list"
  shows "bd \<le> length anc \<Longrightarrow> length anc - bd + 1 \<le> length stk \<Longrightarrow>
     \<forall>(a, m) \<in> set (walk anc n). tdata m \<in> leafSet \<longleftrightarrow> kids m = [] \<Longrightarrow>
     base = popPointerStack stk (length anc - bd + 1) \<Longrightarrow>
     loop_result (refresh_loop V F env leafSet bd (walk anc n @ rest) stk s)
       (refresh_loop V F env leafSet bd rest) (length anc - bd + 1) base
       (rf_node V F env leafSet (length anc - bd) (hd base) n s)"
    and "bd \<le> length anc \<Longrightarrow> length anc - bd + 1 \<le> length stk \<Longrightarrow>
     \<forall>(a, m) \<in> set (walks anc ns). tdata m \<in> leafSet \<longleftrightarrow> kids m = [] \<Longrightarrow>
     base = popPointerStack stk (length anc - bd + 1) \<Longrightarrow>
     loop_result (refresh_loop V F env leafSet bd (walks anc ns @ rest) stk s)
       (refresh_loop V F env leafSet bd rest) (length anc - bd + 1) base
       (rf_nodes V F env leafSet (length anc - bd) (hd base) ns s)"
proof (induction anc n and anc ns arbitrary: stk s rest base and stk s rest base rule: walk_walks.induct)
  case (1 anc a x ks)
  let ?d = "length anc - bd"
  obtain s1 out r where st: "refreshStep V F env leafSet ?d (hd base) x s = (s1, out, r)"
    by (metis prod_cases3)
  have lb: "length base = ?d + 1" using 1(3,5) by (simp add: popPointerStack_length)
  show ?case
  proof (cases r)
    case (Some code)
    then show ?thesis using st 1(5) by (simp add: loop_result_def Let_def)
  next
    case None
    have lf: "x \<in> leafSet \<longleftrightarrow> ks = []" using 1(4) by auto
    let ?stk = "if x \<notin> leafSet then out # base else base"
    have run: "refresh_loop V F env leafSet bd (walk anc (TNode a x ks) @ rest) stk s =
        refresh_loop V F env leafSet bd (walks (a # anc) ks @ rest) ?stk s1"
      using st None 1(5) by (simp add: Let_def)
    have rec: "rf_node V F env leafSet ?d (hd base) (TNode a x ks) s =
        rf_nodes V F env leafSet (?d + 1) out ks s1"
      using st None by simp
    show ?thesis
    proof (cases "ks = []")
      case True
      have "popPointerStack base (?d + 1) = base" using lb by (simp add: popPointerStack_def)
      then show ?thesis using run rec True lf lb by (auto simp: loop_result_def)
    next
      case False
      then have stk: "?stk = out # base" using lf by simp
      have d1: "length (a # anc) - bd = ?d + 1" using 1(2) by (simp add: Suc_diff_le)
      have top: "out # base = popPointerStack (out # base) (length (a # anc) - bd + 1)"
        using lb d1 by (simp add: popPointerStack_def)
      have IH: "loop_result (refresh_loop V F env leafSet bd (walks (a # anc) ks @ rest) (out # base) s1)
          (refresh_loop V F env leafSet bd rest) (length (a # anc) - bd + 1) (out # base)
          (rf_nodes V F env leafSet (length (a # anc) - bd) (hd (out # base)) ks s1)"
        using 1(2,4) lb d1 by (intro 1(1) top) auto
      then show ?thesis
        using popPointerStack_Suc[of "?d + 1" _ out base] d1
        unfolding run rec stk loop_result_def by (auto split: prod.splits option.splits)
    qed
  qed
next
  case (2 anc)
  then show ?case by (auto simp: loop_result_def)
next
  case (3 anc n ns)
  let ?d = "length anc - bd"
  have leaf: "\<forall>(a, m) \<in> set (walk anc n). tdata m \<in> leafSet \<longleftrightarrow> kids m = []"
    "\<forall>(a, m) \<in> set (walks anc ns). tdata m \<in> leafSet \<longleftrightarrow> kids m = []" using 3(5) by auto
  obtain s1 r where rn: "rf_node V F env leafSet ?d (hd base) n s = (s1, r)" by fastforce
  have A: "loop_result (refresh_loop V F env leafSet bd (walk anc n @ walks anc ns @ rest) stk s)
       (refresh_loop V F env leafSet bd (walks anc ns @ rest)) (?d + 1) base (s1, r)"
    using 3(1)[OF 3(3,4) leaf(1) 3(6), of "walks anc ns @ rest" s] rn by simp
  show ?case
  proof (cases r)
    case (Some code)
    then show ?thesis using A rn by (simp add: loop_result_def)
  next
    case None
    then obtain stk1 where s1: "refresh_loop V F env leafSet bd (walk anc n @ walks anc ns @ rest) stk s =
        refresh_loop V F env leafSet bd (walks anc ns @ rest) stk1 s1"
      "?d + 1 \<le> length stk1" "base = popPointerStack stk1 (?d + 1)"
      using A by (auto simp: loop_result_def)
    show ?thesis using 3(2)[OF 3(3) s1(2) leaf(2) s1(3), of rest s1] rn None s1(1) by simp
  qed
qed

lemma start_nodes_walk:
  assumes "wf_ptree t" "(anc, n) \<in> set (entries t)"
  shows "start_nodes t (addr n) = walk anc n"
proof -
  have d: "distinct (addrs t)" using assms(1) by (simp add: wf_ptree_def)
  obtain pre post where eq: "entries t = pre @ walk anc n @ post" and sf: "scan_from t (addr n) = walk anc n @ post"
    using scan_from_split[OF d assms(2)] by blast
  have dist: "distinct (map (addr \<circ> snd) (walk anc n @ post))" using d eq by (simp add: addrs_def)
  have mem: "addr m = addr n \<or> isChild t (addr n) (addr m) \<longleftrightarrow> (a, m) \<in> set (walk anc n)"
    if "(a, m) \<in> set (entries t)" for a m
    using in_subtree_iff[OF d assms(2) that] isChild_entry[OF d that] entries_inj[OF d that assms(2)]
    by metis
  have "\<forall>e \<in> set (walk anc n). addr (snd e) = addr n \<or> isChild t (addr n) (addr (snd e))"
    using mem eq by (metis Un_iff prod.collapse set_append)
  moreover have "\<forall>e \<in> set post. \<not> (addr (snd e) = addr n \<or> isChild t (addr n) (addr (snd e)))"
  proof
    fix e assume e: "e \<in> set post"
    then have "e \<notin> set (walk anc n)" using dist by auto
    moreover have "(fst e, snd e) \<in> set (entries t)" using e eq by simp
    ultimately show "\<not> (addr (snd e) = addr n \<or> isChild t (addr n) (addr (snd e)))"
      using mem[of "fst e" "snd e"] by (metis prod.collapse)
  qed
  ultimately show ?thesis by (simp add: start_nodes_def sf)
qed

lemma refresh_bases_rf:
  assumes wf: "wf_ptree (ft F)" and dd: "distinct (datas (ft F))"
    and "set bs \<subseteq> set (addrs (ft F))" "stk \<noteq> []" "last stk = []"
  shows "refresh_bases V F env (leafFilters (ft F)) bs stk s = rf_bases V F env (leafFilters (ft F)) bs s"
  using assms(3-)
proof (induction bs arbitrary: stk s)
  case (Cons b bs)
  let ?L = "leafFilters (ft F)"
  have d: "distinct (addrs (ft F))" using wf by (simp add: wf_ptree_def)
  obtain anc n where n: "(anc, n) \<in> set (entries (ft F))" "addr n = b"
    using Cons.prems(1) by (auto simp: addrs_def)
  obtain w1 c1 where ca: "collectAll (r_world s) (r_coll s) = (w1, c1)" by fastforce
  let ?s1 = "s\<lparr>r_world := w1, r_coll := trackPointers w1 [] c1\<rparr>"
  have ea: "entry_at (ft F) b = Some (anc, n)" using entry_at_Some[OF d n(1)] n(2) by simp
  have pop: "popPointerStack st (0 + 1) = [last st]" if "st \<noteq> []" for st
    using that by (cases st rule: rev_cases) (auto simp: popPointerStack_def)
  obtain s2 r where rn: "rf_node V F env ?L 0 [] n ?s1 = (s2, r)" by fastforce
  have leaf: "\<forall>(a, m) \<in> set (walk anc n). tdata m \<in> ?L \<longleftrightarrow> kids m = []"
    using leaf_filters_iff[OF d dd] subtree_entries(2)[of anc n "[]" "roots (ft F)"] n(1)
    by (auto simp: entries_def)
  have A: "loop_result (refresh_loop V F env ?L (length anc) (walk anc n @ []) stk ?s1)
      (refresh_loop V F env ?L (length anc) []) (length anc - length anc + 1) [last stk] (s2, r)"
    using refresh_loop_walk(1)[of "length anc" anc stk n ?L "[last stk]" V F env "[]" ?s1]
      Cons.prems(2,3) pop leaf rn by (cases stk) auto
  have run: "refresh_bases V F env ?L (b # bs) stk s =
      (case refresh_loop V F env ?L (length anc) (walk anc n) stk ?s1 of
           (stk', s2, Some code) \<Rightarrow> (s2, Some code)
         | (stk', s2, None) \<Rightarrow> refresh_bases V F env ?L bs stk' s2)"
    using ca ea start_nodes_walk[OF wf n(1)] n(2) by (simp add: tree_depth_def)
  show ?case
  proof (cases r)
    case (Some code)
    then show ?thesis using A run rn ca ea by (simp add: loop_result_def)
  next
    case None
    then obtain stk' where s': "refresh_loop V F env ?L (length anc) (walk anc n) stk ?s1 = (stk', s2, None)"
      "1 \<le> length stk'" "popPointerStack stk' 1 = [last stk]"
      using A by (auto simp: loop_result_def)
    have "stk' \<noteq> []" using s'(2) by auto
    then have "last stk' = []" using pop[of stk'] s'(3) Cons.prems(3) by simp
    then show ?thesis using Cons.IH[of stk' s2] Cons.prems(1) \<open>stk' \<noteq> []\<close> run s'(1) rn None ca ea
      by simp
  qed
qed simp

lemma starts_subset: "set (starts_loop t emits blocks L es seeds) \<subseteq> set seeds \<union> (addr \<circ> snd) ` set es"
proof (induction es arbitrary: seeds)
  case (Cons e es)
  obtain anc n where e: "e = (anc, n)" by fastforce
  show ?case using Cons.IH[of seeds] Cons.IH[of "seeds @ [addr n]"] by (auto simp: e Let_def)
qed simp

text \<open>
  Property C1. The refresh of the tree, with its stack of stream lists, is the recursion that goes
  through the start filters in order, gives a start no input and every filter below it the output
  of its parent, and stops with the error code at the first filter that fails (or with the abort
  code once the user has aborted); what an earlier branch left on the stack is never seen by a later one.
\<close>

theorem refreshFilterTree_recursion:
  assumes "wf_ptree (ft F)" "distinct (datas (ft F))" "roots (ft F) \<noteq> []"
  shows "refreshFilterTree V F env out0 dev0 cons0 w =
    (let w1 = initFilterTree V (ft F) (clearMonitored V (ft F) w) in
     case rf_bases V F env (leafFilters (ft F)) (getFilterRefreshStarts V w1 (ft F))
        \<lparr>r_world = w1, r_coll = new_collector, r_out = out0, r_devices = dev0, r_console = cons0\<rparr> of
       (s1, Some code) \<Rightarrow> (s1, code)
     | (s1, None) \<Rightarrow> (let (w2, c2) = collectAll (r_world s1) (r_coll s1)
          in (s1\<lparr>r_world := w2, r_coll := c2, r_out := scrub {} (r_out s1)\<rparr>, 0)))"
proof -
  have "tree_size (ft F) \<noteq> 0"
  proof
    assume "tree_size (ft F) = 0"
    then have "roots (ft F) = []" by (cases "roots (ft F)"; auto simp: tree_size_def entries_def walk_Cons)
    then show False using assms(3) by simp
  qed
  moreover have "set (getFilterRefreshStarts V w1 (ft F)) \<subseteq> set (addrs (ft F))" for w1
  proof -
    obtain emits blocks where "getAccumulatedPropagationMaps V w1 (ft F) = (emits, blocks)" by fastforce
    then show ?thesis using starts_subset[of "ft F" emits blocks "leafFilters (ft F)" "entries (ft F)" "[]"]
      by (simp add: getFilterRefreshStarts_def addrs_def)
  qed
  ultimately show ?thesis
    using refresh_bases_rf[OF assms(1,2), of _ "[[]]" V env] by (simp add: refreshFilterTree_def Let_def)
qed

section \<open>The output\<close>

lemma scrub_vec_facts:
  "scrub_vec uniq v = (u, v') \<Longrightarrow> u = uniq \<union> set v \<and> set v' = set v - uniq \<and> distinct v' \<and> subseq v' v"
proof (induction uniq v arbitrary: u v' rule: scrub_vec.induct)
  case (2 uniq s ss)
  show ?case
  proof (cases "s \<in> uniq")
    case True
    then show ?thesis using 2 by auto
  next
    case False
    obtain u1 r where r: "scrub_vec (insert s uniq) ss = (u1, r)" by fastforce
    from 2(1)[OF False r] have IH: "u1 = insert s uniq \<union> set ss" "set r = set ss - insert s uniq"
      "distinct r" "subseq r ss" by blast+
    have "u = u1" "v' = s # r" using 2(3) False r by auto
    then show ?thesis using IH False by auto
  qed
qed simp

text \<open>
  After the output scrubbing every stream occurs exactly once in the whole output, at
  its first place, no stream is lost, and no filter is listed with an empty output.
\<close>

theorem scrub_unique:
  "distinct (concat (map snd (scrub uniq outs))) \<and>
   set (concat (map snd (scrub uniq outs))) = set (concat (map snd outs)) - uniq \<and>
   subseq (map fst (scrub uniq outs)) (map fst outs) \<and> (\<forall>o1 \<in> set (scrub uniq outs). snd o1 \<noteq> [])"
proof (induction uniq outs rule: scrub.induct)
  case (2 uniq p v outs)
  obtain u v' where sv: "scrub_vec uniq v = (u, v')" by fastforce
  note f = scrub_vec_facts[OF sv]
  from 2[OF sv[symmetric] refl] f sv show ?case by (auto simp: Let_def)
qed simp

lemma killFlags_length: "killFlags m b ss w = (ks, w') \<Longrightarrow> length ks = length ss"
  by (induction m b ss w arbitrary: ks w' rule: killFlags.induct) (auto simp: Let_def split: if_splits prod.splits)

text \<open>Which streams the mask protects: with no mask none; else those inside (outside) the mask.\<close>

definition protected :: "32 word \<Rightarrow> bool \<Rightarrow> 'p world \<Rightarrow> sptr \<Rightarrow> bool" where
  "protected typeMask maskPrevents w s \<longleftrightarrow>
     typeMask \<noteq> 0 \<and> (if maskPrevents then and (streamType w s) typeMask \<noteq> 0 else and (streamType w s) typeMask = 0)"

lemma deleteStream_live:
  "s \<noteq> 0 \<Longrightarrow> strms w s \<noteq> None \<Longrightarrow> deleteStream s w = w\<lparr>strms := (strms w)(s := None)\<rparr>"
  by (auto simp: deleteStream_def)

lemma killFlags_facts:
  assumes "killFlags m b ss w = (ks, w')" "distinct ss" "\<forall>s \<in> set ss. s \<noteq> 0 \<and> strms w s \<noteq> None"
  shows "ks = map (\<lambda>s. \<not> protected m b w s) ss \<and> ub w' = ub w \<and> filts w' = filts w \<and>
    strms w' = (\<lambda>s. if s \<in> set ss \<and> \<not> protected m b w s \<and> \<not> streamCached w s then None else strms w s)"
  using assms
proof (induction m b ss w arbitrary: ks w' rule: killFlags.induct)
  case (2 m b s ss w)
  let ?prot = "m \<noteq> 0 \<and> ((and (streamType w s) m \<noteq> 0) \<noteq> (\<not> b))"
  have pr: "?prot \<longleftrightarrow> protected m b w s" by (auto simp: protected_def)
  show ?case
  proof (cases ?prot)
    case True
    then obtain ks1 where k: "killFlags m b ss w = (ks1, w')" "ks = False # ks1"
      using 2(3) by (auto split: prod.splits)
    show ?thesis using 2(1)[OF True k(1)] 2(4,5) k(2) True pr by auto
  next
    case False
    define w1 where "w1 = (if \<not> streamCached w s then deleteStream s w else w)"
    obtain ks1 where k: "killFlags m b ss w1 = (ks1, w')" "ks = True # ks1"
      using 2(3) False by (auto simp: w1_def Let_def split: prod.splits)
    have w1: "ub w1 = ub w" "filts w1 = filts w" "\<forall>x. x \<noteq> s \<longrightarrow> strms w1 x = strms w x"
      "strms w1 s = (if streamCached w s then strms w s else None)"
      using deleteStream_live[of s w] 2(5) by (auto simp: w1_def)
    have ne: "s \<notin> set ss" using 2(4) by simp
    have same: "protected m b w1 x = protected m b w x" "streamCached w1 x = streamCached w x" if "x \<noteq> s" for x
      using w1(3) that by (simp_all add: protected_def streamType_def streamCached_def)
    have "\<forall>x \<in> set ss. x \<noteq> 0 \<and> strms w1 x \<noteq> None" using 2(5) w1(3) ne by auto
    with 2(2)[OF False w1_def k(1)] 2(4) have IH: "ks1 = map (\<lambda>s. \<not> protected m b w1 s) ss" "ub w' = ub w1" "filts w' = filts w1"
      "strms w' = (\<lambda>x. if x \<in> set ss \<and> \<not> protected m b w1 x \<and> \<not> streamCached w1 x then None else strms w1 x)"
      by auto
    have "protected m b w1 x = protected m b w x" if "x \<in> set ss" for x
      using same(1)[of x] that ne by metis
    then have "ks1 = map (\<lambda>s. \<not> protected m b w s) ss" unfolding IH(1) by (intro map_cong) auto
    moreover have "strms w' x = (if x \<in> set (s # ss) \<and> \<not> protected m b w x \<and> \<not> streamCached w x then None else strms w x)" for x
      using IH(4) same ne w1(3,4) False pr by (cases "x = s") auto
    ultimately show ?thesis using k(2) IH(2,3) w1 False pr by auto
  qed
qed (simp add: fun_eq_iff)

text \<open>
  Disposing of refresh output in which every stream occurs once frees exactly the
  unprotected streams that no cache owns, each once, and leaves exactly the protected streams in
  the output, in order, without empty entries.
\<close>

theorem safeDelete_exact:
  assumes "distinct (concat (map snd outs))" "\<forall>s \<in> set (concat (map snd outs)). s \<noteq> 0 \<and> strms w s \<noteq> None"
    and "safeDeleteFilterList typeMask maskPrevents outs w = (outs', w')"
  shows "outs' = filter (\<lambda>o1. snd o1 \<noteq> []) (map (\<lambda>(p, v). (p, filter (protected typeMask maskPrevents w) v)) outs) \<and>
    ub w' = ub w \<and> strms w' = (\<lambda>s. if s \<in> set (concat (map snd outs)) \<and>
      \<not> protected typeMask maskPrevents w s \<and> \<not> streamCached w s then None else strms w s)"
  using assms
proof (induction typeMask maskPrevents outs w arbitrary: outs' w' rule: safeDeleteFilterList.induct)
  case (2 m b p v outs w)
  obtain ks w1 where k: "killFlags m b v w = (ks, w1)" by fastforce
  obtain outs1 where o1: "safeDeleteFilterList m b outs w1 = (outs1, w')"
    "outs' = (if vectorMultiErase v ks = [] then outs1 else (p, vectorMultiErase v ks) # outs1)"
    using 2(4) k by (auto simp: Let_def split: prod.splits)
  have "distinct v" "\<forall>s \<in> set v. s \<noteq> 0 \<and> strms w s \<noteq> None" using 2(2,3) by auto
  note kf = killFlags_facts[OF k this]
  have er: "vectorMultiErase v ks = filter (protected m b w) v"
    using kf by (simp add: vectorMultiErase_eq keep_unkilled_flags)
  have disj: "s \<notin> set v" if "s \<in> set (concat (map snd outs))" for s using 2(2) that by auto
  have same: "strms w1 s = strms w s" "protected m b w1 s = protected m b w s" "streamCached w1 s = streamCached w s"
    if "s \<notin> set v" for s
    using kf that by (simp_all add: protected_def streamType_def streamCached_def)
  have "distinct (concat (map snd outs))" "\<forall>s \<in> set (concat (map snd outs)). s \<noteq> 0 \<and> strms w1 s \<noteq> None"
    using 2(2,3) disj same(1) by auto
  note IH = 2(1)[OF k[symmetric] refl refl this o1(1)]
  have mm: "map (\<lambda>(p, v). (p, filter (protected m b w1) v)) outs = map (\<lambda>(p, v). (p, filter (protected m b w) v)) outs"
  proof (intro map_cong refl)
    fix x assume x: "x \<in> set outs"
    have "protected m b w1 s = protected m b w s" if "s \<in> set (snd x)" for s
      using same(2)[OF disj[of s]] that x by auto
    then show "(case x of (p, v) \<Rightarrow> (p, filter (protected m b w1) v)) = (case x of (p, v) \<Rightarrow> (p, filter (protected m b w) v))"
      by (cases x) (auto intro!: filter_cong)
  qed
  have "outs1 = filter (\<lambda>o1. snd o1 \<noteq> []) (map (\<lambda>(p, v). (p, filter (protected m b w) v)) outs)"
    using conjunct1[OF IH] unfolding mm .
  moreover have "strms w' s = (if s \<in> set (concat (map snd ((p, v) # outs))) \<and>
      \<not> protected m b w s \<and> \<not> streamCached w s then None else strms w s)" for s
    using IH kf same[of s] disj[of s] by (cases "s \<in> set v") auto
  ultimately show ?case using o1(2) er IH kf by (auto simp: fun_eq_iff)
qed (simp add: fun_eq_iff)

end
