(* ===== verification/FreshNames.thy ===== *)
theory FreshNames
  imports Prelude
begin

text \<open>
  Several parts of the program keep generating candidates until one is not in use: the paths of
  \<^verbatim>\<open>FilterTree::serialiseToStringPaths\<close>, the identifiers of \<^verbatim>\<open>UniqueIDHandler\<close>, the file and
  stash names of a saved state. The locale states what such a loop relies on, candidates
  that do not repeat, and proves that the loop ends with an unused candidate. Also here: the
  decimal digits a number is streamed as.
\<close>

section \<open>Trying candidates\<close>

text \<open>\<open>fresh_loop\<close> is the while loop: None is a loop that has not ended within \<open>fuel\<close> rounds.\<close>

fun fresh_loop :: "(nat \<Rightarrow> 'a) \<Rightarrow> 'a set \<Rightarrow> nat \<Rightarrow> nat \<Rightarrow> nat option" where
  "fresh_loop cand used 0 k = None"
| "fresh_loop cand used (Suc fuel) k = (if cand k \<in> used then fresh_loop cand used fuel (Suc k) else Some k)"

lemma fresh_loop_Some:
  "fresh_loop cand used fuel k = Some j \<Longrightarrow> cand j \<notin> used \<and> k \<le> j \<and> (\<forall>i. k \<le> i \<and> i < j \<longrightarrow> cand i \<in> used)"
proof (induction cand used fuel k rule: fresh_loop.induct)
  case (2 cand used fuel k)
  show ?case
  proof (cases "cand k \<in> used")
    case True
    with 2 have "cand j \<notin> used \<and> Suc k \<le> j \<and> (\<forall>i. Suc k \<le> i \<and> i < j \<longrightarrow> cand i \<in> used)" by simp
    then show ?thesis using True by (metis Suc_leD Suc_leI le_eq_less_or_eq)
  next
    case False
    then show ?thesis using 2 by auto
  qed
qed simp

lemma fresh_loop_None: "fresh_loop cand used fuel k = None \<Longrightarrow> \<forall>i. k \<le> i \<and> i < k + fuel \<longrightarrow> cand i \<in> used"
proof (induction cand used fuel k rule: fresh_loop.induct)
  case (2 cand used fuel k)
  then have "cand k \<in> used" and "\<forall>i. Suc k \<le> i \<and> i < Suc k + fuel \<longrightarrow> cand i \<in> used"
    by (auto split: if_splits)
  then show ?case by (metis Suc_leI add_Suc_right add_Suc_shift le_eq_less_or_eq)
qed auto

locale fresh_names =
  fixes cand :: "nat \<Rightarrow> 'a"
  assumes cand_inj: "inj cand"
begin

lemma fresh_total:
  assumes "finite used" "card used < fuel"
  shows "\<exists>j. fresh_loop cand used fuel k = Some j"
proof (rule ccontr)
  assume "\<nexists>j. fresh_loop cand used fuel k = Some j"
  then have "fresh_loop cand used fuel k = None" by simp
  then have "\<forall>i. k \<le> i \<and> i < k + fuel \<longrightarrow> cand i \<in> used" by (rule fresh_loop_None)
  then have "cand ` {k..<k + fuel} \<subseteq> used" by auto
  then have "card (cand ` {k..<k + fuel}) \<le> card used" using assms(1) by (rule card_mono[rotated])
  moreover have "card (cand ` {k..<k + fuel}) = fuel"
    using card_image[OF inj_on_subset[OF cand_inj]] by fastforce
  ultimately show False using assms(2) by simp
qed

text \<open>The unused candidate that the loop ends with, with as much fuel as there are used names.\<close>

definition fresh :: "'a set \<Rightarrow> nat \<Rightarrow> 'a" where
  "fresh used k = (case fresh_loop cand used (Suc (card used)) k of None \<Rightarrow> cand k | Some j \<Rightarrow> cand j)"

lemma fresh_unused: "finite used \<Longrightarrow> fresh used k \<notin> used"
  using fresh_total[of used "Suc (card used)" k] fresh_loop_Some[of cand used]
  by (auto simp: fresh_def)

end

section \<open>Decimal digits\<close>

definition digitChar :: "nat \<Rightarrow> char" where "digitChar d = ''0123456789'' ! d"

fun showNat :: "nat \<Rightarrow> string" where
  "showNat n = (if n < 10 then [digitChar n] else showNat (n div 10) @ [digitChar (n mod 10)])"

declare showNat.simps [simp del]

definition digitVal :: "char \<Rightarrow> nat" where "digitVal c = of_char c - 48"

definition readNat :: "string \<Rightarrow> nat" where
  "readNat s = foldl (\<lambda>n c. 10 * n + digitVal c) 0 s"

lemma digit_cases: "d < (10 :: nat) \<Longrightarrow> d = 0 \<or> d = 1 \<or> d = 2 \<or> d = 3 \<or> d = 4 \<or> d = 5 \<or> d = 6 \<or> d = 7 \<or> d = 8 \<or> d = 9"
  by arith

lemma digitVal_char: "d < 10 \<Longrightarrow> digitVal (digitChar d) = d"
  by (drule digit_cases) (elim disjE; simp add: digitVal_def digitChar_def)

lemma digitChar_digit: "d < 10 \<Longrightarrow> digitChar d \<in> set ''0123456789''"
  unfolding digitChar_def by (rule nth_mem) simp

lemma readNat_snoc: "readNat (s @ [c]) = 10 * readNat s + digitVal c"
  by (simp add: readNat_def)

lemma read_show [simp]: "readNat (showNat n) = n"
proof (induction n rule: showNat.induct)
  case (1 n)
  show ?case
  proof (cases "n < 10")
    case True
    then show ?thesis by (subst showNat.simps) (simp add: readNat_def digitVal_char)
  next
    case False
    then have "readNat (showNat n) = 10 * readNat (showNat (n div 10)) + digitVal (digitChar (n mod 10))"
      by (subst showNat.simps) (simp add: readNat_snoc)
    also have "\<dots> = n" using 1 False by (simp add: digitVal_char)
    finally show ?thesis .
  qed
qed

lemma showNat_inj [simp]: "showNat m = showNat n \<longleftrightarrow> m = n"
  by (metis read_show)

lemma showNat_not_Nil [simp]: "showNat n \<noteq> []"
  by (subst showNat.simps) simp

lemma showNat_digits: "c \<in> set (showNat n) \<Longrightarrow> c \<in> set ''0123456789''"
proof (induction n rule: showNat.induct)
  case (1 n)
  show ?case
  proof (cases "n < 10")
    case True
    then have "showNat n = [digitChar n]" by (subst showNat.simps) simp
    then show ?thesis using 1(2) digitChar_digit[OF True] by simp
  next
    case False
    then have "showNat n = showNat (n div 10) @ [digitChar (n mod 10)]" by (subst showNat.simps) simp
    then have "c \<in> set (showNat (n div 10)) \<or> c = digitChar (n mod 10)" using 1(2) by auto
    then show ?thesis using 1(1)[OF False] digitChar_digit[of "n mod 10"] by auto
  qed
qed

text \<open>Candidates of the form prefix, number, suffix never repeat.\<close>

interpretation numbered: fresh_names "\<lambda>k. pre @ showNat k @ suf" for pre suf :: string
  by unfold_locales (auto intro: injI)

end
