(* ===== verification/FilterTreePaths.thy ===== *)
theory FilterTreePaths
  imports FilterTreeRefresh FreshNames
begin

text \<open>
  \<^verbatim>\<open>FilterTree::serialiseToStringPaths\<close> (src/src/backend/filtertree.cpp): a string path for every
  filter, by which the selections and bindings of a saved state find their filter again.
\<close>

definition PATH_NONCE :: string where "PATH_NONCE = ''$>''"

text \<open>
  The retry loop: \<open>k\<close> is \<^verbatim>\<open>nonceIncrement\<close>. The first path tried has a slash, the later ones do
  not. One round more than there are enumerated paths is always enough.
\<close>

definition noncePath :: "string \<Rightarrow> string \<Rightarrow> nat \<Rightarrow> string" where
  "noncePath pth ty k = pth @ ty @ PATH_NONCE @ showNat k"

definition pathFor :: "string \<Rightarrow> string \<Rightarrow> string list \<Rightarrow> string" where
  "pathFor pth ty enumerated =
     (if pth @ ''/'' @ ty \<notin> set enumerated then pth @ ''/'' @ ty
      else case fresh_loop (noncePath pth ty) (set enumerated) (Suc (length enumerated)) 1 of
             None \<Rightarrow> pth @ ''/'' @ ty
           | Some k \<Rightarrow> noncePath pth ty k)"

text \<open>The path stack is held head first; \<open>done\<close> lists the enumerated paths with their filters.\<close>

fun serialise_loop :: "'p vtable \<Rightarrow> 'p world \<Rightarrow> (nat list \<times> fptr tnode) list \<Rightarrow> string list \<Rightarrow>
    (fptr \<times> string) list \<Rightarrow> (fptr \<times> string) list" where
  "serialise_loop V w [] stk done = done"
| "serialise_loop V w ((anc, n) # es) stk done =
     (let stk1 = drop (length stk - (length anc + 1)) stk;
          testPath = pathFor (hd stk1) (get_filt [] (v_typeString V) w (tdata n)) (map snd done)
      in serialise_loop V w es (testPath # stk1) (done @ [(tdata n, testPath)]))"

text \<open>The two maps: \<^verbatim>\<open>insert\<close> keeps the first entry, \<^verbatim>\<open>operator[]\<close> overwrites.\<close>

definition serialiseToStringPaths :: "'p vtable \<Rightarrow> 'p world \<Rightarrow> filterTree \<Rightarrow> (fptr \<rightharpoonup> string)" where
  "serialiseToStringPaths V w F =
     fold (\<lambda>(f, s) m. map_insert f s m) (serialise_loop V w (entries (ft F)) [''''] []) Map.empty"

definition serialiseFromStringPaths :: "'p vtable \<Rightarrow> 'p world \<Rightarrow> filterTree \<Rightarrow> (string \<rightharpoonup> fptr)" where
  "serialiseFromStringPaths V w F =
     fold (\<lambda>f m. case serialiseToStringPaths V w F f of None \<Rightarrow> m | Some s \<Rightarrow> m(s \<mapsto> f))
       (sort (remdups (datas (ft F)))) Map.empty"

interpretation nonce: fresh_names "noncePath pth ty" for pth ty
  by unfold_locales (auto intro: injI simp: noncePath_def)

lemma pathFor_fresh: "pathFor pth ty enumerated \<notin> set enumerated"
proof (cases "pth @ ''/'' @ ty \<in> set enumerated")
  case True
  have "card (set enumerated) < Suc (length enumerated)" by (simp add: card_length less_Suc_eq_le)
  then obtain k where k: "fresh_loop (noncePath pth ty) (set enumerated) (Suc (length enumerated)) 1 = Some k"
    using nonce.fresh_total[of "set enumerated"] by blast
  have "noncePath pth ty k \<notin> set enumerated" using fresh_loop_Some[OF k] by simp
  then show ?thesis using True k unfolding pathFor_def by simp
qed (simp add: pathFor_def)

lemma serialise_loop_facts:
  "distinct (map snd done) \<Longrightarrow> map fst (serialise_loop V w es stk done) = map fst done @ map (tdata \<circ> snd) es \<and>
   distinct (map snd (serialise_loop V w es stk done))"
proof (induction V w es stk "done" rule: serialise_loop.induct)
  case (2 V w anc n es stk "done")
  let ?p = "pathFor (hd (drop (length stk - (length anc + 1)) stk)) (get_filt [] (v_typeString V) w (tdata n)) (map snd done)"
  have "distinct (map snd (done @ [(tdata n, ?p)]))" using 2(2) pathFor_fresh[of _ _ "map snd done"] by simp
  from 2(1)[OF refl refl this] show ?case by (simp add: Let_def)
qed simp

lemma fold_map_insert:
  "distinct (map fst xs) \<Longrightarrow> fst ` set xs \<inter> dom m = {} \<Longrightarrow>
   fold (\<lambda>(f, s) m. map_insert f s m) xs m = m ++ map_of xs"
proof (induction xs arbitrary: m)
  case (Cons x xs)
  obtain f s where x: "x = (f, s)" by fastforce
  have dj: "fst ` set xs \<inter> dom (m(f \<mapsto> s)) = {}" using Cons.prems x by auto
  have mi: "map_insert f s m = m(f \<mapsto> s)" using Cons.prems x by (auto simp: map_insert_def)
  have "map_of xs f = None" using Cons.prems(1) x by (simp add: map_of_eq_None_iff)
  then have ov: "m(f \<mapsto> s) ++ map_of xs = m ++ map_of (x # xs)"
    by (auto simp: map_add_def fun_eq_iff x split: option.splits)
  have st: "fold (\<lambda>(f, s) m. map_insert f s m) (x # xs) m = fold (\<lambda>(f, s) m. map_insert f s m) xs (m(f \<mapsto> s))"
    by (simp only: fold_Cons comp_apply x prod.case mi)
  have "distinct (map fst xs)" using Cons.prems(1) by simp
  from Cons.IH[OF this dj] have "fold (\<lambda>(f, s) m. map_insert f s m) xs (m(f \<mapsto> s)) = m(f \<mapsto> s) ++ map_of xs" .
  then show ?case unfolding st ov .
qed simp

lemma paths_injective_core:
  assumes "distinct (datas (ft F))"
  shows "dom (serialiseToStringPaths V w F) = set (datas (ft F)) \<and>
    inj_on (serialiseToStringPaths V w F) (set (datas (ft F)))"
proof -
  let ?l = "serialise_loop V w (entries (ft F)) [''''] []"
  have l: "map fst ?l = datas (ft F)" "distinct (map snd ?l)"
    using serialise_loop_facts[of "[]" V w "entries (ft F)" "['''']"] by (simp_all add: datas_def)
  then have m: "serialiseToStringPaths V w F = map_of ?l"
    using fold_map_insert[of ?l Map.empty] assms by (simp add: serialiseToStringPaths_def)
  have "inj_on (map_of ?l) (set (map fst ?l))"
  proof (rule inj_onI)
    fix x y assume "x \<in> set (map fst ?l)" "y \<in> set (map fst ?l)" and e: "map_of ?l x = map_of ?l y"
    then obtain s where "map_of ?l x = Some s" "map_of ?l y = Some s"
      by (metis (no_types) dom_map_of_conv_image_fst domD list.set_map)
    then have "(x, s) \<in> set ?l" "(y, s) \<in> set ?l" by (auto dest: map_of_SomeD)
    moreover have "inj_on snd (set ?l)" using l(2) by (simp add: distinct_map)
    ultimately show "x = y" by (metis inj_onD prod.inject snd_conv)
  qed
  then show ?thesis unfolding m l(1) by (metis dom_map_of_conv_image_fst l(1) list.set_map)
qed

text \<open>
  Every filter of the tree gets a path, and no two filters get the same path.
\<close>

theorem paths_injective:
  assumes "distinct (datas (ft F))"
  shows "dom (serialiseToStringPaths V w F) = set (datas (ft F)) \<and>
    inj_on (serialiseToStringPaths V w F) (set (datas (ft F)))"
  by (rule paths_injective_core[OF assms])

text \<open>
  The inverse map finds every filter of the tree by its own path.
\<close>

theorem paths_lookup:
  assumes "distinct (datas (ft F))" "f \<in> set (datas (ft F))"
  shows "\<exists>s. serialiseToStringPaths V w F f = Some s \<and> serialiseFromStringPaths V w F s = Some f"
proof -
  let ?m = "serialiseToStringPaths V w F" and ?g = "\<lambda>f m. case serialiseToStringPaths V w F f of None \<Rightarrow> m | Some s \<Rightarrow> m(s \<mapsto> f)"
  have dm: "dom ?m = set (datas (ft F))" and inj: "inj_on ?m (set (datas (ft F)))"
    using paths_injective_core[OF assms(1)] by blast+
  obtain s where s: "?m f = Some s" using assms(2) dm by blast
  have "fold ?g fs m s = (if f \<in> set fs then Some f else m s)" if "set fs \<subseteq> set (datas (ft F))" for fs m
    using that
  proof (induction fs arbitrary: m)
    case (Cons h fs)
    obtain u where u: "?m h = Some u" using Cons.prems dm by auto
    have "u = s \<longleftrightarrow> h = f" using u s inj_onD[OF inj, of h f] assms(2) Cons.prems by auto
    then show ?case using Cons u by auto
  qed simp
  from this[of "sort (remdups (datas (ft F)))" Map.empty] show ?thesis
    using s assms(2) by (auto simp: serialiseFromStringPaths_def)
qed

end
