(* ===== verification/Float32.thy ===== *)
theory Float32
  imports Prelude "HOL-Library.Log_Nat"
begin

text \<open>
  The \<^verbatim>\<open>float\<close> arithmetic of the geometry code. A finite float is its rational value; every
  operation is the exact one followed by \<open>f32\<close>, the rounding of IEEE binary32: to nearest,
  ties to even, gradual underflow below the normal range, and overflow to infinity, which the
  model writes as the number \<open>2 ^ 128\<close> (larger than every finite float, so comparisons with
  it come out as in IEEE; the sums of squares below never subtract infinities, so no NaN
  arises). The sign of zero is not represented. What the geometry relies on is the contract of
  the locale \<open>rounding\<close>: rounding is monotone and odd. \<open>f32\<close> is shown to satisfy it.
\<close>

section \<open>The contract\<close>

locale rounding =
  fixes r :: "rat \<Rightarrow> rat"
  assumes mono: "x \<le> y \<Longrightarrow> r x \<le> r y"
    and odd: "r (- x) = - r x"
begin

lemma zero: "r 0 = 0"
  using odd [of 0] by simp

lemma nonneg: "0 \<le> x \<Longrightarrow> 0 \<le> r x"
  using mono [of 0 x] by (simp add: zero)

lemma nonpos: "x \<le> 0 \<Longrightarrow> r x \<le> 0"
  using mono [of x 0] by (simp add: zero)

lemma abs_out: "\<bar>r x\<bar> = r \<bar>x\<bar>"
  using nonneg [of x] nonpos [of x] odd [of x] by (cases "0 \<le> x") (auto simp: abs_if)

lemma abs_mono: "\<bar>x\<bar> \<le> \<bar>y\<bar> \<Longrightarrow> \<bar>r x\<bar> \<le> \<bar>r y\<bar>"
  by (simp add: abs_out mono)

lemma square_mono: "\<bar>x\<bar> \<le> \<bar>y\<bar> \<Longrightarrow> r (x * x) \<le> r (y * y)"
  by (rule mono) (metis abs_ge_zero abs_mult_self_eq mult_mono')

text \<open>
  The sum of three rounded squares of rounded differences, the distance the code computes,
  grows with each difference.
\<close>

definition dist2 :: "rat \<Rightarrow> rat \<Rightarrow> rat \<Rightarrow> rat" where
  "dist2 a b c = r (r (r (r a * r a) + r (r b * r b)) + r (r c * r c))"

lemma dist2_mono:
  assumes "\<bar>a\<bar> \<le> \<bar>a'\<bar>" "\<bar>b\<bar> \<le> \<bar>b'\<bar>" "\<bar>c\<bar> \<le> \<bar>c'\<bar>"
  shows "dist2 a b c \<le> dist2 a' b' c'"
  unfolding dist2_def
  by (intro mono add_mono square_mono abs_mono assms)

lemma dist2_nonneg: "0 \<le> dist2 a b c"
  unfolding dist2_def by (intro nonneg add_nonneg_nonneg) auto

lemma dist2_abs:
  assumes "\<bar>a\<bar> = \<bar>a'\<bar>" "\<bar>b\<bar> = \<bar>b'\<bar>" "\<bar>c\<bar> = \<bar>c'\<bar>"
  shows "dist2 a b c = dist2 a' b' c'"
  by (rule antisym; rule dist2_mono; simp add: assms)

end

section \<open>Rounding to binary32\<close>

text \<open>\<open>expo x\<close> is the exponent of \<open>x\<close>: \<open>2 powi expo x \<le> \<bar>x\<bar> < 2 powi (expo x + 1)\<close>.\<close>

definition expo :: "rat \<Rightarrow> int" where
  "expo x = (let (p, q) = quotient_of \<bar>x\<bar>; e = bitlen p - bitlen q
             in if 2 powi e \<le> \<bar>x\<bar> then e else e - 1)"

text \<open>The distance of two neighbouring floats at exponent \<open>e\<close>: 24 significant bits, and
  \<open>2 powi (-149)\<close> at the least.\<close>

definition ulp :: "int \<Rightarrow> rat" where
  "ulp e = 2 powi (max (e - 23) (- 149))"

definition roundEven :: "rat \<Rightarrow> int" where
  "roundEven y = (let f = \<lfloor>y\<rfloor>; d = y - of_int f
                  in if d < 1 / 2 then f
                     else if d > 1 / 2 then f + 1
                     else if even f then f else f + 1)"

definition roundNear :: "rat \<Rightarrow> rat" where
  "roundNear x = (if x = 0 then 0 else of_int (roundEven (x / ulp (expo x))) * ulp (expo x))"

definition INF32 :: rat where
  "INF32 = 340282366920938463463374607431768211456"

definition f32 :: "rat \<Rightarrow> rat" where
  "f32 x = max (- INF32) (min INF32 (roundNear x))"

definition FLT_MAX :: rat where
  "FLT_MAX = 340282346638528859811704183484516925440"

lemma INF32_power: "INF32 = 2 ^ 128"
  by (simp add: INF32_def)

lemma FLT_MAX_power: "FLT_MAX = (2 ^ 24 - 1) * 2 ^ 104"
  by (simp add: FLT_MAX_def)

definition FLT_EPSILON :: rat where
  "FLT_EPSILON = 1 / 2 ^ 23"

text \<open>\<^verbatim>\<open>sqrtf(FLT_EPSILON)\<close> and \<^verbatim>\<open>sqrtf(FLT_MAX)\<close>, correctly rounded.\<close>

definition SQRT_FLT_EPSILON :: rat where
  "SQRT_FLT_EPSILON = 11863283 / 2 ^ 35"

definition SQRT_FLT_MAX :: rat where
  "SQRT_FLT_MAX = 2 ^ 64 - 2 ^ 40"

subsection \<open>The exponent\<close>

lemma powi2_pos [simp]: "(0::rat) < 2 powi e"
  by (simp add: zero_less_power_int)

lemma powi2_add: "(2::rat) powi (a + b) = 2 powi a * 2 powi b"
  by (simp add: power_int_add)

lemma powi2_mono: "a \<le> b \<Longrightarrow> (2::rat) powi a \<le> 2 powi b"
  by (rule power_int_increasing) auto

lemma powi2_less: "(2::rat) powi a < 2 powi b \<Longrightarrow> a < b"
  by (metis linorder_not_less powi2_mono)

lemma powi2_bitlen:
  assumes "0 < p"
  shows "(2::rat) powi (bitlen p - 1) \<le> of_int p" "of_int p < (2::rat) powi (bitlen p)"
proof -
  have b: "1 \<le> bitlen p"
    using assms by (metis bitlen_eq_zero_iff bitlen_nonneg int_one_le_iff_zero_less
        linorder_not_less order_le_less)
  have "2 ^ nat (bitlen p - 1) \<le> p" "p < 2 ^ nat (bitlen p)"
    using bitlen_bounds [OF assms] by auto
  then have "(2::rat) ^ nat (bitlen p - 1) \<le> of_int p" "of_int p < (2::rat) ^ nat (bitlen p)"
    by (metis of_int_le_iff of_int_numeral of_int_power, metis of_int_less_iff of_int_numeral of_int_power)
  with b show "(2::rat) powi (bitlen p - 1) \<le> of_int p" "of_int p < (2::rat) powi (bitlen p)"
    by (simp_all add: power_int_nonneg_exp)
qed

lemma expo_bounds:
  assumes "x \<noteq> 0"
  shows "2 powi expo x \<le> \<bar>x\<bar>" "\<bar>x\<bar> < 2 powi (expo x + 1)"
proof -
  obtain p q where pq: "quotient_of \<bar>x\<bar> = (p, q)"
    by fastforce
  have q: "0 < q" and x: "\<bar>x\<bar> = of_int p / of_int q"
    using quotient_of_denom_pos [OF pq] quotient_of_div [OF pq] by auto
  have p: "0 < p"
    using assms x q zero_less_abs_iff [of x]
    by (metis of_int_0_less_iff zero_less_divide_iff not_less_iff_gr_or_eq)
  define e where "e = bitlen p - bitlen q"
  have "\<bar>x\<bar> < 2 powi bitlen p / 2 powi (bitlen q - 1)"
    unfolding x using powi2_bitlen [OF p] powi2_bitlen [OF q] q p
    by (intro frac_less) auto
  also have "\<dots> = 2 powi (e + 1)"
    by (simp add: e_def power_int_diff power_int_add)
  finally have hi: "\<bar>x\<bar> < 2 powi (e + 1)" .
  have "2 powi (e - 1) = (2::rat) powi (bitlen p - 1) / 2 powi bitlen q"
    by (simp add: e_def power_int_diff)
  also have "\<dots> \<le> \<bar>x\<bar>"
    unfolding x using powi2_bitlen [OF p] powi2_bitlen [OF q] q p
    by (intro frac_le) auto
  finally have lo: "2 powi (e - 1) \<le> \<bar>x\<bar>" .
  have ex: "expo x = (if 2 powi e \<le> \<bar>x\<bar> then e else e - 1)"
    by (simp add: expo_def pq e_def)
  show "2 powi expo x \<le> \<bar>x\<bar>" "\<bar>x\<bar> < 2 powi (expo x + 1)"
    using hi lo by (auto simp: ex)
qed

lemma expo_minus: "expo (- x) = expo x"
  by (simp add: expo_def)

lemma expo_mono:
  assumes "x \<noteq> 0" "\<bar>x\<bar> \<le> \<bar>y\<bar>"
  shows "expo x \<le> expo y"
proof -
  have "y \<noteq> 0"
    using assms by auto
  then have "(2::rat) powi expo x < 2 powi (expo y + 1)"
    using expo_bounds [OF assms(1)] expo_bounds(2) [of y] assms(2) by linarith
  then show ?thesis
    using powi2_less by fastforce
qed

subsection \<open>Rounding is monotone and odd\<close>

lemma ulp_pos [simp]: "0 < ulp e"
  by (simp add: ulp_def)

lemma roundEven_mono:
  assumes "x \<le> y"
  shows "roundEven x \<le> roundEven y"
proof (cases "\<lfloor>x\<rfloor> = \<lfloor>y\<rfloor>")
  case True
  with assms show ?thesis
    by (auto simp: roundEven_def Let_def)
next
  case False
  with floor_mono [OF assms] have "\<lfloor>x\<rfloor> + 1 \<le> \<lfloor>y\<rfloor>"
    by simp
  then show ?thesis
    by (auto simp: roundEven_def Let_def)
qed

lemma roundEven_int [simp]: "roundEven (of_int n) = n"
  by (simp add: roundEven_def)

lemma roundEven_minus: "roundEven (- y) = - roundEven y"
proof (cases "y = of_int \<lfloor>y\<rfloor>")
  case True
  then show ?thesis
    by (metis of_int_minus roundEven_int)
next
  case False
  have f: "\<lfloor>- y\<rfloor> = - \<lfloor>y\<rfloor> - 1"
    using False by (intro floor_unique) (simp_all, linarith+)
  show ?thesis
    using False by (auto simp: roundEven_def Let_def f)
qed

lemma roundEven_nonneg: "0 \<le> y \<Longrightarrow> 0 \<le> roundEven y"
  using roundEven_mono [of 0 y] roundEven_int [of 0] by simp

lemma roundNear_minus: "roundNear (- x) = - roundNear x"
  by (simp add: roundNear_def expo_minus roundEven_minus)

lemma roundNear_nonneg: "0 \<le> x \<Longrightarrow> 0 \<le> roundNear x"
  by (simp add: roundNear_def roundEven_nonneg less_imp_le)

text \<open>A power of two that is a multiple of the spacing separates two binades.\<close>

lemma roundNear_le_mult:
  assumes "x \<noteq> 0" "x \<le> of_int n * ulp (expo x)"
  shows "roundNear x \<le> of_int n * ulp (expo x)"
proof -
  have "x / ulp (expo x) \<le> of_int n"
    using assms(2) by (simp add: pos_divide_le_eq)
  then have "roundEven (x / ulp (expo x)) \<le> n"
    using roundEven_mono roundEven_int by metis
  then have "(of_int (roundEven (x / ulp (expo x))) :: rat) \<le> of_int n"
    by simp
  then show ?thesis
    using assms(1) by (simp add: roundNear_def)
qed

lemma roundNear_ge_mult:
  assumes "x \<noteq> 0" "of_int n * ulp (expo x) \<le> x"
  shows "of_int n * ulp (expo x) \<le> roundNear x"
proof -
  have "of_int n \<le> x / ulp (expo x)"
    using assms(2) by (simp add: pos_le_divide_eq)
  then have "n \<le> roundEven (x / ulp (expo x))"
    using roundEven_mono roundEven_int by metis
  then have "(of_int n :: rat) \<le> of_int (roundEven (x / ulp (expo x)))"
    by simp
  then show ?thesis
    using assms(1) by (simp add: roundNear_def)
qed

lemma powi2_multiple:
  assumes "max (e - 23) (- 149) \<le> k"
  shows "\<exists>n. (2::rat) powi k = of_int n * ulp e"
proof -
  define m where "m = max (e - 23) (- 149 :: int)"
  have "(2::rat) powi k = 2 powi (k - m) * 2 powi m"
    by (simp flip: powi2_add)
  also have "(2::rat) powi (k - m) = of_int (2 ^ nat (k - m))"
    using assms by (simp add: m_def power_int_nonneg_exp)
  finally show ?thesis
    by (auto simp: ulp_def m_def)
qed

lemma roundNear_mono_pos:
  assumes "0 < x" "x \<le> y"
  shows "roundNear x \<le> roundNear y"
proof (cases "ulp (expo x) = ulp (expo y)")
  case True
  have "x / ulp (expo x) \<le> y / ulp (expo x)"
    using assms(2) by (simp add: divide_right_mono less_imp_le)
  then have "(of_int (roundEven (x / ulp (expo x))) :: rat) \<le> of_int (roundEven (y / ulp (expo x)))"
    using roundEven_mono by simp
  then show ?thesis
    using assms True by (simp add: roundNear_def)
next
  case False
  have le: "expo x \<le> expo y"
    using assms by (intro expo_mono) auto
  moreover have "expo x \<noteq> expo y"
    using False by auto
  ultimately have lt: "expo x < expo y" and big: "- 149 < expo y - 23"
    using False by (auto simp: ulp_def max_def split: if_splits)
  obtain n where n: "(2::rat) powi expo y = of_int n * ulp (expo x)"
    using powi2_multiple [of "expo x" "expo y"] lt big by auto
  obtain k where k: "(2::rat) powi expo y = of_int k * ulp (expo y)"
    using powi2_multiple [of "expo y" "expo y"] big by auto
  have "x < 2 powi (expo x + 1)"
    using expo_bounds(2) [of x] assms(1) by auto
  also have "\<dots> \<le> 2 powi expo y"
    using lt by (intro powi2_mono) simp
  finally have "roundNear x \<le> 2 powi expo y"
    using roundNear_le_mult [of x n] assms(1) n by auto
  also have "2 powi expo y \<le> y"
    using expo_bounds(1) [of y] assms by auto
  then have "2 powi expo y \<le> roundNear y"
    using roundNear_ge_mult [of y k] assms k by auto
  finally show ?thesis .
qed

lemma roundNear_mono:
  assumes "x \<le> y"
  shows "roundNear x \<le> roundNear y"
proof -
  consider "0 < x" | "x \<le> 0" "0 \<le> y" | "y < 0"
    by linarith
  then show ?thesis
  proof cases
    case 1
    then show ?thesis
      using assms by (rule roundNear_mono_pos)
  next
    case 2
    then show ?thesis
      using roundNear_nonneg [of y] roundNear_nonneg [of "- x"] by (simp add: roundNear_minus)
  next
    case 3
    then show ?thesis
      using roundNear_mono_pos [of "- y" "- x"] assms by (simp add: roundNear_minus)
  qed
qed

interpretation f32: rounding f32
proof
  show "f32 x \<le> f32 y" if "x \<le> y" for x y
    unfolding f32_def using roundNear_mono [OF that] by (intro max.mono min.mono order_refl)
  show "f32 (- x) = - f32 x" for x
    by (auto simp: f32_def roundNear_minus INF32_def min_def max_def)
qed

text \<open>Multiples of the spacing, in particular the integers below \<open>2 ^ 24\<close>, are kept.\<close>

lemma roundNear_int:
  assumes "\<bar>n\<bar> < 2 ^ 24"
  shows "roundNear (of_int n) = of_int n"
proof (cases "n = 0")
  case False
  have "(2::rat) powi expo (of_int n) \<le> of_int \<bar>n\<bar>"
    using expo_bounds(1) [of "of_int n"] False by simp
  also have "(of_int \<bar>n\<bar> :: rat) < 2 powi 24"
    using assms by (metis of_int_less_iff of_int_numeral of_int_power power_int_numeral)
  finally have "expo (of_int n) < 24"
    by (rule powi2_less)
  then obtain k where k: "(2::rat) powi 0 = of_int k * ulp (expo (of_int n))"
    using powi2_multiple [of "expo (of_int n)" 0] by auto
  then have "of_int (n * k) * ulp (expo (of_int n)) = (of_int n :: rat)"
    by simp
  then show ?thesis
    using False roundNear_le_mult [of "of_int n" "n * k"] roundNear_ge_mult [of "of_int n" "n * k"]
    by (simp only: antisym order_refl of_int_eq_0_iff simp_thms)
qed (simp add: roundNear_def)

lemma f32_int:
  assumes "\<bar>n\<bar> < 2 ^ 24"
  shows "f32 (of_int n) = of_int n"
proof -
  have "(of_int \<bar>n\<bar> :: rat) < 2 ^ 24"
    using assms by (metis of_int_less_iff of_int_numeral of_int_power)
  then have "\<bar>of_int n :: rat\<bar> \<le> INF32"
    by (simp add: INF32_def)
  then show ?thesis
    by (simp add: f32_def roundNear_int [OF assms] abs_le_iff min_absorb2 max_absorb2)
qed

lemma f32_numeral [simp]:
  "(numeral k :: int) < 2 ^ 24 \<Longrightarrow> f32 (numeral k) = numeral k"
  "(numeral k :: int) < 2 ^ 24 \<Longrightarrow> f32 (- numeral k) = - numeral k"
  "f32 0 = 0" "f32 1 = 1" "f32 (- 1) = - 1"
  using f32_int [of "numeral k"] f32_int [of "- numeral k"] f32_int [of 0] f32_int [of 1]
    f32_int [of "- 1"] by simp_all

text \<open>Rounding twice is rounding once.\<close>

lemma roundNear_grid:
  assumes "y = of_int k * ulp (expo y)"
  shows "roundNear y = y"
proof (cases "y = 0")
  case False
  have "roundNear y \<le> of_int k * ulp (expo y)" by (rule roundNear_le_mult) (use False assms in auto)
  moreover have "of_int k * ulp (expo y) \<le> roundNear y" by (rule roundNear_ge_mult) (use False assms in auto)
  ultimately show ?thesis using assms by simp
qed (simp add: roundNear_def)

lemma roundNear_idem_pos:
  assumes "0 < x"
  shows "roundNear (roundNear x) = roundNear x"
proof -
  define e r n where "e = expo x" and "r = roundNear x" and "n = roundEven (x / ulp e)"
  have r: "r = of_int n * ulp e" using assms by (simp add: r_def roundNear_def e_def n_def)
  have up: "x < 2 powi (e + 1)" using expo_bounds(2) [of x] assms by (simp add: e_def)
  show ?thesis
  proof (cases "r = 0 \<or> e < - 150")
    case True
    have "r = 0"
    proof (cases "e < - 150")
      case True
      have "x < 2 powi (- 150)" using up powi2_mono [of "e + 1" "- 150"] True by simp
      moreover have "ulp e = 2 * 2 powi (- 150)" using True powi2_add [of 1 "- 150"] by (simp add: ulp_def)
      ultimately have "x / ulp e < 1 / 2" by (simp add: pos_divide_less_eq)
      moreover have "0 < x / ulp e" using assms by simp
      ultimately have "\<lfloor>x / ulp e\<rfloor> = 0" by linarith
      then have "n = 0" using \<open>x / ulp e < 1 / 2\<close> by (simp add: n_def roundEven_def)
      then show ?thesis using r by simp
    qed (use True in simp)
    moreover have "roundNear 0 = 0" by (simp add: roundNear_def)
    ultimately show ?thesis by (simp only: r_def)
  next
    case False
    have r0: "0 < r" using roundNear_nonneg [of x] assms False by (simp add: r_def)
    obtain m where "(2::rat) powi (e + 1) = of_int m * ulp (expo x)" using powi2_multiple [of "expo x" "e + 1"] False by (auto simp: e_def)
    then have le: "r \<le> 2 powi (e + 1)" using roundNear_le_mult [of x m] assms up by (simp add: r_def)
    have lo: "2 powi expo r \<le> r" using expo_bounds(1) [of r] r0 by simp
    have "(2::rat) powi expo r < 2 powi (e + 2)" using lo le by (smt (verit) powi2_add powi2_pos order_le_less_trans powi2_mono power_int_strict_increasing one_less_numeral_iff semiring_norm(76))
    then have ex: "expo r \<le> e + 1" using powi2_less by fastforce
    have "\<exists>k. r = of_int k * ulp (expo r)"
    proof (cases "expo r \<le> e")
      case True
      then obtain m where "(2::rat) powi (max (e - 23) (- 149)) = of_int m * ulp (expo r)"
        using powi2_multiple [of "expo r" "max (e - 23) (- 149)"] le_max_iff_disj by fastforce
      then have "r = of_int (n * m) * ulp (expo r)" using r by (simp add: ulp_def)
      then show ?thesis by blast
    next
      case False
      then have "expo r = e + 1" using ex by simp
      then have "r = 2 powi (expo r)" using lo le by simp
      moreover have "max (expo r - 23) (- 149) \<le> expo r" using \<open>expo r = e + 1\<close> \<open>\<not> (r = 0 \<or> e < - 150)\<close> by simp
      ultimately show ?thesis using powi2_multiple [of "expo r" "expo r"] by auto
    qed
    then show ?thesis using roundNear_grid by (auto simp flip: r_def)
  qed
qed

lemma roundNear_idem: "roundNear (roundNear x) = roundNear x"
proof -
  consider "0 < x" | "x = 0" | "0 < - x" by linarith
  then show ?thesis
  proof cases
    case 3
    from roundNear_idem_pos [OF this] show ?thesis by (simp add: roundNear_minus)
  qed (simp_all add: roundNear_idem_pos, simp add: roundNear_def)
qed

lemma f32_idem [simp]: "f32 (f32 x) = f32 x"
proof -
  have "expo INF32 = 128" by code_simp
  then have inf: "roundNear INF32 = INF32"
    using roundNear_grid [of INF32 "2 ^ 23"] by (simp add: ulp_def INF32_power power_int_def)
  then have inf': "roundNear (- INF32) = - INF32" by (simp add: roundNear_minus)
  have "0 < INF32" by (simp add: INF32_def)
  consider "f32 x = - INF32" | "f32 x = INF32" | "f32 x = roundNear x" by (metis f32_def max_def min_def)
  then show ?thesis
  proof cases
    case 1
    then show ?thesis using inf' \<open>0 < INF32\<close> by (simp add: f32_def)
  next
    case 2
    then show ?thesis using inf \<open>0 < INF32\<close> by (simp add: f32_def)
  next
    case 3
    then show ?thesis by (simp add: f32_def [of "roundNear x"] roundNear_idem) (simp add: f32_def)
  qed
qed

end
