(* ===== verification/Geometry.thy ===== *)
theory Geometry
  imports Float32
begin

text \<open>
  Points and axis-aligned boxes: the part of \<^verbatim>\<open>Point3D\<close> (src/src/common/mathfuncs.cpp) that the
  spatial code calls, and the class \<^verbatim>\<open>BoundCube\<close> (src/src/common/basics.cpp). The C++ members
  \<^verbatim>\<open>value[3]\<close> and \<^verbatim>\<open>bounds[3][2]\<close>, \<^verbatim>\<open>valid[3][2]\<close> are triples, so that a loop over the three
  dimensions is a map over the triple. Every float operation is rounded by \<^const>\<open>f32\<close>.
\<close>

section \<open>Triples\<close>

datatype 'a triple = Tri (crd0: 'a) (crd1: 'a) (crd2: 'a)

fun sel :: "'a triple \<Rightarrow> nat \<Rightarrow> 'a" where
  "sel (Tri a b c) i = (if i = 0 then a else if i = 1 then b else c)"

fun putc :: "'a triple \<Rightarrow> nat \<Rightarrow> 'a \<Rightarrow> 'a triple" where
  "putc (Tri a b c) i v = (if i = 0 then Tri v b c else if i = 1 then Tri a v c else Tri a b v)"

fun zip3 :: "('a \<Rightarrow> 'b \<Rightarrow> 'c) \<Rightarrow> 'a triple \<Rightarrow> 'b triple \<Rightarrow> 'c triple" where
  "zip3 f (Tri a b c) (Tri a' b' c') = Tri (f a a') (f b b') (f c c')"

fun all3 :: "('a \<Rightarrow> bool) \<Rightarrow> 'a triple \<Rightarrow> bool" where
  "all3 P (Tri a b c) \<longleftrightarrow> P a \<and> P b \<and> P c"

fun any3 :: "('a \<Rightarrow> bool) \<Rightarrow> 'a triple \<Rightarrow> bool" where
  "any3 P (Tri a b c) \<longleftrightarrow> P a \<or> P b \<or> P c"

lemma all_triple: "(\<forall>t. P t) \<longleftrightarrow> (\<forall>a b c. P (Tri a b c))"
  by (metis triple.exhaust)

lemma ex_triple: "(\<exists>t. P t) \<longleftrightarrow> (\<exists>a b c. P (Tri a b c))"
  by (metis triple.exhaust)

lemma all3_iff: "all3 P t \<longleftrightarrow> (\<forall>i<3. P (sel t i))"
  by (cases t) (auto simp: numeral_3_eq_3 less_Suc_eq)

lemma triple_eq_iff: "s = t \<longleftrightarrow> (\<forall>i<3. sel s i = sel t i)"
  by (cases s; cases t) (auto simp: numeral_3_eq_3 less_Suc_eq)

lemma sel_map [simp]: "sel (map_triple f t) i = f (sel t i)"
  by (cases t) simp

lemma sel_zip3 [simp]: "sel (zip3 f s t) i = f (sel s i) (sel t i)"
  by (cases s; cases t) simp

lemma sel_putc: "i < 3 \<Longrightarrow> j < 3 \<Longrightarrow> sel (putc t i v) j = (if j = i then v else sel t j)"
  by (cases t) auto

section \<open>Points\<close>

type_synonym point = "rat triple"

definition sqrDist :: "point \<Rightarrow> point \<Rightarrow> rat" where
  "sqrDist p q =
     (let d = zip3 (\<lambda>y x. f32 (x - y)) p q; s = map_triple (\<lambda>x. f32 (x * x)) d
      in f32 (f32 (crd0 s + crd1 s) + crd2 s))"

definition dotProd :: "point \<Rightarrow> point \<Rightarrow> rat" where
  "dotProd p q = (let m = zip3 (\<lambda>x y. f32 (x * y)) p q in f32 (f32 (crd0 m + crd1 m) + crd2 m))"

definition sqrMag :: "point \<Rightarrow> rat" where
  "sqrMag p = (let m = map_triple (\<lambda>x. f32 (x * x)) p in f32 (f32 (crd0 m + crd1 m) + crd2 m))"

definition addPt :: "point \<Rightarrow> point \<Rightarrow> point" where
  "addPt p q = zip3 (\<lambda>x y. f32 (x + y)) p q"

definition subPt :: "point \<Rightarrow> point \<Rightarrow> point" where
  "subPt p q = zip3 (\<lambda>x y. f32 (x - y)) p q"

definition scalePt :: "point \<Rightarrow> rat \<Rightarrow> point" where
  "scalePt p s = map_triple (\<lambda>x. f32 (x * s)) p"

definition divPt :: "point \<Rightarrow> rat \<Rightarrow> point" where
  "divPt p s = (let i = f32 (1 / s) in map_triple (\<lambda>x. f32 (x * i)) p)"

definition crossProd :: "point \<Rightarrow> point \<Rightarrow> point" where
  "crossProd v p = Tri
     (f32 (f32 (sel p 2 * sel v 1) - f32 (sel p 1 * sel v 2)))
     (- f32 (f32 (sel v 0 * sel p 2) - f32 (sel p 0 * sel v 2)))
     (f32 (f32 (sel v 0 * sel p 1) - f32 (sel v 1 * sel p 0)))"

text \<open>The zero vector has no direction: in the code it becomes three NaNs.\<close>

definition normalise :: "(rat \<Rightarrow> rat) \<Rightarrow> point \<Rightarrow> point" where
  "normalise sq p = divPt p (sq (sqrMag p))"

definition insideBoxLH :: "point \<Rightarrow> point \<Rightarrow> point \<Rightarrow> bool" where
  "insideBoxLH p lowPt highPt \<longleftrightarrow>
     all3 id (zip3 (\<lambda>x h. x < h) p highPt) \<and> all3 id (zip3 (\<lambda>x l. l \<le> x) p lowPt)"

lemma sqrDist_dist2:
  "sqrDist p q = f32.dist2 (sel q 0 - sel p 0) (sel q 1 - sel p 1) (sel q 2 - sel p 2)"
  by (cases p; cases q) (simp add: sqrDist_def f32.dist2_def)

lemma sqrDist_commute: "sqrDist p q = sqrDist q p"
  unfolding sqrDist_dist2 by (rule f32.dist2_abs) auto

lemma sqrDist_nonneg: "0 \<le> sqrDist p q"
  by (simp add: sqrDist_dist2 f32.dist2_nonneg)

lemma sqrDist_mono:
  assumes "\<forall>i<3. \<bar>sel p i - sel s i\<bar> \<le> \<bar>sel q i - sel s i\<bar>"
  shows "sqrDist p s \<le> sqrDist q s"
  unfolding sqrDist_dist2 using assms
  by (intro f32.dist2_mono) (simp_all add: abs_minus_commute)

section \<open>BoundCube\<close>

text \<open>One dimension of the box: \<^verbatim>\<open>bounds[d][0]\<close>, \<^verbatim>\<open>bounds[d][1]\<close> and their \<^verbatim>\<open>valid\<close> flags.\<close>

record axis =
  bmin :: rat
  bmax :: rat
  vmin :: bool
  vmax :: bool

type_synonym boundCube = "axis triple"

definition mkAxis :: "rat \<Rightarrow> rat \<Rightarrow> bool \<Rightarrow> bool \<Rightarrow> axis" where
  "mkAxis a b v w = \<lparr>bmin = a, bmax = b, vmin = v, vmax = w\<rparr>"

lemma mkAxis_sel [simp]:
  "bmin (mkAxis a b v w) = a" "bmax (mkAxis a b v w) = b"
  "vmin (mkAxis a b v w) = v" "vmax (mkAxis a b v w) = w"
  by (simp_all add: mkAxis_def)

definition setInvalid :: "boundCube \<Rightarrow> boundCube" where
  "setInvalid c = map_triple (\<lambda>a. a\<lparr>vmin := False, vmax := False\<rparr>) c"

definition setInverseLimits :: "bool \<Rightarrow> boundCube" where
  "setInverseLimits setValid =
     (let a = mkAxis FLT_MAX (- FLT_MAX) setValid setValid in Tri a a a)"

definition isValid :: "boundCube \<Rightarrow> bool" where
  "isValid c \<longleftrightarrow> all3 (\<lambda>a. vmin a \<and> vmax a) c"

definition isFlat :: "boundCube \<Rightarrow> bool" where
  "isFlat c \<longleftrightarrow> any3 (\<lambda>a. \<bar>f32 (bmin a - bmax a)\<bar> < FLT_EPSILON) c"

definition isNumericallyBig :: "boundCube \<Rightarrow> bool" where
  "isNumericallyBig c \<longleftrightarrow>
     any3 (\<lambda>a. SQRT_FLT_MAX < \<bar>bmin a\<bar>) c \<or> any3 (\<lambda>a. SQRT_FLT_MAX < \<bar>bmax a\<bar>) c"

definition setBound :: "boundCube \<Rightarrow> nat \<Rightarrow> nat \<Rightarrow> rat \<Rightarrow> boundCube" where
  "setBound c d minMax v =
     putc c d (if minMax = 0 then (sel c d)\<lparr>bmin := v, vmin := True\<rparr>
              else (sel c d)\<lparr>bmax := v, vmax := True\<rparr>)"

text \<open>The body of the loops that take in one coordinate.\<close>

definition takeCoord :: "rat \<Rightarrow> axis \<Rightarrow> axis" where
  "takeCoord x a =
     (let a1 = (if x < bmin a then a\<lparr>bmin := x, vmin := True\<rparr> else a)
      in if x > bmax a1 then a1\<lparr>bmax := x, vmax := True\<rparr> else a1)"

definition setBoundsVec :: "point list \<Rightarrow> boundCube" where
  "setBoundsVec points = fold (zip3 takeCoord) points (setInverseLimits False)"

text \<open>The overload for an array leaves the valid flags of the cube as they were.\<close>

definition setBoundsArr :: "boundCube \<Rightarrow> point list \<Rightarrow> boundCube" where
  "setBoundsArr c p =
     fold (zip3 takeCoord) p (map_triple (\<lambda>a. a\<lparr>bmin := FLT_MAX, bmax := - FLT_MAX\<rparr>) c)"

definition setBoundsSphere :: "point \<Rightarrow> rat \<Rightarrow> boundCube" where
  "setBoundsSphere p r = map_triple (\<lambda>x. mkAxis (f32 (x - r)) (f32 (x + r)) True True) p"

definition setBoundsPts :: "point \<Rightarrow> point \<Rightarrow> boundCube" where
  "setBoundsPts p1 p2 = zip3 (\<lambda>x y. mkAxis (min x y) (max x y) True True) p1 p2"

definition setBoundsXYZ :: "rat \<Rightarrow> rat \<Rightarrow> rat \<Rightarrow> rat \<Rightarrow> rat \<Rightarrow> rat \<Rightarrow> boundCube" where
  "setBoundsXYZ xMin yMin zMin xMax yMax zMax =
     Tri (mkAxis xMin xMax True True) (mkAxis yMin yMax True True) (mkAxis zMin zMax True True)"

definition getBounds :: "boundCube \<Rightarrow> point \<times> point" where
  "getBounds c = (map_triple bmin c, map_triple bmax c)"

text \<open>\<open>expandCube\<close>, \<open>expandPt\<close> and \<open>expandBy\<close> are the three overloads of \<^verbatim>\<open>expand\<close>.\<close>

definition expandAxis :: "axis \<Rightarrow> axis \<Rightarrow> axis" where
  "expandAxis a b =
     (let a1 = (if bmin b < bmin a then a\<lparr>bmin := bmin b, vmin := True\<rparr> else a)
      in if bmax b > bmax a1 then a1\<lparr>bmax := bmax b, vmax := True\<rparr> else a1)"

definition expandCube :: "boundCube \<Rightarrow> boundCube \<Rightarrow> boundCube" where
  "expandCube c b = (if \<not> isValid b then c else zip3 expandAxis c b)"

definition expandPt :: "boundCube \<Rightarrow> point \<Rightarrow> boundCube" where
  "expandPt c p =
     zip3 (\<lambda>a x. let a1 = (if bmin a > x then a\<lparr>bmin := x\<rparr> else a)
                 in if bmax a1 < x then a1\<lparr>bmax := x\<rparr> else a1) c p"

definition expandBy :: "boundCube \<Rightarrow> rat \<Rightarrow> boundCube" where
  "expandBy c f = map_triple (\<lambda>a. a\<lparr>bmin := f32 (bmin a - f), bmax := f32 (bmax a + f)\<rparr>) c"

definition containsPt :: "boundCube \<Rightarrow> point \<Rightarrow> bool" where
  "containsPt c p \<longleftrightarrow> all3 id (zip3 (\<lambda>a x. \<not> (x < bmin a \<or> x > bmax a)) c p)"

definition containsCube :: "boundCube \<Rightarrow> boundCube \<Rightarrow> bool" where
  "containsCube c b = (let (low, high) = getBounds b in containsPt c low \<and> containsPt c high)"

definition getSize :: "boundCube \<Rightarrow> nat \<Rightarrow> rat" where
  "getSize c d = \<bar>f32 (bmax (sel c d) - bmin (sel c d))\<bar>"

definition getLargestDim :: "boundCube \<Rightarrow> rat" where
  "getLargestDim c = max (getSize c 2) (max (getSize c 1) (getSize c 0))"

definition volume :: "boundCube \<Rightarrow> rat" where
  "volume c = (let s = map_triple (\<lambda>a. f32 (bmax a - bmin a)) c
               in f32 (f32 (crd0 s * crd1 s) * crd2 s))"

definition nearCoord :: "axis \<Rightarrow> rat \<Rightarrow> rat" where
  "nearCoord a x = (if x \<le> bmin a then bmin a else if bmax a \<le> x then bmax a else x)"

definition intersects :: "boundCube \<Rightarrow> point \<Rightarrow> rat \<Rightarrow> bool" where
  "intersects c pt sqrRad = (let nearPt = zip3 nearCoord c pt in sqrDist nearPt pt \<le> sqrRad)"

definition makeUnion :: "boundCube \<Rightarrow> boundCube \<Rightarrow> boundCube" where
  "makeUnion c b =
     zip3 (\<lambda>a a'. mkAxis (max (bmin a) (bmin a')) (min (bmax a) (bmax a')) True True) c b"

definition segmentTriple :: "boundCube \<Rightarrow> nat \<Rightarrow> rat \<Rightarrow> nat" where
  "segmentTriple c d slc =
     (if slc < bmin (sel c d) then 0 else if slc \<ge> bmax (sel c d) then 2 else 1)"

definition getCentroid :: "boundCube \<Rightarrow> point" where
  "getCentroid c = divPt (map_triple (\<lambda>a. f32 (bmax a + bmin a)) c) 2"

definition boundOf :: "axis \<Rightarrow> bool \<Rightarrow> rat" where
  "boundOf a hi = (if hi then bmax a else bmin a)"

definition getVertex :: "boundCube \<Rightarrow> nat \<Rightarrow> point" where
  "getVertex c idx =
     Tri (boundOf (crd0 c) (odd idx)) (boundOf (crd1 c) (odd (idx div 2)))
         (boundOf (crd2 c) (odd (idx div 4)))"

definition getVertices :: "boundCube \<Rightarrow> bool \<Rightarrow> point list" where
  "getVertices c centre =
     (let points = map (getVertex c) [0..<8]
      in if centre then map (\<lambda>p. subPt p (getCentroid c)) points else points)"

definition containedInSphere :: "boundCube \<Rightarrow> point \<Rightarrow> rat \<Rightarrow> bool" where
  "containedInSphere c queryPt sqrRad \<longleftrightarrow>
     list_all (\<lambda>ui. \<not> sqrDist queryPt (getVertex c ui) > sqrRad) [0..<8]"

text \<open>The nine passes of the loop of \<^verbatim>\<open>getMaxDistanceToBox\<close> see vertex 0 twice; the caller's
  \<^verbatim>\<open>sqrtf\<close> of the result is left out.\<close>

definition maxSqrDistanceToBox :: "boundCube \<Rightarrow> point \<Rightarrow> rat" where
  "maxSqrDistanceToBox c queryPt =
     fold (\<lambda>ui m. max m (sqrDist queryPt (getVertex c ui))) [0..<9] 0"

text \<open>The twelve edges of the box, by the numbers of their ends.\<close>

definition cubeEdges :: "(nat \<times> nat) list" where
  "cubeEdges = zip [0, 1, 2, 3, 0, 1, 4, 5, 0, 2, 4, 6] [4, 5, 6, 7, 2, 3, 6, 7, 1, 3, 5, 7]"

definition edgeIntersect :: "point \<Rightarrow> point \<Rightarrow> point \<Rightarrow> point \<Rightarrow> point option" where
  "edgeIntersect planeOrigin normal eStart eEnd =
     (let denom = dotProd (subPt eEnd eStart) normal
      in if \<bar>denom\<bar> < SQRT_FLT_EPSILON then None
         else let v = f32 (dotProd (subPt planeOrigin eStart) normal / denom)
              in Some (addPt (scalePt (subPt eEnd eStart) v) eStart))"

definition getPlaneIntersectVertices :: "boundCube \<Rightarrow> point \<Rightarrow> point \<Rightarrow> point list" where
  "getPlaneIntersectVertices c planeOrigin normal =
     concat (map (\<lambda>(i, j). case edgeIntersect planeOrigin normal (getVertex c i) (getVertex c j) of
                             None \<Rightarrow> [] | Some p \<Rightarrow> [p]) cubeEdges)"

section \<open>Enclosing boxes\<close>

abbreviation ordered :: "boundCube \<Rightarrow> bool" where
  "ordered c \<equiv> \<forall>i<3. bmin (sel c i) \<le> bmax (sel c i)"

lemma containsPt_iff:
  "containsPt c p \<longleftrightarrow> (\<forall>i<3. bmin (sel c i) \<le> sel p i \<and> sel p i \<le> bmax (sel c i))"
  by (auto simp: containsPt_def all3_iff not_less)

lemma containsCube_iff:
  "containsCube c b \<longleftrightarrow>
     (\<forall>i<3. bmin (sel c i) \<le> bmin (sel b i) \<and> bmin (sel b i) \<le> bmax (sel c i) \<and>
            bmin (sel c i) \<le> bmax (sel b i) \<and> bmax (sel b i) \<le> bmax (sel c i))"
  by (auto simp: containsCube_def getBounds_def containsPt_iff)

lemma isValid_iff: "isValid c \<longleftrightarrow> (\<forall>i<3. vmin (sel c i) \<and> vmax (sel c i))"
  by (simp add: isValid_def all3_iff)

lemma sel_fold_zip3: "sel (fold (zip3 f) ps c) i = fold (\<lambda>p. f (sel p i)) ps (sel c i)"
  by (induction ps arbitrary: c) simp_all

lemma takeCoord_sel:
  "bmin (takeCoord x a) = min x (bmin a)" "bmax (takeCoord x a) = max x (bmax a)"
  "vmin (takeCoord x a) = (vmin a \<or> x < bmin a)" "vmax (takeCoord x a) = (vmax a \<or> bmax a < x)"
  by (auto simp: takeCoord_def Let_def min_def max_def)

lemma fold_takeCoord:
  "bmin (fold (\<lambda>p. takeCoord (f p)) ps a) = Min (insert (bmin a) (f ` set ps))"
  "bmax (fold (\<lambda>p. takeCoord (f p)) ps a) = Max (insert (bmax a) (f ` set ps))"
  "vmin (fold (\<lambda>p. takeCoord (f p)) ps a) \<longleftrightarrow> vmin a \<or> (\<exists>p \<in> set ps. f p < bmin a)"
  "vmax (fold (\<lambda>p. takeCoord (f p)) ps a) \<longleftrightarrow> vmax a \<or> (\<exists>p \<in> set ps. bmax a < f p)"
proof (induction ps arbitrary: a)
  case (Cons p ps)
  case 1 show ?case
    by (cases "f ` set ps = {}") (simp_all add: Cons takeCoord_sel min.assoc min.commute min.left_commute)
  case 2 show ?case
    by (cases "f ` set ps = {}") (simp_all add: Cons takeCoord_sel max.assoc max.commute max.left_commute)
  case 3 show ?case
    using less_le_trans by (auto simp: Cons takeCoord_sel not_less) fastforce
  case 4 show ?case
    using le_less_trans by (auto simp: Cons takeCoord_sel not_less) fastforce
qed simp_all

lemma setBoundsVec_sel:
  "i < 3 \<Longrightarrow> bmin (sel (setBoundsVec ps) i) = Min (insert FLT_MAX ((\<lambda>p. sel p i) ` set ps))"
  "i < 3 \<Longrightarrow> bmax (sel (setBoundsVec ps) i) = Max (insert (- FLT_MAX) ((\<lambda>p. sel p i) ` set ps))"
  "i < 3 \<Longrightarrow> vmin (sel (setBoundsVec ps) i) \<longleftrightarrow> (\<exists>p \<in> set ps. sel p i < FLT_MAX)"
  "i < 3 \<Longrightarrow> vmax (sel (setBoundsVec ps) i) \<longleftrightarrow> (\<exists>p \<in> set ps. - FLT_MAX < sel p i)"
  by (simp_all add: setBoundsVec_def sel_fold_zip3 fold_takeCoord setInverseLimits_def Let_def)

text \<open>
  The box \<^verbatim>\<open>setBounds\<close> computes for a non-empty vector of points with finite coordinates
  below the largest float is valid, contains every point, and is the smallest such box.
\<close>

theorem setBoundsVec_smallest:
  assumes "ps \<noteq> []" "\<forall>p \<in> set ps. all3 (\<lambda>x. \<bar>x\<bar> < FLT_MAX) p"
  shows "isValid (setBoundsVec ps) \<and> (\<forall>p \<in> set ps. containsPt (setBoundsVec ps) p) \<and>
    (\<forall>c. (\<forall>p \<in> set ps. containsPt c p) \<longrightarrow> containsCube c (setBoundsVec ps))"
proof (intro conjI)
  have lim: "\<bar>sel p i\<bar> < FLT_MAX" if "p \<in> set ps" "i < 3" for p i
    using assms(2) that by (auto simp: all3_iff)
  obtain p where p: "p \<in> set ps"
    using assms(1) by (cases ps) auto
  have "sel p i < FLT_MAX" "- FLT_MAX < sel p i" if "i < 3" for i
    using lim [OF p that] by auto
  then show "isValid (setBoundsVec ps)"
    using p by (auto simp: isValid_iff setBoundsVec_sel)
  show "\<forall>p \<in> set ps. containsPt (setBoundsVec ps) p"
    by (auto simp: containsPt_iff setBoundsVec_sel)
  have at: "bmin (sel (setBoundsVec ps) i) \<in> (\<lambda>p. sel p i) ` set ps"
    "bmax (sel (setBoundsVec ps) i) \<in> (\<lambda>p. sel p i) ` set ps" if "i < 3" for i
  proof -
    let ?X = "(\<lambda>p. sel p i) ` set ps"
    have "Min (insert FLT_MAX ?X) \<in> insert FLT_MAX ?X" "Min (insert FLT_MAX ?X) \<le> sel p i"
      using p by (intro Min_in Min_le; auto)+
    moreover have "Max (insert (- FLT_MAX) ?X) \<in> insert (- FLT_MAX) ?X" "sel p i \<le> Max (insert (- FLT_MAX) ?X)"
      using p by (intro Max_in Max_ge; auto)+
    ultimately show "bmin (sel (setBoundsVec ps) i) \<in> ?X" "bmax (sel (setBoundsVec ps) i) \<in> ?X"
      using lim [OF p that] that by (auto simp: setBoundsVec_sel)
  qed
  show "\<forall>c. (\<forall>p \<in> set ps. containsPt c p) \<longrightarrow> containsCube c (setBoundsVec ps)"
  proof (intro allI impI)
    fix c assume c: "\<forall>p \<in> set ps. containsPt c p"
    then have "bmin (sel c i) \<le> x \<and> x \<le> bmax (sel c i)" if "i < 3" "x \<in> (\<lambda>p. sel p i) ` set ps" for i x
      using that by (auto simp: containsPt_iff)
    with at show "containsCube c (setBoundsVec ps)"
      unfolding containsCube_iff by blast
  qed
qed

section \<open>Spheres\<close>

lemma nearCoord_in: "bmin a \<le> bmax a \<Longrightarrow> bmin a \<le> nearCoord a x \<and> nearCoord a x \<le> bmax a"
  by (simp add: nearCoord_def)

lemma nearCoord_nearest:
  "bmin a \<le> y \<Longrightarrow> y \<le> bmax a \<Longrightarrow> \<bar>nearCoord a x - x\<bar> \<le> \<bar>y - x\<bar>"
  by (auto simp: nearCoord_def)

lemma intersects_mono:
  assumes "containsPt c q" "sqrDist q pt \<le> sqrRad"
  shows "intersects c pt sqrRad"
proof -
  have "sqrDist (zip3 nearCoord c pt) pt \<le> sqrDist q pt"
    using assms(1) by (intro sqrDist_mono) (auto simp: containsPt_iff nearCoord_nearest)
  with assms(2) show ?thesis
    by (simp add: intersects_def)
qed

text \<open>
  \<^verbatim>\<open>intersects\<close> is exact for the rounded distances the code computes: for a box whose
  lower bounds do not exceed its upper ones it answers true just when some point of the box has a
  computed squared distance of at most \<^verbatim>\<open>sqrRad\<close> to the centre, the touching case included.
\<close>

theorem intersects_iff:
  assumes "ordered c"
  shows "intersects c pt sqrRad \<longleftrightarrow> (\<exists>q. containsPt c q \<and> sqrDist q pt \<le> sqrRad)"
proof
  assume "intersects c pt sqrRad"
  moreover have "containsPt c (zip3 nearCoord c pt)"
    using assms nearCoord_in by (simp add: containsPt_iff)
  ultimately show "\<exists>q. containsPt c q \<and> sqrDist q pt \<le> sqrRad"
    by (auto simp: intersects_def)
qed (auto intro: intersects_mono)

text \<open>The vertex that is farthest from a point in every dimension.\<close>

lemma bit_index:
  fixes a b d :: bool
  obtains k :: nat where "k < 8" "odd k = a" "odd (k div 2) = b" "odd (k div 4) = d"
  by (rule that [of "of_bool a + 2 * of_bool b + 4 * of_bool d"]) (cases a; cases b; cases d; simp)+

lemma farthest_vertex:
  assumes "containsPt c q"
  obtains k where "k < 8" "sqrDist pt q \<le> sqrDist pt (getVertex c k)"
proof -
  define hi where "hi i = (bmin (sel c i) + bmax (sel c i) \<ge> 2 * sel pt i)" for i
  obtain k :: nat where k: "k < 8" "odd k = hi 0" "odd (k div 2) = hi 1" "odd (k div 4) = hi 2"
    by (rule bit_index)
  have sel: "sel (getVertex c k) i = boundOf (sel c i) (hi i)" if "i < 3" for i
  proof -
    have "i = 0 \<or> i = 1 \<or> i = 2"
      using that by linarith
    then show ?thesis
      using k by (cases c) (auto simp: getVertex_def)
  qed
  have "sqrDist q pt \<le> sqrDist (getVertex c k) pt"
  proof (intro sqrDist_mono allI impI)
    fix i :: nat assume i: "i < 3"
    then have "bmin (sel c i) \<le> sel q i" "sel q i \<le> bmax (sel c i)"
      using assms by (auto simp: containsPt_iff)
    then show "\<bar>sel q i - sel pt i\<bar> \<le> \<bar>sel (getVertex c k) i - sel pt i\<bar>"
      unfolding sel [OF i] boundOf_def hi_def by (auto split: if_splits)
  qed
  with k(1) show thesis
    by (intro that) (simp_all add: sqrDist_commute)
qed

lemma containedInSphere_all:
  assumes "containedInSphere c pt sqrRad" "containsPt c q"
  shows "sqrDist pt q \<le> sqrRad"
proof -
  obtain k where "k < 8" "sqrDist pt q \<le> sqrDist pt (getVertex c k)"
    using assms(2) by (rule farthest_vertex)
  moreover have "sqrDist pt (getVertex c k) \<le> sqrRad"
    using assms(1) \<open>k < 8\<close> by (simp add: containedInSphere_def list_all_iff not_less)
  ultimately show ?thesis
    by simp
qed

lemma vertex_in: "ordered c \<Longrightarrow> containsPt c (getVertex c k)"
  by (cases c) (auto simp: containsPt_def getVertex_def boundOf_def numeral_3_eq_3 less_Suc_eq all_conj_distrib)

text \<open>
  Property C20. Testing the eight vertices is enough: \<^verbatim>\<open>containedInSphere\<close> is true just when every point
  of the box has a computed squared distance of at most the given one, despite the rounding.
\<close>

theorem containedInSphere_iff:
  assumes "ordered c"
  shows "containedInSphere c pt sqrRad \<longleftrightarrow> (\<forall>q. containsPt c q \<longrightarrow> sqrDist pt q \<le> sqrRad)"
proof
  assume "containedInSphere c pt sqrRad"
  then show "\<forall>q. containsPt c q \<longrightarrow> sqrDist pt q \<le> sqrRad"
    using containedInSphere_all by blast
next
  assume "\<forall>q. containsPt c q \<longrightarrow> sqrDist pt q \<le> sqrRad"
  then show "containedInSphere c pt sqrRad"
    using vertex_in [OF assms] by (auto simp: containedInSphere_def list_all_iff not_less)
qed

section \<open>Intersections of boxes\<close>

text \<open>
  \<^verbatim>\<open>makeUnion\<close> computes the intersection of the two boxes, not their union: its points are
  those that both contain.
\<close>

theorem makeUnion_intersection:
  "containsPt (makeUnion c b) p \<longleftrightarrow> containsPt c p \<and> containsPt b p"
  by (auto simp: containsPt_iff makeUnion_def)

text \<open>
  Expanding an ordered box by a valid ordered one gives the smallest box around both.
\<close>

theorem expandCube_smallest:
  assumes "ordered c" "ordered b" "isValid b"
  shows "containsCube (expandCube c b) c" and "containsCube (expandCube c b) b"
    and "\<forall>d. containsCube d c \<and> containsCube d b \<longrightarrow> containsCube d (expandCube c b)"
proof -
  have e: "bmin (expandAxis a a') = min (bmin a) (bmin a')"
    "bmax (expandAxis a a') = max (bmax a) (bmax a')" for a a'
    by (auto simp: expandAxis_def Let_def)
  show "containsCube (expandCube c b) c" "containsCube (expandCube c b) b"
    using assms by (auto simp: containsCube_iff expandCube_def e min_def max_def)
  show "\<forall>d. containsCube d c \<and> containsCube d b \<longrightarrow> containsCube d (expandCube c b)"
    using assms by (auto simp: containsCube_iff expandCube_def e min_def max_def)
qed

end
