(* ===== verification/IonHits.thy ===== *)
theory IonHits
  imports Geometry
begin

text \<open>
  The ions of an atom probe data set, src/src/backend/APT/ionhit.cpp: a position and a
  mass-to-charge ratio. The bounding box of a vector of ions has two implementations, chosen when
  the program is compiled: a serial loop, and an OpenMP loop whose threads each keep a box of their
  own. The parallel one is modelled by its schedule, the order in which the iterations run with the
  number of the thread that runs each; an iteration touches its own thread's box only, so every
  interleaving of the threads is such an order.
\<close>

record ionHit =
  ih_pos :: point
  ih_mass :: rat

definition hitAt :: "ionHit \<Rightarrow> nat \<Rightarrow> rat" where
  "hitAt h idx = (if idx < 3 then sel (ih_pos h) idx else ih_mass h)"

definition getPoints :: "ionHit list \<Rightarrow> point list" where
  "getPoints ions = map ih_pos ions"

text \<open>Without OpenMP: running minima and maxima, then \<^verbatim>\<open>setBounds\<close>.\<close>

definition boundStep :: "point \<Rightarrow> (rat \<times> rat) triple \<Rightarrow> (rat \<times> rat) triple" where
  "boundStep p b = zip3 (\<lambda>x (lo, hi). (if lo < x then lo else x, if x < hi then hi else x)) p b"

definition getBoundCubeSerial :: "ionHit list \<Rightarrow> boundCube" where
  "getBoundCubeSerial points =
     (let b = fold (\<lambda>h. boundStep (ih_pos h)) points
                (Tri (FLT_MAX, - FLT_MAX) (FLT_MAX, - FLT_MAX) (FLT_MAX, - FLT_MAX))
      in setBoundsXYZ (fst (crd0 b)) (fst (crd1 b)) (fst (crd2 b)) (snd (crd0 b)) (snd (crd1 b)) (snd (crd2 b)))"

text \<open>With OpenMP: one iteration, run by thread \<open>tid\<close>, then the boxes are joined in order.\<close>

definition widenAxis :: "rat \<Rightarrow> axis \<Rightarrow> axis" where
  "widenAxis x a = (let a1 = a\<lparr>bmin := min (bmin a) x, vmin := True\<rparr>
                    in a1\<lparr>bmax := max (bmax a1) x, vmax := True\<rparr>)"

definition threadStep :: "nat \<times> ionHit \<Rightarrow> boundCube list \<Rightarrow> boundCube list" where
  "threadStep s cubes =
     (let (tid, h) = s in cubes[tid := zip3 widenAxis (ih_pos h) (cubes ! tid)])"

definition getBoundCubePar :: "nat \<Rightarrow> (nat \<times> ionHit) list \<Rightarrow> boundCube" where
  "getBoundCubePar nT sched =
     (let cubes = fold threadStep sched (replicate nT (setInverseLimits True))
      in fold (\<lambda>c b. expandCube b c) cubes (setInverseLimits True))"

section \<open>The two versions agree\<close>

text \<open>Bounds are compared by the numbers below and above them.\<close>

lemma below_eq: "(\<And>x. x \<le> a \<longleftrightarrow> x \<le> b) \<Longrightarrow> a = (b::rat)"
  by (meson order_antisym order_refl)

lemma above_eq: "(\<And>x. a \<le> x \<longleftrightarrow> b \<le> x) \<Longrightarrow> a = (b::rat)"
  by (meson order_antisym order_refl)

lemma serial_bounds:
  shows "x \<le> fst (sel (fold (\<lambda>h. boundStep (ih_pos h)) hs b) i) \<longleftrightarrow>
         x \<le> fst (sel b i) \<and> (\<forall>h \<in> set hs. x \<le> sel (ih_pos h) i)"
    and "snd (sel (fold (\<lambda>h. boundStep (ih_pos h)) hs b) i) \<le> x \<longleftrightarrow>
         snd (sel b i) \<le> x \<and> (\<forall>h \<in> set hs. sel (ih_pos h) i \<le> x)"
  by (induction hs arbitrary: b) (auto simp: boundStep_def split: prod.splits)

lemma serial_sel:
  assumes "i < 3"
  shows "sel (getBoundCubeSerial hs) i =
           mkAxis (fst (sel (fold (\<lambda>h. boundStep (ih_pos h)) hs (Tri (FLT_MAX, - FLT_MAX)
                     (FLT_MAX, - FLT_MAX) (FLT_MAX, - FLT_MAX))) i))
                  (snd (sel (fold (\<lambda>h. boundStep (ih_pos h)) hs (Tri (FLT_MAX, - FLT_MAX)
                     (FLT_MAX, - FLT_MAX) (FLT_MAX, - FLT_MAX))) i)) True True"
  by (cases "fold (\<lambda>h. boundStep (ih_pos h)) hs (Tri (FLT_MAX, - FLT_MAX)
       (FLT_MAX, - FLT_MAX) (FLT_MAX, - FLT_MAX))")
     (use assms in \<open>auto simp: getBoundCubeSerial_def Let_def setBoundsXYZ_def\<close>)

lemma length_threads [simp]: "length (fold threadStep sched cubes) = length cubes"
  by (induction sched arbitrary: cubes) (auto simp: threadStep_def split: prod.splits)

lemma widenAxis_sel:
  "x \<le> bmin (widenAxis y a) \<longleftrightarrow> x \<le> bmin a \<and> x \<le> y"
  "bmax (widenAxis y a) \<le> x \<longleftrightarrow> bmax a \<le> x \<and> y \<le> x"
  "vmin (widenAxis y a)" "vmax (widenAxis y a)"
  by (auto simp: widenAxis_def Let_def)

lemma threads_valid:
  assumes "\<forall>c \<in> set cubes. isValid c" "\<forall>(t, h) \<in> set sched. t < length cubes"
  shows "\<forall>c \<in> set (fold threadStep sched cubes). isValid c"
  using assms
proof (induction sched arbitrary: cubes)
  case (Cons s sched)
  obtain t h where s: "s = (t, h)"
    by fastforce
  have "isValid (zip3 widenAxis (ih_pos h) (cubes ! t))"
    by (simp add: isValid_iff widenAxis_sel)
  then have "\<forall>c \<in> set (threadStep s cubes). isValid c"
    using Cons.prems(1) by (auto simp: s threadStep_def dest!: set_update_subset_insert [THEN subsetD])
  then show ?case
    using Cons.IH [of "threadStep s cubes"] Cons.prems(2) by (simp add: s threadStep_def)
qed simp

lemma threadStep_all:
  assumes "t < length cubes"
  shows "(\<forall>c \<in> set (threadStep (t, h) cubes). P c) \<longleftrightarrow>
      P (zip3 widenAxis (ih_pos h) (cubes ! t)) \<and> (\<forall>j < length cubes. j \<noteq> t \<longrightarrow> P (cubes ! j))"
  using assms by (auto simp: threadStep_def all_set_conv_all_nth nth_list_update)

lemma all_set_at:
  assumes "t < length cubes"
  shows "(\<forall>c \<in> set cubes. P c) \<longleftrightarrow> P (cubes ! t) \<and> (\<forall>j < length cubes. j \<noteq> t \<longrightarrow> P (cubes ! j))"
  using assms by (auto simp: all_set_conv_all_nth)

lemma threadStep_length [simp]: "length (threadStep s cubes) = length cubes"
  by (auto simp: threadStep_def split: prod.splits)

lemma threads_below:
  assumes "\<forall>(t, h) \<in> set sched. t < length cubes"
  shows "(\<forall>c \<in> set (fold threadStep sched cubes). x \<le> bmin (sel c i)) \<longleftrightarrow>
         (\<forall>c \<in> set cubes. x \<le> bmin (sel c i)) \<and> (\<forall>(t, h) \<in> set sched. x \<le> sel (ih_pos h) i)"
  using assms
proof (induction sched arbitrary: cubes)
  case (Cons s sched)
  obtain t h where s: "s = (t, h)"
    by fastforce
  have t: "t < length cubes"
    using Cons.prems by (simp add: s)
  have "\<forall>(t, h) \<in> set sched. t < length (threadStep s cubes)"
    using Cons.prems by simp
  from Cons.IH [OF this] show ?case
    by (simp add: s threadStep_all [OF t] all_set_at [OF t] widenAxis_sel) blast
qed simp

lemma threads_above:
  assumes "\<forall>(t, h) \<in> set sched. t < length cubes"
  shows "(\<forall>c \<in> set (fold threadStep sched cubes). bmax (sel c i) \<le> x) \<longleftrightarrow>
         (\<forall>c \<in> set cubes. bmax (sel c i) \<le> x) \<and> (\<forall>(t, h) \<in> set sched. sel (ih_pos h) i \<le> x)"
  using assms
proof (induction sched arbitrary: cubes)
  case (Cons s sched)
  obtain t h where s: "s = (t, h)"
    by fastforce
  have t: "t < length cubes"
    using Cons.prems by (simp add: s)
  have "\<forall>(t, h) \<in> set sched. t < length (threadStep s cubes)"
    using Cons.prems by simp
  from Cons.IH [OF this] show ?case
    by (simp add: s threadStep_all [OF t] all_set_at [OF t] widenAxis_sel) blast
qed simp

lemma expandCube_bounds:
  assumes "isValid c"
  shows "x \<le> bmin (sel (expandCube b c) i) \<longleftrightarrow> x \<le> bmin (sel b i) \<and> x \<le> bmin (sel c i)"
    and "bmax (sel (expandCube b c) i) \<le> x \<longleftrightarrow> bmax (sel b i) \<le> x \<and> bmax (sel c i) \<le> x"
    and "isValid b \<Longrightarrow> isValid (expandCube b c)"
  using assms by (auto simp: expandCube_def expandAxis_def Let_def isValid_iff)

lemma join_below:
  assumes "\<forall>c \<in> set cubes. isValid c"
  shows "x \<le> bmin (sel (fold (\<lambda>c b. expandCube b c) cubes b) i) \<longleftrightarrow>
         x \<le> bmin (sel b i) \<and> (\<forall>c \<in> set cubes. x \<le> bmin (sel c i))"
  using assms by (induction cubes arbitrary: b) (auto simp: expandCube_bounds)

lemma join_above:
  assumes "\<forall>c \<in> set cubes. isValid c"
  shows "bmax (sel (fold (\<lambda>c b. expandCube b c) cubes b) i) \<le> x \<longleftrightarrow>
         bmax (sel b i) \<le> x \<and> (\<forall>c \<in> set cubes. bmax (sel c i) \<le> x)"
  using assms by (induction cubes arbitrary: b) (auto simp: expandCube_bounds)

lemma join_valid:
  assumes "\<forall>c \<in> set cubes. isValid c" "isValid b"
  shows "isValid (fold (\<lambda>c b. expandCube b c) cubes b)"
  using assms by (induction cubes arbitrary: b) (auto simp: expandCube_bounds)

text \<open>
  Property C19. However the OpenMP threads divide and order the ions, the parallel bounding box is
  the serial one.
\<close>

theorem getBoundCube_schedule:
  assumes "mset (map snd sched) = mset hits" "\<forall>(t, h) \<in> set sched. t < nT" "hits \<noteq> []"
  shows "getBoundCubePar nT sched = getBoundCubeSerial hits"
proof -
  define cubes where "cubes = fold threadStep sched (replicate nT (setInverseLimits True))"
  have inv: "isValid (setInverseLimits True)" "\<And>i. sel (setInverseLimits True) i = mkAxis FLT_MAX (- FLT_MAX) True True"
    by (simp_all add: setInverseLimits_def isValid_def Let_def)
  have sched: "\<forall>(t, h) \<in> set sched. t < length (replicate nT (setInverseLimits True))"
    using assms(2) by simp
  have valid: "\<forall>c \<in> set cubes. isValid c"
    unfolding cubes_def using sched by (intro threads_valid) (simp_all add: inv)
  have hits: "set hits = snd ` set sched"
    using assms(1) by (metis set_map set_mset_mset)
  have par: "getBoundCubePar nT sched = fold (\<lambda>c b. expandCube b c) cubes (setInverseLimits True)"
    by (simp add: getBoundCubePar_def cubes_def)
  show ?thesis
    unfolding triple_eq_iff
  proof (intro allI impI)
    fix i :: nat assume i: "i < 3"
    let ?a = "sel (getBoundCubePar nT sched) i" and ?b = "sel (getBoundCubeSerial hits) i"
    have init: "sel (Tri (FLT_MAX, - FLT_MAX) (FLT_MAX, - FLT_MAX) (FLT_MAX, - FLT_MAX)) i = (FLT_MAX, - FLT_MAX)"
      by simp
    have "x \<le> bmin ?a \<longleftrightarrow> x \<le> bmin ?b" for x
      by (auto simp: par join_below [OF valid] threads_below [OF sched, folded cubes_def]
          serial_sel [OF i] serial_bounds(1) inv hits init simp del: sel.simps)
    then have "bmin ?a = bmin ?b"
      by (rule below_eq)
    moreover have "bmax ?a \<le> x \<longleftrightarrow> bmax ?b \<le> x" for x
      by (auto simp: par join_above [OF valid] threads_above [OF sched, folded cubes_def]
          serial_sel [OF i] serial_bounds(2) inv hits init simp del: sel.simps)
    then have "bmax ?a = bmax ?b"
      by (rule above_eq)
    moreover have "vmin ?a" "vmax ?a"
      using join_valid [OF valid inv(1)] i by (auto simp: par isValid_iff)
    moreover have "vmin ?b" "vmax ?b"
      by (simp_all add: serial_sel [OF i])
    ultimately show "?a = ?b"
      by (intro axis.equality) simp_all
  qed
qed

end
