(* ===== verification/RangeFile.thy ===== *)
theory RangeFile
  imports FreshNames IonHits
begin

text \<open>
  The range file of src/src/backend/APT/APTRanges.cpp: the mass intervals ("ranges") and the ions
  they are assigned to, with the queries and edits the program makes on them. Masses are rational
  numbers (the code compares and copies floats; not-a-number is not modelled). An identifier that
  is \<^verbatim>\<open>(unsigned int)-1\<close> in the code is None; an access out of range is None as well.
\<close>

type_synonym mass = rat
type_synonym rgb = "rat \<times> rat \<times> rat"

record rangeFile =
  ionNames :: "(string \<times> string) list"
  colours :: "rgb list"
  ranges :: "(mass \<times> mass) list"
  ionIDs :: "nat list"
  enforceConsistency :: bool
  errState :: nat
  warnMessages :: "string list"

definition newRangeFile :: rangeFile where
  "newRangeFile = \<lparr>ionNames = [], colours = [], ranges = [], ionIDs = [],
     enforceConsistency = True, errState = 0, warnMessages = []\<rparr>"

definition rf_clear :: "rangeFile \<Rightarrow> rangeFile" where
  "rf_clear r = r\<lparr>ionIDs := [], warnMessages := [], ionNames := [], colours := [], ranges := [], errState := 0\<rparr>"

definition rf_assign :: "rangeFile \<Rightarrow> rangeFile \<Rightarrow> rangeFile" where
  "rf_assign this oth = this\<lparr>ionNames := ionNames oth, colours := colours oth, ranges := ranges oth,
     ionIDs := ionIDs oth, enforceConsistency := enforceConsistency oth, errState := errState oth,
     warnMessages := warnMessages oth\<rparr>"

text \<open>\<^verbatim>\<open>swap\<close> exchanges everything but \<^verbatim>\<open>enforceConsistency\<close>.\<close>

definition rf_swap :: "rangeFile \<Rightarrow> rangeFile \<Rightarrow> rangeFile \<times> rangeFile" where
  "rf_swap a b =
     (b\<lparr>enforceConsistency := enforceConsistency a\<rparr>, a\<lparr>enforceConsistency := enforceConsistency b\<rparr>)"

definition RANGE_EXTS :: "string list" where
  "RANGE_EXTS = [''rng'', ''env'', ''rng'', ''rrng'', '''']"

definition extensionIsRange :: "string \<Rightarrow> bool" where
  "extensionIsRange ext = (ext \<in> set (takeWhile (\<lambda>e. e \<noteq> '''') RANGE_EXTS))"

definition getAllExts :: "string list" where
  "getAllExts = take (length RANGE_EXTS - 1) RANGE_EXTS"

section \<open>Self consistency\<close>

text \<open>The checks on the ranges \<open>a\<close> (index \<^verbatim>\<open>ui\<close>) and \<open>b\<close> (a later index \<^verbatim>\<open>uj\<close>).\<close>

definition pair_clash :: "mass \<times> mass \<Rightarrow> mass \<times> mass \<Rightarrow> bool" where
  "pair_clash a b \<longleftrightarrow>
     (fst a > fst b \<and> fst a < snd b) \<or> (snd a > fst b \<and> snd a < snd b) \<or>
     (fst a < fst b \<and> snd a > snd b) \<or> (fst a = fst b \<and> snd a = snd b)"

fun ranges_consistent :: "(mass \<times> mass) list \<Rightarrow> bool" where
  "ranges_consistent [] = True"
| "ranges_consistent (a # rs) =
     (fst a \<noteq> snd a \<and> \<not> list_ex (pair_clash a) rs \<and> ranges_consistent rs)"

fun names_unclashed :: "(string \<times> string) list \<Rightarrow> bool" where
  "names_unclashed [] = True"
| "names_unclashed (a # ns) = (\<not> list_ex (\<lambda>b. fst a = fst b \<or> snd a = snd b) ns \<and> names_unclashed ns)"

definition DISALLOWED_ION_NAMES :: string where
  "DISALLOWED_ION_NAMES = [CHR '' '', CHR 0x09, CHR 0x0D, CHR 0x0A]"

definition name_allowed :: "string \<Rightarrow> bool" where
  "name_allowed s = (\<not> list_ex (\<lambda>c. c \<in> set DISALLOWED_ION_NAMES) s)"

definition isSelfConsistent :: "rangeFile \<Rightarrow> bool" where
  "isSelfConsistent r \<longleftrightarrow> ranges_consistent (ranges r) \<and> names_unclashed (ionNames r) \<and>
     list_all (\<lambda>n. name_allowed (fst n) \<and> name_allowed (snd n)) (ionNames r)"

section \<open>Queries\<close>

definition inRange :: "mass \<Rightarrow> mass \<times> mass \<Rightarrow> bool" where
  "inRange m rg \<longleftrightarrow> m \<ge> fst rg \<and> m \<le> snd rg"

definition isRanged :: "rangeFile \<Rightarrow> mass \<Rightarrow> bool" where
  "isRanged r m = list_ex (inRange m) (ranges r)"

definition getRangeID :: "rangeFile \<Rightarrow> mass \<Rightarrow> nat option" where
  "getRangeID r m = find_index (inRange m) (ranges r)"

definition getIonID :: "rangeFile \<Rightarrow> mass \<Rightarrow> nat option" where
  "getIonID r m = Option.bind (find_index (inRange m) (ranges r)) (elem_at (ionIDs r))"

definition ionIDOfRange :: "rangeFile \<Rightarrow> nat \<Rightarrow> nat option" where
  "ionIDOfRange r rng = elem_at (ionIDs r) rng"

definition ionIDOfName :: "rangeFile \<Rightarrow> string \<Rightarrow> bool \<Rightarrow> nat option" where
  "ionIDOfName r name useShortName =
     (if useShortName then find_index (\<lambda>n. fst n = name) (ionNames r)
      else find_index (\<lambda>n. snd n = name) (ionNames r))"

definition getNumRanges :: "rangeFile \<Rightarrow> nat" where "getNumRanges r = length (ranges r)"

definition getNumRangesOfIon :: "rangeFile \<Rightarrow> nat \<Rightarrow> nat" where
  "getNumRangesOfIon r ionID = length (filter (\<lambda>ui. ionIDOfRange r ui = Some ionID) [0..<length (ranges r)])"

definition getNumIons :: "rangeFile \<Rightarrow> nat" where "getNumIons r = length (ionNames r)"
definition getRange :: "rangeFile \<Rightarrow> nat \<Rightarrow> (mass \<times> mass) option" where "getRange r ui = elem_at (ranges r) ui"
definition getColour :: "rangeFile \<Rightarrow> nat \<Rightarrow> rgb option" where "getColour r ui = elem_at (colours r) ui"

definition getName :: "rangeFile \<Rightarrow> nat \<Rightarrow> bool \<Rightarrow> string option" where
  "getName r ionID shortName = map_option (\<lambda>n. if shortName then fst n else snd n) (elem_at (ionNames r) ionID)"

definition toLowerC :: "char \<Rightarrow> char" where
  "toLowerC c = (if 65 \<le> (of_char c :: nat) \<and> (of_char c :: nat) \<le> 90 then char_of (of_char c + 32 :: nat) else c)"

definition isRangedName :: "rangeFile \<Rightarrow> string \<Rightarrow> bool \<Rightarrow> bool" where
  "isRangedName r shortName caseSensitive =
     (if caseSensitive then list_ex (\<lambda>n. fst n = shortName) (rev (ionNames r))
      else list_ex (\<lambda>n. length (fst n) = length shortName \<and>
             list_all (\<lambda>(a, b). toLowerC a = toLowerC b) (rev (zip (fst n) shortName))) (rev (ionNames r)))"

section \<open>Selecting ions\<close>

definition rangeIons :: "rangeFile \<Rightarrow> ionHit list \<Rightarrow> ionHit list" where
  "rangeIons r ions = filter (\<lambda>i. isRanged r (ih_mass i)) ions"

text \<open>\<^verbatim>\<open>range(ions, name)\<close>: false, and nothing changed, when the ion is not known.\<close>

definition rangeIonsByName :: "rangeFile \<Rightarrow> ionHit list \<Rightarrow> string \<Rightarrow> ionHit list \<times> bool" where
  "rangeIonsByName r ions ionShortName =
     (case find_index (\<lambda>n. fst n = ionShortName) (ionNames r) of None \<Rightarrow> (ions, False)
      | Some target \<Rightarrow>
          (let subRanges = filter (\<lambda>ui. ionIDs r ! ui = target) [0..<length (ionIDs r)]
           in (filter (\<lambda>i. list_ex (\<lambda>ui. inRange (ih_mass i) (ranges r ! ui)) subRanges) ions, True)))"

definition rangeByID :: "rangeFile \<Rightarrow> ionHit list \<Rightarrow> nat \<Rightarrow> (ionHit list \<times> bool) option" where
  "rangeByID r ions rng = map_option (\<lambda>n. rangeIonsByName r ions (fst n)) (elem_at (ionNames r) rng)"

text \<open>The loop leaves at the first ion in the range.\<close>

fun rangeByRangeID_loop :: "mass \<times> mass \<Rightarrow> ionHit list \<Rightarrow> ionHit list" where
  "rangeByRangeID_loop rg [] = []"
| "rangeByRangeID_loop rg (i # is) = (if inRange (ih_mass i) rg then [i] else rangeByRangeID_loop rg is)"

definition rangeByRangeID :: "rangeFile \<Rightarrow> ionHit list \<Rightarrow> nat \<Rightarrow> ionHit list option" where
  "rangeByRangeID r ions rangeID = map_option (\<lambda>rg. rangeByRangeID_loop rg ions) (elem_at (ranges r) rangeID)"

definition rangeByIon :: "rangeFile \<Rightarrow> ionHit list \<Rightarrow> bool list \<Rightarrow> ionHit list" where
  "rangeByIon r ions selectedIons = filter (\<lambda>i. case getIonID r (ih_mass i) of None \<Rightarrow> False
     | Some k \<Rightarrow> elem_at selectedIons k = Some True) ions"

section \<open>Edits\<close>

definition setColour :: "rangeFile \<Rightarrow> nat \<Rightarrow> rgb \<Rightarrow> rangeFile option" where
  "setColour r k c = map_option (\<lambda>cs. r\<lparr>colours := cs\<rparr>) (set_at k c (colours r))"

definition setIonShortName :: "rangeFile \<Rightarrow> nat \<Rightarrow> string \<Rightarrow> rangeFile option" where
  "setIonShortName r k newName = Option.bind (elem_at (ionNames r) k)
     (\<lambda>n. map_option (\<lambda>ns. r\<lparr>ionNames := ns\<rparr>) (set_at k (newName, snd n) (ionNames r)))"

definition setIonLongName :: "rangeFile \<Rightarrow> nat \<Rightarrow> string \<Rightarrow> rangeFile option" where
  "setIonLongName r k newName = Option.bind (elem_at (ionNames r) k)
     (\<lambda>n. map_option (\<lambda>ns. r\<lparr>ionNames := ns\<rparr>) (set_at k (fst n, newName) (ionNames r)))"

definition setRangeStart :: "rangeFile \<Rightarrow> nat \<Rightarrow> mass \<Rightarrow> (rangeFile \<times> bool) option" where
  "setRangeStart r rangeId v = map_option (\<lambda>rg.
     (let r' = r\<lparr>ranges := (ranges r)[rangeId := (v, snd rg)]\<rparr>
      in if enforceConsistency r \<and> \<not> isSelfConsistent r' then (r, False) else (r', True)))
     (elem_at (ranges r) rangeId)"

definition setRangeEnd :: "rangeFile \<Rightarrow> nat \<Rightarrow> mass \<Rightarrow> (rangeFile \<times> bool) option" where
  "setRangeEnd r rangeId v = map_option (\<lambda>rg.
     (let r' = r\<lparr>ranges := (ranges r)[rangeId := (fst rg, v)]\<rparr>
      in if enforceConsistency r \<and> \<not> isSelfConsistent r' then (r, False) else (r', True)))
     (elem_at (ranges r) rangeId)"

text \<open>The tests of \<^verbatim>\<open>moveRange\<close> against one other range \<open>o1\<close>; \<open>rg\<close> is the range that moves.\<close>

definition moves_over :: "bool \<Rightarrow> mass \<Rightarrow> mass \<times> mass \<Rightarrow> mass \<times> mass \<Rightarrow> bool" where
  "moves_over upperLimit newMass rg o1 =
     (if upperLimit
      then (fst rg < fst o1 \<and> newMass > fst o1) \<or> (fst rg < snd o1 \<and> newMass > snd o1)
      else (snd rg > fst o1 \<and> newMass < fst o1) \<or> (snd rg > snd o1 \<and> newMass < snd o1))"

definition moveRange :: "rangeFile \<Rightarrow> nat \<Rightarrow> bool \<Rightarrow> mass \<Rightarrow> (rangeFile \<times> bool) option" where
  "moveRange r rangeId upperLimit newMass = map_option (\<lambda>rg.
     (if enforceConsistency r \<and>
         ((if upperLimit then newMass \<le> fst rg else newMass \<ge> snd rg) \<or>
          list_ex (\<lambda>ui. ui \<noteq> rangeId \<and> moves_over upperLimit newMass rg (ranges r ! ui)) [0..<length (ranges r)])
      then (r, False)
      else (r\<lparr>ranges := (ranges r)[rangeId := (if upperLimit then (fst rg, newMass) else (newMass, snd rg))]\<rparr>, True)))
     (elem_at (ranges r) rangeId)"

definition moveBothRanges :: "rangeFile \<Rightarrow> nat \<Rightarrow> mass \<Rightarrow> mass \<Rightarrow> (rangeFile \<times> bool) option" where
  "moveBothRanges r rangeId newLow newHigh = map_option (\<lambda>rg.
     (if list_ex (\<lambda>ui. ui \<noteq> rangeId \<and>
            (moves_over True newHigh rg (ranges r ! ui) \<or> moves_over False newLow rg (ranges r ! ui))) [0..<length (ranges r)]
      then (r, False)
      else (r\<lparr>ranges := (ranges r)[rangeId := (newLow, newHigh)]\<rparr>, True)))
     (elem_at (ranges r) rangeId)"

text \<open>\<^verbatim>\<open>addRange\<close> returns the new number of ranges, or -1 (None).\<close>

definition add_clash :: "mass \<Rightarrow> mass \<Rightarrow> mass \<times> mass \<Rightarrow> bool" where
  "add_clash start end1 rg \<longleftrightarrow> (start > fst rg \<and> start \<le> snd rg) \<or> (end1 > fst rg \<and> end1 \<le> snd rg) \<or>
     (start < fst rg \<and> end1 > snd rg)"

definition addRange :: "rangeFile \<Rightarrow> mass \<Rightarrow> mass \<Rightarrow> nat \<Rightarrow> rangeFile \<times> nat option" where
  "addRange r start end1 parentIonID =
     (if enforceConsistency r \<and> list_ex (add_clash start end1) (ranges r) then (r, None)
      else (let r' = r\<lparr>ionIDs := ionIDs r @ [parentIonID], ranges := ranges r @ [(start, end1)]\<rparr>
            in (r', Some (length (ranges r')))))"

definition addIon :: "rangeFile \<Rightarrow> string \<Rightarrow> string \<Rightarrow> rgb \<Rightarrow> rangeFile \<times> nat option" where
  "addIon r shortN longN newCol =
     (if list_ex (\<lambda>n. fst n = shortN \<or> snd n = longN) (drop 9 (ionNames r)) then (r, None)
      else (let r' = r\<lparr>ionNames := ionNames r @ [(shortN, longN)], colours := colours r @ [newCol]\<rparr>
            in (r', Some (length (ionNames r') - 1))))"

definition setIonID :: "rangeFile \<Rightarrow> nat \<Rightarrow> nat \<Rightarrow> rangeFile option" where
  "setIonID r rng newIonId = map_option (\<lambda>l. r\<lparr>ionIDs := l\<rparr>) (set_at rng newIonId (ionIDs r))"

text \<open>\<^verbatim>\<open>swap\<close> with the last element, then \<^verbatim>\<open>pop_back\<close>.\<close>

definition swap_pop :: "nat \<Rightarrow> 'a list \<Rightarrow> 'a list option" where
  "swap_pop i xs = (if i < length xs
     then Some (butlast (xs[i := last xs, length xs - 1 := xs ! i])) else None)"

definition eraseRange :: "rangeFile \<Rightarrow> nat \<Rightarrow> rangeFile option" where
  "eraseRange r rangeId = Option.bind (swap_pop rangeId (ranges r))
     (\<lambda>rs. map_option (\<lambda>is. r\<lparr>ranges := rs, ionIDs := is\<rparr>) (swap_pop rangeId (ionIDs r)))"

definition erase_at :: "nat \<Rightarrow> 'a list \<Rightarrow> 'a list option" where
  "erase_at i xs = (if i < length xs then Some (take i xs @ drop (Suc i) xs) else None)"

definition eraseIon :: "rangeFile \<Rightarrow> nat \<Rightarrow> rangeFile option" where
  "eraseIon r ionId =
     (let killRange = map (\<lambda>ui. elem_at (ionIDs r) ui = Some ionId) [0..<length (ranges r)];
          rs = vectorMultiErase (ranges r) killRange;
          is = vectorMultiErase (ionIDs r) killRange
      in Option.bind (erase_at ionId (ionNames r)) (\<lambda>ns.
         map_option (\<lambda>cs. r\<lparr>ranges := rs, ionNames := ns, colours := cs,
             ionIDs := map (\<lambda>k. if k > ionId then k - 1 else k) is\<rparr>) (erase_at ionId (colours r))))"

section \<open>Invariant\<close>

text \<open>
  What a range file should be: the parallel vectors have matching lengths, every range has an
  existing ion and a positive width, and no two ranges share more than an end point.
\<close>

definition apart :: "mass \<times> mass \<Rightarrow> mass \<times> mass \<Rightarrow> bool" where
  "apart a b \<longleftrightarrow> snd a \<le> fst b \<or> snd b \<le> fst a"

definition all_apart :: "(mass \<times> mass) list \<Rightarrow> bool" where
  "all_apart rs \<longleftrightarrow> (\<forall>i < length rs. \<forall>j < length rs. i \<noteq> j \<longrightarrow> apart (rs ! i) (rs ! j))"

definition rf_ok :: "rangeFile \<Rightarrow> bool" where
  "rf_ok r \<longleftrightarrow> length (ionIDs r) = length (ranges r) \<and> length (colours r) = length (ionNames r) \<and>
     (\<forall>k \<in> set (ionIDs r). k < length (ionNames r)) \<and> (\<forall>rg \<in> set (ranges r). fst rg < snd rg) \<and>
     all_apart (ranges r)"

lemma apart_sym: "apart a b \<longleftrightarrow> apart b a"
  by (auto simp: apart_def)

lemma all_apart_update:
  assumes "all_apart rs" "i < length rs"
  shows "all_apart (rs[i := x]) \<longleftrightarrow> (\<forall>j < length rs. j \<noteq> i \<longrightarrow> apart x (rs ! j))"
  using assms unfolding all_apart_def
  by (auto simp: nth_list_update apart_sym)

lemma all_apart_sorted_wrt: "all_apart rs \<longleftrightarrow> sorted_wrt apart rs"
proof
  assume "sorted_wrt apart rs"
  then have lt: "apart (rs ! i) (rs ! j)" if "i < j" "j < length rs" for i j
    using that by (simp add: sorted_wrt_iff_nth_less)
  show "all_apart rs" unfolding all_apart_def
  proof (intro allI impI)
    fix i j assume "i < length rs" "j < length rs" "i \<noteq> j"
    then show "apart (rs ! i) (rs ! j)" using lt[of i j] lt[of j i] apart_sym[of "rs ! i"] by (cases "i < j") auto
  qed
qed (auto simp: all_apart_def sorted_wrt_iff_nth_less)

lemma all_apart_snoc: "all_apart (rs @ [x]) \<longleftrightarrow> all_apart rs \<and> (\<forall>y \<in> set rs. apart x y)"
  unfolding all_apart_sorted_wrt sorted_wrt_append using apart_sym by auto

lemma not_moves_over:
  assumes "fst rg < snd rg" "fst o1 < snd o1" "apart rg o1"
    and "if upperLimit then newMass > fst rg else newMass < snd rg"
  shows "\<not> moves_over upperLimit newMass rg o1 \<longleftrightarrow>
    apart (if upperLimit then (fst rg, newMass) else (newMass, snd rg)) o1"
  using assms by (auto simp: moves_over_def apart_def split: if_splits)

lemma moveRange_core:
  assumes ok: "rf_ok r" and enf: "enforceConsistency r" and i: "rangeId < length (ranges r)"
    and new: "new = (if upperLimit then (fst (ranges r ! rangeId), newMass) else (newMass, snd (ranges r ! rangeId)))"
  shows "\<exists>r' moved. moveRange r rangeId upperLimit newMass = Some (r', moved) \<and>
    (moved \<longleftrightarrow> fst new < snd new \<and> (\<forall>j < length (ranges r). j \<noteq> rangeId \<longrightarrow> apart new (ranges r ! j))) \<and>
    (moved \<longrightarrow> rf_ok r' \<and> r' = r\<lparr>ranges := (ranges r)[rangeId := new]\<rparr>) \<and> (\<not> moved \<longrightarrow> r' = r)"
proof -
  let ?rg = "ranges r ! rangeId"
  have pos: "\<forall>j < length (ranges r). fst (ranges r ! j) < snd (ranges r ! j)"
    and ap: "\<forall>j < length (ranges r). j \<noteq> rangeId \<longrightarrow> apart ?rg (ranges r ! j)" and aa: "all_apart (ranges r)"
    using ok i by (auto simp: rf_ok_def all_apart_def)
  let ?inv = "if upperLimit then newMass \<le> fst ?rg else newMass \<ge> snd ?rg"
  let ?over = "list_ex (\<lambda>ui. ui \<noteq> rangeId \<and> moves_over upperLimit newMass ?rg (ranges r ! ui)) [0..<length (ranges r)]"
  have w: "\<not> ?inv \<longleftrightarrow> fst new < snd new" using new by auto
  have o: "\<not> ?over \<longleftrightarrow> (\<forall>j < length (ranges r). j \<noteq> rangeId \<longrightarrow> apart new (ranges r ! j))" if "\<not> ?inv"
  proof -
    have "moves_over upperLimit newMass ?rg (ranges r ! j) \<longleftrightarrow> \<not> apart new (ranges r ! j)"
      if "j < length (ranges r)" "j \<noteq> rangeId" for j
    proof -
      have "if upperLimit then newMass > fst ?rg else newMass < snd ?rg" using \<open>\<not> ?inv\<close> by (auto split: if_splits)
      then show ?thesis using not_moves_over[of ?rg "ranges r ! j" upperLimit newMass] pos ap i that new by blast
    qed
    then show ?thesis by (auto simp: list_ex_iff)
  qed
  have mv: "moveRange r rangeId upperLimit newMass =
      Some (if ?inv \<or> ?over then (r, False) else (r\<lparr>ranges := (ranges r)[rangeId := new]\<rparr>, True))"
    using i enf new by (simp add: moveRange_def elem_at_def)
  have "rf_ok (r\<lparr>ranges := (ranges r)[rangeId := new]\<rparr>)" if "\<not> ?inv" "\<not> ?over"
    using ok all_apart_update[OF aa i] o[OF that(1)] w that set_update_subset_insert[of "ranges r" rangeId new]
    unfolding rf_ok_def by auto
  then show ?thesis using mv w o by (cases "?inv \<or> ?over") auto
qed

text \<open>
  With consistency enforced, moving one end of a range succeeds exactly when the
  moved range keeps a positive width and does not run into another range; then the range file
  stays well formed, and otherwise it is unchanged.
\<close>

theorem moveRange_exact:
  assumes ok: "rf_ok r" and enf: "enforceConsistency r" and i: "rangeId < length (ranges r)"
    and new: "new = (if upperLimit then (fst (ranges r ! rangeId), newMass) else (newMass, snd (ranges r ! rangeId)))"
  shows "\<exists>r' moved. moveRange r rangeId upperLimit newMass = Some (r', moved) \<and>
    (moved \<longleftrightarrow> fst new < snd new \<and> (\<forall>j < length (ranges r). j \<noteq> rangeId \<longrightarrow> apart new (ranges r ! j))) \<and>
    (moved \<longrightarrow> rf_ok r' \<and> r' = r\<lparr>ranges := (ranges r)[rangeId := new]\<rparr>) \<and> (\<not> moved \<longrightarrow> r' = r)"
  by (rule moveRange_core[OF assms])

text \<open>
  Moving both ends of a range to an interval of positive width succeeds exactly when
  the interval does not run into another range, and then the range file stays well formed.
\<close>

theorem moveBothRanges_exact:
  assumes ok: "rf_ok r" and i: "rangeId < length (ranges r)" and w: "newLow < newHigh"
    and between: "newLow < snd (ranges r ! rangeId)" "fst (ranges r ! rangeId) < newHigh"
  shows "\<exists>r' moved. moveBothRanges r rangeId newLow newHigh = Some (r', moved) \<and>
    (moved \<longleftrightarrow> (\<forall>j < length (ranges r). j \<noteq> rangeId \<longrightarrow> apart (newLow, newHigh) (ranges r ! j))) \<and>
    (moved \<longrightarrow> rf_ok r') \<and> (\<not> moved \<longrightarrow> r' = r)"
proof -
  let ?rg = "ranges r ! rangeId"
  have pos: "\<forall>j < length (ranges r). fst (ranges r ! j) < snd (ranges r ! j)"
    and ap: "\<forall>j < length (ranges r). j \<noteq> rangeId \<longrightarrow> apart ?rg (ranges r ! j)" and aa: "all_apart (ranges r)"
    using ok i by (auto simp: rf_ok_def all_apart_def)
  have one: "\<not> (moves_over True newHigh ?rg o1 \<or> moves_over False newLow ?rg o1) \<longleftrightarrow> apart (newLow, newHigh) o1"
    if "fst o1 < snd o1" "apart ?rg o1" for o1
    using that pos i w between by (auto simp: moves_over_def apart_def)
  let ?over = "list_ex (\<lambda>ui. ui \<noteq> rangeId \<and>
     (moves_over True newHigh ?rg (ranges r ! ui) \<or> moves_over False newLow ?rg (ranges r ! ui))) [0..<length (ranges r)]"
  have o: "\<not> ?over \<longleftrightarrow> (\<forall>j < length (ranges r). j \<noteq> rangeId \<longrightarrow> apart (newLow, newHigh) (ranges r ! j))"
  proof -
    have "moves_over True newHigh ?rg (ranges r ! j) \<or> moves_over False newLow ?rg (ranges r ! j) \<longleftrightarrow>
        \<not> apart (newLow, newHigh) (ranges r ! j)" if "j < length (ranges r)" "j \<noteq> rangeId" for j
      using one pos ap that by blast
    moreover have "?over \<longleftrightarrow> (\<exists>j < length (ranges r). j \<noteq> rangeId \<and>
        (moves_over True newHigh ?rg (ranges r ! j) \<or> moves_over False newLow ?rg (ranges r ! j)))"
      by (auto simp: list_ex_iff)
    ultimately show ?thesis by blast
  qed
  have mv: "moveBothRanges r rangeId newLow newHigh =
      Some (if ?over then (r, False) else (r\<lparr>ranges := (ranges r)[rangeId := (newLow, newHigh)]\<rparr>, True))"
    using i by (simp add: moveBothRanges_def elem_at_def)
  have "rf_ok (r\<lparr>ranges := (ranges r)[rangeId := (newLow, newHigh)]\<rparr>)" if "\<not> ?over"
    using ok all_apart_update[OF aa i] o w that set_update_subset_insert[of "ranges r" rangeId "(newLow, newHigh)"]
    unfolding rf_ok_def by auto
  then show ?thesis using mv o by (cases ?over) auto
qed

text \<open>
  With consistency enforced, an added range that starts where no other range starts
  leaves the range file well formed, is the last range, and belongs to the given ion; a refused
  range leaves it unchanged.
\<close>

theorem addRange_ok:
  assumes ok: "rf_ok r" and enf: "enforceConsistency r" and w: "start < end1" and k: "parentIonID < length (ionNames r)"
    and new: "\<forall>rg \<in> set (ranges r). fst rg \<noteq> start"
    and add: "addRange r start end1 parentIonID = (r', res)"
  shows "rf_ok r' \<and> (res = None \<longrightarrow> r' = r) \<and>
    (res \<noteq> None \<longrightarrow> res = Some (length (ranges r')) \<and> last (ranges r') = (start, end1) \<and>
       ionIDOfRange r' (length (ranges r)) = Some parentIonID)"
proof (cases "list_ex (add_clash start end1) (ranges r)")
  case True
  then show ?thesis using add enf ok by (simp add: addRange_def)
next
  case False
  then have r': "r' = r\<lparr>ionIDs := ionIDs r @ [parentIonID], ranges := ranges r @ [(start, end1)]\<rparr>"
    "res = Some (length (ranges r) + 1)" using add by (auto simp: addRange_def Let_def)
  have "apart (start, end1) rg" if "rg \<in> set (ranges r)" for rg
  proof -
    have "\<not> add_clash start end1 rg" using False that by (simp add: list_ex_iff)
    moreover have "fst rg < snd rg" "fst rg \<noteq> start" using ok new that by (auto simp: rf_ok_def)
    ultimately show ?thesis using w by (auto simp: add_clash_def apart_def)
  qed
  then have "rf_ok r'" using ok w k r' by (auto simp: rf_ok_def all_apart_snoc)
  then show ?thesis using r' ok by (auto simp: rf_ok_def ionIDOfRange_def elem_at_def nth_append)
qed

lemma all_apart_set:
  assumes "\<forall>rg \<in> set rs. fst rg < snd rg"
  shows "all_apart rs \<longleftrightarrow> distinct rs \<and> (\<forall>a \<in> set rs. \<forall>b \<in> set rs. a \<noteq> b \<longrightarrow> apart a b)"
  using assms unfolding all_apart_sorted_wrt
proof (induction rs)
  case (Cons a rs)
  then have "\<not> apart a a" by (auto simp: apart_def)
  then show ?case using Cons apart_sym by auto
qed simp

lemma all_apart_submset:
  assumes "\<forall>rg \<in> set rs. fst rg < snd rg" "all_apart rs" "mset rs' \<subseteq># mset rs"
  shows "all_apart rs'"
proof -
  have sub: "set rs' \<subseteq> set rs" using set_mset_mono[OF assms(3)] by simp
  obtain zs where "mset rs = mset (rs' @ zs)"
    using assms(3) by (metis ex_mset mset_append subset_mset.le_iff_add)
  then have "distinct rs'" using assms(1,2) all_apart_set mset_eq_imp_distinct_iff distinct_append by metis
  moreover have "\<forall>rg \<in> set rs'. fst rg < snd rg" using assms(1) sub by blast
  moreover have "\<forall>a \<in> set rs'. \<forall>b \<in> set rs'. a \<noteq> b \<longrightarrow> apart a b"
    using assms(2) sub all_apart_set[OF assms(1)] by blast
  ultimately show ?thesis using all_apart_set by blast
qed

lemma swap_pop_snoc: "swap_pop i (xs @ [x]) =
    (if i < length xs then Some (xs[i := x]) else if i = length xs then Some xs else None)"
proof -
  have "(xs @ [x])[length xs := x, length xs := x] = xs @ [x]" by simp
  moreover have "(xs @ [x])[i := x, length xs := xs ! i] = xs[i := x] @ [xs ! i]" if "i < length xs"
    using that by (simp add: list_update_append)
  ultimately show ?thesis by (auto simp: swap_pop_def nth_append less_Suc_eq)
qed

lemma swap_pop_zip:
  assumes "length xs = length ys" "i < length xs"
  shows "\<exists>us vs. swap_pop i xs = Some us \<and> swap_pop i ys = Some vs \<and> length us = length vs \<and>
    mset (zip us vs) + {#(xs ! i, ys ! i)#} = mset (zip xs ys)"
proof -
  obtain xs' x where xs: "xs = xs' @ [x]" using assms(2) by (cases xs rule: rev_cases) auto
  obtain ys' y where ys: "ys = ys' @ [y]" using assms by (cases ys rule: rev_cases) auto
  have len: "length xs' = length ys'" using assms(1) xs ys by simp
  show ?thesis
  proof (cases "i < length xs'")
    case True
    have "zip (xs'[i := x]) (ys'[i := y]) = (zip xs' ys')[i := (x, y)]" by (simp add: zip_update)
    moreover have "i < length (zip xs' ys')" using True len by simp
    from mset_update[OF this, of "(x, y)"]
    have "mset ((zip xs' ys')[i := (x, y)]) + {#zip xs' ys' ! i#} = mset (zip xs' ys') + {#(x, y)#}"
      using nth_mem_mset[OF \<open>i < length (zip xs' ys')\<close>] by simp
    ultimately show ?thesis using True len xs ys by (auto simp: swap_pop_snoc nth_append)
  next
    case False
    then have "i = length xs'" using assms(2) xs by simp
    then show ?thesis using len xs ys by (auto simp: swap_pop_snoc nth_append)
  qed
qed

text \<open>
  Erasing a range removes exactly that range together with its ion assignment; every
  other range keeps its interval and its ion, and the range file stays well formed.
\<close>

theorem eraseRange_exact:
  assumes "rf_ok r" "i < length (ranges r)"
  shows "\<exists>r'. eraseRange r i = Some r' \<and> rf_ok r' \<and>
    mset (zip (ranges r') (ionIDs r')) + {#(ranges r ! i, ionIDs r ! i)#} = mset (zip (ranges r) (ionIDs r))"
proof -
  have len: "length (ranges r) = length (ionIDs r)" using assms(1) by (simp add: rf_ok_def)
  obtain us vs where uv: "swap_pop i (ranges r) = Some us" "swap_pop i (ionIDs r) = Some vs"
    "length us = length vs" "mset (zip us vs) + {#(ranges r ! i, ionIDs r ! i)#} = mset (zip (ranges r) (ionIDs r))"
    using swap_pop_zip[OF len assms(2)] by blast
  let ?r' = "r\<lparr>ranges := us, ionIDs := vs\<rparr>"
  have er: "eraseRange r i = Some ?r'" using uv by (simp add: eraseRange_def)
  have sub: "mset (zip us vs) \<subseteq># mset (zip (ranges r) (ionIDs r))" using uv(4) by (metis mset_subset_eq_add_left)
  have "mset us \<subseteq># mset (ranges r)" "mset vs \<subseteq># mset (ionIDs r)"
    using image_mset_subseteq_mono[OF sub, of fst] image_mset_subseteq_mono[OF sub, of snd] uv(3) len
    by (simp_all flip: mset_map)
  moreover from this have "set us \<subseteq> set (ranges r)" "set vs \<subseteq> set (ionIDs r)"
    using set_mset_mono by fastforce+
  ultimately have "rf_ok ?r'"
    using assms(1) uv(3) all_apart_submset[of "ranges r" us] by (auto simp: rf_ok_def)
  then show ?thesis using er uv(4) by simp
qed

text \<open>What a range stands for: its interval and the names and colour of its ion.\<close>

definition assigned :: "rangeFile \<Rightarrow> ((mass \<times> mass) \<times> (string \<times> string) \<times> rgb) list" where
  "assigned r = map (\<lambda>(rg, k). (rg, ionNames r ! k, colours r ! k)) (zip (ranges r) (ionIDs r))"

lemma keep_zip_flags:
  "length xs = length ys \<Longrightarrow>
   keep_unkilled ys (map P ys) = map snd (filter (\<lambda>p. \<not> P (snd p)) (zip xs ys)) \<and>
   keep_unkilled xs (map P ys) = map fst (filter (\<lambda>p. \<not> P (snd p)) (zip xs ys))"
  by (induction xs ys rule: list_induct2) auto

text \<open>
  Property C38. Erasing an ion removes the ion, and exactly the ranges that belong to it; every
  remaining range keeps its interval and its ion's names and colour although the ions above the
  erased one get new numbers, and the range file stays well formed.
\<close>

theorem eraseIon_exact:
  assumes ok: "rf_ok r" and k: "ionId < length (ionNames r)"
  shows "\<exists>r'. eraseIon r ionId = Some r' \<and> rf_ok r' \<and>
    ionNames r' = take ionId (ionNames r) @ drop (Suc ionId) (ionNames r) \<and>
    assigned r' = map (\<lambda>(rg, k). (rg, ionNames r ! k, colours r ! k))
      (filter (\<lambda>(rg, k). k \<noteq> ionId) (zip (ranges r) (ionIDs r)))"
proof -
  let ?kill = "map (\<lambda>k. k = ionId) (ionIDs r)"
  have len: "length (ranges r) = length (ionIDs r)" "length (colours r) = length (ionNames r)"
    using ok by (auto simp: rf_ok_def)
  have kill: "map (\<lambda>ui. elem_at (ionIDs r) ui = Some ionId) [0..<length (ranges r)] = ?kill"
    by (rule nth_equalityI) (auto simp: len elem_at_def)
  let ?z = "filter (\<lambda>(rg, k). k \<noteq> ionId) (zip (ranges r) (ionIDs r))"
  let ?d = "\<lambda>k. if k > ionId then k - 1 else k"
  have ids: "keep_unkilled (ionIDs r) ?kill = map snd ?z" and rgs: "keep_unkilled (ranges r) ?kill = map fst ?z"
    using keep_zip_flags[OF len(1), of "\<lambda>k. k = ionId"] by (simp_all add: case_prod_unfold)
  let ?ns = "take ionId (ionNames r) @ drop (Suc ionId) (ionNames r)"
  let ?cs = "take ionId (colours r) @ drop (Suc ionId) (colours r)"
  let ?r' = "r\<lparr>ranges := map fst ?z, ionNames := ?ns, colours := ?cs, ionIDs := map ?d (map snd ?z)\<rparr>"
  have er: "eraseIon r ionId = Some ?r'"
  proof -
    have "vectorMultiErase (ranges r) ?kill = map fst ?z" "vectorMultiErase (ionIDs r) ?kill = map snd ?z"
      using len ids rgs by (simp_all add: vectorMultiErase_eq)
    then show ?thesis using k len(2) unfolding eraseIon_def kill Let_def by (simp add: erase_at_def)
  qed
  have sub: "mset ?z \<subseteq># mset (zip (ranges r) (ionIDs r))" by simp
  have "mset (map fst ?z) \<subseteq># mset (ranges r)"
    using image_mset_subseteq_mono[OF sub, of fst] len(1) by (simp flip: mset_map del: mset_filter)
  then have ap: "all_apart (map fst ?z)" "set (map fst ?z) \<subseteq> set (ranges r)"
    using all_apart_submset[of "ranges r"] ok set_mset_mono by (fastforce simp: rf_ok_def)+
  have idx: "snd p < length (ionNames r) \<and> snd p \<noteq> ionId" if "p \<in> set ?z" for p
    using that ok by (auto simp: rf_ok_def dest: set_zip_rightD)
  have nth: "?d j < length ?ns \<and> ?ns ! ?d j = ionNames r ! j \<and> ?cs ! ?d j = colours r ! j"
    if "j < length (ionNames r)" "j \<noteq> ionId" for j
    using that k len(2) by (auto simp: nth_append min_def)
  have "\<forall>x \<in> set (map ?d (map snd ?z)). x < length ?ns"
  proof
    fix x assume "x \<in> set (map ?d (map snd ?z))"
    then obtain q where "q \<in> set ?z" "x = ?d (snd q)" unfolding list.set_map by blast
    then show "x < length ?ns" using nth[of "snd q"] idx[of q] by blast
  qed
  moreover have "\<forall>rg \<in> set (map fst ?z). fst rg < snd rg" using ap(2) ok unfolding rf_ok_def by blast
  moreover have "length ?cs = length ?ns" using len(2) by simp
  ultimately have "rf_ok ?r'" using ap(1) unfolding rf_ok_def by (simp del: length_append)
  moreover have "zip (map fst ?z) (map ?d (map snd ?z)) = map (\<lambda>p. (fst p, ?d (snd p))) ?z"
    by (simp add: zip_map_map zip_same_conv_map comp_def)
  then have "assigned ?r' = map (\<lambda>p. (fst p, ?ns ! ?d (snd p), ?cs ! ?d (snd p))) ?z"
    by (simp add: assigned_def comp_def)
  then have "assigned ?r' = map (\<lambda>(rg, k). (rg, ionNames r ! k, colours r ! k)) ?z"
    using nth idx by (auto intro!: map_cong)
  ultimately show ?thesis using er by simp
qed

section \<open>Lookups\<close>

text \<open>
  A mass has an ion exactly if it is ranged; the ion is that of a range which
  contains the mass, and it is the ion of every range that contains the mass strictly inside.
\<close>

theorem getIonID_correct:
  assumes "rf_ok r"
  shows "(getIonID r m = None \<longleftrightarrow> \<not> isRanged r m) \<and>
    (\<forall>k. getIonID r m = Some k \<longrightarrow> (\<exists>i < length (ranges r). inRange m (ranges r ! i) \<and> ionIDs r ! i = k)) \<and>
    (\<forall>i < length (ranges r). fst (ranges r ! i) < m \<and> m < snd (ranges r ! i) \<longrightarrow>
       getIonID r m = Some (ionIDs r ! i) \<and> getRangeID r m = Some i)"
proof -
  have len: "length (ionIDs r) = length (ranges r)" and aa: "all_apart (ranges r)"
    using assms by (auto simp: rf_ok_def)
  have gi: "getIonID r m = (case getRangeID r m of None \<Rightarrow> None | Some i \<Rightarrow> Some (ionIDs r ! i))"
    using find_index_Some[of "inRange m" "ranges r"] len
    by (auto simp: getIonID_def getRangeID_def elem_at_def split: option.splits)
  have none: "getRangeID r m = None \<longleftrightarrow> \<not> isRanged r m"
    by (simp add: getRangeID_def find_index_None isRanged_def list_ex_iff)
  have some: "i < length (ranges r) \<and> inRange m (ranges r ! i)" if "getRangeID r m = Some i" for i
    using find_index_Some that unfolding getRangeID_def by blast
  have strict: "getRangeID r m = Some i"
    if i: "i < length (ranges r)" "fst (ranges r ! i) < m \<and> m < snd (ranges r ! i)" for i
  proof -
    have "inRange m (ranges r ! i)" using i(2) by (simp add: inRange_def)
    then have "isRanged r m" using i(1) by (auto simp: isRanged_def list_ex_iff)
    then obtain j where j: "getRangeID r m = Some j" using none by blast
    have "j = i"
    proof (rule ccontr)
      assume "j \<noteq> i"
      then have "apart (ranges r ! j) (ranges r ! i)" using aa some[OF j] i(1) by (simp add: all_apart_def)
      then show False using some[OF j] i(2) by (auto simp: apart_def inRange_def)
    qed
    then show ?thesis using j by simp
  qed
  have "getIonID r m = None \<longleftrightarrow> \<not> isRanged r m" using none by (cases "getRangeID r m") (simp_all add: gi)
  moreover have "\<exists>i < length (ranges r). inRange m (ranges r ! i) \<and> ionIDs r ! i = k" if "getIonID r m = Some k" for k
    using that some by (auto simp: gi split: option.splits)
  moreover have "getIonID r m = Some (ionIDs r ! i)" if "getRangeID r m = Some i" for i
    using that by (simp add: gi)
  ultimately show ?thesis using strict by blast
qed

text \<open>
  Ranging a list of ions by a range file keeps exactly the ions to which the file
  gives an ion number, in order.
\<close>

theorem rangeIons_selects:
  assumes "rf_ok r"
  shows "rangeIons r ions = filter (\<lambda>i. getIonID r (ih_mass i) \<noteq> None) ions"
proof -
  have "isRanged r m \<longleftrightarrow> getIonID r m \<noteq> None" for m
  proof -
    have len: "length (ionIDs r) = length (ranges r)" using assms by (simp add: rf_ok_def)
    show ?thesis
      using find_index_Some[of "inRange m" "ranges r"] find_index_None[of "inRange m" "ranges r"] len
      by (cases "find_index (inRange m) (ranges r)")
        (auto simp: getIonID_def isRanged_def list_ex_iff elem_at_def)
  qed
  then show ?thesis by (simp add: rangeIons_def)
qed

text \<open>
  Selecting by range number returns at most one ion: the first one in the range, and
  the other ions in the range are lost.
\<close>

theorem rangeByRangeID_first_only:
  "rangeByRangeID_loop rg ions = take 1 (filter (\<lambda>i. inRange (ih_mass i) rg) ions)"
  by (induction ions) auto

section \<open>The consistency check\<close>

lemma ranges_consistent_iff:
  assumes "\<forall>rg \<in> set rs. fst rg < snd rg" "distinct (map fst rs)" "distinct (map snd rs)"
  shows "ranges_consistent rs \<longleftrightarrow> all_apart rs"
  using assms unfolding all_apart_sorted_wrt
proof (induction rs)
  case (Cons a rs)
  have "pair_clash a b \<longleftrightarrow> \<not> apart a b" if "b \<in> set rs" for b
  proof -
    have "fst a \<noteq> fst b" "snd a \<noteq> snd b" "fst a < snd a" "fst b < snd b"
      using Cons.prems that by force+
    then show ?thesis by (auto simp: pair_clash_def apart_def)
  qed
  then show ?case using Cons by (auto simp: list_ex_iff)
qed simp

lemma names_unclashed_iff:
  "names_unclashed ns \<longleftrightarrow> distinct (map fst ns) \<and> distinct (map snd ns)"
  by (induction ns) (force simp: list_ex_iff)+

text \<open>
  Property C39. For ranges of positive width of which no two start or end at the same mass, the
  consistency check accepts a file exactly if no two ranges overlap, all short names and all long
  names differ, and no name contains white space.
\<close>

theorem isSelfConsistent_iff:
  assumes "\<forall>rg \<in> set (ranges r). fst rg < snd rg" "distinct (map fst (ranges r))" "distinct (map snd (ranges r))"
  shows "isSelfConsistent r \<longleftrightarrow> all_apart (ranges r) \<and>
    distinct (map fst (ionNames r)) \<and> distinct (map snd (ionNames r)) \<and>
    (\<forall>n \<in> set (ionNames r). set (fst n) \<inter> set DISALLOWED_ION_NAMES = {} \<and> set (snd n) \<inter> set DISALLOWED_ION_NAMES = {})"
  using ranges_consistent_iff[OF assms] names_unclashed_iff
  by (auto simp: isSelfConsistent_def list_all_iff name_allowed_def list_ex_iff)

text \<open>
  Without that condition the check depends on the order of the ranges: the
  overlapping ranges 1-3 and 1-2 are accepted in this order and rejected in the other, and adding
  the range 1-3 to a consistent file that holds 1-2 is accepted.
\<close>

theorem consistency_order_dependent:
  "ranges_consistent [(1, 3), (1, 2)] \<and> \<not> ranges_consistent [(1, 2), (1, 3)] \<and>
   \<not> all_apart [(1, 3), (1, 2)] \<and>
   snd (addRange (newRangeFile\<lparr>ionNames := [(''H'', ''Hydrogen'')], colours := [(1, 0, 0)],
      ranges := [(1, 2)], ionIDs := [0]\<rparr>) 1 3 0) = Some 2"
proof -
  have "\<not> apart ([(1, 3), (1, 2)] ! 0) ([(1, 3), (1, 2)] ! 1)" by (simp add: apart_def)
  then have "\<not> all_apart [(1, 3), (1, 2)]" unfolding all_apart_sorted_wrt by simp
  then show ?thesis by (simp add: pair_clash_def addRange_def add_clash_def newRangeFile_def Let_def)
qed

end
