(* ===== verification/IonNames.thy ===== *)
theory IonNames
  imports RangeFile
begin

text \<open>
  Molecular ion names of src/src/backend/APT/APTRanges.cpp: \<^verbatim>\<open>decomposeIonNames\<close> splits a name
  such as AuHg2 into the element names with their counts, \<^verbatim>\<open>matchComposedName\<close> finds a composed
  name by its fragments, and the range file uses both. Counts are of type \<^verbatim>\<open>size_t\<close>.
\<close>

definition chr :: "char \<Rightarrow> nat" where "chr c = of_char c"
definition isasciiC :: "char \<Rightarrow> bool" where "isasciiC c \<longleftrightarrow> chr c < 128"
definition isdigitC :: "char \<Rightarrow> bool" where "isdigitC c \<longleftrightarrow> 48 \<le> chr c \<and> chr c \<le> 57"
definition isupperC :: "char \<Rightarrow> bool" where "isupperC c \<longleftrightarrow> 65 \<le> chr c \<and> chr c \<le> 90"
definition islowerC :: "char \<Rightarrow> bool" where "islowerC c \<longleftrightarrow> 97 \<le> chr c \<and> chr c \<le> 122"
definition isalphaC :: "char \<Rightarrow> bool" where "isalphaC c \<longleftrightarrow> isupperC c \<or> islowerC c"

definition substr :: "string \<Rightarrow> nat \<Rightarrow> nat \<Rightarrow> string" where "substr s pos n = take n (drop pos s)"

section \<open>The scanner\<close>

text \<open>
  \<^verbatim>\<open>stream_cast\<close> into a \<^verbatim>\<open>size_t\<close>: the digits up to the first other character are read, and a number that does not fit
  is the greatest one.
\<close>

definition readSize :: "string \<Rightarrow> nat" where "readSize s = min (readNat (takeWhile isdigitC s)) (2 ^ 64 - 1)"

text \<open>
  One round reads the character \<open>c\<close> at index \<open>ui\<close>. The last list argument is what is left of the
  name from \<open>ui\<close> on. None is the return of false.
\<close>

fun dec_loop :: "string \<Rightarrow> nat \<Rightarrow> nat \<Rightarrow> nat \<Rightarrow> bool \<Rightarrow> (string \<times> nat) list \<Rightarrow> string \<Rightarrow>
    (nat \<times> nat \<times> bool \<times> (string \<times> nat) list) option" where
  "dec_loop name ui lastMarker digitMarker nameMode frs [] = Some (lastMarker, digitMarker, nameMode, frs)"
| "dec_loop name ui lastMarker digitMarker nameMode frs (c # cs) =
     (if \<not> isasciiC c then None
      else if nameMode
      then (if isdigitC c then dec_loop name (Suc ui) lastMarker ui False frs cs
            else if isupperC c
            then dec_loop name (Suc ui) ui digitMarker True
                   (frs @ [(substr name lastMarker (ui - lastMarker), 1)]) cs
            else dec_loop name (Suc ui) lastMarker digitMarker True frs cs)
      else (if isdigitC c then dec_loop name (Suc ui) lastMarker digitMarker False frs cs
            else if isalphaC c
            then dec_loop name (Suc ui) ui digitMarker True
                   (frs @ [(substr name lastMarker (digitMarker - lastMarker),
                            readSize (substr name digitMarker (ui - digitMarker)))]) cs
            else dec_loop name (Suc ui) lastMarker digitMarker False frs cs))"

text \<open>
  The collection of repeated fragments: the counts of later fragments of the same name are added,
  modulo \<open>2 ^ 64\<close>, to the first one, which blanks their names and marks them to be erased.
\<close>

fun absorb :: "string \<Rightarrow> nat \<Rightarrow> (string \<times> nat \<times> bool) list \<Rightarrow> nat \<times> (string \<times> nat \<times> bool) list" where
  "absorb s n [] = (n, [])"
| "absorb s n ((s', n', k) # rest) =
     (if s' \<noteq> [] \<and> s' = s then (let (m, r) = absorb s ((n + n') mod 2 ^ 64) rest in (m, ([], n', True) # r))
      else (let (m, r) = absorb s n rest in (m, (s', n', k) # r)))"

lemma absorb_length: "length (snd (absorb s n r)) = length r"
  by (induction s n r rule: absorb.induct) (auto simp: Let_def split: prod.splits)

function collect :: "(string \<times> nat \<times> bool) list \<Rightarrow> (string \<times> nat \<times> bool) list" where
  "collect [] = []"
| "collect ((s, n, k) # rest) =
     (if s = [] then (s, n, k) # collect rest
      else (s, fst (absorb s n rest), k) # collect (snd (absorb s n rest)))"
  by pat_completeness auto
termination by (relation "measure length") (auto simp: absorb_length)

definition collectFragments :: "(string \<times> nat) list \<Rightarrow> (string \<times> nat) list" where
  "collectFragments frs =
     (let r = collect (map (\<lambda>(s, n). (s, n, False)) frs)
      in vectorMultiErase (map (\<lambda>(s, n, k). (s, n)) r) (map (\<lambda>(s, n, k). k) r))"

definition decomposeIonNames :: "string \<Rightarrow> (string \<times> nat) list option" where
  "decomposeIonNames name = (case name of [] \<Rightarrow> Some []
     | c # cs \<Rightarrow>
        if \<not> isasciiC c \<or> isdigitC c \<or> islowerC c then None
        else map_option (\<lambda>(lm, dm, mode, frs). collectFragments (frs @
               [if mode then (substr name lm (length name - lm), 1)
                else (substr name lm (dm - lm), readSize (substr name dm (length name - dm)))]))
             (dec_loop name 1 0 0 True [] cs))"

text \<open>\<^verbatim>\<open>envDropChargeState\<close>; the empty name reads before the string and is left undefined.\<close>

definition envDropChargeState :: "string \<Rightarrow> string option" where
  "envDropChargeState s = (if s = [] then None
     else if last s = CHR ''+'' \<and> CHR ''_'' \<in> set s
     then Some (rev (tl (dropWhile (\<lambda>c. c \<noteq> CHR ''_'') (rev s)))) else Some s)"

section \<open>Matching\<close>

definition fragmentVec :: "string list \<Rightarrow> (string \<times> nat) list list" where
  "fragmentVec keys = map (\<lambda>k. case decomposeIonNames k of None \<Rightarrow> [] | Some f \<Rightarrow> f) keys"

definition exclude :: "(string \<times> nat) list list \<Rightarrow> (string \<times> nat) list \<Rightarrow> bool list" where
  "exclude fv namesToFind = fold (\<lambda>cur ex. map (\<lambda>(e, fs). e \<or> cur \<notin> set fs) (zip ex fv))
     namesToFind (replicate (length fv) False)"

text \<open>The scan for a single unique candidate; None is the early return on a second match.\<close>

fun match_loop :: "(string \<times> nat) list \<Rightarrow> nat \<Rightarrow> (bool \<times> (string \<times> nat) list) list \<Rightarrow> nat option \<Rightarrow> nat option option" where
  "match_loop toFind ui [] found = Some found"
| "match_loop toFind ui ((ex, fs) # r) found =
     (if \<not> ex \<and> list_all (\<lambda>f. f \<in> set toFind) fs
      then (case found of Some _ \<Rightarrow> None | None \<Rightarrow> match_loop toFind (Suc ui) r (Some ui))
      else match_loop toFind (Suc ui) r found)"

text \<open>The keys are those of a \<^verbatim>\<open>std::map\<close>, in ascending order; the result is the offset of the match.\<close>

definition matchComposedName :: "string list \<Rightarrow> (string \<times> nat) list \<Rightarrow> nat option" where
  "matchComposedName keys namesToFind =
     (let fv = fragmentVec keys
      in case match_loop namesToFind 0 (zip (exclude fv namesToFind) fv) None of None \<Rightarrow> None | Some r \<Rightarrow> r)"

section \<open>Decomposition of a range file\<close>

text \<open>The colours of new ions come from \<^verbatim>\<open>rand()\<close>: \<open>cols k\<close> is the \<open>k\<close>-th random colour.\<close>

fun add_fragments :: "(nat \<Rightarrow> rgb) \<Rightarrow> (string \<times> nat) list \<Rightarrow> rangeFile \<times> nat \<Rightarrow> rangeFile \<times> nat" where
  "add_fragments cols [] (r, k) = (r, k)"
| "add_fragments cols ((s, n) # fs) (r, k) =
     (if ionIDOfName r s True = None
      then add_fragments cols fs (fst (addIon r s s (cols k)), Suc k)
      else add_fragments cols fs (r, k))"

fun decompose_loop :: "(nat \<Rightarrow> rgb) \<Rightarrow> (string \<times> string) list \<Rightarrow> rangeFile \<times> nat \<Rightarrow> (rangeFile \<times> nat) \<times> bool" where
  "decompose_loop cols [] rk = (rk, True)"
| "decompose_loop cols (nm # ns) rk =
     (case decomposeIonNames (fst nm) of None \<Rightarrow> (rk, False)
      | Some fs \<Rightarrow> decompose_loop cols ns (add_fragments cols fs rk))"

definition rf_decompose :: "(nat \<Rightarrow> rgb) \<Rightarrow> rangeFile \<Rightarrow> rangeFile \<Rightarrow> rangeFile \<times> bool" where
  "rf_decompose cols this rng =
     (let (rk, ok) = decompose_loop cols (ionNames this) (rf_assign rng this, 0) in (fst rk, ok))"

definition isSelfDecomposable :: "rangeFile \<Rightarrow> bool" where
  "isSelfDecomposable r = list_all (\<lambda>nm. decomposeIonNames (fst nm) \<noteq> None \<and> ionIDOfName r (fst nm) True \<noteq> None) (ionNames r)"

fun decomposition_of :: "rangeFile \<Rightarrow> (string \<times> nat) list \<Rightarrow> (nat \<times> nat) list option" where
  "decomposition_of r [] = Some []"
| "decomposition_of r ((s, n) # fs) =
     (case ionIDOfName r s True of None \<Rightarrow> None
      | Some k \<Rightarrow> map_option ((#) (k, n)) (decomposition_of r fs))"

fun getDecomposition_loop :: "rangeFile \<Rightarrow> (string \<times> string) list \<Rightarrow> (nat \<times> nat) list list option" where
  "getDecomposition_loop r [] = Some []"
| "getDecomposition_loop r (nm # ns) =
     (case decomposeIonNames (fst nm) of None \<Rightarrow> None
      | Some fs \<Rightarrow> (case decomposition_of r fs of None \<Rightarrow> None
          | Some d \<Rightarrow> map_option ((#) d) (getDecomposition_loop r ns)))"

definition getDecomposition :: "rangeFile \<Rightarrow> (nat \<times> nat) list list option" where
  "getDecomposition r = getDecomposition_loop r (ionNames r)"

section \<open>Scanning a formula\<close>

text \<open>A fragment as it is written: an element symbol, and the count if it is not 1 (or if it is given).\<close>

type_synonym fragment = "string \<times> nat option"

definition symbol_ok :: "string \<Rightarrow> bool" where
  "symbol_ok s \<longleftrightarrow> s \<noteq> [] \<and> isupperC (hd s) \<and> (\<forall>c \<in> set (tl s). isasciiC c \<and> \<not> isdigitC c \<and> \<not> isupperC c)"

definition writeFragment :: "fragment \<Rightarrow> string" where
  "writeFragment f = fst f @ (case snd f of None \<Rightarrow> [] | Some n \<Rightarrow> showNat n)"

text \<open>What it means, and what a \<^verbatim>\<open>size_t\<close> keeps of that.\<close>

definition meaning :: "fragment \<Rightarrow> string \<times> nat" where
  "meaning f = (fst f, case snd f of None \<Rightarrow> 1 | Some n \<Rightarrow> n)"

definition stored :: "fragment \<Rightarrow> string \<times> nat" where
  "stored f = (fst f, case snd f of None \<Rightarrow> 1 | Some n \<Rightarrow> min n (2 ^ 64 - 1))"

lemma class_simps:
  "isupperC c \<Longrightarrow> isasciiC c" "isupperC c \<Longrightarrow> \<not> isdigitC c" "isdigitC c \<Longrightarrow> isasciiC c"
  "isupperC c \<Longrightarrow> isalphaC c" "isupperC c \<Longrightarrow> \<not> islowerC c"
  by (auto simp: isupperC_def isasciiC_def isdigitC_def isalphaC_def islowerC_def)

lemma digits_class: "c \<in> set (showNat n) \<Longrightarrow> isdigitC c"
  using showNat_digits[of c n] by (auto simp: isdigitC_def chr_def)

lemma readSize_show: "readSize (showNat n) = min n (2 ^ 64 - 1)"
proof -
  have all: "takeWhile isdigitC (showNat n) = showNat n" using digits_class[of _ n] by (simp add: takeWhile_eq_all_conv)
  show ?thesis unfolding readSize_def all read_show ..
qed

lemma dec_name_chars:
  "\<forall>c \<in> set cs. isasciiC c \<and> \<not> isdigitC c \<and> \<not> isupperC c \<Longrightarrow>
   dec_loop name ui lm dm True frs (cs @ rest) = dec_loop name (ui + length cs) lm dm True frs rest"
  by (induction cs arbitrary: ui) auto

lemma dec_digit_chars:
  "\<forall>c \<in> set cs. isdigitC c \<Longrightarrow>
   dec_loop name ui lm dm False frs (cs @ rest) = dec_loop name (ui + length cs) lm dm False frs rest"
  by (induction cs arbitrary: ui) (auto simp: class_simps)

text \<open>
  The scan of one fragment from its second character on. It ends in name mode when the count is not
  written, and in digit mode with the digit marker at the count otherwise.
\<close>

lemma dec_fragment:
  assumes "symbol_ok (fst f)"
  shows "dec_loop name (Suc (length pre)) (length pre) dm True frs (tl (writeFragment f) @ rest) =
    dec_loop name (length pre + length (writeFragment f)) (length pre)
      (if snd f = None then dm else length pre + length (fst f)) (snd f = None) frs rest"
proof -
  obtain c cs where fc: "fst f = c # cs" using assms by (cases "fst f") (auto simp: symbol_ok_def)
  have cs: "\<forall>x \<in> set cs. isasciiC x \<and> \<not> isdigitC x \<and> \<not> isupperC x"
    using assms by (simp add: symbol_ok_def fc)
  show ?thesis
  proof (cases "snd f")
    case None
    then show ?thesis by (simp add: writeFragment_def fc dec_name_chars[OF cs] add.commute add.left_commute)
  next
    case (Some n)
    obtain d ds where sd: "showNat n = d # ds" by (cases "showNat n") auto
    have dig: "isdigitC d" "\<forall>x \<in> set ds. isdigitC x" using digits_class[of _ n] sd by auto
    show ?thesis
      using dig by (simp add: writeFragment_def fc Some sd dec_name_chars[OF cs] dec_digit_chars class_simps
        add.commute add.left_commute)
  qed
qed

lemma fragment_cut:
  assumes "name = pre @ writeFragment f @ rest"
  shows "snd f = None \<Longrightarrow> substr name (length pre) (length (writeFragment f)) = fst f"
    and "substr name (length pre) (length (fst f)) = fst f"
    and "snd f = Some n \<Longrightarrow> substr name (length pre + length (fst f)) (length (writeFragment f) - length (fst f)) = showNat n"
  using assms by (auto simp: substr_def writeFragment_def split: option.splits)

lemma writeFragment_length: "length (fst f) \<le> length (writeFragment f)"
  by (simp add: writeFragment_def)

text \<open>The fragment that is open at \<open>ui\<close> is closed with its name and count.\<close>

lemma fragment_closed:
  assumes "name = pre @ writeFragment f @ rest" "ui = length pre + length (writeFragment f)"
  shows "(if snd f = None then (substr name (length pre) (ui - length pre), 1)
          else (substr name (length pre) (length pre + length (fst f) - length pre),
                readSize (substr name (length pre + length (fst f)) (ui - (length pre + length (fst f)))))) = stored f"
  using fragment_cut[OF assms(1)] assms(2) writeFragment_length[of f]
  by (cases "snd f") (auto simp: stored_def readSize_show)

lemma dec_fragments:
  assumes "list_all (\<lambda>f. symbol_ok (fst f)) (f # fs)"
    and "name = pre @ concat (map writeFragment (f # fs))"
  shows "\<exists>lm dm mode frs'. dec_loop name (Suc (length pre)) (length pre) dm0 True frs
      (tl (writeFragment f) @ concat (map writeFragment fs)) = Some (lm, dm, mode, frs') \<and>
    frs' @ [if mode then (substr name lm (length name - lm), 1)
            else (substr name lm (dm - lm), readSize (substr name dm (length name - dm)))] =
    frs @ map stored (f # fs)"
  using assms
proof (induction fs arbitrary: f pre frs dm0)
  case Nil
  then have sym: "symbol_ok (fst f)" and name: "name = pre @ writeFragment f @ []" by simp_all
  have len: "length name = length pre + length (writeFragment f)" using name by simp
  show ?case
    using fragment_closed[OF name len] dec_fragment[OF sym, of name pre dm0 frs "[]"]
    by (cases "snd f") (fastforce simp: exI[of _ True] exI[of _ False])+
next
  case (Cons g gs)
  then have sym: "symbol_ok (fst f)" and symg: "symbol_ok (fst g)"
    and name: "name = pre @ writeFragment f @ concat (map writeFragment (g # gs))" by simp_all
  obtain c cs where gc: "writeFragment g = c # cs" "isupperC c"
    using symg by (cases "fst g") (auto simp: symbol_ok_def writeFragment_def)
  let ?pre = "pre @ writeFragment f"
  have name': "name = ?pre @ concat (map writeFragment (g # gs))" using name by simp
  let ?dm = "if snd f = None then dm0 else length pre + length (fst f)"
  have close: "dec_loop name (length pre + length (writeFragment f)) (length pre) ?dm (snd f = None) frs
      (c # cs @ concat (map writeFragment gs)) =
    dec_loop name (Suc (length ?pre)) (length ?pre) ?dm True (frs @ [stored f]) (tl (writeFragment g) @ concat (map writeFragment gs))"
    using gc fragment_closed[OF name refl] by (cases "snd f") (auto simp: class_simps)
  have start: "dec_loop name (Suc (length pre)) (length pre) dm0 True frs
      (tl (writeFragment f) @ concat (map writeFragment (g # gs))) =
    dec_loop name (Suc (length ?pre)) (length ?pre) ?dm True (frs @ [stored f]) (tl (writeFragment g) @ concat (map writeFragment gs))"
    unfolding dec_fragment[OF sym] close[symmetric] by (simp add: gc)
  have rec: "(frs @ [stored f]) @ map stored (g # gs) = frs @ map stored (f # g # gs)" by simp
  have "list_all (\<lambda>f. symbol_ok (fst f)) (g # gs)" using Cons.prems(1) by simp
  from Cons.IH[OF this name', of ?dm "frs @ [stored f]"] show ?case unfolding start rec .
qed

lemma decomposeIonNames_write:
  assumes "list_all (\<lambda>f. symbol_ok (fst f)) fs"
  shows "decomposeIonNames (concat (map writeFragment fs)) = Some (collectFragments (map stored fs))"
proof (cases fs)
  case Nil
  then show ?thesis
    by (simp add: decomposeIonNames_def collectFragments_def vectorMultiErase_eq)
next
  case (Cons f gs)
  let ?name = "concat (map writeFragment fs)"
  have sym: "symbol_ok (fst f)" using assms Cons by simp
  obtain c cs where fc: "writeFragment f = c # cs" "isupperC c"
    using sym by (cases "fst f") (auto simp: symbol_ok_def writeFragment_def)
  have nm: "?name = c # cs @ concat (map writeFragment gs)" using Cons fc by simp
  have d: "\<exists>lm dm mode frs'. dec_loop ?name 1 0 0 True [] (cs @ concat (map writeFragment gs)) = Some (lm, dm, mode, frs') \<and>
    frs' @ [if mode then (substr ?name lm (length ?name - lm), 1)
            else (substr ?name lm (dm - lm), readSize (substr ?name dm (length ?name - dm)))] = map stored fs"
    using dec_fragments[of f gs ?name "[]" 0 "[]"] assms Cons fc by simp
  then obtain lm dm mode frs' where
    d: "dec_loop ?name 1 0 0 True [] (cs @ concat (map writeFragment gs)) = Some (lm, dm, mode, frs')"
    and e: "frs' @ [if mode then (substr ?name lm (length ?name - lm), 1)
            else (substr ?name lm (dm - lm), readSize (substr ?name dm (length ?name - dm)))] = map stored fs"
    by metis
  have "decomposeIonNames ?name = Some (collectFragments (frs' @ [if mode then (substr ?name lm (length ?name - lm), 1)
            else (substr ?name lm (dm - lm), readSize (substr ?name dm (length ?name - dm)))]))"
    using d fc(2) unfolding decomposeIonNames_def nm list.case by (simp add: class_simps)
  then show ?thesis using e by simp
qed

section \<open>Collecting repeated fragments\<close>

definition total :: "string \<Rightarrow> (string \<times> nat) list \<Rightarrow> nat" where
  "total s frs = sum_list (map snd (filter (\<lambda>f. fst f = s) frs))"

fun merged :: "(string \<times> nat) list \<Rightarrow> (string \<times> nat) list" where
  "merged [] = []"
| "merged (f # r) = (fst f, (snd f + total (fst f) r) mod 2 ^ 64) # merged (filter (\<lambda>g. fst g \<noteq> fst f) r)"

definition live :: "(string \<times> nat \<times> bool) list \<Rightarrow> (string \<times> nat) list" where
  "live l = map (\<lambda>(s, n, k). (s, n)) (filter (\<lambda>(s, n, k). \<not> k) l)"

lemma total_simps [simp]:
  "total s [] = 0" "total s (f # r) = (if fst f = s then snd f + total s r else total s r)"
  by (simp_all add: total_def)

lemma live_simps [simp]:
  "live [] = []" "live ((s, n, k) # l) = (if k then live l else (s, n) # live l)"
  by (simp_all add: live_def)

lemma total_filter: "total s (filter (\<lambda>g. fst g \<noteq> t) r) = (if s = t then 0 else total s r)"
  by (induction r) auto

text \<open>The killed entries are the ones with a blanked name, and every count fits.\<close>

definition blanked :: "(string \<times> nat \<times> bool) list \<Rightarrow> bool" where
  "blanked l \<longleftrightarrow> (\<forall>(s, n, k) \<in> set l. (k \<longleftrightarrow> s = []) \<and> n < 2 ^ 64)"

lemma blanked_simps [simp]:
  "blanked []" "blanked ((s, n, k) # l) \<longleftrightarrow> (k \<longleftrightarrow> s = []) \<and> n < 2 ^ 64 \<and> blanked l"
  by (auto simp: blanked_def)

lemma absorb_live:
  assumes "blanked r" "s \<noteq> []" "n < 2 ^ 64"
  shows "fst (absorb s n r) = (n + total s (live r)) mod 2 ^ 64 \<and>
    live (snd (absorb s n r)) = filter (\<lambda>g. fst g \<noteq> s) (live r) \<and> blanked (snd (absorb s n r))"
  using assms
proof (induction s n r rule: absorb.induct)
  case (2 s n s' n' k rest)
  show ?case
  proof (cases "s' \<noteq> [] \<and> s' = s")
    case True
    have "(n + n') mod 2 ^ 64 < 2 ^ 64" by simp
    from 2(1)[OF True _ 2(4) this] 2(3,4) True show ?thesis
      by (simp add: split_beta mod_add_left_eq add.assoc)
  next
    case False
    from 2(2)[OF False _ 2(4,5)] 2(3,4) False show ?thesis
      by (auto simp: split_beta)
  qed
qed simp

lemma collect_live:
  assumes "blanked l"
  shows "live (collect l) = merged (live l)"
  using assms
proof (induction l rule: collect.induct)
  case (2 s n k rest)
  show ?case
  proof (cases "s = []")
    case False
    have a: "fst (absorb s n rest) = (n + total s (live rest)) mod 2 ^ 64"
      "live (snd (absorb s n rest)) = filter (\<lambda>g. fst g \<noteq> s) (live rest)" "blanked (snd (absorb s n rest))"
      using absorb_live[of rest s n] 2(3) False by auto
    show ?thesis using 2(2)[OF False a(3)] 2(3) False a(1,2) by simp
  qed (use 2 in simp)
qed simp

lemma keep_live: "keep_unkilled (map (\<lambda>(s, n, k). (s, n)) r) (map (\<lambda>(s, n, k). k) r) = live r"
  by (induction r) (auto simp: keep_unkilled_def)

lemma collectFragments_merged:
  assumes "\<forall>f \<in> set frs. fst f \<noteq> [] \<and> snd f < 2 ^ 64"
  shows "collectFragments frs = merged frs"
proof -
  have "live (map (\<lambda>(s, n). (s, n, False)) frs) = frs" by (induction frs) auto
  moreover have "blanked (map (\<lambda>(s, n). (s, n, False)) frs)" using assms by (auto simp: blanked_def)
  ultimately show ?thesis
    using collect_live[of "map (\<lambda>(s, n). (s, n, False)) frs"]
    by (simp add: collectFragments_def Let_def vectorMultiErase_eq keep_live)
qed

lemma merged_names:
  "distinct (map fst (merged frs)) \<and> set (map fst (merged frs)) = set (map fst frs)"
  by (induction frs rule: merged.induct) auto

lemma merged_total: "total s (merged frs) = total s frs mod 2 ^ 64"
  by (induction frs rule: merged.induct) (auto simp: total_filter)

lemma meaning_fst [simp]: "fst (meaning f) = fst f" "fst (stored f) = fst f"
  by (simp_all add: meaning_def stored_def)

lemma stored_total: "total s (map meaning fs) < 2 ^ 64 \<Longrightarrow> total s (map stored fs) = total s (map meaning fs)"
proof (induction fs)
  case (Cons f fs)
  then show ?case by (cases "snd f") (auto simp: meaning_def stored_def split: if_splits)
qed simp

text \<open>
  Property C40. Reading a formula back. A name written as element symbols (a capital followed by ASCII
  characters that are neither capitals nor digits), each with its decimal count or without one,
  is decomposed; the result has every symbol once, and gives it the total of the counts it was
  written with, a missing count meaning one, whenever that total is below \<open>2 ^ 64\<close>.
\<close>

theorem decomposeIonNames_roundtrip:
  assumes "list_all (\<lambda>f. symbol_ok (fst f)) fs"
  shows "\<exists>r. decomposeIonNames (concat (map writeFragment fs)) = Some r \<and>
    distinct (map fst r) \<and> set (map fst r) = fst ` set fs \<and>
    (\<forall>s. total s (map meaning fs) < 2 ^ 64 \<longrightarrow> total s r = total s (map meaning fs))"
proof -
  have "\<forall>f \<in> set (map stored fs). fst f \<noteq> [] \<and> snd f < 2 ^ 64"
    using assms by (auto simp: list_all_iff symbol_ok_def stored_def split: option.splits)
  then show ?thesis
    using merged_names[of "map stored fs"] merged_total[of _ "map stored fs"] stored_total[of _ fs]
    by (simp add: decomposeIonNames_write[OF assms] collectFragments_merged image_image)
qed

lemma decomposeIonNames_roundtrip_witness:
  "\<exists>r. decomposeIonNames (concat (map writeFragment [(''Au'', None), (''H'', Some 2), (''Au'', Some 3)])) = Some r \<and>
    distinct (map fst r) \<and> set (map fst r) = fst ` set [(''Au'', None), (''H'', Some (2 :: nat)), (''Au'', Some 3)] \<and>
    total ''Au'' r = 4 \<and> total ''H'' r = 2"
proof -
  let ?fs = "[(''Au'', None), (''H'', Some 2), (''Au'', Some (3 :: nat))]"
  have "list_all (\<lambda>f. symbol_ok (fst f)) ?fs"
    by (simp add: symbol_ok_def isupperC_def isasciiC_def isdigitC_def chr_def)
  from decomposeIonNames_roundtrip[OF this] obtain r where
    r: "decomposeIonNames (concat (map writeFragment ?fs)) = Some r" "distinct (map fst r)" "set (map fst r) = fst ` set ?fs"
      "\<And>s. total s (map meaning ?fs) < 2 ^ 64 \<Longrightarrow> total s r = total s (map meaning ?fs)" by blast
  then show ?thesis using r(4)[of "''Au''"] r(4)[of "''H''"] by (simp add: meaning_def)
qed

end
