(* ===== verification/Samples.thy ===== *)
theory Samples
  imports FilterTreePaths IonNames
begin

text \<open>
  Concrete filters, trees and range files on which the properties of the tree and of the range file
  are applied, with their hypotheses evaluated.
\<close>

section \<open>A small analysis\<close>

text \<open>
  Four filters: a data source with two children, a downsampling and a range filter, and a clip below
  the downsampling, which has a cached stream. The virtual methods are those of the base class,
  with the masks of a filter that passes ions.
\<close>

definition sampleV :: "unit vtable" where
  "sampleV = \<lparr>v_typeString = (\<lambda>_. ''filter''), v_emit = (\<lambda>_. STREAM_TYPE_IONS), v_block = (\<lambda>_. STREAM_TYPE_IONS),
     v_use = (\<lambda>_. STREAM_TYPE_IONS), v_clonePriv = id, v_clearPriv = id, v_initFilter = initFilter_default,
     v_refresh = (\<lambda>p ss w. (w, ss, Some 0)), v_setProperty = (\<lambda>p k s w. (w, False, False)),
     v_numBytesForCache = (\<lambda>_ n. Some n), v_monitorNeedsRefresh = (\<lambda>_. False), v_canBeHazardous = (\<lambda>_. False),
     v_stateOverrides = (\<lambda>_. []), v_isPureDataSource = (\<lambda>_. False), v_isUsefulAsAppend = (\<lambda>_. False)\<rparr>"

definition sampleW :: "unit world" where
  "sampleW = \<lparr>filts = [1 \<mapsto> newFilter FILTER_TYPE_DATALOAD (), 2 \<mapsto> newFilter FILTER_TYPE_IONDOWNSAMPLE (),
       3 \<mapsto> newFilter FILTER_TYPE_RANGEFILE (),
       4 \<mapsto> (newFilter FILTER_TYPE_IONCLIP ())\<lparr>f_cacheOK := True, f_outputs := [7]\<rparr>,
       5 \<mapsto> newFilter FILTER_TYPE_PROFILE ()],
     strms = [7 \<mapsto> \<lparr>s_type = STREAM_TYPE_IONS, s_parent = 4, s_cached = 1, s_nbasic = 10\<rparr>,
              8 \<mapsto> \<lparr>s_type = STREAM_TYPE_PLOT, s_parent = 3, s_cached = 0, s_nbasic = 2\<rparr>],
     next_f = 6, next_s = 9, ub = False\<rparr>"

definition sampleF :: filterTree where
  "sampleF = newFilterTree\<lparr>ft := \<lparr>roots = [TNode 1 1 [TNode 2 2 [TNode 3 4 []], TNode 4 3 []]], next_addr = 5\<rparr>\<rparr>"

lemma sample_tree [simp]:
  "entries (ft sampleF) = [([], TNode 1 1 [TNode 2 2 [TNode 3 4 []], TNode 4 3 []]),
     ([1], TNode 2 2 [TNode 3 4 []]), ([2, 1], TNode 3 4 []), ([1], TNode 4 3 [])]"
  "datas (ft sampleF) = [1, 2, 4, 3]" "addrs (ft sampleF) = [1, 2, 3, 4]" "next_addr (ft sampleF) = 5"
  by (simp_all add: sampleF_def entries_def datas_def addrs_def)

lemma sample_wf: "wf_ptree (ft sampleF)"
  by (simp add: wf_ptree_def)

lemma sample_filts:
  "filts sampleW p \<noteq> None \<longleftrightarrow> p \<in> {1, 2, 3, 4, 5}"
  by (auto simp: sampleW_def)

lemma sample_ok: "ft_ok sampleW sampleF"
  by (auto simp: ft_ok_def sample_wf sample_filts simp del: not_None_eq)

lemma sample_outputs: "outputs_of sampleW p = (if p = 4 then [7] else [])"
  by (auto simp: outputs_of_def get_filt_def sampleW_def newFilter_def)

lemma sample_world: "world_ok sampleW"
proof -
  have "streamCached sampleW 7" by (simp add: streamCached_def sampleW_def)
  moreover have "haveCache sampleW 4" by (simp add: haveCache_def get_filt_def sampleW_def)
  ultimately have "caches_ok sampleW" by (auto simp: caches_ok_def sample_outputs)
  then show ?thesis by (simp add: world_ok_def) (simp add: sampleW_def)
qed

lemma sample_caches: "caches_ok sampleW"
  using sample_world by (simp add: world_ok_def)

lemma sample_init: "filter_init (v_initFilter sampleV)"
  by (simp add: sampleV_def base_init.filter_init_axioms)

lemmas sample_facts = sample_ok sample_world sample_caches sample_init sample_wf

section \<open>The properties of the tree on it\<close>

lemma initFilterTree_safe_witness:
  "frame sampleW (initFilterTree sampleV (ft sampleF) sampleW) \<and> caches_ok (initFilterTree sampleV (ft sampleF) sampleW)"
  by (rule initFilterTree_safe) (auto simp: sample_facts sample_filts simp del: not_None_eq)


lemma removeSubtree_exact_witness:
  "\<exists>F' w'. removeSubtree sampleV sampleF 2 sampleW = (F', w') \<and>
     outline (ft F') = filter (\<lambda>(d, p). p \<notin> set (branchOf (ft sampleF) 2)) (outline (ft sampleF)) \<and>
     haveCache w' 3 = haveCache sampleW 3 \<and> ub w' = ub sampleW"
proof -
  obtain F' w' where r: "removeSubtree sampleV sampleF 2 sampleW = (F', w')" by (metis surj_pair)
  have "3 \<notin> set (branchOf (ft sampleF) 2)"
    by (simp add: branchOf_def find_data_def scan_filters_def scan_subtree_def scan_from_def)
  then show ?thesis using removeSubtree_exact[OF sample_init sample_ok sample_caches _ r] r by simp
qed

lemma addFilter_placed_witness:
  "\<exists>F' w'. addFilter sampleV sampleF 5 3 sampleW = (F', w') \<and> parentOf (ft F') 5 = Some 3 \<and> ft_ok w' F'"
proof -
  obtain F' w' where r: "addFilter sampleV sampleF 5 3 sampleW = (F', w')" by (metis surj_pair)
  have "filts sampleW 5 \<noteq> None" by (simp add: sample_filts del: not_None_eq)
  then show ?thesis using addFilter_placed[OF sample_ok sample_init _ _ _ _ r] r by simp
qed

lemma copyFilter_clones_witness:
  "\<exists>F' w' q qs w1 pre post. copyFilter sampleV sampleF 2 3 sampleW = (F', w', True) \<and>
     length (q # qs) = length (branchOf (ft sampleF) 2) \<and> parentOf (ft F') q = Some 3 \<and>
     w' = initFilterTree sampleV (ft F') w1 \<and>
     map (filts w1) (q # qs) = map (map_option (clone_of sampleV) \<circ> filts sampleW) (branchOf (ft sampleF) 2) \<and>
     outline (ft sampleF) = pre @ branchOutline (ft sampleF) 3 @ post \<and>
     outline (ft F') = pre @ branchOutline (ft sampleF) 3 @
       map2 (\<lambda>(d, _) x. (d + Suc (depthOf (ft sampleF) 3) - depthOf (ft sampleF) 2, x)) (branchOutline (ft sampleF) 2) (q # qs) @ post \<and>
     caches_ok w'"
proof -
  obtain F' w' c where r: "copyFilter sampleV sampleF 2 3 sampleW = (F', w', c)" by (metis prod_cases3)
  have out: "3 \<notin> set (branchOf (ft sampleF) 2)"
    by (simp add: branchOf_def find_data_def scan_filters_def scan_subtree_def scan_from_def)
  have mem: "2 \<in> set (datas (ft sampleF))" "3 \<in> set (datas (ft sampleF))" by simp_all
  note cc = copyFilter_clones[OF sample_ok sample_world sample_init mem r]
  have c: c using cc out by blast
  then have cT: "copyFilter sampleV sampleF 2 3 sampleW = (F', w', True)" using r by simp
  from mp[OF conjunct2[OF conjunct2[OF cc]] c] obtain q qs w1 pre post where
    "length (q # qs) = length (branchOf (ft sampleF) 2)" "parentOf (ft F') q = Some 3"
    "w' = initFilterTree sampleV (ft F') w1"
    "map (filts w1) (q # qs) = map (map_option (clone_of sampleV) \<circ> filts sampleW) (branchOf (ft sampleF) 2)"
    "outline (ft sampleF) = pre @ branchOutline (ft sampleF) 3 @ post"
    "outline (ft F') = pre @ branchOutline (ft sampleF) 3 @
       map2 (\<lambda>(d, _) x. (d + Suc (depthOf (ft sampleF) 3) - depthOf (ft sampleF) 2, x)) (branchOutline (ft sampleF) 2) (q # qs) @ post"
    "caches_ok w'" by (elim conjE exE) (rule that; assumption)
  with cT show ?thesis by (intro exI conjI) assumption+
qed


lemma isChild_branch_witness:
  "isChild (ft sampleF) 1 3 \<longleftrightarrow> 4 \<in> set (branchOf (ft sampleF) 1) \<and> (4 :: nat) \<noteq> 1"
  by (rule isChild_branch[OF sample_ok]) (simp_all add: find_data_def)

lemma paths_injective_witness:
  "dom (serialiseToStringPaths sampleV sampleW sampleF) = set (datas (ft sampleF)) \<and>
    inj_on (serialiseToStringPaths sampleV sampleW sampleF) (set (datas (ft sampleF)))"
  by (rule paths_injective) simp

lemma paths_lookup_witness:
  "\<exists>s. serialiseToStringPaths sampleV sampleW sampleF 4 = Some s \<and> serialiseFromStringPaths sampleV sampleW sampleF s = Some 4"
  by (rule paths_lookup) simp_all

lemma propagationMaps_accumulated_witness:
  "fst (getAccumulatedPropagationMaps sampleV sampleW (ft sampleF)) 4 =
     Some (path_emit sampleV sampleW (path_of (ft sampleF) ([2, 1], TNode 3 4 []))) \<and>
   snd (getAccumulatedPropagationMaps sampleV sampleW (ft sampleF)) 4 =
     Some (if haveCache sampleW 4 then blockMask sampleV sampleW 4 else 0)"
  using propagationMaps_accumulated[OF sample_wf, of "([2, 1], TNode 3 4 [])" sampleV sampleW] by simp

lemma refreshStarts_cut_witness:
  "\<exists>!s. s \<in> set (getFilterRefreshStarts sampleV sampleW (ft sampleF)) \<and> s \<in> {3, 2, 1}"
  using refreshStarts_cut[OF sample_wf, of "[2, 1]" "TNode 3 4 []" sampleV sampleW] by simp

lemma refreshFilterTree_recursion_witness:
  "refreshFilterTree sampleV sampleF \<lparr>r_aborted = (\<lambda>_. False), r_availRAM = 100\<rparr> [] [] [] sampleW =
    (let w1 = initFilterTree sampleV (ft sampleF) (clearMonitored sampleV (ft sampleF) sampleW) in
     case rf_bases sampleV sampleF \<lparr>r_aborted = (\<lambda>_. False), r_availRAM = 100\<rparr> (leafFilters (ft sampleF))
        (getFilterRefreshStarts sampleV w1 (ft sampleF))
        \<lparr>r_world = w1, r_coll = new_collector, r_out = [], r_devices = [], r_console = []\<rparr> of
       (s1, Some code) \<Rightarrow> (s1, code)
     | (s1, None) \<Rightarrow> (let (w2, c2) = collectAll (r_world s1) (r_coll s1)
          in (s1\<lparr>r_world := w2, r_coll := c2, r_out := scrub {} (r_out s1)\<rparr>, 0)))"
  by (rule refreshFilterTree_recursion) (simp_all add: sample_wf, simp add: sampleF_def)

lemma scrub_unique_witness:
  "distinct (concat (map snd (scrub {} [(1, [7, 8]), (2, [7])]))) \<and>
   set (concat (map snd (scrub {} [(1, [7, 8]), (2, [7])]))) = set (concat (map snd [(1 :: nat, [7, 8]), (2, [7])])) - {} \<and>
   subseq (map fst (scrub {} [(1, [7, 8]), (2, [7])])) (map fst [(1 :: nat, [7 :: nat, 8]), (2, [7])])"
  using scrub_unique[of "{}" "[(1, [7, 8]), (2, [7])]"] by blast

lemma safeDelete_exact_witness:
  "\<exists>outs' w'. safeDeleteFilterList STREAM_TYPE_PLOT True [(4, [7]), (3, [8])] sampleW = (outs', w') \<and>
     outs' = filter (\<lambda>o1. snd o1 \<noteq> []) (map (\<lambda>(p, v). (p, filter (protected STREAM_TYPE_PLOT True sampleW) v)) [(4, [7]), (3, [8])]) \<and>
     ub w' = ub sampleW"
proof -
  obtain outs' w' where r: "safeDeleteFilterList STREAM_TYPE_PLOT True [(4, [7]), (3, [8])] sampleW = (outs', w')"
    by (metis surj_pair)
  have "strms sampleW 7 \<noteq> None" "strms sampleW 8 \<noteq> None" by (simp_all add: sampleW_def)
  then show ?thesis using safeDelete_exact[OF _ _ r] r by simp
qed

section \<open>A small range file\<close>

definition sampleR :: rangeFile where
  "sampleR = newRangeFile\<lparr>ionNames := [(''H'', ''Hydrogen''), (''Fe'', ''Iron'')], colours := [(1, 0, 0), (0, 1, 0)],
     ranges := [(1, 2), (28, 29), (56, 57)], ionIDs := [0, 1, 1]\<rparr>"

lemma sample_range [simp]:
  "ranges sampleR = [(1, 2), (28, 29), (56, 57)]" "ionIDs sampleR = [0, 1, 1]"
  "ionNames sampleR = [(''H'', ''Hydrogen''), (''Fe'', ''Iron'')]" "enforceConsistency sampleR"
  "colours sampleR = [(1, 0, 0), (0, 1, 0)]"
  by (simp_all add: sampleR_def newRangeFile_def)

lemma sampleR_ok: "rf_ok sampleR"
  by (simp add: rf_ok_def all_apart_def apart_def less_Suc_eq numeral_3_eq_3 numeral_2_eq_2)

lemma moveRange_exact_witness:
  "moveRange sampleR 1 True 30 = Some (sampleR\<lparr>ranges := (ranges sampleR)[1 := (28, 30)]\<rparr>, True)"
proof -
  obtain r' moved where m: "moveRange sampleR 1 True 30 = Some (r', moved)"
    "moved \<longleftrightarrow> (\<forall>j < length (ranges sampleR). j \<noteq> 1 \<longrightarrow> apart (28, 30) (ranges sampleR ! j))"
    "moved \<longrightarrow> r' = sampleR\<lparr>ranges := (ranges sampleR)[1 := (28, 30)]\<rparr>"
    using moveRange_exact[OF sampleR_ok, of 1 "(28, 30)" True 30] by (simp del: One_nat_def) blast
  have "moved" unfolding m(2) by (auto simp: apart_def less_Suc_eq)
  then show ?thesis using m by simp
qed

lemma moveBothRanges_exact_witness:
  "\<exists>r'. moveBothRanges sampleR 1 (55 / 2) (57 / 2) = Some (r', True) \<and> rf_ok r'"
proof -
  obtain r' moved where m: "moveBothRanges sampleR 1 (55 / 2) (57 / 2) = Some (r', moved)"
    "moved \<longleftrightarrow> (\<forall>j < length (ranges sampleR). j \<noteq> 1 \<longrightarrow> apart (55 / 2, 57 / 2) (ranges sampleR ! j))" "moved \<longrightarrow> rf_ok r'"
    using moveBothRanges_exact[OF sampleR_ok, of 1 "55 / 2" "57 / 2"] by (simp del: One_nat_def) blast
  have "moved" unfolding m(2) by (auto simp: apart_def less_Suc_eq)
  then show ?thesis using m by simp
qed

lemma addRange_ok_witness:
  "\<exists>r' res. addRange sampleR 14 15 0 = (r', res) \<and> rf_ok r'"
proof -
  obtain r' res where r: "addRange sampleR 14 15 0 = (r', res)" by (metis surj_pair)
  show ?thesis using addRange_ok[OF sampleR_ok _ _ _ _ r] r by simp
qed

lemma eraseRange_exact_witness:
  "\<exists>r'. eraseRange sampleR 0 = Some r' \<and> rf_ok r' \<and>
    mset (zip (ranges r') (ionIDs r')) + {#(ranges sampleR ! 0, ionIDs sampleR ! 0)#} = mset (zip (ranges sampleR) (ionIDs sampleR))"
  by (rule eraseRange_exact[OF sampleR_ok]) simp

lemma eraseIon_exact_witness:
  "\<exists>r'. eraseIon sampleR 0 = Some r' \<and> rf_ok r' \<and>
    ionNames r' = take 0 (ionNames sampleR) @ drop (Suc 0) (ionNames sampleR) \<and>
    assigned r' = map (\<lambda>(rg, k). (rg, ionNames sampleR ! k, colours sampleR ! k))
      (filter (\<lambda>(rg, k). k \<noteq> 0) (zip (ranges sampleR) (ionIDs sampleR)))"
  by (rule eraseIon_exact[OF sampleR_ok]) simp

lemma getIonID_correct_witness:
  "getIonID sampleR (57 / 2) = Some 1 \<and> getRangeID sampleR (57 / 2) = Some 1"
proof -
  have "1 < length (ranges sampleR) \<and> fst (ranges sampleR ! 1) < 57 / 2 \<and> 57 / 2 < snd (ranges sampleR ! 1)" by simp
  then have "getIonID sampleR (57 / 2) = Some (ionIDs sampleR ! 1) \<and> getRangeID sampleR (57 / 2) = Some 1"
    using getIonID_correct[OF sampleR_ok, of "57 / 2"] by blast
  then show ?thesis by simp
qed

lemma rangeIons_selects_witness:
  "rangeIons sampleR [\<lparr>ih_pos = Tri 0 0 0, ih_mass = 28\<rparr>, \<lparr>ih_pos = Tri 0 0 1, ih_mass = 30\<rparr>] =
    filter (\<lambda>i. getIonID sampleR (ih_mass i) \<noteq> None)
      [\<lparr>ih_pos = Tri 0 0 0, ih_mass = 28\<rparr>, \<lparr>ih_pos = Tri 0 0 1, ih_mass = 30\<rparr>]"
  by (rule rangeIons_selects[OF sampleR_ok])

lemma isSelfConsistent_iff_witness: "isSelfConsistent sampleR"
proof -
  have "all_apart (ranges sampleR)" using sampleR_ok by (simp add: rf_ok_def)
  moreover have "isSelfConsistent sampleR \<longleftrightarrow> all_apart (ranges sampleR) \<and>
    distinct (map fst (ionNames sampleR)) \<and> distinct (map snd (ionNames sampleR)) \<and>
    (\<forall>n \<in> set (ionNames sampleR). set (fst n) \<inter> set DISALLOWED_ION_NAMES = {} \<and> set (snd n) \<inter> set DISALLOWED_ION_NAMES = {})"
    by (rule isSelfConsistent_iff) auto
  ultimately show ?thesis by (simp add: DISALLOWED_ION_NAMES_def)
qed

end
