(* ===== verification/StringFuncs.thy ===== *)
theory StringFuncs
  imports FreshNames
begin

text \<open>
  The text encodings of src/src/common/stringFuncs.cpp and src/src/common/basics.cpp: white space,
  booleans, hexadecimal bytes, splitting at delimiters, choice strings, file names, version
  strings. \<^verbatim>\<open>stream_cast\<close> to an integer is the extraction of the standard library: leading white
  space, a sign, and the longest run of digits.
\<close>

unbundle bit_operations_syntax

section \<open>Characters and searching\<close>

definition ord :: "char \<Rightarrow> nat" where "ord c = of_char c"
definition isDigit :: "char \<Rightarrow> bool" where "isDigit c \<longleftrightarrow> 48 \<le> ord c \<and> ord c \<le> 57"
definition isXDigit :: "char \<Rightarrow> bool" where
  "isXDigit c \<longleftrightarrow> isDigit c \<or> (97 \<le> ord c \<and> ord c \<le> 102) \<or> (65 \<le> ord c \<and> ord c \<le> 70)"
definition NUL :: char where "NUL = CHR 0x00"

text \<open>\<^verbatim>\<open>s[i]\<close>: the character at the end of the string is NUL.\<close>

definition char_at :: "string \<Rightarrow> nat \<Rightarrow> char" where
  "char_at s i = (if i < length s then s ! i else NUL)"

definition c_str :: "string \<Rightarrow> string" where "c_str s = takeWhile (\<lambda>c. c \<noteq> NUL) s"

fun find_char :: "char \<Rightarrow> string \<Rightarrow> nat option" where
  "find_char x [] = None"
| "find_char x (c # cs) = (if c = x then Some 0 else map_option Suc (find_char x cs))"

definition find_last_char :: "char \<Rightarrow> string \<Rightarrow> nat option" where
  "find_last_char x s = map_option (\<lambda>i. length s - 1 - i) (find_char x (rev s))"

definition sub_str :: "string \<Rightarrow> nat \<Rightarrow> nat \<Rightarrow> string" where
  "sub_str s pos n = take n (drop pos s)"

text \<open>\<^verbatim>\<open>strhas\<close>: does the first C string contain a character of the second.\<close>

definition strhas :: "string \<Rightarrow> string \<Rightarrow> bool" where
  "strhas test possible = list_ex (\<lambda>c. list_ex (\<lambda>d. d = c) (c_str possible)) (c_str test)"

section \<open>White space and case\<close>

definition stripChars :: "string \<Rightarrow> string \<Rightarrow> string" where
  "stripChars str chars =
     (let front = dropWhile (\<lambda>c. c \<in> set chars) str
      in rev (dropWhile (\<lambda>c. c \<in> set chars) (rev front)))"

definition WHITE :: string where "WHITE = [CHR 0x0C, CHR 0x0A, CHR 0x0D, CHR 0x09, CHR 0x20]"

definition stripWhite :: "string \<Rightarrow> string" where "stripWhite str = stripChars str WHITE"

definition stripZeroEntries :: "string list \<Rightarrow> string list" where
  "stripZeroEntries sVec = filter (\<lambda>s. s \<noteq> []) sVec"

definition lowercase :: "string \<Rightarrow> string" where
  "lowercase s = map (\<lambda>c. if 65 \<le> ord c \<and> ord c \<le> 90 then char_of (ord c + 32) else c) s"

definition uppercase :: "string \<Rightarrow> string" where
  "uppercase s = map (\<lambda>c. if 97 \<le> ord c \<and> ord c \<le> 122 then char_of (ord c - 32) else c) s"

text \<open>\<^verbatim>\<open>nullifyMarker\<close> overwrites the first marker of a C string with the terminator.\<close>

fun nullifyMarker :: "string \<Rightarrow> char \<Rightarrow> string" where
  "nullifyMarker [] marker = []"
| "nullifyMarker (c # cs) marker =
     (if c = NUL then c # cs else if c = marker then NUL # cs else c # nullifyMarker cs marker)"

section \<open>Numbers\<close>

definition isSpace :: "char \<Rightarrow> bool" where "isSpace c \<longleftrightarrow> c \<in> set (CHR 0x0B # WHITE)"

definition scanInt :: "string \<Rightarrow> (bool \<times> nat) option" where
  "scanInt s =
     (let t = dropWhile isSpace s;
          neg = (t \<noteq> [] \<and> hd t = CHR ''-'');
          u = (if t \<noteq> [] \<and> (hd t = CHR ''-'' \<or> hd t = CHR ''+'') then tl t else t);
          ds = takeWhile isDigit u
      in if ds = [] then None else Some (neg, readNat ds))"

definition castInt :: "string \<Rightarrow> int option" where
  "castInt s = (case scanInt s of None \<Rightarrow> None
     | Some (neg, n) \<Rightarrow>
         let i = (if neg then - int n else int n)
         in if - (2 ^ 31) \<le> i \<and> i < 2 ^ 31 then Some i else None)"

definition castUInt :: "string \<Rightarrow> 32 word option" where
  "castUInt s = (case scanInt s of None \<Rightarrow> None
     | Some (neg, n) \<Rightarrow> if n < 2 ^ 32 then Some (if neg then - of_nat n else of_nat n) else None)"

definition boolStrEnc :: "bool \<Rightarrow> string" where "boolStrEnc b = (if b then ''1'' else ''0'')"

definition boolStrDec :: "string \<Rightarrow> bool option" where
  "boolStrDec s = (let tmp = stripWhite s
     in if tmp = ''0'' then Some False else if tmp = ''1'' then Some True else None)"

text \<open>
  \<^verbatim>\<open>substr(0, s.size() - thisStr.size())\<close> is unsigned: when the digit is longer than the maximum, all
  the zeros stay.
\<close>

definition digitString :: "32 word \<Rightarrow> 32 word \<Rightarrow> string" where
  "digitString thisDigit maxDigit =
     (let thisStr = showNat (unat thisDigit);
          zeros = map (\<lambda>c. CHR ''0'') (showNat (unat maxDigit))
      in (if length thisStr \<le> length zeros then take (length zeros - length thisStr) zeros else zeros) @ thisStr)"

section \<open>Hexadecimal bytes\<close>

definition hexDigit :: "8 word \<Rightarrow> char" where
  "hexDigit h = char_of (unat (if h < 10 then h + 48 else h - 10 + 97))"

definition ucharToHexStr :: "8 word \<Rightarrow> string" where
  "ucharToHexStr c = [hexDigit (c div 16), hexDigit (c mod 16)]"

text \<open>A character that is neither a digit nor in a-f still yields a number, as in a release build.\<close>

definition hexVal :: "char \<Rightarrow> int" where
  "hexVal c = (let i = (if ord c < 128 then int (ord c) else int (ord c) - 256)
     in if i \<le> 57 \<and> 48 \<le> i then i - 48 else i - 97 + 10)"

definition hexStrToUChar :: "string \<Rightarrow> 8 word" where
  "hexStrToUChar s = word_of_int (16 * hexVal (char_at s 0) + hexVal (char_at s 1))"

section \<open>Splitting\<close>

fun split_loop :: "(char \<Rightarrow> bool) \<Rightarrow> string \<Rightarrow> string \<Rightarrow> string list" where
  "split_loop isDelim str [] = (if str = [] then [] else [str])"
| "split_loop isDelim str (c # cs) =
     (if isDelim c then str # split_loop isDelim [] cs else split_loop isDelim (str @ [c]) cs)"

definition splitStrsRef :: "string \<Rightarrow> char \<Rightarrow> string list" where
  "splitStrsRef cpStr delim = split_loop (\<lambda>c. c = delim) [] (c_str cpStr)"

definition splitStrsRef_any :: "string \<Rightarrow> string \<Rightarrow> string list" where
  "splitStrsRef_any cpStr delim = split_loop (\<lambda>c. list_ex (\<lambda>d. c = d) (c_str delim)) [] (c_str cpStr)"

section \<open>Choice strings\<close>

fun choice_items :: "(32 word \<times> string) list \<Rightarrow> string" where
  "choice_items [] = []"
| "choice_items [(k, s)] = showNat (unat k) @ ''|'' @ s"
| "choice_items ((k, s) # cs) = showNat (unat k) @ ''|'' @ s @ '','' @ choice_items cs"

definition choiceString :: "(32 word \<times> string) list \<Rightarrow> 32 word \<Rightarrow> string" where
  "choiceString comboString curChoice = showNat (unat curChoice) @ '':'' @ choice_items comboString"

text \<open>
  The text behind the bar; the length argument of \<^verbatim>\<open>substr\<close> is one less than the size, so that a text
  without a bar loses its last character.
\<close>

definition afterBar :: "string \<Rightarrow> string" where
  "afterBar s = (case find_char (CHR ''|'') s of Some i \<Rightarrow> drop (i + 1) s
     | None \<Rightarrow> if s = [] then [] else take (length s - 1) s)"

text \<open>None is a choice string without a colon, where \<^verbatim>\<open>substr\<close> throws.\<close>

definition choiceStringToVector :: "string \<Rightarrow> (string list \<times> 32 word option) option" where
  "choiceStringToVector choiceStr = (case find_char (CHR '':'') choiceStr of None \<Rightarrow> None
     | Some colonPos \<Rightarrow>
         Some (map afterBar (splitStrsRef (drop colonPos choiceStr) (CHR '','')),
               castUInt (take colonPos choiceStr)))"

text \<open>None: no colon, no number before it, or the number is not the index of a choice.\<close>

definition getActiveChoice :: "string \<Rightarrow> string option" where
  "getActiveChoice choiceStr = (case find_char (CHR '':'') choiceStr of None \<Rightarrow> None
     | Some colonPos \<Rightarrow>
         (case castUInt (take colonPos choiceStr) of None \<Rightarrow> None
          | Some activeChoice \<Rightarrow>
              (let choices = splitStrsRef (drop colonPos choiceStr) (CHR '','')
               in if unat activeChoice < length choices then Some (afterBar (choices ! unat activeChoice)) else None)))"

definition isMaybeChoiceString :: "string \<Rightarrow> bool" where
  "isMaybeChoiceString s =
     (if length s < 3 then False
      else if \<not> isDigit (s ! 0) then False
      else if s ! 1 = CHR ''|'' then False
      else case find_char (CHR '':'') s of None \<Rightarrow> False
         | Some colonPos \<Rightarrow> \<not> (colonPos = length s \<or> colonPos < 1))"

section \<open>File names\<close>

definition onlyFilename :: "string \<Rightarrow> string" where
  "onlyFilename path = (case find_last_char (CHR ''/'') path of None \<Rightarrow> path | Some i \<Rightarrow> drop (i + 1) path)"

definition onlyDir :: "string \<Rightarrow> string" where
  "onlyDir path = (case find_last_char (CHR ''/'') path of None \<Rightarrow> [] | Some i \<Rightarrow> take (i + 1) path)"

definition splitFileData :: "string \<Rightarrow> string \<times> string \<times> string" where
  "splitFileData fileWithPath =
     (if fileWithPath = [] then ([], [], [])
      else let basename = onlyFilename fileWithPath; path = onlyDir fileWithPath
           in case find_last_char (CHR ''.'') basename of None \<Rightarrow> (path, basename, [])
              | Some extPosition \<Rightarrow>
                  (path, sub_str basename 0 extPosition,
                   sub_str basename (extPosition + 1) (length basename - (extPosition + 1))))"

section \<open>Version strings\<close>

definition isVersionNumberString :: "string \<Rightarrow> bool" where
  "isVersionNumberString s = list_all (\<lambda>(ui, c). isDigit c \<or> \<not> (c \<noteq> CHR ''.'' \<or> ui = 0 \<or> ui = length s))
     (zip [0..<length s] s)"

definition version_of :: "string \<Rightarrow> 32 word list" where
  "version_of s = map (\<lambda>i. word_of_int i) (map the (filter (\<lambda>i. i \<noteq> None) (map castInt (splitStrsRef_any s ''.-''))))"

text \<open>
  One round of the elimination: from the back of the list, every entry without a number at \<open>pos\<close>
  or with a smaller one is replaced by the last entry, which is dropped.
\<close>

definition max_at :: "nat \<Rightarrow> (nat \<times> 32 word list) list \<Rightarrow> 32 word" where
  "max_at pos verNum = fold (\<lambda>v m. if pos < length (snd v) then max m (snd v ! pos) else m) verNum 0"

fun kill_loop :: "((nat \<times> 32 word list) \<Rightarrow> bool) \<Rightarrow> nat \<Rightarrow> (nat \<times> 32 word list) list \<Rightarrow> (nat \<times> 32 word list) list" where
  "kill_loop loses 0 verNum = verNum"
| "kill_loop loses (Suc ui) verNum =
     (if loses (verNum ! ui) then kill_loop loses ui (butlast (verNum[ui := last verNum]))
      else kill_loop loses ui verNum)"

fun ver_loop :: "nat \<Rightarrow> nat \<Rightarrow> (nat \<times> 32 word list) list \<Rightarrow> (nat \<times> 32 word list) list" where
  "ver_loop 0 pos verNum = verNum"
| "ver_loop (Suc left) pos verNum =
     (if length verNum \<le> 1 then verNum
      else ver_loop left (Suc pos)
             (kill_loop (\<lambda>v. length (snd v) \<le> pos \<or> snd v ! pos < max_at pos verNum) (length verNum) verNum))"

text \<open>None: the elimination left no entry, and \<^verbatim>\<open>verNum[0]\<close> is read out of range.\<close>

definition getMaxVerStr :: "string list \<Rightarrow> string option" where
  "getMaxVerStr verStrings =
     (let verNum = filter (\<lambda>v. snd v \<noteq> []) (zip [0..<length verStrings] (map version_of verStrings));
          maxVerLen = fold (\<lambda>v m. max m (length (snd v))) verNum 0
      in if verNum = [] then Some []
         else case ver_loop maxVerLen 0 verNum of [] \<Rightarrow> None
              | (k, _) # _ \<Rightarrow> Some (verStrings ! k))"

section \<open>Colours\<close>

record colourRGBA =
  c_r :: "8 word"
  c_g :: "8 word"
  c_b :: "8 word"
  c_a :: "8 word"

definition rgbaString :: "colourRGBA \<Rightarrow> string" where
  "rgbaString c = ''#'' @ ucharToHexStr (c_r c) @ ucharToHexStr (c_g c) @ ucharToHexStr (c_b c) @ ucharToHexStr (c_a c)"

definition rgbString :: "colourRGBA \<Rightarrow> string" where
  "rgbString c = ''#'' @ ucharToHexStr (c_r c) @ ucharToHexStr (c_g c) @ ucharToHexStr (c_b c)"

definition parseColour :: "string \<Rightarrow> colourRGBA option" where
  "parseColour str =
     (if length str \<noteq> 9 \<and> length str \<noteq> 7 then None
      else if str ! 0 \<noteq> CHR ''#'' then None
      else let rS = sub_str str 1 2; gS = sub_str str 3 2; bS = sub_str str 5 2
           in if \<not> isXDigit (rS ! 0) \<or> \<not> isXDigit (rS ! 1) then None
              else if \<not> isXDigit (gS ! 0) \<or> \<not> isXDigit (gS ! 1) then None
              else if \<not> isXDigit (bS ! 0) \<or> \<not> isXDigit (bS ! 1) then None
              else let r = hexStrToUChar rS; g = hexStrToUChar gS; b = hexStrToUChar bS
                   in if length str = 7 then Some \<lparr>c_r = r, c_g = g, c_b = b, c_a = 255\<rparr>
                      else let aS = sub_str str 7 2
                           in if \<not> isXDigit (aS ! 0) \<or> \<not> isXDigit (aS ! 1) then None
                              else Some \<lparr>c_r = r, c_g = g, c_b = b, c_a = hexStrToUChar aS\<rparr>)"

section \<open>Codecs\<close>

text \<open>
  The contract of an encoding: what is written is read back. A codec of fixed width can be read out
  of a longer text.
\<close>

locale codec =
  fixes enc :: "'a \<Rightarrow> string" and dec :: "string \<Rightarrow> 'a option" and codable :: "'a \<Rightarrow> bool"
  assumes dec_enc: "codable x \<Longrightarrow> dec (enc x) = Some x"
begin

lemma enc_inj: "codable x \<Longrightarrow> codable y \<Longrightarrow> enc x = enc y \<longleftrightarrow> x = y"
  using dec_enc by (metis option.inject)

end

locale fixed_codec = codec +
  fixes width :: nat
  assumes enc_width: "codable x \<Longrightarrow> length (enc x) = width"
begin

lemma fields_length: "\<forall>x \<in> set xs. codable x \<Longrightarrow> length (concat (map enc xs)) = length xs * width"
  by (induction xs) (auto simp: enc_width)

lemma field_at:
  assumes "\<forall>x \<in> set xs. codable x" "i < length xs"
  shows "dec (sub_str (pre @ concat (map enc xs)) (length pre + i * width) width) = Some (xs ! i)"
proof -
  have xs: "xs = take i xs @ xs ! i # drop (Suc i) xs" using assms(2) by (simp add: id_take_nth_drop)
  then have "concat (map enc xs) = concat (map enc (take i xs)) @ enc (xs ! i) @ concat (map enc (drop (Suc i) xs))"
    by (metis concat.simps(2) concat_append list.simps(9) map_append)
  moreover have "length (concat (map enc (take i xs))) = i * width"
    using fields_length[of "take i xs"] assms by (auto dest: in_set_takeD)
  moreover have "length (enc (xs ! i)) = width" "dec (enc (xs ! i)) = Some (xs ! i)"
    using assms enc_width dec_enc by auto
  ultimately show ?thesis by (simp add: sub_str_def)
qed

end

lemma nibble_cases:
  fixes h :: "8 word"
  assumes "h < 16"
  shows "h = 0 \<or> h = 1 \<or> h = 2 \<or> h = 3 \<or> h = 4 \<or> h = 5 \<or> h = 6 \<or> h = 7 \<or> h = 8 \<or> h = 9 \<or>
    h = 10 \<or> h = 11 \<or> h = 12 \<or> h = 13 \<or> h = 14 \<or> h = 15"
proof -
  have small: "n = 0 \<or> n = 1 \<or> n = 2 \<or> n = 3 \<or> n = 4 \<or> n = 5 \<or> n = 6 \<or> n = 7 \<or> n = 8 \<or> n = 9 \<or>
    n = 10 \<or> n = 11 \<or> n = 12 \<or> n = 13 \<or> n = 14 \<or> n = 15" if "n < 16" for n :: nat
    using that by arith
  have "h = of_nat (unat h)" "unat h < 16" using assms by (simp_all add: word_less_nat_alt)
  then obtain n :: nat where n: "h = of_nat n" "n < 16" by blast
  show ?thesis using small[OF n(2)] unfolding n(1) by (elim disjE) simp_all
qed

lemma nibble_code:
  "h < 16 \<Longrightarrow> hexVal (hexDigit h) = uint h \<and> isXDigit (hexDigit h)"
  by (drule nibble_cases, elim disjE)
     (simp_all add: hexVal_def hexDigit_def isXDigit_def isDigit_def ord_def)

lemma byte_nibbles: fixes c :: "8 word" shows "c div 16 < 16" "c mod 16 < 16"
  by (simp_all add: word_less_nat_alt unat_div unat_mod) (use unsigned_less[of c, where ?'a = nat] in simp)

lemma hex_byte: "hexStrToUChar (ucharToHexStr c) = c"
proof -
  have "16 * uint (c div 16) + uint (c mod 16) = uint c"
    by (simp add: uint_div uint_mod)
  then show ?thesis
    using nibble_code[OF byte_nibbles(1)[of c]] nibble_code[OF byte_nibbles(2)[of c]]
    by (simp add: hexStrToUChar_def ucharToHexStr_def char_at_def)
qed

lemma hex_xdigits: "c \<in> set (ucharToHexStr b) \<Longrightarrow> isXDigit c"
  using nibble_code[OF byte_nibbles(1)[of b]] nibble_code[OF byte_nibbles(2)[of b]]
  by (auto simp: ucharToHexStr_def)

interpretation hex: fixed_codec ucharToHexStr "\<lambda>s. Some (hexStrToUChar s)" "\<lambda>_. True" 2
  by unfold_locales (simp_all add: hex_byte, simp add: ucharToHexStr_def)

interpretation bool_code: codec boolStrEnc boolStrDec "\<lambda>_. True"
  by unfold_locales (auto simp: boolStrEnc_def boolStrDec_def stripWhite_def stripChars_def WHITE_def)

lemma colour_fields:
  assumes "str = ''#'' @ concat (map ucharToHexStr bs)" "i < length bs"
  shows "hexStrToUChar (sub_str str (1 + i * 2) 2) = bs ! i"
    "isXDigit (sub_str str (1 + i * 2) 2 ! 0)" "isXDigit (sub_str str (1 + i * 2) 2 ! 1)"
proof -
  have f: "sub_str str (1 + i * 2) 2 = ucharToHexStr (bs ! i)"
  proof -
    have bs: "bs = take i bs @ bs ! i # drop (Suc i) bs" using assms(2) by (simp add: id_take_nth_drop)
    then have "concat (map ucharToHexStr bs) =
        concat (map ucharToHexStr (take i bs)) @ ucharToHexStr (bs ! i) @ concat (map ucharToHexStr (drop (Suc i) bs))"
      by (metis concat.simps(2) concat_append list.simps(9) map_append)
    then show ?thesis
      using hex.fields_length[of "take i bs"] hex.enc_width[of "bs ! i"] assms by (simp add: sub_str_def)
  qed
  show "hexStrToUChar (sub_str str (1 + i * 2) 2) = bs ! i" unfolding f by (rule hex_byte)
  show "isXDigit (sub_str str (1 + i * 2) 2 ! 0)" "isXDigit (sub_str str (1 + i * 2) 2 ! 1)"
    unfolding f by (rule hex_xdigits[of _ "bs ! i"]; simp add: ucharToHexStr_def)+
qed

lemma parse_bytes:
  assumes "length bs = 3 \<or> length bs = 4"
  shows "parseColour (''#'' @ concat (map ucharToHexStr bs)) =
    Some \<lparr>c_r = bs ! 0, c_g = bs ! 1, c_b = bs ! 2, c_a = if length bs = 3 then 255 else bs ! 3\<rparr>"
proof -
  let ?s = "''#'' @ concat (map ucharToHexStr bs)"
  have len: "length ?s = 1 + 2 * length bs" using hex.fields_length[of bs] by simp
  have pos: "0 < length bs" "1 < length bs" "2 < length bs" using assms by auto
  note f = colour_fields[OF refl, of _ bs]
  have f0: "hexStrToUChar (sub_str ?s 1 2) = bs ! 0" "isXDigit (sub_str ?s 1 2 ! 0)" "isXDigit (sub_str ?s 1 2 ! 1)"
    using f[OF pos(1)] by simp_all
  have f1: "hexStrToUChar (sub_str ?s 3 2) = bs ! 1" "isXDigit (sub_str ?s 3 2 ! 0)" "isXDigit (sub_str ?s 3 2 ! 1)"
    using f[OF pos(2)] by (simp_all add: eval_nat_numeral)
  have f2: "hexStrToUChar (sub_str ?s 5 2) = bs ! 2" "isXDigit (sub_str ?s 5 2 ! 0)" "isXDigit (sub_str ?s 5 2 ! 1)"
    using f[OF pos(3)] by (simp_all add: eval_nat_numeral)
  have hd: "?s ! 0 = CHR ''#''" by simp
  show ?thesis
  proof (cases "length bs = 3")
    case True
    then have "length ?s = 7" using len by simp
    then show ?thesis using True f0 f1 f2 hd unfolding parseColour_def Let_def by (simp only: if_False if_True) simp
  next
    case False
    then have l: "length bs = 4" using assms by simp
    then have "length ?s = 9" using len by simp
    moreover have "hexStrToUChar (sub_str ?s 7 2) = bs ! 3" "isXDigit (sub_str ?s 7 2 ! 0)" "isXDigit (sub_str ?s 7 2 ! 1)"
      using f[of 3] l by (simp_all add: eval_nat_numeral)
    ultimately show ?thesis using l f0 f1 f2 hd unfolding parseColour_def Let_def by (simp only: if_False if_True) simp
  qed
qed

interpretation colour: codec rgbaString parseColour "\<lambda>_. True"
proof
  fix c :: colourRGBA
  show "parseColour (rgbaString c) = Some c"
    using parse_bytes[of "[c_r c, c_g c, c_b c, c_a c]"] by (simp add: rgbaString_def)
qed

interpretation colour3: codec rgbString parseColour "\<lambda>c. c_a c = 255"
proof
  fix c :: colourRGBA
  assume "c_a c = 255"
  then show "parseColour (rgbString c) = Some c"
    using parse_bytes[of "[c_r c, c_g c, c_b c]"] by (simp add: rgbString_def)
qed

text \<open>
  A colour that is written as a hexadecimal string, with or without its alpha byte, is
  parsed back, the missing alpha byte as 255; two colours with the same string are equal.
\<close>

theorem colour_roundtrip:
  "parseColour (rgbaString c) = Some c \<and> parseColour (rgbString c) = Some (c\<lparr>c_a := 255\<rparr>) \<and>
   (rgbaString c = rgbaString d) = (c = d)"
proof -
  have "rgbString (c\<lparr>c_a := 255\<rparr>) = rgbString c" by (simp add: rgbString_def)
  then show ?thesis using colour.dec_enc[of c] colour3.dec_enc[of "c\<lparr>c_a := 255\<rparr>"] colour.enc_inj[of c d] by simp
qed

text \<open>
  Upper case digits pass the validation of the colour parser but are decoded with the
  offset of the lower case letters: every channel written with a digit from A to F gets a wrong
  value, pure red becomes 223.
\<close>

theorem colour_upper_case:
  "parseColour ''#FF0000'' = Some \<lparr>c_r = 223, c_g = 0, c_b = 0, c_a = 255\<rparr> \<and>
   parseColour (lowercase ''#FF0000'') = Some \<lparr>c_r = 255, c_g = 0, c_b = 0, c_a = 255\<rparr>"
  by (simp add: parseColour_def lowercase_def sub_str_def isXDigit_def isDigit_def ord_def
    hexStrToUChar_def hexVal_def char_at_def)

section \<open>Numbers and choices\<close>

lemma digits_isDigit: "c \<in> set (showNat n) \<Longrightarrow> isDigit c"
  using showNat_digits[of c n] by (auto simp: isDigit_def ord_def)

lemma not_digit: "\<not> isDigit NUL" "\<not> isDigit CHR '':''" "\<not> isDigit CHR '',''" "\<not> isDigit CHR ''|''"
  "isDigit c \<Longrightarrow> \<not> isSpace c" "isDigit c \<Longrightarrow> c \<noteq> CHR ''-''" "isDigit c \<Longrightarrow> c \<noteq> CHR ''+''"
  by (auto simp: isDigit_def ord_def NUL_def isSpace_def WHITE_def)

lemma showNat_not [simp]: "c \<in> {NUL, CHR '':'', CHR '','', CHR ''|''} \<Longrightarrow> c \<notin> set (showNat n)"
  using digits_isDigit[of c n] not_digit by auto

lemma NUL_eq: "NUL \<noteq> CHR ''|''" "NUL \<noteq> CHR '',''" "NUL \<noteq> CHR '':''"
  by (simp_all add: NUL_def)

lemma scanInt_show: "scanInt (showNat n) = Some (False, n)"
proof -
  obtain d ds where sd: "showNat n = d # ds" by (cases "showNat n") auto
  have "isDigit d" "\<forall>c \<in> set (showNat n). isDigit c" using digits_isDigit[of _ n] sd by auto
  moreover have "takeWhile isDigit ds = ds" using calculation(2) sd by (simp add: takeWhile_eq_all_conv)
  moreover have "readNat (d # ds) = n" using read_show[of n] sd by simp
  moreover from calculation(1) have "dropWhile isSpace (showNat n) = showNat n"
    using sd not_digit by simp
  ultimately show ?thesis using sd not_digit(6,7)[of d] by (auto simp: scanInt_def Let_def simp del: takeWhile_eq_all_conv)
qed

lemma castUInt_show: "castUInt (showNat (unat k)) = Some k"
  using unsigned_less[of k] by (simp add: castUInt_def scanInt_show)

interpretation uint_code: codec "\<lambda>k :: 32 word. showNat (unat k)" castUInt "\<lambda>_. True"
  by unfold_locales (rule castUInt_show)

lemma find_char_app: "x \<notin> set xs \<Longrightarrow> find_char x (xs @ x # ys) = Some (length xs)"
  by (induction xs) auto

lemma split_no_delim:
  "\<forall>c \<in> set xs. \<not> P c \<Longrightarrow> split_loop P str (xs @ rest) = split_loop P (str @ xs) rest"
  by (induction xs arbitrary: str) auto

lemma c_str_same: "NUL \<notin> set s \<Longrightarrow> c_str s = s"
  by (auto simp: c_str_def takeWhile_eq_all_conv)

text \<open>The names of a choice hold no comma and no NUL.\<close>

definition choice_ok :: "(32 word \<times> string) list \<Rightarrow> bool" where
  "choice_ok cs \<longleftrightarrow> (\<forall>(k, s) \<in> set cs. CHR '','' \<notin> set s \<and> NUL \<notin> set s)"

lemma choice_items_NUL: "choice_ok cs \<Longrightarrow> NUL \<notin> set (choice_items cs)"
  by (induction cs rule: choice_items.induct) (auto simp: choice_ok_def NUL_eq)

lemma split_items:
  assumes "choice_ok cs" "cs \<noteq> []" "\<forall>c \<in> set pre. c \<noteq> CHR '',''"
  shows "split_loop (\<lambda>c. c = CHR '','') pre (choice_items cs) =
    (case cs of (k, s) # r \<Rightarrow> (pre @ showNat (unat k) @ ''|'' @ s) # map (\<lambda>(k, s). showNat (unat k) @ ''|'' @ s) r)"
  using assms
proof (induction cs arbitrary: pre rule: choice_items.induct)
  case (2 k s)
  have "\<forall>c \<in> set (showNat (unat k) @ ''|'' @ s). c \<noteq> CHR '',''" using 2(1) by (auto simp: choice_ok_def)
  from split_no_delim[OF this, of pre "[]"] show ?case by simp
next
  case (3 k s c cs)
  have nd: "\<forall>c \<in> set (showNat (unat k) @ ''|'' @ s). c \<noteq> CHR '',''" using 3(2) by (auto simp: choice_ok_def)
  have ok: "choice_ok (c # cs)" using 3(2) by (simp add: choice_ok_def)
  obtain k' s' where c: "c = (k', s')" by fastforce
  show ?case
    using split_no_delim[OF nd, of pre "'','' @ choice_items (c # cs)"] 3(1)[OF ok, of "[]"] c by simp
qed simp

lemma afterBar_item:
  assumes "\<forall>c \<in> set pre. c \<noteq> CHR ''|''"
  shows "afterBar (pre @ showNat k @ ''|'' @ s) = s"
proof -
  have "CHR ''|'' \<notin> set (pre @ showNat k)" using assms by auto
  from find_char_app[OF this, of s]
  have "find_char (CHR ''|'') (pre @ showNat k @ ''|'' @ s) = Some (length (pre @ showNat k))" by simp
  then show ?thesis by (simp only: afterBar_def option.case) simp
qed

lemma choices_split:
  assumes "choice_ok cs" "cs \<noteq> []"
  shows "map afterBar (splitStrsRef ('':'' @ choice_items cs) (CHR '','')) = map snd cs"
proof -
  obtain k s r where cs: "cs = (k, s) # r" using assms(2) by (cases cs) auto
  have "NUL \<notin> set ('':'' @ choice_items cs)" using choice_items_NUL[OF assms(1)] by (simp add: NUL_eq)
  from c_str_same[OF this]
  have "splitStrsRef ('':'' @ choice_items cs) (CHR '','') = split_loop (\<lambda>c. c = CHR '','') '':'' (choice_items cs)"
    unfolding splitStrsRef_def by simp
  also have "\<dots> = ('':'' @ showNat (unat k) @ ''|'' @ s) # map (\<lambda>(k, s). showNat (unat k) @ ''|'' @ s) r"
    using split_items[OF assms, of "'':''"] cs by simp
  finally show ?thesis using afterBar_item[of "'':''"] afterBar_item[of "[]"] cs by auto
qed

lemma choiceString_parts:
  "find_char (CHR '':'') (choiceString cs k) = Some (length (showNat (unat k)))"
  "take (length (showNat (unat k))) (choiceString cs k) = showNat (unat k)"
  "drop (length (showNat (unat k))) (choiceString cs k) = '':'' @ choice_items cs"
  using find_char_app[of "CHR '':''" "showNat (unat k)" "choice_items cs"] by (simp_all add: choiceString_def)

text \<open>
  A choice string (the form in which a property with alternatives is shown and saved)
  is taken apart into the names it was made of and the index of the selected one, and the active
  choice is that name, for names without comma or NUL; a bar or a colon in a name does no harm.
\<close>

theorem choice_roundtrip:
  assumes "choice_ok cs" "cs \<noteq> []"
  shows "choiceStringToVector (choiceString cs k) = Some (map snd cs, Some k) \<and>
    getActiveChoice (choiceString cs k) = (if unat k < length cs then Some (snd (cs ! unat k)) else None)"
proof -
  let ?v = "splitStrsRef ('':'' @ choice_items cs) (CHR '','')"
  have v: "map afterBar ?v = map snd cs" by (rule choices_split[OF assms])
  then have "length ?v = length cs" by (metis length_map)
  moreover from this have "afterBar (?v ! i) = snd (cs ! i)" if "i < length cs" for i
    using that arg_cong[OF v, of "\<lambda>xs. xs ! i"] by simp
  ultimately show ?thesis
    using v by (simp add: choiceStringToVector_def getActiveChoice_def choiceString_parts castUInt_show Let_def)
qed

lemma choice_roundtrip_witness:
  "choiceStringToVector (choiceString [(0, ''Box|only''), (1, ''Tick:1'')] 1) =
     Some (map snd [(0 :: 32 word, ''Box|only''), (1, ''Tick:1'')], Some 1) \<and>
   getActiveChoice (choiceString [(0, ''Box|only''), (1, ''Tick:1'')] 1) =
     (if unat (1 :: 32 word) < length [(0 :: 32 word, ''Box|only''), (1, ''Tick:1'')]
      then Some (snd ([(0 :: 32 word, ''Box|only''), (1, ''Tick:1'')] ! unat (1 :: 32 word))) else None)"
  by (rule choice_roundtrip) (simp_all add: choice_ok_def NUL_def)

section \<open>Padded numbers and file names\<close>

lemma showNat_length_mono: "m \<le> n \<Longrightarrow> length (showNat m) \<le> length (showNat n)"
proof (induction m arbitrary: n rule: showNat.induct)
  case (1 m)
  show ?case
  proof (cases "m < 10")
    case True
    then show ?thesis by (subst showNat.simps) (simp add: Suc_leI)
  next
    case False
    then have "length (showNat (m div 10)) \<le> length (showNat (n div 10))"
      using 1 by (simp add: div_le_mono)
    then show ?thesis using False 1(2) by (subst (1 2) showNat.simps) simp
  qed
qed

lemma readNat_zeros: "readNat (replicate n (CHR ''0'') @ s) = readNat s"
  by (induction n) (simp_all add: readNat_def digitVal_def)

text \<open>
  A padded number has the width of the largest one and reads as the number, so that the
  names of numbered frames sort in their order.
\<close>

theorem digitString_pads:
  assumes "thisDigit \<le> maxDigit"
  shows "length (digitString thisDigit maxDigit) = length (showNat (unat maxDigit)) \<and>
    readNat (digitString thisDigit maxDigit) = unat thisDigit"
proof -
  have "length (showNat (unat thisDigit)) \<le> length (showNat (unat maxDigit))"
    using assms by (intro showNat_length_mono) (simp add: word_le_nat_alt)
  then show ?thesis
    using readNat_zeros by (simp add: digitString_def Let_def map_replicate_const take_map)
qed

lemma digitString_pads_witness:
  "length (digitString 7 123) = length (showNat (unat (123 :: 32 word))) \<and>
   readNat (digitString 7 123) = unat (7 :: 32 word)"
  by (rule digitString_pads) simp

lemma find_char_Some: "find_char x s = Some i \<Longrightarrow> i < length s \<and> s ! i = x \<and> x \<notin> set (take i s)"
  by (induction s arbitrary: i) (auto split: if_splits)

lemma find_char_None: "find_char x s = None \<longleftrightarrow> x \<notin> set s"
  by (induction s) auto

lemma find_last_Some:
  assumes "find_last_char x s = Some i"
  shows "i < length s \<and> s = take i s @ x # drop (i + 1) s \<and> x \<notin> set (drop (i + 1) s)"
proof -
  obtain j where j: "find_char x (rev s) = Some j" "i = length s - 1 - j"
    using assms by (auto simp: find_last_char_def)
  from find_char_Some[OF j(1)] have f: "j < length s" "rev s ! j = x" "x \<notin> set (take j (rev s))" by auto
  have "i < length s" "s ! i = x" using f(1,2) j(2) by (auto simp: rev_nth)
  moreover have "drop (i + 1) s = rev (take j (rev s))"
  proof -
    have "i + 1 = length s - j" using f(1) j(2) by simp
    then show ?thesis by (simp add: take_rev)
  qed
  moreover have "s = take i s @ s ! i # drop (i + 1) s" using calculation(1) by (simp add: id_take_nth_drop)
  ultimately show ?thesis using f(3) by simp
qed

lemma find_last_None: "find_last_char x s = None \<longleftrightarrow> x \<notin> set s"
  by (simp add: find_last_char_def find_char_None)

text \<open>
  Splitting a file name loses nothing: directory, base name and extension put together
  again (with the dot, when the file name has one) give the name; no slash is left in the base name
  or the extension, no dot in the extension, and the directory is empty or ends in a slash.
\<close>

theorem splitFileData_rejoin:
  "case splitFileData f of (p, b, e) \<Rightarrow>
     p @ b @ (if CHR ''.'' \<in> set (onlyFilename f) then ''.'' @ e else e) = f \<and>
     CHR ''/'' \<notin> set (b @ e) \<and> CHR ''.'' \<notin> set e \<and> (p = [] \<or> last p = CHR ''/'')"
proof (cases "f = []")
  case True
  then show ?thesis by (simp add: splitFileData_def onlyFilename_def find_last_char_def)
next
  case False
  let ?b = "onlyFilename f" and ?p = "onlyDir f"
  have d: "?p @ ?b = f \<and> CHR ''/'' \<notin> set ?b \<and> (?p = [] \<or> last ?p = CHR ''/'')"
  proof (cases "find_last_char (CHR ''/'') f")
    case None
    then have "CHR ''/'' \<notin> set f" using find_last_None by metis
    then show ?thesis using None by (simp add: onlyFilename_def onlyDir_def)
  next
    case (Some i)
    have l: "i < length f" "f = take i f @ CHR ''/'' # drop (i + 1) f" "CHR ''/'' \<notin> set (drop (i + 1) f)"
      using find_last_Some[OF Some] by blast+
    have "f ! i = CHR ''/''" using l(1,2) by (metis length_take min.absorb4 nth_append_length)
    then have "last (take (i + 1) f) = CHR ''/''" using l(1) by (simp add: take_Suc_conv_app_nth)
    moreover have "?p = take (i + 1) f" "?b = drop (i + 1) f" using Some by (simp_all add: onlyFilename_def onlyDir_def)
    ultimately show ?thesis using l(3) append_take_drop_id[of "i + 1" f] by simp
  qed
  show ?thesis
  proof (cases "find_last_char (CHR ''.'') ?b")
    case None
    then have "CHR ''.'' \<notin> set ?b" using find_last_None by metis
    then show ?thesis using False d None by (simp add: splitFileData_def Let_def)
  next
    case (Some i)
    note fl = find_last_Some[OF Some]
    then have "?b = take i ?b @ CHR ''.'' # drop (i + 1) ?b" by simp
    moreover have "set (take i ?b) \<subseteq> set ?b" "set (drop (i + 1) ?b) \<subseteq> set ?b"
      by (rule set_take_subset, rule set_drop_subset)
    moreover have "CHR ''.'' \<in> set ?b" using Some find_last_None[of "CHR ''.''" ?b] by simp
    moreover have "splitFileData f = (?p, take i ?b, drop (i + 1) ?b)"
      using False Some fl by (simp add: splitFileData_def sub_str_def Let_def)
    ultimately show ?thesis using d fl by auto
  qed
qed

end
