(* ===== verification/FilterProps.thy ===== *)
theory FilterProps
  imports Filters StringFuncs
begin

text \<open>
  Filter properties (src/src/backend/filter.cpp): the groups in which a filter shows its settings,
  the packing of two numbers into one property key, and the generic setters. A property key is a
  \<^verbatim>\<open>size_t\<close> that is stored as an \<^verbatim>\<open>unsigned int\<close>; grp numbers are small and kept as naturals.
\<close>

unbundle bit_operations_syntax

section \<open>Keys\<close>

definition demuxKey :: "32 word \<Rightarrow> 32 word \<times> 32 word" where
  "demuxKey key = (drop_bit 16 key, key AND 0xFFFF)"

definition muxKey :: "32 word \<Rightarrow> 32 word \<Rightarrow> 32 word" where
  "muxKey keyType ionOffset = push_bit 16 keyType OR ionOffset"

section \<open>Properties and their groups\<close>

definition PROPERTY_TYPE_BOOL :: nat where "PROPERTY_TYPE_BOOL = 1"
definition PROPERTY_TYPE_INTEGER :: nat where "PROPERTY_TYPE_INTEGER = 2"
definition PROPERTY_TYPE_REAL :: nat where "PROPERTY_TYPE_REAL = 3"
definition PROPERTY_TYPE_COLOUR :: nat where "PROPERTY_TYPE_COLOUR = 4"
definition PROPERTY_TYPE_POINT3D :: nat where "PROPERTY_TYPE_POINT3D = 6"
definition PROPERTY_TYPE_CHOICE :: nat where "PROPERTY_TYPE_CHOICE = 7"

record filterProperty =
  fp_helpText :: string
  fp_type :: nat
  fp_key :: "64 word"
  fp_data :: string
  fp_dataSecondary :: string
  fp_name :: string

record filterPropGroup =
  keyGroupings :: "(32 word \<times> 32 word) list"
  groupNames :: "string list"
  properties :: "filterProperty list"
  groupCount :: nat

definition newPropGroup :: filterPropGroup where
  "newPropGroup = \<lparr>keyGroupings = [], groupNames = [], properties = [], groupCount = 0\<rparr>"

text \<open>Parsing of reals and of points is a parameter; \<open>True\<close> is a text that parses.\<close>

definition checkSelfConsistent :: "(string \<Rightarrow> bool) \<Rightarrow> (string \<Rightarrow> bool) \<Rightarrow> filterProperty \<Rightarrow> bool" where
  "checkSelfConsistent isReal isPoint p =
     (if fp_type p = PROPERTY_TYPE_BOOL then fp_data p = ''0'' \<or> fp_data p = ''1''
      else if fp_type p = PROPERTY_TYPE_REAL then isReal (fp_data p)
      else if fp_type p = PROPERTY_TYPE_COLOUR then parseColour (fp_data p) \<noteq> None
      else if fp_type p = PROPERTY_TYPE_CHOICE then isMaybeChoiceString (fp_data p)
      else if fp_type p = PROPERTY_TYPE_POINT3D then isPoint (fp_data p)
      else if fp_type p = PROPERTY_TYPE_INTEGER then castInt (fp_data p) \<noteq> None
      else True)"

definition resize_names :: "nat \<Rightarrow> string list \<Rightarrow> string list" where
  "resize_names n xs = take n xs @ replicate (n - length xs) []"

definition addProperty :: "filterProperty \<Rightarrow> nat \<Rightarrow> filterPropGroup \<Rightarrow> filterPropGroup" where
  "addProperty p grp g =
     (let g1 = (if grp \<ge> groupCount g
                then g\<lparr>groupCount := max (grp + 1) (groupCount g),
                       groupNames := resize_names (max (grp + 1) (groupCount g)) (groupNames g)\<rparr>
                else g)
      in g1\<lparr>keyGroupings := keyGroupings g1 @ [(ucast (fp_key p), of_nat grp)],
            properties := properties g1 @ [p]\<rparr>)"

definition setGroupTitle :: "nat \<Rightarrow> string \<Rightarrow> filterPropGroup \<Rightarrow> filterPropGroup option" where
  "setGroupTitle grp str g = (if grp < length (groupNames g)
     then Some (g\<lparr>groupNames := (groupNames g)[grp := str]\<rparr>) else None)"

definition getGroupTitle :: "nat \<Rightarrow> filterPropGroup \<Rightarrow> string option" where
  "getGroupTitle grp g = (if grp < length (groupNames g) then Some (groupNames g ! grp) else None)"

definition getGroup :: "nat \<Rightarrow> filterPropGroup \<Rightarrow> filterProperty list" where
  "getGroup targetGroup g =
     map snd (filter (\<lambda>(kg, p). unat (snd kg) = targetGroup) (zip (keyGroupings g) (properties g)))"

definition hasGroup :: "nat \<Rightarrow> filterPropGroup \<Rightarrow> bool" where
  "hasGroup targetGroup g = list_ex (\<lambda>kg. unat (snd kg) = targetGroup) (keyGroupings g)"

text \<open>None: the key is missing, and the function ends without a return value.\<close>

definition getPropValue :: "64 word \<Rightarrow> filterPropGroup \<Rightarrow> filterProperty option" where
  "getPropValue key g =
     map_option snd (find (\<lambda>(kg, p). ucast (fst kg) = key) (zip (keyGroupings g) (properties g)))"

definition hasProp :: "64 word \<Rightarrow> filterPropGroup \<Rightarrow> bool" where
  "hasProp key g = list_ex (\<lambda>kg. ucast (fst kg) = key) (keyGroupings g)"

definition checkConsistent :: "filterPropGroup \<Rightarrow> bool" where
  "checkConsistent g \<longleftrightarrow> length (keyGroupings g) = length (properties g) \<and>
     distinct (map fst (keyGroupings g)) \<and> distinct (map fp_key (properties g)) \<and>
     list_all (\<lambda>p. fp_helpText p \<noteq> []) (properties g) \<and>
     length (groupNames g) = groupCount g \<and> list_all (\<lambda>s. s \<noteq> []) (groupNames g)"

section \<open>Setting a property\<close>

text \<open>
  The setters for booleans, points and strings are the same function over different decoders.
  \<open>get\<close> and \<open>put\<close> read and write the member; the results are the acceptance and \<^verbatim>\<open>needUp\<close>.
\<close>

definition applyPropertyNow :: "(string \<Rightarrow> 'v option) \<Rightarrow> ('p filt \<Rightarrow> 'v) \<Rightarrow> ('v \<Rightarrow> 'p filt \<Rightarrow> 'p filt) \<Rightarrow>
    'p vtable \<Rightarrow> fptr \<Rightarrow> string \<Rightarrow> 'p world \<Rightarrow> 'p world \<times> bool \<times> bool" where
  "applyPropertyNow dec get put V p val w =
     (case filts w p of None \<Rightarrow> (w\<lparr>ub := True\<rparr>, False, False)
      | Some f \<Rightarrow> (case dec val of None \<Rightarrow> (w, False, False)
          | Some tmp \<Rightarrow> if tmp = get f then (w, True, False)
                        else (clearCache V p (upd_filt p (put tmp) w), True, True)))"

definition applyPropertyNow_bool :: "('p filt \<Rightarrow> bool) \<Rightarrow> (bool \<Rightarrow> 'p filt \<Rightarrow> 'p filt) \<Rightarrow>
    'p vtable \<Rightarrow> fptr \<Rightarrow> string \<Rightarrow> 'p world \<Rightarrow> 'p world \<times> bool \<times> bool" where
  "applyPropertyNow_bool = applyPropertyNow boolStrDec"

definition applyPropertyNow_string :: "('p filt \<Rightarrow> string) \<Rightarrow> (string \<Rightarrow> 'p filt \<Rightarrow> 'p filt) \<Rightarrow>
    'p vtable \<Rightarrow> fptr \<Rightarrow> string \<Rightarrow> 'p world \<Rightarrow> 'p world \<times> bool \<times> bool" where
  "applyPropertyNow_string = applyPropertyNow Some"

section \<open>Lemmas\<close>

text \<open>Both numbers of a key fit into 16 bits.\<close>

definition mux_ok :: "32 word \<times> 32 word \<Rightarrow> bool" where
  "mux_ok k \<longleftrightarrow> fst k < 2 ^ 16 \<and> snd k < 2 ^ 16"

lemma take_small:
  fixes k :: "'a::len word"
  assumes "unat k < 2 ^ n" shows "take_bit n k = k"
  using assms by (simp add: word_unat_eq_iff unsigned_take_bit_eq take_bit_nat_eq_self)

lemma small_bits: "k < 2 ^ 16 \<Longrightarrow> bit (k :: 32 word) n \<Longrightarrow> n < 16"
proof -
  assume k: "k < 2 ^ 16" and b: "bit k n"
  then have "take_bit 16 k = k" by (intro take_small) (simp add: word_less_nat_alt)
  then show ?thesis using b by (metis bit_take_bit_iff)
qed

lemma low_mask: "(0xFFFF :: 32 word) = mask 16"
  by (simp add: mask_eq_exp_minus_1)

lemma demux_mux:
  assumes "mux_ok (k, i)" shows "demuxKey (muxKey k i) = (k, i)"
proof -
  have sb: "bit k n \<Longrightarrow> n < 16" "bit i n \<Longrightarrow> n < 16" for n
    using assms small_bits[of k n] small_bits[of i n] by (auto simp: mux_ok_def)
  have "drop_bit 16 (push_bit 16 k OR i) = k"
  proof (rule bit_eqI)
    fix n
    show "bit (drop_bit 16 (push_bit 16 k OR i)) n = bit k n"
      using sb(1)[of n] sb(2)[of "16 + n"] by (auto simp: bit_simps)
  qed
  moreover have "(push_bit 16 k OR i) AND 0xFFFF = i"
    unfolding low_mask
    by (rule bit_eqI) (use sb(2) in \<open>auto simp: bit_simps\<close>)
  ultimately show ?thesis by (simp add: demuxKey_def muxKey_def)
qed

lemma mux_demux: "muxKey (fst (demuxKey key)) (snd (demuxKey key)) = key"
  unfolding demuxKey_def muxKey_def low_mask
  by (rule bit_eqI) (auto simp: bit_simps not_less)

text \<open>
  The two numbers packed into a property key are read back when they fit into 16 bits,
  and taking any key apart and packing it again gives the key.
\<close>

theorem muxKey_roundtrip:
  "(mux_ok (k, i) \<longrightarrow> demuxKey (muxKey k i) = (k, i)) \<and> muxKey (fst (demuxKey key)) (snd (demuxKey key)) = key"
  using demux_mux mux_demux by blast

lemma muxKey_roundtrip_witness: "demuxKey (muxKey 7 65535) = (7, 65535)"
  using muxKey_roundtrip[of 7 65535] by (simp add: mux_ok_def)

text \<open>The invariant of a group under construction: keys fit, groups are counted, every list is in step.\<close>

definition pg_ok :: "filterPropGroup \<Rightarrow> bool" where
  "pg_ok g \<longleftrightarrow> length (keyGroupings g) = length (properties g) \<and>
     map fst (keyGroupings g) = map (\<lambda>p. ucast (fp_key p)) (properties g) \<and>
     length (groupNames g) = groupCount g \<and> (\<forall>kg \<in> set (keyGroupings g). unat (snd kg) < groupCount g)"

lemma pg_ok_new: "pg_ok newPropGroup"
  by (simp add: pg_ok_def newPropGroup_def)

lemma addProperty_fields:
  "keyGroupings (addProperty p grp g) = keyGroupings g @ [(ucast (fp_key p), of_nat grp)]"
  "properties (addProperty p grp g) = properties g @ [p]"
  "groupCount (addProperty p grp g) = max (grp + 1) (groupCount g)"
  "length (groupNames g) = groupCount g \<Longrightarrow> length (groupNames (addProperty p grp g)) = max (grp + 1) (groupCount g)"
  by (auto simp: addProperty_def Let_def resize_names_def)

lemma unat_group: "grp < 2 ^ 32 \<Longrightarrow> unat (of_nat grp :: 32 word) = grp"
  by (simp add: unsigned_of_nat take_bit_nat_eq_self)

lemma find_append: "find P (xs @ ys) = (case find P xs of None \<Rightarrow> find P ys | Some x \<Rightarrow> Some x)"
  by (induction xs) auto

lemma find_zip_None:
  "length xs = length ys \<Longrightarrow> find (\<lambda>(a, b). P a) (zip xs ys) = None \<longleftrightarrow> \<not> list_ex P xs"
  by (induction xs ys rule: list_induct2) auto

text \<open>
  Adding a property keeps the group consistent in all its parts; the new property is
  found under its key unless an earlier one has it, every other key finds what it found before, and
  the property comes last in its group and in no other.
\<close>

theorem addProperty_lookup:
  assumes "pg_ok g" "grp < 2 ^ 32" "fp_key p < 2 ^ 32"
  shows "pg_ok (addProperty p grp g) \<and>
    getPropValue key (addProperty p grp g) =
      (if hasProp key g then getPropValue key g else if key = fp_key p then Some p else None) \<and>
    hasProp key (addProperty p grp g) = (hasProp key g \<or> key = fp_key p) \<and>
    getGroup t (addProperty p grp g) = getGroup t g @ (if t = grp then [p] else [])"
proof -
  have len: "length (keyGroupings g) = length (properties g)" using assms(1) by (simp add: pg_ok_def)
  have key: "ucast (ucast (fp_key p) :: 32 word) = fp_key p"
    using take_small[of "fp_key p" 32] assms(3) by (simp add: unsigned_ucast_eq word_less_nat_alt)
  have "pg_ok (addProperty p grp g)"
    using assms(1) unat_group[OF assms(2)]
    by (auto simp: pg_ok_def addProperty_fields less_max_iff_disj)
  moreover have "getPropValue key (addProperty p grp g) =
      (if hasProp key g then getPropValue key g else if key = fp_key p then Some p else None)"
    using find_zip_None[OF len, of "\<lambda>kg. ucast (fst kg) = key"] len key
    by (auto simp: getPropValue_def hasProp_def addProperty_fields find_append split: option.splits)
  moreover have "hasProp key (addProperty p grp g) = (hasProp key g \<or> key = fp_key p)"
    using key by (auto simp: hasProp_def addProperty_fields)
  moreover have "getGroup t (addProperty p grp g) = getGroup t g @ (if t = grp then [p] else [])"
    using len unat_group[OF assms(2)] by (auto simp: getGroup_def addProperty_fields)
  ultimately show ?thesis by blast
qed

text \<open>Three properties in two groups, as a filter shows them.\<close>

definition sampleProp :: "64 word \<Rightarrow> string \<Rightarrow> filterProperty" where
  "sampleProp k d = \<lparr>fp_helpText = ''help'', fp_type = PROPERTY_TYPE_BOOL, fp_key = k, fp_data = d,
     fp_dataSecondary = [], fp_name = ''name''\<rparr>"

lemma addProperty_lookup_witness:
  "getPropValue 2 (addProperty (sampleProp 2 ''1'') 0 newPropGroup) = Some (sampleProp 2 ''1'') \<and>
   getGroup 0 (addProperty (sampleProp 2 ''1'') 0 newPropGroup) = [sampleProp 2 ''1'']"
  using addProperty_lookup[OF pg_ok_new, of 0 "sampleProp 2 ''1''" 2 0]
  by (simp add: sampleProp_def newPropGroup_def hasProp_def getGroup_def)

end
