(* ===== verification/FilterTreeAnalyse.thy ===== *)
theory FilterTreeAnalyse
  imports FilterTreeRefresh FilterProps
begin

text \<open>
  The analysis of a filter tree for likely mistakes (src/src/backend/filtertreeAnalyse.cpp):
  filters that block what they cannot use, sampling or composition changes above filters that
  depend on them, missing range ancestors, and dropped unranged data. Messages are kept as the
  short texts of the reports.
\<close>

datatype severity = ANALYSE_SEVERITY_WARNING | ANALYSE_SEVERITY_ERROR

record treeErr =
  reportedFilters :: "fptr list"
  shortReportMessage :: string
  severity :: severity

text \<open>
  What the analysis reads of single filters: their properties, the settings of the range, ion
  information and spectrum filters, and whether the text of a fraction is a number below one.
  \<open>a_undefinedProp\<close> is whatever a lookup of a missing key yields.
\<close>

record 'p analyseEnv =
  a_getProperties :: "'p filt \<Rightarrow> filterPropGroup"
  a_undefinedProp :: filterProperty
  a_lessOne :: "string \<Rightarrow> bool"
  a_needsUnranged :: "'p filt \<Rightarrow> bool"
  a_dropUnranged :: "'p filt \<Rightarrow> bool"
  a_enabledIons :: "'p filt \<Rightarrow> nat list"
  a_enabledRanges :: "'p filt \<Rightarrow> nat list"

definition DATALOAD_KEY_SAMPLE :: "64 word" where "DATALOAD_KEY_SAMPLE = 2"
definition KEY_IONDOWNSAMPLE_FRACTION :: "64 word" where "KEY_IONDOWNSAMPLE_FRACTION = 1"
definition KEY_IONDOWNSAMPLE_FIXEDOUT :: "64 word" where "KEY_IONDOWNSAMPLE_FIXEDOUT = 2"
definition KEY_IONDOWNSAMPLE_PERSPECIES :: "64 word" where "KEY_IONDOWNSAMPLE_PERSPECIES = 4"
definition PROFILE_KEY_NORMALISE :: "64 word" where "PROFILE_KEY_NORMALISE = 12"
definition GROUP_SAMPLING :: nat where "GROUP_SAMPLING = 1"

definition prop_data :: "'p analyseEnv \<Rightarrow> 64 word \<Rightarrow> filterPropGroup \<Rightarrow> string" where
  "prop_data A key props = (case getPropValue key props of None \<Rightarrow> fp_data (a_undefinedProp A) | Some p \<Rightarrow> fp_data p)"

section \<open>Questions about one filter\<close>

definition filterIsSampling :: "'p analyseEnv \<Rightarrow> 'p filt \<Rightarrow> bool" where
  "filterIsSampling A f =
     (let props = a_getProperties A f
      in case f_type f of
           FILTER_TYPE_DATALOAD \<Rightarrow>
             if hasProp DATALOAD_KEY_SAMPLE props then prop_data A DATALOAD_KEY_SAMPLE props \<noteq> ''0'' else False
         | FILTER_TYPE_IONDOWNSAMPLE \<Rightarrow>
             if hasProp KEY_IONDOWNSAMPLE_FIXEDOUT props then prop_data A KEY_IONDOWNSAMPLE_FIXEDOUT props = ''1''
             else if hasProp KEY_IONDOWNSAMPLE_FRACTION props
             then a_lessOne A (prop_data A KEY_IONDOWNSAMPLE_FRACTION props) else False
         | _ \<Rightarrow> False)"

definition affectedBySampling :: "'p analyseEnv \<Rightarrow> 'p filt \<Rightarrow> bool \<Rightarrow> bool" where
  "affectedBySampling A f haveRngParent = (case f_type f of
       FILTER_TYPE_CLUSTER_ANALYSIS \<Rightarrow> haveRngParent
     | FILTER_TYPE_PROFILE \<Rightarrow> prop_data A PROFILE_KEY_NORMALISE (a_getProperties A f) = ''1'' \<and> \<not> haveRngParent
     | FILTER_TYPE_SPATIAL_ANALYSIS \<Rightarrow> True
     | _ \<Rightarrow> False)"

definition needsRangeParent :: "'p filt \<Rightarrow> bool" where
  "needsRangeParent f = (case f_type f of FILTER_TYPE_CLUSTER_ANALYSIS \<Rightarrow> True | _ \<Rightarrow> False)"

definition needsUnrangedData :: "'p analyseEnv \<Rightarrow> 'p filt \<Rightarrow> bool" where
  "needsUnrangedData A f =
     (if f_type f = FILTER_TYPE_IONINFO then a_needsUnranged A f
      else if f_type f = FILTER_TYPE_SPECTRUMPLOT then a_needsUnranged A f
      else False)"

text \<open>Some neighbours differ: the loop from the second entry on, with its early end.\<close>

fun differs :: "string list \<Rightarrow> bool" where
  "differs (a # b # r) = (if a \<noteq> b then True else differs (b # r))"
| "differs _ = False"

definition partlyEnabled :: "nat list \<Rightarrow> bool" where
  "partlyEnabled v = (if length v > 1 then 0 < sum_list v \<and> sum_list v < length v else False)"

definition filterAltersComposition :: "'p analyseEnv \<Rightarrow> 'p filt \<Rightarrow> bool" where
  "filterAltersComposition A f =
     (let props = a_getProperties A f
      in case f_type f of
           FILTER_TYPE_IONDOWNSAMPLE \<Rightarrow>
             if \<not> hasProp KEY_IONDOWNSAMPLE_PERSPECIES props then False
             else if prop_data A KEY_IONDOWNSAMPLE_PERSPECIES props = ''1'' \<and> hasGroup GROUP_SAMPLING props
             then differs (map fp_data (getGroup GROUP_SAMPLING props)) else False
         | FILTER_TYPE_RANGEFILE \<Rightarrow>
             if partlyEnabled (a_enabledIons A f) then True else partlyEnabled (a_enabledRanges A f)
         | _ \<Rightarrow> False)"

definition filterAffectedByComposition :: "'p analyseEnv \<Rightarrow> 'p filt \<Rightarrow> bool \<Rightarrow> bool" where
  "filterAffectedByComposition A f haveRngParent = (case f_type f of
       FILTER_TYPE_CLUSTER_ANALYSIS \<Rightarrow> haveRngParent
     | FILTER_TYPE_PROFILE \<Rightarrow> prop_data A PROFILE_KEY_NORMALISE (a_getProperties A f) = ''1'' \<and> haveRngParent
     | FILTER_TYPE_SPATIAL_ANALYSIS \<Rightarrow> True
     | _ \<Rightarrow> False)"

section \<open>The checks\<close>

definition useMask :: "'p vtable \<Rightarrow> 'p world \<Rightarrow> fptr \<Rightarrow> 32 word" where
  "useMask V w p = get_filt 0 (v_use V) w p"

definition pairError :: "'p vtable \<Rightarrow> 'p world \<Rightarrow> (fptr \<rightharpoonup> 32 word) \<Rightarrow> (fptr \<rightharpoonup> 32 word) \<Rightarrow>
    fptr \<Rightarrow> fptr \<Rightarrow> treeErr list" where
  "pairError V w emitTypes blockTypes parent child =
     (let parentEmit = or (map_at emitTypes parent) (emitMask V w parent);
          curBlock = or (map_at blockTypes child) (blockMask V w child);
          curUse = useMask V w child;
          passedThrough = (and parentEmit (not curBlock) \<noteq> 0);
          err = (\<lambda>m. [\<lparr>reportedFilters = [child, parent], shortReportMessage = m, severity = ANALYSE_SEVERITY_ERROR\<rparr>])
      in if parentEmit = 0 \<and> curUse \<noteq> 0 then err ''Leaf-only filter with child''
         else if and parentEmit curUse = 0 \<and> \<not> passedThrough then err ''Bad parent->child pair''
         else if and parentEmit curUse = 0 \<and> \<not> get_filt False (v_isUsefulAsAppend V) w child
         then err ''Bad parent->child pair''
         else [])"

definition blockingPairError :: "'p vtable \<Rightarrow> 'p world \<Rightarrow> fptr ptree \<Rightarrow> (fptr \<rightharpoonup> 32 word) \<Rightarrow>
    (fptr \<rightharpoonup> 32 word) \<Rightarrow> treeErr list" where
  "blockingPairError V w t emitTypes blockTypes =
     concat (map (\<lambda>(anc, n). concat (map (\<lambda>k. pairError V w emitTypes blockTypes (tdata n) (tdata k)) (kids n)))
       (entries t))"

definition type_is :: "'p world \<Rightarrow> filterType \<Rightarrow> fptr \<Rightarrow> bool" where
  "type_is w ty p = get_filt False (\<lambda>f. f_type f = ty) w p"

text \<open>The climb from the parent of a node to its base node.\<close>

definition haveRngParent :: "'p world \<Rightarrow> fptr ptree \<Rightarrow> nat list \<Rightarrow> bool" where
  "haveRngParent w t anc = list_ex (\<lambda>a. type_is w FILTER_TYPE_RANGEFILE (node_data t a)) anc"

text \<open>
  The loop of \<^verbatim>\<open>spatialSampling\<close> and \<^verbatim>\<open>compositionAltered\<close>, which are the same but for the three
  questions and the message. After a filter that is a cause its descendants are skipped.
\<close>

function altered_loop :: "(fptr \<Rightarrow> bool) \<Rightarrow> (fptr \<Rightarrow> bool) \<Rightarrow> (fptr \<Rightarrow> bool \<Rightarrow> bool) \<Rightarrow> string \<Rightarrow>
    'p world \<Rightarrow> fptr ptree \<Rightarrow> (nat list \<times> fptr tnode) list \<Rightarrow> treeErr list" where
  "altered_loop cause listed aff msg w t [] = []"
| "altered_loop cause listed aff msg w t ((anc, n) # es) =
     (if cause (tdata n)
      then map (\<lambda>e. \<lparr>reportedFilters = [tdata n, tdata (snd e)], shortReportMessage = msg, severity = ANALYSE_SEVERITY_WARNING\<rparr>)
             (filter (\<lambda>e. listed (tdata (snd e)) \<and> aff (tdata (snd e)) (haveRngParent w t (fst e)))
               (takeWhile (\<lambda>e. length anc < length (fst e)) es))
           @ altered_loop cause listed aff msg w t (dropWhile (\<lambda>e. length anc < length (fst e)) es)
      else altered_loop cause listed aff msg w t es)"
  by pat_completeness auto
termination
  by (relation "measure (\<lambda>(c, l, a, m, w, t, es). length es)") (auto simp: length_dropWhile_less)

definition type_in :: "'p world \<Rightarrow> filterType list \<Rightarrow> fptr \<Rightarrow> bool" where
  "type_in w tys p = get_filt False (\<lambda>f. f_type f \<in> set tys) w p"

definition spatialSampling :: "'p analyseEnv \<Rightarrow> 'p world \<Rightarrow> fptr ptree \<Rightarrow> treeErr list" where
  "spatialSampling A w t = altered_loop (\<lambda>p. get_filt False (filterIsSampling A) w p)
     (type_in w [FILTER_TYPE_CLUSTER_ANALYSIS, FILTER_TYPE_PROFILE, FILTER_TYPE_SPATIAL_ANALYSIS, FILTER_TYPE_IONINFO])
     (\<lambda>p b. get_filt False (\<lambda>f. affectedBySampling A f b) w p)
     ''Spatial results possibly altered'' w t (entries t)"

definition compositionAltered :: "'p analyseEnv \<Rightarrow> 'p world \<Rightarrow> fptr ptree \<Rightarrow> treeErr list" where
  "compositionAltered A w t = altered_loop (\<lambda>p. get_filt False (filterAltersComposition A) w p)
     (type_in w [FILTER_TYPE_CLUSTER_ANALYSIS, FILTER_TYPE_PROFILE, FILTER_TYPE_IONINFO])
     (\<lambda>p b. get_filt False (\<lambda>f. filterAffectedByComposition A f b) w p)
     ''Composition results possibly altered'' w t (entries t)"

text \<open>The climb of \<^verbatim>\<open>checkRequiredParent\<close>: from parent to parent while the depth is not zero.\<close>

fun climb :: "'p world \<Rightarrow> fptr ptree \<Rightarrow> filterType \<Rightarrow> nat list \<Rightarrow> bool" where
  "climb w t ty [] = False"
| "climb w t ty (a # anc) = (if type_is w ty (node_data t a) then True else climb w t ty anc)"

definition checkRequiredParent :: "'p world \<Rightarrow> fptr ptree \<Rightarrow> treeErr list" where
  "checkRequiredParent w t =
     (let childrenNeedsParent = map (\<lambda>e. (e, FILTER_TYPE_RANGEFILE))
            (filter (\<lambda>e. get_filt False needsRangeParent w (tdata (snd e))) (entries t))
      in concat (map (\<lambda>(e, ty). if climb w t ty (fst e) then []
           else [\<lparr>reportedFilters = [tdata (snd e)], shortReportMessage = ''Filter missing needed parent'',
                  severity = ANALYSE_SEVERITY_ERROR\<rparr>]) childrenNeedsParent))"

fun unranged_loop :: "'p analyseEnv \<Rightarrow> 'p world \<Rightarrow> (nat list \<times> fptr tnode) list \<Rightarrow> treeErr list" where
  "unranged_loop A w [] = []"
| "unranged_loop A w (e # es) =
     (if type_is w FILTER_TYPE_RANGEFILE (tdata (snd e)) \<and> get_filt False (a_dropUnranged A) w (tdata (snd e))
      then map (\<lambda>j. \<lparr>reportedFilters = [tdata (snd e), tdata (snd j)], shortReportMessage = ''Bad range filter settings'',
                     severity = ANALYSE_SEVERITY_WARNING\<rparr>)
             (filter (\<lambda>j. get_filt False (needsUnrangedData A) w (tdata (snd j))) (e # es))
      else []) @ unranged_loop A w es"

definition checkUnrangedData :: "'p analyseEnv \<Rightarrow> 'p world \<Rightarrow> fptr ptree \<Rightarrow> treeErr list" where
  "checkUnrangedData A w t = unranged_loop A w (entries t)"

text \<open>\<^verbatim>\<open>analyse\<close> replaces the results of the last analysis.\<close>

definition analyse :: "'p vtable \<Rightarrow> 'p analyseEnv \<Rightarrow> 'p world \<Rightarrow> fptr ptree \<Rightarrow> treeErr list" where
  "analyse V A w t =
     (let (emitTypes, blockTypes) = getAccumulatedPropagationMaps V w t
      in blockingPairError V w t emitTypes blockTypes @ spatialSampling A w t @ compositionAltered A w t @
         checkRequiredParent w t @ checkUnrangedData A w t)"

section \<open>What the loops report\<close>

text \<open>The uppermost filters for which \<open>c\<close> holds, each with its ancestors.\<close>

fun uppermost :: "('a \<Rightarrow> bool) \<Rightarrow> nat list \<Rightarrow> 'a tnode \<Rightarrow> (nat list \<times> 'a tnode) list"
  and uppermosts :: "('a \<Rightarrow> bool) \<Rightarrow> nat list \<Rightarrow> 'a tnode list \<Rightarrow> (nat list \<times> 'a tnode) list" where
  "uppermost c anc (TNode a x ks) = (if c x then [(anc, TNode a x ks)] else uppermosts c (a # anc) ks)"
| "uppermosts c anc [] = []"
| "uppermosts c anc (n # ns) = uppermost c anc n @ uppermosts c anc ns"

definition altered_below :: "(fptr \<Rightarrow> bool) \<Rightarrow> (fptr \<Rightarrow> bool \<Rightarrow> bool) \<Rightarrow> string \<Rightarrow> 'p world \<Rightarrow>
    fptr ptree \<Rightarrow> nat list \<times> fptr tnode \<Rightarrow> treeErr list" where
  "altered_below listed aff msg w t = (\<lambda>(anc, n).
     map (\<lambda>e. \<lparr>reportedFilters = [tdata n, tdata (snd e)], shortReportMessage = msg, severity = ANALYSE_SEVERITY_WARNING\<rparr>)
       (filter (\<lambda>e. listed (tdata (snd e)) \<and> aff (tdata (snd e)) (haveRngParent w t (fst e)))
         (walks (addr n # anc) (kids n))))"

lemma altered_loop_uppermost:
  fixes n :: "fptr tnode" and ns :: "fptr tnode list"
  shows "rest = [] \<or> length (fst (hd rest)) \<le> length anc \<Longrightarrow>
      altered_loop c l a msg w t (walk anc n @ rest) =
        concat (map (altered_below l a msg w t) (uppermost c anc n)) @ altered_loop c l a msg w t rest"
    and "rest = [] \<or> length (fst (hd rest)) \<le> length anc \<Longrightarrow>
      altered_loop c l a msg w t (walks anc ns @ rest) =
        concat (map (altered_below l a msg w t) (uppermosts c anc ns)) @ altered_loop c l a msg w t rest"
proof (induction anc n and anc ns arbitrary: rest and rest rule: walk_walks.induct)
  case (1 anc b x ks)
  have ks: "\<forall>e \<in> set (walks (b # anc) ks). length anc < length (fst e)" by (blast dest: walks_deeper)
  have rest: "rest = [] \<or> \<not> length anc < length (fst (hd rest))" using 1(2) by auto
  note stop = takeWhile_append_stop[OF ks rest] dropWhile_append_stop[OF ks rest]
  have "rest = [] \<or> length (fst (hd rest)) \<le> length (b # anc)" using 1(2) by auto
  from 1(1)[OF this] stop show ?case by (simp add: altered_below_def)
next
  case (3 anc n ns)
  have "walks anc ns @ rest = [] \<or> length (fst (hd (walks anc ns @ rest))) \<le> length anc"
    using 3(3) by (cases ns; cases "hd ns") auto
  from 3(1)[OF this] 3(2)[OF 3(3)] show ?case by simp
qed simp

lemma uppermost_iff:
  fixes n :: "fptr tnode" and ns :: "fptr tnode list"
  assumes d: "distinct (addrs t)"
  shows "set (walk anc n) \<subseteq> set (entries t) \<Longrightarrow> (b, m) \<in> set (uppermost c anc n) \<longleftrightarrow>
      (b, m) \<in> set (walk anc n) \<and> c (tdata m) \<and> (\<forall>a \<in> set (take (length b - length anc) b). \<not> c (node_data t a))"
    and "set (walks anc ns) \<subseteq> set (entries t) \<Longrightarrow> (b, m) \<in> set (uppermosts c anc ns) \<longleftrightarrow>
      (b, m) \<in> set (walks anc ns) \<and> c (tdata m) \<and> (\<forall>a \<in> set (take (length b - length anc) b). \<not> c (node_data t a))"
proof (induction anc n and anc ns rule: walk_walks.induct)
  case (1 anc a x ks)
  have x: "node_data t a = x" using node_data_entry[OF d, of anc "TNode a x ks"] 1(2) by simp
  have below: "set (take (length b - length anc) b) = insert a (set (take (length b - Suc (length anc)) b))"
    if in_ks: "(b, m) \<in> set (walks (a # anc) ks)"
  proof -
    obtain pre where "b = pre @ a # anc" using walk_anc_suffix(2)[OF in_ks] by (auto simp: suffix_def)
    then show ?thesis by simp
  qed
  show ?case
  proof (cases "(b, m) = (anc, TNode a x ks)")
    case True
    then have "(b, m) \<notin> set (walks (a # anc) ks)" by (auto dest: walks_deeper)
    then show ?thesis using 1 True by auto
  next
    case False
    then show ?thesis using 1 below x by auto
  qed
qed auto

text \<open>\<open>f\<close> is a proper ancestor of \<open>g\<close>.\<close>

definition ancestorOf :: "fptr ptree \<Rightarrow> fptr \<Rightarrow> fptr \<Rightarrow> bool" where
  "ancestorOf t f g \<longleftrightarrow> g \<noteq> f \<and> g \<in> set (branchOf t f)"

lemma ancestorOf_iff:
  assumes wf: "wf_ptree t" and dd: "distinct (datas t)"
    and n: "(anc, n) \<in> set (entries t)" and m: "(b, m) \<in> set (entries t)"
  shows "ancestorOf t (tdata n) (tdata m) \<longleftrightarrow> addr n \<in> set b"
proof -
  have d: "distinct (addrs t)" using wf by (simp add: wf_ptree_def)
  have "m = n" if "tdata m = tdata n"
  proof -
    have "addr m = addr n"
      using find_data_unique[OF dd n] find_data_unique[OF dd m] that by (metis option.inject)
    from entries_inj[OF d m n this] show ?thesis by simp
  qed
  moreover have "addr n \<notin> set b" if "m = n"
    using walk_self_not_anc[OF d m] that by blast
  moreover have "tdata m \<in> set (branchOf t (tdata n)) \<longleftrightarrow> m = n \<or> addr n \<in> set b"
    using branch_mem[OF wf dd n m] by blast
  ultimately show ?thesis unfolding ancestorOf_def by metis
qed

lemma ancestorOf_datas: "ancestorOf t f g \<Longrightarrow> f \<in> set (datas t) \<and> g \<in> set (datas t)"
proof -
  assume ab: "ancestorOf t f g"
  then obtain a where a: "find_data t f = Some a" by (cases "find_data t f") (simp_all add: ancestorOf_def branchOf_def)
  then have "f \<in> set (datas t)" using find_data_None[of t f] by force
  moreover have "set (scan_filters t a) \<subseteq> set (datas t)"
    unfolding scan_filters_def scan_subtree_def scan_from_def datas_def
    by (auto dest!: set_takeWhileD split: list.splits)
      (metis (no_types, lifting) comp_apply image_eqI list.set_intros set_dropWhileD snd_conv)+
  ultimately show ?thesis using ab a by (auto simp: ancestorOf_def branchOf_def)
qed

lemma ancestors_are:
  assumes wf: "wf_ptree t" and dd: "distinct (datas t)" and m: "(b, m) \<in> set (entries t)"
  shows "node_data t ` set b = {h. ancestorOf t h (tdata m)}"
proof -
  have d: "distinct (addrs t)" using wf by (simp add: wf_ptree_def)
  show ?thesis
  proof (intro set_eqI iffI)
    fix h assume "h \<in> node_data t ` set b"
    then obtain a where a: "a \<in> set b" "h = node_data t a" by blast
    obtain anc k where k: "(anc, k) \<in> set (entries t)" "addr k = a"
      using anc_entry[OF m a(1)] by (auto simp: addrs_def)
    then have "h = tdata k" using node_data_entry[OF d k(1)] a(2) by simp
    then show "h \<in> {h. ancestorOf t h (tdata m)}" using ancestorOf_iff[OF wf dd k(1) m] a(1) k(2) by simp
  next
    fix h assume h: "h \<in> {h. ancestorOf t h (tdata m)}"
    then have "h \<in> set (datas t)" using ancestorOf_datas[of t h] by blast
    then obtain anc k where k: "(anc, k) \<in> set (entries t)" "tdata k = h"
      unfolding datas_entry by blast
    then have "addr k \<in> set b" using ancestorOf_iff[OF wf dd k(1) m] h by simp
    then show "h \<in> node_data t ` set b" using node_data_entry[OF d k(1)] k(2) by (metis image_eqI)
  qed
qed

lemma haveRngParent_above:
  assumes "wf_ptree t" "distinct (datas t)" "(b, m) \<in> set (entries t)"
  shows "haveRngParent w t b \<longleftrightarrow> (\<exists>h. ancestorOf t h (tdata m) \<and> type_is w FILTER_TYPE_RANGEFILE h)"
  using arg_cong[OF ancestors_are[OF assms], of "\<lambda>S. \<exists>h \<in> S. type_is w FILTER_TYPE_RANGEFILE h"]
  by (simp add: haveRngParent_def list_ex_iff)

lemma Bex_pair: "(\<exists>e \<in> S. P e) \<longleftrightarrow> (\<exists>a b. (a, b) \<in> S \<and> P (a, b))"
  by force

lemma altered_reports:
  assumes wf: "wf_ptree t" and dd: "distinct (datas t)"
  shows "[f, g] \<in> reportedFilters ` set (altered_loop c l a msg w t (entries t)) \<longleftrightarrow>
    ancestorOf t f g \<and> c f \<and> (\<nexists>h. ancestorOf t h f \<and> c h) \<and>
    l g \<and> a g (\<exists>h. ancestorOf t h g \<and> type_is w FILTER_TYPE_RANGEFILE h)"
proof -
  have d: "distinct (addrs t)" using wf by (simp add: wf_ptree_def)
  have loop: "altered_loop c l a msg w t (entries t) =
      concat (map (altered_below l a msg w t) (uppermosts c [] (roots t)))"
    using altered_loop_uppermost(2)[of "[]" "[]" c l a msg w t "roots t"] by (simp add: entries_def)
  have up: "(anc, n) \<in> set (uppermosts c [] (roots t)) \<longleftrightarrow>
      (anc, n) \<in> set (entries t) \<and> c (tdata n) \<and> (\<nexists>h. ancestorOf t h (tdata n) \<and> c h)" for anc n
  proof -
    have eq: "(anc, n) \<in> set (uppermosts c [] (roots t)) \<longleftrightarrow>
        (anc, n) \<in> set (entries t) \<and> c (tdata n) \<and> (\<forall>k \<in> node_data t ` set anc. \<not> c k)"
      using uppermost_iff(2)[OF d, of "[]" "roots t" anc n c] by (simp add: entries_def)
    show ?thesis
    proof (cases "(anc, n) \<in> set (entries t)")
      case True
      then show ?thesis using eq unfolding ancestors_are[OF wf dd True] by blast
    next
      case False
      then show ?thesis using eq by blast
    qed
  qed
  have below: "(b, m) \<in> set (walks (addr n # anc) (kids n)) \<longleftrightarrow> (b, m) \<in> set (entries t) \<and> addr n \<in> set b"
    if n: "(anc, n) \<in> set (entries t)" for anc n b m
  proof -
    have sub: "set (walk anc n) \<subseteq> set (entries t)"
      using subtree_entries(2)[of anc n "[]" "roots t"] n by (simp add: entries_def)
    have "addr n \<in> set b" if inn: "(b, m) \<in> set (walks (addr n # anc) (kids n))"
      using walk_anc_suffix(2)[OF inn] by (auto dest: set_mono_suffix)
    moreover have "(b, m) \<in> set (walks (addr n # anc) (kids n))"
      if m: "(b, m) \<in> set (entries t)" "addr n \<in> set b"
      using in_subtree_iff[OF d n m(1)] m walk_self_not_anc[OF d n] by (auto simp: walk_Cons)
    ultimately show ?thesis using sub by (auto simp: walk_Cons)
  qed
  have "[f, g] \<in> reportedFilters ` set (altered_below l a msg w t (anc, n)) \<longleftrightarrow>
      (\<exists>b m. (b, m) \<in> set (walks (addr n # anc) (kids n)) \<and> f = tdata n \<and> g = tdata m \<and>
        l (tdata m) \<and> a (tdata m) (haveRngParent w t b))" for anc n
    unfolding altered_below_def by (fastforce simp: image_iff)
  moreover have "[f, g] \<in> reportedFilters ` set (altered_loop c l a msg w t (entries t)) \<longleftrightarrow>
      (\<exists>anc n. (anc, n) \<in> set (uppermosts c [] (roots t)) \<and> [f, g] \<in> reportedFilters ` set (altered_below l a msg w t (anc, n)))"
    unfolding loop set_concat set_map image_UN UN_iff image_image bex_simps by (simp only: Bex_pair)
  ultimately have "[f, g] \<in> reportedFilters ` set (altered_loop c l a msg w t (entries t)) \<longleftrightarrow>
      (\<exists>anc n b m. (anc, n) \<in> set (uppermosts c [] (roots t)) \<and> (b, m) \<in> set (walks (addr n # anc) (kids n)) \<and>
        f = tdata n \<and> g = tdata m \<and> l (tdata m) \<and> a (tdata m) (haveRngParent w t b))"
    by blast
  also have "\<dots> \<longleftrightarrow> (\<exists>anc n b m. (anc, n) \<in> set (entries t) \<and> (b, m) \<in> set (entries t) \<and> f = tdata n \<and> g = tdata m \<and>
      ancestorOf t f g \<and> c f \<and> (\<nexists>h. ancestorOf t h f \<and> c h) \<and>
      l g \<and> a g (\<exists>h. ancestorOf t h g \<and> type_is w FILTER_TYPE_RANGEFILE h))"
    (is "(\<exists>anc n b m. ?P anc n b m) = (\<exists>anc n b m. ?Q anc n b m)")
  proof -
    have "?P anc n b m = ?Q anc n b m" for anc n b m
    proof (cases "((anc, n) \<in> set (entries t) \<and> (b, m) \<in> set (entries t)) \<and> f = tdata n \<and> g = tdata m")
      case True
      then show ?thesis
        using haveRngParent_above[OF wf dd, of b m w] ancestorOf_iff[OF wf dd, of anc n b m] up[of anc n] below[of anc n b m]
        by (simp add: conj_ac)
    next
      case False
      then show ?thesis using up[of anc n] below[of anc n b m] by blast
    qed
    then show ?thesis by (simp only:)
  qed
  also have "\<dots> \<longleftrightarrow> ancestorOf t f g \<and> c f \<and> (\<nexists>h. ancestorOf t h f \<and> c h) \<and>
      l g \<and> a g (\<exists>h. ancestorOf t h g \<and> type_is w FILTER_TYPE_RANGEFILE h)"
    using ancestorOf_datas[of t f g] by (auto simp: datas_entry)
  finally show ?thesis .
qed

text \<open>
  The sampling warning is raised for exactly the pairs of an uppermost sampling
  filter and a filter somewhere below it whose result depends on the density: a cluster analysis
  below a range file, a normalised profile that is not below one, or a spatial analysis. In
  particular no filter of another kind is ever reported, and a sampling filter below another one
  is never named as the cause.
\<close>

theorem spatialSampling_reports:
  assumes "wf_ptree t" "distinct (datas t)"
  shows "[f, g] \<in> reportedFilters ` set (spatialSampling A w t) \<longleftrightarrow>
    ancestorOf t f g \<and> get_filt False (filterIsSampling A) w f \<and>
    (\<nexists>h. ancestorOf t h f \<and> get_filt False (filterIsSampling A) w h) \<and>
    get_filt False (\<lambda>k. affectedBySampling A k (\<exists>h. ancestorOf t h g \<and> type_is w FILTER_TYPE_RANGEFILE h)) w g"
proof -
  have "affectedBySampling A k b \<Longrightarrow>
      f_type k \<in> {FILTER_TYPE_CLUSTER_ANALYSIS, FILTER_TYPE_PROFILE, FILTER_TYPE_SPATIAL_ANALYSIS}" for k b
    by (simp add: affectedBySampling_def split: filterType.splits)
  then have "get_filt False (\<lambda>k. affectedBySampling A k b) w g \<Longrightarrow>
      type_in w [FILTER_TYPE_CLUSTER_ANALYSIS, FILTER_TYPE_PROFILE, FILTER_TYPE_SPATIAL_ANALYSIS, FILTER_TYPE_IONINFO] g" for b
    by (fastforce simp: type_in_def get_filt_def split: option.splits)
  then show ?thesis unfolding spatialSampling_def altered_reports[OF assms] by blast
qed

text \<open>
  The composition warning, likewise: a cluster analysis or a normalised profile
  below a range file, below an uppermost filter that changes the composition.
\<close>

theorem compositionAltered_reports:
  assumes "wf_ptree t" "distinct (datas t)"
  shows "[f, g] \<in> reportedFilters ` set (compositionAltered A w t) \<longleftrightarrow>
    ancestorOf t f g \<and> get_filt False (filterAltersComposition A) w f \<and>
    (\<nexists>h. ancestorOf t h f \<and> get_filt False (filterAltersComposition A) w h) \<and>
    (\<exists>h. ancestorOf t h g \<and> type_is w FILTER_TYPE_RANGEFILE h) \<and>
    (type_is w FILTER_TYPE_CLUSTER_ANALYSIS g \<or> type_is w FILTER_TYPE_PROFILE g \<and>
      get_filt False (\<lambda>k. prop_data A PROFILE_KEY_NORMALISE (a_getProperties A k) = ''1'') w g)"
proof -
  have "type_in w [FILTER_TYPE_CLUSTER_ANALYSIS, FILTER_TYPE_PROFILE, FILTER_TYPE_IONINFO] g \<and>
      get_filt False (\<lambda>f. filterAffectedByComposition A f b) w g \<longleftrightarrow>
      b \<and> (type_is w FILTER_TYPE_CLUSTER_ANALYSIS g \<or> type_is w FILTER_TYPE_PROFILE g \<and>
        get_filt False (\<lambda>k. prop_data A PROFILE_KEY_NORMALISE (a_getProperties A k) = ''1'') w g)" for b
    by (auto simp: type_in_def type_is_def get_filt_def filterAffectedByComposition_def split: option.splits)
  then show ?thesis unfolding compositionAltered_def altered_reports[OF assms] by blast
qed

lemma climb_rng: "climb w t ty anc \<longleftrightarrow> list_ex (\<lambda>a. type_is w ty (node_data t a)) anc"
  by (induction anc) auto

text \<open>
  The check for required parents reports exactly the filters of the tree that need a
  range file above them and have none among their ancestors.
\<close>

theorem checkRequiredParent_exact:
  assumes "wf_ptree t" "distinct (datas t)"
  shows "[f] \<in> reportedFilters ` set (checkRequiredParent w t) \<longleftrightarrow>
    f \<in> set (datas t) \<and> get_filt False needsRangeParent w f \<and>
    (\<nexists>h. ancestorOf t h f \<and> type_is w FILTER_TYPE_RANGEFILE h)"
proof -
  have "[f] \<in> reportedFilters ` set (checkRequiredParent w t) \<longleftrightarrow>
      (\<exists>e \<in> set (entries t). tdata (snd e) = f \<and> get_filt False needsRangeParent w f \<and> \<not> haveRngParent w t (fst e))"
    unfolding checkRequiredParent_def climb_rng haveRngParent_def Let_def
    by (auto simp: image_UN split: if_splits)
  also have "\<dots> \<longleftrightarrow> (\<exists>anc n. (anc, n) \<in> set (entries t) \<and> tdata n = f) \<and> get_filt False needsRangeParent w f \<and>
      (\<nexists>h. ancestorOf t h f \<and> type_is w FILTER_TYPE_RANGEFILE h)"
  proof -
    have "haveRngParent w t anc \<longleftrightarrow> (\<exists>h. ancestorOf t h f \<and> type_is w FILTER_TYPE_RANGEFILE h)"
      if "(anc, n) \<in> set (entries t)" "tdata n = f" for anc n
      using haveRngParent_above[OF assms that(1)] that(2) by simp
    then show ?thesis by (simp only: Bex_pair snd_conv fst_conv) blast
  qed
  finally show ?thesis by (simp add: datas_entry)
qed

lemma exists_split_Cons:
  "(\<exists>xs ys. z # zs = xs @ f # ys \<and> P ys) \<longleftrightarrow> f = z \<and> P zs \<or> (\<exists>xs ys. zs = xs @ f # ys \<and> P ys)"
  (is "?L \<longleftrightarrow> ?R")
proof
  assume ?L
  then obtain xs ys where eq: "z # zs = xs @ f # ys" "P ys" by blast
  then show ?R by (cases xs) auto
next
  assume ?R
  then consider "f = z" "P zs" | xs ys where "zs = xs @ f # ys" "P ys" by blast
  then show ?L
  proof cases
    case 1
    then show ?thesis by (intro exI[of _ "[]"] exI[of _ zs]) simp
  next
    case 2
    then show ?thesis by (intro exI[of _ "z # xs"] exI[of _ ys]) simp
  qed
qed

lemma report_pairs:
  "[f, g] \<in> reportedFilters ` set (map (\<lambda>j. \<lparr>reportedFilters = [x, h j], shortReportMessage = m, severity = v\<rparr>)
      (filter (\<lambda>j. u (h j)) es)) \<longleftrightarrow> (f = x \<and> g \<in> set (map h es)) \<and> u g"
  unfolding list.set_map image_image set_filter by auto

lemma unranged_loop_reports:
  "[f, g] \<in> reportedFilters ` set (unranged_loop A w es) \<longleftrightarrow>
    (\<exists>xs ys. map (tdata \<circ> snd) es = xs @ f # ys \<and> g \<in> set (f # ys)) \<and>
    type_is w FILTER_TYPE_RANGEFILE f \<and> get_filt False (a_dropUnranged A) w f \<and> get_filt False (needsUnrangedData A) w g"
proof (induction es)
  case (Cons e es)
  have split: "(\<exists>xs ys. tdata (snd e) # map (tdata \<circ> snd) es = xs @ f # ys \<and> g \<in> set (f # ys)) \<longleftrightarrow>
      f = tdata (snd e) \<and> g \<in> set (map (tdata \<circ> snd) (e # es)) \<or>
      (\<exists>xs ys. map (tdata \<circ> snd) es = xs @ f # ys \<and> g \<in> set (f # ys))"
    using exists_split_Cons[of "tdata (snd e)" "map (tdata \<circ> snd) es" f "\<lambda>ys. g \<in> set (f # ys)"] by auto
  have head: "[f, g] \<in> reportedFilters ` set (if type_is w FILTER_TYPE_RANGEFILE (tdata (snd e)) \<and>
        get_filt False (a_dropUnranged A) w (tdata (snd e))
      then map (\<lambda>j. \<lparr>reportedFilters = [tdata (snd e), tdata (snd j)], shortReportMessage = ''Bad range filter settings'',
                     severity = ANALYSE_SEVERITY_WARNING\<rparr>)
             (filter (\<lambda>j. get_filt False (needsUnrangedData A) w (tdata (snd j))) (e # es)) else []) \<longleftrightarrow>
      (f = tdata (snd e) \<and> g \<in> set (map (tdata \<circ> snd) (e # es))) \<and> type_is w FILTER_TYPE_RANGEFILE f \<and>
      get_filt False (a_dropUnranged A) w f \<and> get_filt False (needsUnrangedData A) w g"
    (is "_ \<in> _ ` set (if ?c then _ else _) \<longleftrightarrow> _")
  proof (cases ?c)
    case True
    then show ?thesis
      unfolding if_P[OF True] report_pairs[of f g "tdata (snd e)" "\<lambda>j. tdata (snd j)" _ _ "get_filt False (needsUnrangedData A) w" "e # es"]
        comp_def by blast
  next
    case False
    then show ?thesis by auto
  qed
  show ?case
    unfolding unranged_loop.simps set_append image_Un Un_iff head Cons.IH list.map comp_apply[of tdata snd e] split by blast
qed simp

text \<open>
  The check for dropped unranged data pairs a range file that drops it with every
  filter that needs it and comes later in depth-first order, whether or not it is below the range
  file.
\<close>

theorem checkUnrangedData_later:
  "[f, g] \<in> reportedFilters ` set (checkUnrangedData A w t) \<longleftrightarrow>
    (\<exists>xs ys. datas t = xs @ f # ys \<and> g \<in> set (f # ys)) \<and>
    type_is w FILTER_TYPE_RANGEFILE f \<and> get_filt False (a_dropUnranged A) w f \<and> get_filt False (needsUnrangedData A) w g"
  unfolding checkUnrangedData_def unranged_loop_reports datas_def ..

lemma pairError_report:
  "[g, f] \<in> reportedFilters ` set (pairError V w em bl x k) \<longleftrightarrow> f = x \<and> g = k \<and>
    and (or (map_at em x) (emitMask V w x)) (useMask V w k) = 0 \<and>
    (and (or (map_at em x) (emitMask V w x)) (not (or (map_at bl k) (blockMask V w k))) = 0 \<or>
     \<not> get_filt False (v_isUsefulAsAppend V) w k)"
  by (auto simp: pairError_def Let_def)

text \<open>
  Property C26. A pair of a filter and its parent is reported exactly when the child can use
  nothing that can be in its input, and either passes nothing of it on or is of no use as an
  addition. So a filter with empty output cannot have a child without a report.
\<close>

theorem blockingPairError_exact:
  assumes "wf_ptree t" "distinct (datas t)"
  shows "[g, f] \<in> reportedFilters ` set (blockingPairError V w t em bl) \<longleftrightarrow>
    parentOf t g = Some f \<and>
    and (or (map_at em f) (emitMask V w f)) (useMask V w g) = 0 \<and>
    (and (or (map_at em f) (emitMask V w f)) (not (or (map_at bl g) (blockMask V w g))) = 0 \<or>
     \<not> get_filt False (v_isUsefulAsAppend V) w g)"
  (is "_ \<longleftrightarrow> _ \<and> ?bad")
proof -
  have d: "distinct (addrs t)" using assms(1) by (simp add: wf_ptree_def)
  have par: "(\<exists>anc n. (anc, n) \<in> set (entries t) \<and> tdata n = f \<and> (\<exists>k \<in> set (kids n). tdata k = g)) \<longleftrightarrow> parentOf t g = Some f"
  proof
    assume "\<exists>anc n. (anc, n) \<in> set (entries t) \<and> tdata n = f \<and> (\<exists>k \<in> set (kids n). tdata k = g)"
    then obtain anc n k where n: "(anc, n) \<in> set (entries t)" "tdata n = f" and k: "k \<in> set (kids n)" "tdata k = g" by blast
    have "(addr n, tdata n) \<in># imset t" using entry_item[of "(anc, n)" "[]" "roots t"] n by (simp add: imset_def entries_def)
    from parentOf_entry[OF assms walk_kids[OF n(1) k(1)] this] show "parentOf t g = Some f" using n k by simp
  next
    assume p: "parentOf t g = Some f"
    then obtain a where a: "find_data t g = Some a" by (cases "find_data t g") (simp_all add: parentOf_def)
    then have "g \<in> set (datas t)" using find_data_None[of t g] by force
    then obtain b k where k: "(b, k) \<in> set (entries t)" "tdata k = g" unfolding datas_entry by blast
    show "\<exists>anc n. (anc, n) \<in> set (entries t) \<and> tdata n = f \<and> (\<exists>k \<in> set (kids n). tdata k = g)"
    proof (cases b)
      case Nil
      then show ?thesis using parentOf_root[OF assms, of k] k p by simp
    next
      case (Cons c anc)
      then obtain n where n: "(anc, n) \<in> set (entries t)" "addr n = c" "k \<in> set (kids n)"
        using entry_parent[of c anc k t] k(1) by blast
      have "(addr n, tdata n) \<in># imset t" using entry_item[of "(anc, n)" "[]" "roots t"] n by (simp add: imset_def entries_def)
      from parentOf_entry[OF assms walk_kids[OF n(1,3)] this] show ?thesis using n k p by auto
    qed
  qed
  have "[g, f] \<in> reportedFilters ` set (blockingPairError V w t em bl) \<longleftrightarrow>
      (\<exists>e \<in> set (entries t). \<exists>k \<in> set (kids (snd e)).
        [g, f] \<in> reportedFilters ` set (pairError V w em bl (tdata (snd e)) (tdata k)))"
    unfolding blockingPairError_def by (simp add: image_UN split_beta)
  also have "\<dots> \<longleftrightarrow> (\<exists>e \<in> set (entries t). tdata (snd e) = f \<and> (\<exists>k \<in> set (kids (snd e)). tdata k = g)) \<and> ?bad"
    unfolding pairError_report by auto
  finally show ?thesis using par unfolding Bex_pair snd_conv by simp
qed

end
