(* ===== verification/FilterTreeBase.thy ===== *)
theory FilterTreeBase
  imports FilterTreeOps
begin

text \<open>
  The operations of FilterTreeOps at the base of the tree, where no parent is given (a null pointer), and the taking
  over of another tree by \<^verbatim>\<open>addFilterTree\<close>: which filters the tree holds afterwards, and that it stays well formed.
\<close>

section \<open>The base filters\<close>

lemma begin_some: "(anc, n) \<in> set (entries t) \<Longrightarrow> \<exists>b bn. tree_begin t = Some b \<and> ([], bn) \<in> set (entries t) \<and> addr bn = b"
  using begin_entry[of t] by (cases "tree_begin t") (auto simp: tree_begin_def entries_def split: list.splits)

lemma reparentFilter_root:
  assumes ok: "ft_ok w F" and init: "filter_init (v_initFilter V)" and co: "caches_ok w"
    and f: "f \<in> set (datas (ft F))" and step: "reparentFilter V F f 0 w = (F', w', moved)"
  shows "moved \<and> wf_ptree (ft F') \<and> mset (datas (ft F')) = mset (datas (ft F)) \<and> parentOf (ft F') f = None \<and>
    branchOf (ft F') f = branchOf (ft F) f \<and> live_frame w w'"
proof -
  obtain anc n where n: "(anc, n) \<in> set (entries (ft F))" "tdata n = f" "find_data (ft F) f = Some (addr n)"
    using ft_ok_entry[OF ok f] .
  obtain b bn where b: "tree_begin (ft F) = Some b" "([], bn) \<in> set (entries (ft F))" "addr bn = b"
    using begin_some[OF n(1)] by blast
  have wf: "wf_ptree (ft F)" and dd: "distinct (datas (ft F))" using ok by (simp_all add: ft_ok_def)
  obtain t1 rn where t1: "insert_after (ft F) (addr bn) 0 = (t1, rn)" by fastforce
  note af = insert_after_facts[OF wf b(2) t1]
  have kept: "(anc, n) \<in> set (entries t1)" by (rule insert_after_kept[OF wf b(2) n(1) t1])
  have "wf_ptree t1" using wf_add_item[OF wf af(1,2)] af(2,3) by simp
  then have at: "entry_at t1 (addr n) = Some (anc, n)" using entry_at_Some kept by (auto simp: wf_ptree_def)
  let ?l = "reparentCacheList (ft F) (addr n) @ [f]"
  have F': "ft F' = erase (fst (replace t1 rn n)) (addr n)" and m: moved
    and st: "w' = initFilterTree V (ft F') (fold (clearCache V) ?l w)"
    using step n(3) b(1,3) t1 at by (auto simp: reparentFilter_def clearCaches_def Let_def)
  have na: "next_addr t1 = Suc rn" using af(2,3) by simp
  note mf = move_facts[OF wf n(1) af(1,2) na af(4) kept _ F', simplified]
  obtain c where c: "([], c) \<in> set (entries (ft F'))" "map snd (flat c) = map snd (flat n)" "tdata c = tdata n"
    using mf(3) by blast
  note dd' = ft_ok_datas_eq[OF ok mf(1,2)]
  have "parentOf (ft F') f = None" using parentOf_root[OF mf(1) dd'(1) c(1)] c(3) n(2) by simp
  moreover have "branchOf (ft F') f = branchOf (ft F) f"
    using branchOf_entry[OF mf(1) dd'(1) c(1)] branchOf_entry[OF wf dd n(1)] c n by simp
  moreover have "live_frame w w'"
  proof -
    have "set ?l \<subseteq> set (datas (ft F))"
      using f by (auto simp: reparentCacheList_def scan_from_def datas_def split: option.splits dest!: set_dropWhileD)
    then have "\<forall>p \<in> set ?l. filts w p \<noteq> None" using ok by (auto simp: ft_ok_def)
    from live_frame_clearCaches[OF co this, of V] have cl: "live_frame w (fold (clearCache V) ?l w)" .
    have "\<forall>p \<in> set (datas (ft F')). filts (fold (clearCache V) ?l w) p \<noteq> None"
      using cl ok dd'(2) by (simp add: live_frame_def ft_ok_def)
    from filter_init.initFilterTree_frame[OF init refl this]
    have "live_frame (fold (clearCache V) ?l w) w'" unfolding st by (rule frame_live_frame)
    then show ?thesis by (rule live_frame_trans[OF cl])
  qed
  ultimately show ?thesis using m mf(1,2) by simp
qed

lemma copyFilter_root:
  assumes ok: "ft_ok w F" and wo: "world_ok w" and init: "filter_init (v_initFilter V)"
    and f: "f \<in> set (datas (ft F))" and step: "copyFilter V F f 0 w = (F', w', copied)"
  shows "copied \<and> (\<exists>qs. (\<forall>x \<in> set qs. filts w x = None) \<and> length qs = length (branchOf (ft F) f) \<and>
      mset (datas (ft F')) = mset (datas (ft F)) + mset qs) \<and>
    ub w' = ub w \<and> ft_ok w' F' \<and> world_ok w' \<and> (\<forall>x. filts w x \<noteq> None \<longrightarrow> filts w' x \<noteq> None)"
proof -
  obtain anc n where n: "(anc, n) \<in> set (entries (ft F))" "tdata n = f" "find_data (ft F) f = Some (addr n)"
    using ft_ok_entry[OF ok f] .
  obtain b bn where b: "tree_begin (ft F) = Some b" "([], bn) \<in> set (entries (ft F))" "addr bn = b"
    using begin_some[OF n(1)] by blast
  have wf: "wf_ptree (ft F)" and dd: "distinct (datas (ft F))" using ok by (simp_all add: ft_ok_def)
  have d: "distinct (addrs (ft F))" using wf by (simp add: wf_ptree_def)
  obtain t1 rn where t1: "insert_after (ft F) (addr bn) 0 = (t1, rn)" by fastforce
  obtain tmp w1 where cb: "cloneBranch V n w = (tmp, w1)" by fastforce
  have res: "ft F' = graft (t1, rn) tmp" "w' = initFilterTree V (ft F') w1" copied
    using step n(3) b(1,3) t1 cb entry_at_Some[OF d n(1)] by (auto simp: copyFilter_def Let_def)
  have "snd ` set (flat n) \<subseteq> set (datas (ft F))"
    using subtree_entries(2)[of anc n "[]" "roots (ft F)"] n(1) arg_cong[OF map_walk(1)[of anc n], of set]
    by (force simp: datas_def entries_def)
  then have live: "\<forall>x \<in> snd ` set (flat n). filts w x \<noteq> None" using ok by (auto simp: ft_ok_def)
  note cf = cloneBranch_facts[OF wo live cb]
  obtain c where c: "roots tmp = [c]" "map snd (flat c) = [next_f w..<next_f w1]" "length (flat c) = length (flat n)"
    using cf(1) by blast
  note af = insert_after_facts[OF wf b(2) t1]
  have na: "next_addr t1 = Suc rn" using af(2,3) by simp
  note gf = graft_facts[OF wf af(1,2) na af(4) c(1) res(1)]
  let ?qs = "[next_f w..<next_f w1]"
  have ms: "mset (datas (ft F')) = mset (datas (ft F) @ ?qs)" using gf(2) c(2) by simp
  have "distinct (datas (ft F) @ ?qs)"
    using dd ok world_ok_live[OF wo] by (fastforce simp: ft_ok_def)
  then have dd': "distinct (datas (ft F'))" using ms by (metis mset_eq_imp_distinct_iff)
  have st: "set (datas (ft F')) = set (datas (ft F)) \<union> set ?qs" using mset_eq_setD[OF ms] by simp
  have new: "filts w1 x \<noteq> None" if "x \<in> set ?qs" for x
  proof -
    have "filts w1 x \<in> set (map (filts w1) ?qs)" using that by simp
    then show ?thesis unfolding cf(5) using live by auto
  qed
  have old: "filts w1 x \<noteq> None" if "filts w x \<noteq> None" for x
    using that cf(3) world_ok_live[OF wo] by (simp add: frame_old_def)
  have fresh: "filts w x = None" if "x \<in> set ?qs" for x using that wo by (simp add: world_ok_def)
  have nz: "x \<noteq> 0" if "x \<in> set ?qs" for x using that wo by (auto simp: world_ok_def)
  have l1: "x \<noteq> 0 \<and> filts w1 x \<noteq> None" if "x \<in> set (datas (ft F'))" for x
    using that st new old nz ok by (auto simp: ft_ok_def)
  then have fr: "frame w1 w'"
    using filter_init.initFilterTree_frame[OF init refl, of "ft F'" w1] res(2) by blast
  have "ft_ok w' F'" using gf(1) dd' l1 fr by (auto simp: ft_ok_def frame_def)
  moreover have "ub w' = ub w" "world_ok w'"
    using fr cf(2,3) frame_world_ok[OF fr] by (simp_all add: frame_def frame_old_def)
  moreover have "\<forall>x. filts w x \<noteq> None \<longrightarrow> filts w' x \<noteq> None" using old fr by (simp add: frame_def)
  moreover have "length ?qs = length (branchOf (ft F) f)"
    using branchOf_entry[OF wf dd n(1)] n(2) c(2,3) by (metis length_map)
  moreover have "mset (datas (ft F')) = mset (datas (ft F)) + mset ?qs" using ms by (metis mset_append)
  ultimately show ?thesis using res(3) fresh by blast
qed

section \<open>Taking over another tree\<close>

lemma insert_before_facts:
  assumes "wf_ptree t" "(anc, p) \<in> set (entries t)" "tree_insert t (Some (addr p)) x = (t', a)"
  shows "imset t' = add_mset (a, x) (imset t)" "a = next_addr t" "next_addr t' = Suc a"
    "(anc, TNode a x []) \<in> set (entries t')" "(anc, p) \<in> set (entries t')"
proof -
  let ?g = "\<lambda>n. [TNode (next_addr t) x [], n]"
  have t': "t' = t\<lparr>roots := splice_at (addr p) ?g (roots t), next_addr := Suc (next_addr t)\<rparr>" and a: "a = next_addr t"
    using assms(3) by (auto simp: tree_insert_def Let_def)
  show "imset t' = add_mset (a, x) (imset t)"
    using splice_items(2)[of "roots t" anc p "[]" ?g] wf_ptree_distinct[OF assms(1)] assms(2)
    by (simp add: entries_def t' imset_def a)
  show "a = next_addr t" "next_addr t' = Suc a" by (simp_all add: a t')
  have "set (walks anc (?g p)) \<subseteq> set (entries t')"
    using walk_splice_new(2)[of "roots t" anc p "[]" ?g] wf_ptree_distinct[OF assms(1)] assms(2)
    by (simp add: entries_def t')
  then show "(anc, TNode a x []) \<in> set (entries t')" "(anc, p) \<in> set (entries t')"
    using walk_self[of anc p] by (auto simp: a)
qed

text \<open>A subtree put in place of a fresh placeholder.\<close>

lemma planted:
  fixes t :: "fptr ptree"
  assumes "wf_ptree t" "imset t1 = add_mset (rn, 0) (imset t)" "rn = next_addr t" "next_addr t1 = Suc rn"
    "(panc, TNode rn 0 []) \<in> set (entries t1)"
  shows "wf_ptree (fst (replace t1 rn g))"
    "mset (datas (fst (replace t1 rn g))) = mset (datas t) + mset (map snd (flat g))"
  using graft_facts(1,2)[OF assms, of "\<lparr>roots = [g], next_addr = 0\<rparr>" g "fst (replace t1 rn g)"]
  by (simp_all add: graft_def)

lemma addFilterTree_core:
  assumes wf: "wf_ptree (ft F)" and dd: "distinct (datas (ft F))" and p: "p = 0 \<or> p \<in> set (datas (ft F)) \<and> roots (ft G) \<noteq> []"
    and step: "addFilterTree F G p w = (F', G', w')"
  shows "w' = w \<and> datas (ft G') = [] \<and> wf_ptree (ft F') \<and> (\<exists>gs. mset (datas (ft F')) = mset (datas (ft F)) + mset gs \<and>
    gs = (case roots (ft G) of [] \<Rightarrow> [] | g # _ \<Rightarrow> map snd (flat g)))"
proof -
  have G': "datas (ft (G\<lparr>ft := clear_tree (ft G)\<rparr>)) = []" by (simp add: clear_tree_def datas_def entries_def)
  show ?thesis
  proof (cases "p = 0")
    case True
    show ?thesis
    proof (cases "roots (ft G)")
      case Nil
      then show ?thesis using step True G' wf by (auto simp: addFilterTree_def Let_def)
    next
      case (Cons g gs)
      show ?thesis
      proof (cases "tree_begin (ft F)")
        case None
        obtain t1 rn where t1: "tree_insert (ft F) (tree_begin (ft F)) 0 = (t1, rn)" by fastforce
        note ib = insert_begin_facts[OF wf t1]
        have na: "next_addr t1 = Suc rn" using ib(2,3) by simp
        note pl = planted[OF wf ib(1,2) na ib(4), of g]
        then show ?thesis
          using step True Cons None t1 G' by (auto simp: addFilterTree_def insert_subtree_def Let_def)
      next
        case (Some b)
        then obtain bn where bn: "([], bn) \<in> set (entries (ft F))" "addr bn = b" using begin_entry by blast
        obtain t1 rn where t1: "insert_after (ft F) (addr bn) 0 = (t1, rn)" by fastforce
        note ia = insert_after_facts[OF wf bn(1) t1]
        have na: "next_addr t1 = Suc rn" using ia(2,3) by simp
        note pl = planted[OF wf ia(1,2) na ia(4), of g]
        then show ?thesis
          using step True Cons Some bn(2) t1 G' by (auto simp: addFilterTree_def insert_subtree_after_def Let_def)
      qed
    qed
  next
    case False
    then obtain g gs where g: "roots (ft G) = g # gs" and pin: "p \<in> set (datas (ft F))" using p by (cases "roots (ft G)") auto
    obtain panc pn where pn: "(panc, pn) \<in> set (entries (ft F))" "tdata pn = p" "find_data (ft F) p = Some (addr pn)"
      using pin find_data_unique[OF dd] unfolding datas_entry by metis
    obtain t1 it where t1: "append_child (ft F) (addr pn) 0 = (t1, it)" by fastforce
    note af = append_child_facts[OF wf pn(1) t1]
    let ?ph = "TNode it 0 [] :: fptr tnode"
    have na: "next_addr t1 = Suc it" and wf1: "wf_ptree t1" using wf_add_item[OF wf af(1,2)] af(2,3) by simp_all
    obtain t2 d where t2: "tree_insert t1 (Some (addr ?ph)) 0 = (t2, d)" by fastforce
    note ib = insert_before_facts[OF wf1 af(4) t2]
    have nb: "next_addr t2 = Suc d" and wf2: "wf_ptree t2" using wf_add_item[OF wf1 ib(1,2)] ib(2,3) by simp_all
    note pl = planted[OF wf1 ib(1,2) nb ib(4), of g]
    let ?t3 = "fst (replace t2 d g)"
    obtain c k where c: "relabel (next_addr t2) g = (c, k)" by fastforce
    have t3: "?t3 = t2\<lparr>roots := splice_at d (\<lambda>_. [c]) (roots t2), next_addr := k\<rparr>" using c by (simp add: replace_def)
    have "it < d" using ib(2) na by simp
    moreover have "d \<notin> set (addr pn # panc)"
      using anc_entry[OF af(4)] wf1 ib(2) by (fastforce simp: wf_ptree_def)
    ultimately have ph: "(addr pn # panc, ?ph) \<in> set (entries ?t3)"
      unfolding t3 using entry_splice_kept[OF wf2 ib(5), of d "\<lambda>_. [c]" k] by simp
    have im: "imset (erase ?t3 it) + mset (flat ?ph) = imset ?t3" using erase_facts(1)[OF pl(1) ph] by simp
    have "mset (datas (erase ?t3 it)) + {#0#} = mset (datas ?t3)"
      using arg_cong[OF im, of "image_mset snd"] by (simp add: mset_datas)
    also have "\<dots> = mset (datas (ft F)) + {#0#} + mset (map snd (flat g))"
      using pl(2) af(1) by (simp add: mset_datas)
    finally have "mset (datas (erase ?t3 it)) = mset (datas (ft F)) + mset (map snd (flat g))" by simp
    moreover have "wf_ptree (erase ?t3 it)" using wf_erase[OF pl(1) ph] by simp
    moreover have "F' = F\<lparr>ft := erase ?t3 it\<rparr>" "G' = G\<lparr>ft := clear_tree (ft G)\<rparr>" "w' = w"
      using step False pn(3) g t1 t2 by (auto simp: addFilterTree_def insert_subtree_def Let_def)
    ultimately show ?thesis using g G' by simp
  qed
qed

end
