(* ===== verification/Snapshots.thy ===== *)
theory Snapshots
  imports FilterTreeOps
begin

text \<open>
  Copies of whole filter trees, as the undo history and the stash keep them: which filters a copy
  owns and what it looks like. The locale states what a container of owned objects needs from
  copying and destroying one of them; the filter tree provides it.
\<close>

section \<open>The picture of a tree\<close>

definition depths :: "'a ptree \<Rightarrow> nat list" where
  "depths t = map (length \<circ> fst) (entries t)"

text \<open>
  Two forests with the same depths in depth-first order have the same shape; with the values of the
  filters this is all of a tree but the addresses.
\<close>

definition picture :: "'p world \<Rightarrow> fptr ptree \<Rightarrow> (nat \<times> 'p filt option) list" where
  "picture w t = zip (depths t) (map (filts w) (datas t))"

definition clonePicture :: "'p vtable \<Rightarrow> (nat \<times> 'p filt option) list \<Rightarrow> (nat \<times> 'p filt option) list" where
  "clonePicture V p = map (\<lambda>(d, f). (d, map_option (clone_of V) f)) p"

lemma clonePicture_picture:
  "clonePicture V (picture w t) = zip (depths t) (map (map_option (clone_of V) \<circ> filts w) (datas t))"
  by (auto simp: clonePicture_def picture_def zip_map2 comp_def)

lemma relabel_depths:
  fixes n :: "'a tnode" and ns :: "'a tnode list"
  shows "relabel k n = (c, k') \<Longrightarrow> length anc = length anc' \<Longrightarrow>
      map (length \<circ> fst) (walk anc c) = map (length \<circ> fst) (walk anc' n)"
    and "relabels k ns = (cs, k') \<Longrightarrow> length anc = length anc' \<Longrightarrow>
      map (length \<circ> fst) (walks anc cs) = map (length \<circ> fst) (walks anc' ns)"
proof (induction k n and k ns arbitrary: c k' anc anc' and cs k' anc anc' rule: relabel_relabels.induct)
  case (1 k a x ks)
  obtain cs k1 where cs: "relabels (Suc k) ks = (cs, k1)" by fastforce
  then show ?case using 1(1)[OF cs, of "k # anc" "a # anc'"] 1(2,3) by (auto simp: comp_def)
next
  case (3 k n ns)
  obtain c k1 where c: "relabel k n = (c, k1)" by fastforce
  obtain cs' k2 where cs': "relabels k1 ns = (cs', k2)" by fastforce
  show ?case using 3(1)[OF c 3(4)] 3(2)[OF c[symmetric] refl cs' 3(4)] 3(3) c cs' by (auto simp: comp_def)
qed auto

lemma clone_depths:
  fixes n :: "fptr tnode" and ns :: "fptr tnode list"
  shows "clone_nodes V n w = (c, w') \<Longrightarrow> map (length \<circ> fst) (walk anc c) = map (length \<circ> fst) (walk anc n)"
    and "clone_forest V ns w = (cs, w') \<Longrightarrow> map (length \<circ> fst) (walks anc cs) = map (length \<circ> fst) (walks anc ns)"
proof (induction V n w and V ns w arbitrary: c w' anc and cs w' anc rule: clone_nodes_clone_forest.induct)
  case (1 V a p ks w)
  obtain q w1 where q: "cloneUncached V p w = (q, w1)" by fastforce
  obtain ks' w2 where ks': "clone_forest V ks w1 = (ks', w2)" by fastforce
  show ?case using 1(1)[OF q[symmetric] refl ks', of "a # anc"] 1(2) q ks' by (auto simp: comp_def)
next
  case (3 V n ns w)
  obtain n1 w1 where n1: "clone_nodes V n w = (n1, w1)" by fastforce
  obtain ns1 w2 where ns1: "clone_forest V ns w1 = (ns1, w2)" by fastforce
  show ?case using 3(1)[OF n1, of anc] 3(2)[OF n1[symmetric] refl ns1, of anc] 3(3) n1 ns1
    by (auto simp: comp_def)
qed auto

lemma copy_tree_facts:
  "wf_ptree (copy_tree t)" "datas (copy_tree t) = datas t" "depths (copy_tree t) = depths t"
proof -
  obtain rs k where rs: "relabels (Suc (length (roots t))) (roots t) = (rs, k)" by fastforce
  note rf = relabel_facts(2)[OF rs]
  show "wf_ptree (copy_tree t)"
    using rf rs by (auto simp: wf_ptree_def addrs_items copy_tree_def)
  show "datas (copy_tree t) = datas t" using rf rs by (simp add: datas_items copy_tree_def)
  show "depths (copy_tree t) = depths t"
    using relabel_depths(2)[OF rs refl, of "[]"] rs by (simp add: depths_def entries_def copy_tree_def)
qed

lemma cloneAll_facts:
  assumes "world_ok w" "wf_ptree t" "\<forall>p \<in> set (datas t). filts w p \<noteq> None" "cloneAll V t w = (t', w')"
  shows "wf_ptree t'" "datas t' = [next_f w..<next_f w']" "next_f w \<le> next_f w'" "world_ok w'"
    "frame_old w w'" "picture w' t' = clonePicture V (picture w t)" "depths t' = depths t"
proof -
  obtain rs where rs: "clone_forest V (roots t) w = (rs, w')" "t' = t\<lparr>roots := rs\<rparr>"
    using assms(4) by (auto simp: cloneAll_def split: prod.splits)
  have rt: "roots t' = rs" using rs(2) by simp
  have live: "\<forall>p \<in> snd ` set (items (roots t)). filts w p \<noteq> None"
    using assms(3) by (simp add: datas_items)
  note cf = clone_forest_facts(2)[OF assms(1) live rs(1)]
  show d: "datas t' = [next_f w..<next_f w']" and "next_f w \<le> next_f w'" "world_ok w'" "frame_old w w'"
    using cf rs(2) by (simp_all add: datas_items)
  have "addrs t' = addrs t" using cf rs(2) by (simp add: addrs_items)
  then show "wf_ptree t'" using assms(2) rs(2) by (simp add: wf_ptree_def)
  show dp: "depths t' = depths t"
    using clone_depths(2)[OF rs(1), of "[]"] rs(2) by (simp add: depths_def entries_def)
  have "map (filts w') (datas t') = map (map_option (clone_of V) \<circ> filts w) (datas t)"
    using cf rt unfolding datas_items by metis
  then show "picture w' t' = clonePicture V (picture w t)"
    unfolding clonePicture_picture by (simp add: picture_def dp)
qed

section \<open>Containers of owned objects\<close>

text \<open>
  \<open>owned w xs\<close>: in the memory \<open>w\<close> the objects \<open>xs\<close> are intact and own disjoint memory. Copying one
  of them gives one more, and destroying one leaves the others; \<open>look\<close> is what an object
  shows, \<open>like\<close> what its copy shows.
\<close>

locale owners =
  fixes owned :: "'w \<Rightarrow> 'o list \<Rightarrow> bool"
    and copy :: "'o \<Rightarrow> 'w \<Rightarrow> 'o \<times> 'w"
    and destroy :: "'o \<Rightarrow> 'w \<Rightarrow> 'w"
    and look :: "'w \<Rightarrow> 'o \<Rightarrow> 'v"
    and like :: "'v \<Rightarrow> 'v"
  assumes owned_perm: "owned w xs \<Longrightarrow> mset ys = mset xs \<Longrightarrow> owned w ys"
    and owned_copy: "owned w xs \<Longrightarrow> x \<in> set xs \<Longrightarrow> copy x w = (y, w') \<Longrightarrow> owned w' (y # xs)"
    and owned_destroy: "owned w (x # xs) \<Longrightarrow> owned (destroy x w) xs"
    and look_copy: "owned w xs \<Longrightarrow> x \<in> set xs \<Longrightarrow> copy x w = (y, w') \<Longrightarrow> look w' y = like (look w x)"
    and look_copy_other: "owned w xs \<Longrightarrow> x \<in> set xs \<Longrightarrow> copy x w = (y, w') \<Longrightarrow> z \<in> set xs \<Longrightarrow> look w' z = look w z"
    and look_destroy_other: "owned w (x # xs) \<Longrightarrow> z \<in> set xs \<Longrightarrow> look (destroy x w) z = look w z"
begin

lemma owned_tail: "owned w (xs @ y # ys) \<Longrightarrow> owned w (y # xs @ ys)"
  by (erule owned_perm) simp

text \<open>Destroying a whole container.\<close>

lemma owned_clear:
  "owned w (xs @ ys) \<Longrightarrow> owned (fold destroy xs w) ys"
proof (induction xs arbitrary: w)
  case (Cons x xs)
  then show ?case using owned_destroy[of w x "xs @ ys"] by simp
qed simp

lemma look_clear:
  "owned w (xs @ ys) \<Longrightarrow> z \<in> set ys \<Longrightarrow> look (fold destroy xs w) z = look w z"
proof (induction xs arbitrary: w)
  case (Cons x xs)
  then show ?case using owned_destroy[of w x "xs @ ys"] look_destroy_other[of w x "xs @ ys" z] by simp
qed simp

text \<open>
  One more entry for a history: the copy \<open>y\<close> of the current object \<open>x\<close> is made, then the entries \<open>ys\<close>
  are destroyed.
\<close>

lemma push_copy:
  assumes "owned w (x # xs @ ys)" "copy x w = (y, w')"
  shows "owned (fold destroy ys w') (x # xs @ [y])"
    "look (fold destroy ys w') y = like (look w x)"
    "z \<in> set (x # xs) \<Longrightarrow> look (fold destroy ys w') z = look w z"
proof -
  have "owned w' (y # x # xs @ ys)" using owned_copy[OF assms(1) _ assms(2)] by simp
  then have o: "owned w' (ys @ (x # xs @ [y]))" by (rule owned_perm) simp
  show "owned (fold destroy ys w') (x # xs @ [y])" by (rule owned_clear[OF o])
  show "look (fold destroy ys w') y = like (look w x)"
    using look_clear[OF o, of y] look_copy[OF assms(1) _ assms(2)] by simp
  show "z \<in> set (x # xs) \<Longrightarrow> look (fold destroy ys w') z = look w z"
    using look_clear[OF o, of z] look_copy_other[OF assms(1) _ assms(2), of z] by auto
qed

text \<open>One entry anywhere in the list is destroyed.\<close>

lemma drop_one:
  assumes "owned w (xs @ y # ys)"
  shows "owned (destroy y w) (xs @ ys)" "z \<in> set (xs @ ys) \<Longrightarrow> look (destroy y w) z = look w z"
  using owned_destroy[OF owned_tail[OF assms]] look_destroy_other[OF owned_tail[OF assms]] by auto

end

section \<open>The filter tree as an owned object\<close>

text \<open>The destructor of a tree deletes its filters.\<close>

definition destroyFilterTree :: "filterTree \<Rightarrow> 'p world \<Rightarrow> 'p world" where
  "destroyFilterTree F w = snd (ft_clear F w)"

definition all_datas :: "filterTree list \<Rightarrow> fptr list" where
  "all_datas Fs = concat (map (\<lambda>F. datas (ft F)) Fs)"

definition trees_ok :: "'p world \<Rightarrow> filterTree list \<Rightarrow> bool" where
  "trees_ok w Fs \<longleftrightarrow> world_ok w \<and> \<not> ub w \<and> (\<forall>F \<in> set Fs. wf_ptree (ft F)) \<and> distinct (all_datas Fs) \<and>
     (\<forall>p \<in> set (all_datas Fs). p \<noteq> 0 \<and> filts w p \<noteq> None)"

lemma all_datas_simps [simp]:
  "all_datas [] = []" "all_datas (F # Fs) = datas (ft F) @ all_datas Fs"
  "all_datas (Fs @ Gs) = all_datas Fs @ all_datas Gs"
  by (simp_all add: all_datas_def)

lemma all_datas_mem: "F \<in> set Fs \<Longrightarrow> p \<in> set (datas (ft F)) \<Longrightarrow> p \<in> set (all_datas Fs)"
  by (auto simp: all_datas_def)

lemma mset_all_datas: "mset (all_datas Fs) = (\<Sum>F \<in># mset Fs. mset (datas (ft F)))"
  by (induction Fs) (auto simp: all_datas_def)

lemma trees_ok_perm: "trees_ok w Fs \<Longrightarrow> mset Gs = mset Fs \<Longrightarrow> trees_ok w Gs"
proof -
  assume ok: "trees_ok w Fs" and m: "mset Gs = mset Fs"
  have "mset (all_datas Gs) = mset (all_datas Fs)" by (simp add: mset_all_datas m)
  then have "distinct (all_datas Gs) = distinct (all_datas Fs)" "set (all_datas Gs) = set (all_datas Fs)"
    by (metis mset_eq_imp_distinct_iff, metis mset_eq_setD)
  moreover have "set Gs = set Fs" using m by (rule mset_eq_setD)
  ultimately show ?thesis using ok by (simp add: trees_ok_def)
qed

lemma picture_cong: "\<forall>p \<in> set (datas t). filts w' p = filts w p \<Longrightarrow> picture w' t = picture w t"
  by (simp add: picture_def cong: map_cong)

lemma copyFilterTree_facts:
  assumes ok: "trees_ok w Fs" and F: "F \<in> set Fs" and c: "copyFilterTree V F w = (G, w')"
  shows "trees_ok w' (G # Fs)" "picture w' (ft G) = clonePicture V (picture w (ft F))"
    "p \<in> set (all_datas Fs) \<Longrightarrow> filts w' p = filts w p" "strms w' = strms w"
    "cacheStrategy G = cacheStrategy F" "maxCachePercent G = maxCachePercent F" "depths (ft G) = depths (ft F)"
    "length (datas (ft G)) = length (datas (ft F))" "frame_old w w'" "datas (ft G) = [next_f w..<next_f w']"
proof -
  obtain t where t: "cloneAll V (copy_tree (ft F)) w = (t, w')" "ft G = t"
    and cs: "cacheStrategy G = cacheStrategy F" "maxCachePercent G = maxCachePercent F"
    using c by (auto simp: copyFilterTree_def split: prod.splits)
  note ct = copy_tree_facts[of "ft F"]
  have wo: "world_ok w" using ok by (simp add: trees_ok_def)
  have live: "\<forall>p \<in> set (datas (copy_tree (ft F))). filts w p \<noteq> None"
    using ok all_datas_mem[OF F] by (simp add: ct trees_ok_def)
  note cf = cloneAll_facts[OF wo ct(1) live t(1)]
  have old: "p < next_f w" if "p \<in> set (all_datas Fs)" for p
    using that ok world_ok_live[OF wo] by (simp add: trees_ok_def)
  show keep: "p \<in> set (all_datas Fs) \<Longrightarrow> filts w' p = filts w p" for p
    using old cf(5) by (simp add: frame_old_def)
  show "strms w' = strms w" using cf(5) by (simp add: frame_old_def)
  show "frame_old w w'" "datas (ft G) = [next_f w..<next_f w']" using cf(2,5) t(2) by simp_all
  show "cacheStrategy G = cacheStrategy F" "maxCachePercent G = maxCachePercent F" by (rule cs)+
  show "depths (ft G) = depths (ft F)" using cf(7) ct t by simp
  show "length (datas (ft G)) = length (datas (ft F))"
    using arg_cong[OF cf(7), of length] arg_cong[OF ct(3), of length] t(2)
    by (simp add: depths_def datas_def)
  have new: "set (datas t) = {next_f w..<next_f w'}" using cf(2) by simp
  have "filts w' p \<noteq> None" if "p \<in> set (datas t)" for p
  proof -
    have len: "length (depths t) = length (datas t)" for t :: "fptr ptree" by (simp add: depths_def datas_def)
    have "map snd (picture w' t) = map (map_option (clone_of V) \<circ> filts w) (datas (ft F))"
      using cf(6) len[of "copy_tree (ft F)"] unfolding clonePicture_picture ct(2) by simp
    moreover have "map snd (picture w' t) = map (filts w') (datas t)"
      using len[of t] by (simp add: picture_def)
    ultimately have "filts w' p \<in> set (map (map_option (clone_of V) \<circ> filts w) (datas (ft F)))"
      using that by (metis image_eqI list.set_map)
    then show ?thesis using live ct(2) by auto
  qed
  moreover have "0 < next_f w" using wo by (simp add: world_ok_def)
  ultimately show "trees_ok w' (G # Fs)"
    using ok cf(1,2,4,5) old keep new t(2) by (fastforce simp: trees_ok_def frame_old_def)
  have "picture w (copy_tree (ft F)) = picture w (ft F)" by (simp add: picture_def ct)
  then show "picture w' (ft G) = clonePicture V (picture w (ft F))" using cf(6) t(2) by simp
qed

lemma destroyFilterTree_facts:
  assumes ok: "trees_ok w (F # Fs)"
  shows "trees_ok (destroyFilterTree F w) Fs"
    "filts (destroyFilterTree F w) = (\<lambda>p. if p \<in> set (datas (ft F)) then None else filts w p)"
proof -
  have d: "destroyFilterTree F w = deleteFilters (datas (ft F)) w"
    by (simp add: destroyFilterTree_def ft_clear_def)
  have wo: "world_ok w" "caches_ok w" using ok by (simp_all add: trees_ok_def world_ok_def)
  have "distinct (datas (ft F))" "\<forall>p \<in> set (datas (ft F)). p \<noteq> 0 \<and> filts w p \<noteq> None"
    using ok by (auto simp: trees_ok_def)
  note df = deleteFilters_facts[OF wo(2) this]
  show fl: "filts (destroyFilterTree F w) = (\<lambda>p. if p \<in> set (datas (ft F)) then None else filts w p)"
    using df d by simp
  have "world_ok (destroyFilterTree F w)"
    using df wo d fl deleteFilters_next_f[of "datas (ft F)" w] by (simp add: world_ok_def)
  then show "trees_ok (destroyFilterTree F w) Fs" using ok df d fl by (auto simp: trees_ok_def)
qed

interpretation trees: owners trees_ok "copyFilterTree V" destroyFilterTree "\<lambda>w F. picture w (ft F)" "clonePicture V"
  for V :: "'p vtable"
proof
  fix w :: "'p world" and xs ys :: "filterTree list" and x y z w'
  show "trees_ok w xs \<Longrightarrow> mset ys = mset xs \<Longrightarrow> trees_ok w ys" by (rule trees_ok_perm)
  show "trees_ok w xs \<Longrightarrow> x \<in> set xs \<Longrightarrow> copyFilterTree V x w = (y, w') \<Longrightarrow> trees_ok w' (y # xs)"
    by (rule copyFilterTree_facts(1))
  show "trees_ok w (x # xs) \<Longrightarrow> trees_ok (destroyFilterTree x w) xs" by (rule destroyFilterTree_facts(1))
  show "trees_ok w xs \<Longrightarrow> x \<in> set xs \<Longrightarrow> copyFilterTree V x w = (y, w') \<Longrightarrow>
      picture w' (ft y) = clonePicture V (picture w (ft x))"
    by (rule copyFilterTree_facts(2))
  show "trees_ok w xs \<Longrightarrow> x \<in> set xs \<Longrightarrow> copyFilterTree V x w = (y, w') \<Longrightarrow> z \<in> set xs \<Longrightarrow>
      picture w' (ft z) = picture w (ft z)"
    using copyFilterTree_facts(3) all_datas_mem by (metis picture_cong)
  show "trees_ok w (x # xs) \<Longrightarrow> z \<in> set xs \<Longrightarrow> picture (destroyFilterTree x w) (ft z) = picture w (ft z)"
    using destroyFilterTree_facts(2)[of w x xs] all_datas_mem[of z xs]
    by (intro picture_cong) (auto simp: trees_ok_def)
qed

text \<open>Swapping two trees exchanges the nodes and keeps the filters.\<close>

lemma ft_swap_facts:
  assumes "ft_swap a b = (a', b')"
  shows "datas (ft a') = datas (ft b)" "datas (ft b') = datas (ft a)"
    "depths (ft a') = depths (ft b)" "depths (ft b') = depths (ft a)"
    "wf_ptree (ft a')" "wf_ptree (ft b')"
    "picture w (ft a') = picture w (ft b)" "picture w (ft b') = picture w (ft a)"
  using assms copy_tree_facts[of "ft b"] copy_tree_facts[of "ft a"] copy_tree_facts[of "copy_tree (ft a)"]
  by (auto simp: ft_swap_def picture_def)

lemma trees_ok_swap:
  assumes "trees_ok w (a # b # Fs)" "ft_swap a b = (a', b')"
  shows "trees_ok w (a' # b' # Fs)"
  using assms(1) ft_swap_facts[OF assms(2)] by (auto simp: trees_ok_def)

end
