(* ===== verification/TreeState.thy ===== *)
theory TreeState
  imports FilterTreeAnalyse FilterTreeBase Snapshots
begin

text \<open>
  The tree of the running analysis with its history (class \<^verbatim>\<open>TreeState\<close>, src/src/backend/state.cpp
  and state.h): the active filter tree, the numbers by which the user interface names its filters,
  and the undo and redo stacks of whole trees. The global \<^verbatim>\<open>stateModifyLevel\<close> is the field
  \<open>ts_modified\<close>. The mutex that guards a refresh is not modelled: calls come one at a time.
\<close>

section \<open>Maps from numbers to filters\<close>

text \<open>
  A \<^verbatim>\<open>std::map\<close> in the order of its keys. Reading with \<^verbatim>\<open>operator[]\<close> adds a null pointer under a
  key that is not there.
\<close>

type_synonym filterMap = "(nat \<times> fptr) list"

definition map_ref :: "nat \<Rightarrow> filterMap \<Rightarrow> fptr \<times> filterMap" where
  "map_ref k m = (case map_of m k of Some v \<Rightarrow> (v, m) | None \<Rightarrow> (0, map_put k 0 m))"

datatype modifyLevel = STATE_MODIFIED_NONE | STATE_MODIFIED_VIEW | STATE_MODIFIED_ANCILLARY | STATE_MODIFIED_DATA

definition levelNum :: "modifyLevel \<Rightarrow> nat" where
  "levelNum l = (case l of STATE_MODIFIED_NONE \<Rightarrow> 0 | STATE_MODIFIED_VIEW \<Rightarrow> 1 | STATE_MODIFIED_ANCILLARY \<Rightarrow> 2
     | STATE_MODIFIED_DATA \<Rightarrow> 3)"

definition MAX_UNDO_SIZE :: nat where "MAX_UNDO_SIZE = 10"

record treeState =
  ts_tree :: filterTree
  ts_map :: filterMap
  ts_undo :: "filterTree list"
  ts_redo :: "filterTree list"
  ts_fta :: "treeErr list"
  ts_devices :: "nat list"
  ts_pending :: bool
  ts_wantAbort :: bool
  ts_modified :: modifyLevel

definition newTreeState :: treeState where
  "newTreeState = \<lparr>ts_tree = newFilterTree, ts_map = [], ts_undo = [], ts_redo = [], ts_fta = [], ts_devices = [],
     ts_pending = False, ts_wantAbort = False, ts_modified = STATE_MODIFIED_NONE\<rparr>"

definition setStateModifyLevel :: "modifyLevel \<Rightarrow> treeState \<Rightarrow> treeState" where
  "setStateModifyLevel newLevel S =
     (if levelNum (ts_modified S) < levelNum newLevel then S\<lparr>ts_modified := newLevel\<rparr> else S)"

section \<open>The history\<close>

text \<open>Oldest entry first: \<^verbatim>\<open>push_back\<close> copies the tree to the end, \<^verbatim>\<open>pop_front\<close> destroys the oldest.\<close>

definition pushUndoStack :: "'p vtable \<Rightarrow> treeState \<Rightarrow> 'p world \<Rightarrow> treeState \<times> 'p world" where
  "pushUndoStack V S w =
     (let (undo, w1) = (if length (ts_undo S) > MAX_UNDO_SIZE
                        then (tl (ts_undo S), destroyFilterTree (hd (ts_undo S)) w) else (ts_undo S, w));
          (G, w2) = copyFilterTree V (ts_tree S) w1
      in (S\<lparr>ts_undo := undo @ [G], ts_redo := []\<rparr>, fold destroyFilterTree (ts_redo S) w2))"

definition popUndoStack :: "'p vtable \<Rightarrow> bool \<Rightarrow> treeState \<Rightarrow> 'p world \<Rightarrow> treeState \<times> 'p world" where
  "popUndoStack V restorePopped S w =
     (if ts_undo S = [] then (S, w\<lparr>ub := True\<rparr>) else
      let (G, w1) = copyFilterTree V (ts_tree S) w;
          redo = ts_redo S @ [G];
          (redo', w2) = (if length redo > MAX_UNDO_SIZE then (tl redo, destroyFilterTree (hd redo) w1) else (redo, w1));
          (cur, popped) = (if restorePopped then ft_swap (ts_tree S) (last (ts_undo S))
                           else (ts_tree S, last (ts_undo S)))
      in (setStateModifyLevel STATE_MODIFIED_DATA
            (S\<lparr>ts_tree := cur, ts_undo := butlast (ts_undo S), ts_redo := redo'\<rparr>),
          destroyFilterTree popped w2))"

definition popRedoStack :: "'p vtable \<Rightarrow> treeState \<Rightarrow> 'p world \<Rightarrow> treeState \<times> 'p world" where
  "popRedoStack V S w =
     (let (G, w1) = copyFilterTree V (ts_tree S) w in
      if ts_redo S = [] then (S\<lparr>ts_undo := ts_undo S @ [G]\<rparr>, w1\<lparr>ub := True\<rparr>)
      else let (cur, popped) = ft_swap (ts_tree S) (last (ts_redo S))
           in (setStateModifyLevel STATE_MODIFIED_DATA
                 (S\<lparr>ts_tree := cur, ts_undo := ts_undo S @ [G], ts_redo := butlast (ts_redo S)\<rparr>),
               destroyFilterTree popped w1))"

definition clearUndoRedoStacks :: "treeState \<Rightarrow> 'p world \<Rightarrow> treeState \<times> 'p world" where
  "clearUndoRedoStacks S w =
     (S\<lparr>ts_undo := [], ts_redo := []\<rparr>, fold destroyFilterTree (ts_redo S) (fold destroyFilterTree (ts_undo S) w))"

section \<open>Edits of the tree\<close>

text \<open>
  The search for a free number: the vector has one place more than the map has entries; the loop
  goes on after a hit, so that the last free number below the size of the map is taken, and if
  there is none the number is whatever the variable held (\<open>junk\<close>).
\<close>

definition ids_in_range :: "filterMap \<Rightarrow> bool" where
  "ids_in_range m = list_all (\<lambda>(i, x). i < length m + 1) m"

definition idToUse :: "nat \<Rightarrow> filterMap \<Rightarrow> nat" where
  "idToUse junk m =
     (let idInUse = fold (\<lambda>(i, x) v. v[i := True]) m (replicate (length m + 1) False)
      in fold (\<lambda>ui r. if \<not> idInUse ! ui then ui else r) [0..<length m] junk)"

definition ts_addFilter :: "'p vtable \<Rightarrow> nat \<Rightarrow> treeState \<Rightarrow> fptr \<Rightarrow> bool \<Rightarrow> nat \<Rightarrow> 'p world \<Rightarrow>
    treeState \<times> 'p world" where
  "ts_addFilter V junk S f isBase parentId w =
     (let (S1, w1) = pushUndoStack V S w;
          (parent, m) = (if \<not> isBase then map_ref parentId (ts_map S1) else (0, ts_map S1));
          (F, w2) = addFilter V (ts_tree S1) f parent w1;
          w3 = (if ids_in_range m then w2 else w2\<lparr>ub := True\<rparr>)
      in (S1\<lparr>ts_tree := F, ts_map := map_put (idToUse junk m) f m\<rparr>, w3))"

definition ts_addFilterTree :: "treeState \<Rightarrow> filterTree \<Rightarrow> bool \<Rightarrow> nat \<Rightarrow> 'p world \<Rightarrow>
    treeState \<times> filterTree \<times> 'p world" where
  "ts_addFilterTree S G isBase parentId w =
     (let (F, G', w1) = addFilterTree (ts_tree S) G (if isBase then 0 else fst (map_ref parentId (ts_map S))) w
      in (S\<lparr>ts_tree := F, ts_map := []\<rparr>, G', w1))"

text \<open>
  \<^verbatim>\<open>switchoutFilterTree\<close>: \<open>f\<close> becomes a clone, \<^verbatim>\<open>filterRemap\<close> is filled in depth-first order, every
  entry of the map is replaced by what \<^verbatim>\<open>filterRemap[it->second]\<close> gives (null for a key that is
  not there, which is added), and the trees are swapped.
\<close>

definition filterRemap :: "fptr ptree \<Rightarrow> fptr ptree \<Rightarrow> fptr \<rightharpoonup> fptr" where
  "filterRemap fT ownT = fold (\<lambda>(a, b) m. m(a \<mapsto> b)) (zip (datas fT) (datas ownT)) Map.empty"

fun remap_loop :: "(fptr \<rightharpoonup> fptr) \<Rightarrow> filterMap \<Rightarrow> filterMap" where
  "remap_loop r [] = []"
| "remap_loop r ((i, x) # m) = (case r x of Some y \<Rightarrow> (i, y) # remap_loop r m | None \<Rightarrow> (i, 0) # remap_loop (r(x \<mapsto> 0)) m)"

definition switchoutFilterTree :: "'p vtable \<Rightarrow> treeState \<Rightarrow> filterTree \<Rightarrow> 'p world \<Rightarrow>
    treeState \<times> filterTree \<times> 'p world" where
  "switchoutFilterTree V S f w =
     (let (f1, w1) = assignFilterTree V f (ts_tree S) w;
          m = remap_loop (filterRemap (ft f1) (ft (ts_tree S))) (ts_map S);
          (f2, own) = ft_swap f1 (ts_tree S)
      in (S\<lparr>ts_tree := own, ts_map := m\<rparr>, f2, w1))"

definition swapFilterTree :: "treeState \<Rightarrow> filterTree \<Rightarrow> treeState \<times> filterTree" where
  "swapFilterTree S f = (let (f', own) = ft_swap f (ts_tree S) in (S\<lparr>ts_tree := own\<rparr>, f'))"

definition swapFilterMap :: "treeState \<Rightarrow> filterMap \<Rightarrow> treeState \<times> filterMap" where
  "swapFilterMap S m = (S\<lparr>ts_map := m\<rparr>, ts_map S)"

definition ts_copyFilter :: "'p vtable \<Rightarrow> treeState \<Rightarrow> nat \<Rightarrow> nat \<Rightarrow> bool \<Rightarrow> 'p world \<Rightarrow>
    treeState \<times> 'p world \<times> bool" where
  "ts_copyFilter V S toCopy newParent copyToRoot w =
     (let (S1, w1) = pushUndoStack V S w;
          (f, m1) = map_ref toCopy (ts_map S1);
          (p, m2) = (if copyToRoot then (0, m1) else map_ref newParent m1);
          (F, w2, ret) = copyFilter V (ts_tree S1) f p w1
      in (S1\<lparr>ts_tree := F, ts_map := (if ret then [] else m2)\<rparr>, w2, ret))"

text \<open>\<^verbatim>\<open>std::map::at\<close> throws for a missing number (None).\<close>

definition getFilterById :: "treeState \<Rightarrow> nat \<Rightarrow> fptr option" where
  "getFilterById S filterId = map_of (ts_map S) filterId"

definition getIdByFilter :: "treeState \<Rightarrow> fptr \<Rightarrow> 64 word" where
  "getIdByFilter S f = (case find (\<lambda>(i, x). x = f) (ts_map S) of Some (i, _) \<Rightarrow> of_nat i | None \<Rightarrow> - 1)"

definition ts_setCachePercent :: "treeState \<Rightarrow> nat \<Rightarrow> treeState" where
  "ts_setCachePercent S newPct = S\<lparr>ts_tree := setCachePercent newPct (ts_tree S)\<rparr>"

definition removeFilterSubtree :: "'p vtable \<Rightarrow> treeState \<Rightarrow> nat \<Rightarrow> 'p world \<Rightarrow> treeState \<times> 'p world" where
  "removeFilterSubtree V S filterId w =
     (let (S1, w1) = pushUndoStack V S w;
          (f, m) = map_ref filterId (ts_map S1);
          (F, w2) = removeSubtree V (ts_tree S1) f w1
      in (S1\<lparr>ts_tree := F, ts_map := filter (\<lambda>(i, x). contains F x) m\<rparr>, w2))"

definition ts_reparentFilter :: "'p vtable \<Rightarrow> treeState \<Rightarrow> nat \<Rightarrow> nat \<Rightarrow> 'p world \<Rightarrow> treeState \<times> 'p world \<times> bool" where
  "ts_reparentFilter V S fId newParent w =
     (let (S1, w1) = pushUndoStack V S w;
          (f, m1) = map_ref fId (ts_map S1);
          (p, m2) = map_ref newParent m1;
          (F, w2, moved) = reparentFilter V (ts_tree S1) f p w1;
          S2 = S1\<lparr>ts_tree := F, ts_map := m2\<rparr>
      in if \<not> moved then (let (S3, w3) = popUndoStack V False S2 w2 in (S3, w3, False))
         else (S2, w2, True))"

definition ts_setFilterProperty :: "'p vtable \<Rightarrow> treeState \<Rightarrow> nat \<Rightarrow> nat \<Rightarrow> string \<Rightarrow> 'p world \<Rightarrow>
    treeState \<times> 'p world \<times> bool \<times> bool" where
  "ts_setFilterProperty V S filterId key val w =
     (let (S1, w1) = pushUndoStack V S w;
          (f, m) = map_ref filterId (ts_map S1);
          (w2, setOK, needUpdate) = setFilterProperty V (ts_tree S1) f key val w1;
          S2 = S1\<lparr>ts_map := m\<rparr>
      in if \<not> setOK then (let (S3, w3) = popUndoStack V False S2 w2 in (S3, w3, False, needUpdate))
         else (S2, w2, True, needUpdate))"

definition setFilterString :: "treeState \<Rightarrow> nat \<Rightarrow> string \<Rightarrow> 'p world \<Rightarrow> treeState \<times> 'p world" where
  "setFilterString S filterId s w =
     (let (f, m) = map_ref filterId (ts_map S)
      in (S\<lparr>ts_map := m\<rparr>, upd_filt f (\<lambda>g. g\<lparr>f_userString := s\<rparr>) w))"

definition ts_clear :: "treeState \<Rightarrow> 'p world \<Rightarrow> treeState \<times> 'p world" where
  "ts_clear S w = (let (F, w1) = ft_clear (ts_tree S) w in (S\<lparr>ts_tree := F, ts_map := [], ts_fta := []\<rparr>, w1))"

section \<open>Refresh and selection devices\<close>

definition ts_refresh :: "'p vtable \<Rightarrow> 'p analyseEnv \<Rightarrow> renv \<Rightarrow> treeState \<Rightarrow> (fptr \<times> sptr list) list \<Rightarrow>
    (fptr \<times> string) list \<Rightarrow> 'p world \<Rightarrow> treeState \<times> 'p rstate \<times> nat" where
  "ts_refresh V A env S out cons w =
     (let S1 = S\<lparr>ts_fta := analyse V A w (ft (ts_tree S)), ts_devices := [], ts_pending := False, ts_wantAbort := False\<rparr>;
          (s, errCode) = refreshFilterTree V (ts_tree S) env out (ts_devices S1) cons w
      in (S1\<lparr>ts_devices := r_devices s\<rparr>, s, errCode))"

text \<open>
  \<^verbatim>\<open>applyBindings\<close> with the virtual method \<^verbatim>\<open>setPropFromBinding\<close> as a parameter: at the first node
  that holds the filter of a binding the caches below are cleared and the binding is applied.
\<close>

definition applyBindings :: "'p vtable \<Rightarrow> (fptr \<Rightarrow> 'b \<Rightarrow> 'p world \<Rightarrow> 'p world) \<Rightarrow> treeState \<Rightarrow> (fptr \<times> 'b) list \<Rightarrow>
    'p world \<Rightarrow> treeState \<times> 'p world" where
  "applyBindings V setProp S bindings w =
     (if bindings = [] then (S, w)
      else let (S1, w1) = pushUndoStack V S w
           in (S1, fold (\<lambda>(p, b) w. case find_data (ft (ts_tree S1)) p of None \<Rightarrow> w
                 | Some _ \<Rightarrow> setProp p b (ft_clearCache V (ts_tree S1) p False w)) bindings w1))"

text \<open>The modified bindings of a device are read, applied, and marked as unmodified.\<close>

definition applyBindingsToTree :: "'p vtable \<Rightarrow> (fptr \<Rightarrow> 'b \<Rightarrow> 'p world \<Rightarrow> 'p world) \<Rightarrow> treeState \<Rightarrow>
    (nat \<Rightarrow> (fptr \<times> 'b) list) \<Rightarrow> 'p world \<Rightarrow> treeState \<times> (nat \<Rightarrow> (fptr \<times> 'b) list) \<times> 'p world" where
  "applyBindingsToTree V setProp S modified w =
     (let S1 = S\<lparr>ts_pending := False\<rparr>;
          (S2, w1) = applyBindings V setProp S1 (concat (map modified (ts_devices S1))) w
      in (S2, \<lambda>d. if d \<in> set (ts_devices S2) then [] else modified d, w1))"

definition hasMonitorUpdates :: "'p vtable \<Rightarrow> treeState \<Rightarrow> 'p world \<Rightarrow> bool" where
  "hasMonitorUpdates V S w = list_ex (\<lambda>p. get_filt False (v_monitorNeedsRefresh V) w p) (datas (ft (ts_tree S)))"

definition ts_hasUpdates :: "treeState \<Rightarrow> bool" where
  "ts_hasUpdates S = ts_pending S"

section \<open>Assignment\<close>

text \<open>
  \<^verbatim>\<open>std::deque::operator=\<close>: entries present on both sides are assigned, further ones copied, and
  entries beyond the length of the source destroyed.
\<close>

fun assign_deque :: "'p vtable \<Rightarrow> filterTree list \<Rightarrow> filterTree list \<Rightarrow> 'p world \<Rightarrow> filterTree list \<times> 'p world" where
  "assign_deque V xs [] w = ([], fold destroyFilterTree xs w)"
| "assign_deque V [] (y # ys) w =
     (let (G, w1) = copyFilterTree V y w; (r, w2) = assign_deque V [] ys w1 in (G # r, w2))"
| "assign_deque V (x # xs) (y # ys) w =
     (let (G, w1) = assignFilterTree V x y w; (r, w2) = assign_deque V xs ys w1 in (G # r, w2))"

definition assignTreeState :: "'p vtable \<Rightarrow> treeState \<Rightarrow> treeState \<Rightarrow> 'p world \<Rightarrow> treeState \<times> 'p world" where
  "assignTreeState V S oth w =
     (let (F, w1) = assignFilterTree V (ts_tree S) (ts_tree oth) w;
          (redo, w2) = assign_deque V (ts_redo S) (ts_redo oth) w1;
          (undo, w3) = assign_deque V (ts_undo S) (ts_undo oth) w2
      in (S\<lparr>ts_tree := F, ts_fta := ts_fta oth, ts_map := ts_map oth, ts_redo := redo, ts_undo := undo,
            ts_devices := ts_devices oth, ts_pending := ts_pending oth\<rparr>, w3))"

section \<open>Ownership and pictures along the history\<close>

definition ts_trees :: "treeState \<Rightarrow> filterTree list" where
  "ts_trees S = ts_tree S # ts_undo S @ ts_redo S"

definition state_ok :: "'p world \<Rightarrow> treeState \<Rightarrow> bool" where
  "state_ok w S \<longleftrightarrow> trees_ok w (ts_trees S) \<and> length (ts_undo S) + length (ts_redo S) \<le> MAX_UNDO_SIZE + 1"

definition shows_same :: "'p world \<Rightarrow> 'p world \<Rightarrow> filterTree list \<Rightarrow> bool" where
  "shows_same w w' Fs \<longleftrightarrow> (\<forall>F \<in> set Fs. picture w' (ft F) = picture w (ft F))"

lemma setStateModifyLevel_other [simp]:
  "ts_tree (setStateModifyLevel l S) = ts_tree S" "ts_undo (setStateModifyLevel l S) = ts_undo S"
  "ts_redo (setStateModifyLevel l S) = ts_redo S" "ts_map (setStateModifyLevel l S) = ts_map S"
  by (simp_all add: setStateModifyLevel_def)

lemma clear_outside:
  "trees_ok w (xs @ ys) \<Longrightarrow> p \<notin> set (all_datas xs) \<Longrightarrow> filts (fold destroyFilterTree xs w) p = filts w p"
proof (induction xs arbitrary: w)
  case (Cons x xs)
  have o: "trees_ok w (x # xs @ ys)" using Cons.prems(1) by simp
  note df = destroyFilterTree_facts[OF o]
  show ?case using Cons.IH[OF df(1)] df(2) Cons.prems(2) by simp
qed simp

lemma push_facts:
  assumes ok: "state_ok w S" and push: "pushUndoStack V S w = (S', w')"
  defines "kept \<equiv> (if length (ts_undo S) > MAX_UNDO_SIZE then tl (ts_undo S) else ts_undo S)"
  shows "state_ok w' S'" "ts_tree S' = ts_tree S" "ts_map S' = ts_map S" "ts_redo S' = []"
    "\<exists>G. ts_undo S' = kept @ [G] \<and> picture w' (ft G) = clonePicture V (picture w (ft (ts_tree S)))"
    "shows_same w w' (ts_tree S # kept)"
    "filts w p \<noteq> None \<Longrightarrow> p \<notin> set (all_datas (ts_trees S)) \<Longrightarrow>
      filts w' p = filts w p \<and> p \<notin> set (all_datas (ts_trees S'))"
proof -
  define w1 where "w1 = (if length (ts_undo S) > MAX_UNDO_SIZE then destroyFilterTree (hd (ts_undo S)) w else w)"
  obtain G w2 where G: "copyFilterTree V (ts_tree S) w1 = (G, w2)" by fastforce
  have S': "S' = S\<lparr>ts_undo := kept @ [G], ts_redo := []\<rparr>" and w': "w' = fold destroyFilterTree (ts_redo S) w2"
    using push G unfolding pushUndoStack_def w1_def kept_def by (auto split: if_splits)
  have o1: "trees_ok w1 (ts_tree S # kept @ ts_redo S)" and l1: "shows_same w w1 (ts_tree S # kept)"
  proof -
    have o: "trees_ok w (ts_tree S # ts_undo S @ ts_redo S)" using ok by (simp add: state_ok_def ts_trees_def)
    show "trees_ok w1 (ts_tree S # kept @ ts_redo S)" "shows_same w w1 (ts_tree S # kept)"
    proof (atomize(full), cases "length (ts_undo S) > MAX_UNDO_SIZE")
      case True
      then obtain u us where u: "ts_undo S = u # us" by (cases "ts_undo S") auto
      then have "trees_ok w ([ts_tree S] @ u # us @ ts_redo S)" using o by simp
      from trees.drop_one[OF this] show "trees_ok w1 (ts_tree S # kept @ ts_redo S) \<and> shows_same w w1 (ts_tree S # kept)"
        using True u by (auto simp: w1_def kept_def shows_same_def)
    qed (use o in \<open>auto simp: w1_def kept_def shows_same_def\<close>)
  qed
  note pc = trees.push_copy[OF o1 G]
  show "filts w' p = filts w p \<and> p \<notin> set (all_datas (ts_trees S'))"
    if p: "filts w p \<noteq> None" "p \<notin> set (all_datas (ts_trees S))"
  proof -
    have "trees_ok w (ts_undo S @ ts_tree S # ts_redo S)"
      using ok by (auto simp: state_ok_def ts_trees_def intro: trees_ok_perm)
    then have "trees_ok w (hd (ts_undo S) # tl (ts_undo S) @ ts_tree S # ts_redo S)" if "ts_undo S \<noteq> []"
      using that by (cases "ts_undo S") auto
    note hd = destroyFilterTree_facts(2)[OF this]
    have f1: "filts w1 p = filts w p"
    proof (cases "length (ts_undo S) > MAX_UNDO_SIZE")
      case True
      then have ne: "ts_undo S \<noteq> []" by auto
      then have "p \<notin> set (datas (ft (hd (ts_undo S))))"
        using p(2) all_datas_mem[of "hd (ts_undo S)" "ts_undo S" p] by (auto simp: ts_trees_def)
      then show ?thesis using True hd[OF ne] by (simp add: w1_def)
    qed (simp add: w1_def)
    have in1: "ts_tree S \<in> set (ts_tree S # kept @ ts_redo S)" by simp
    note cf = copyFilterTree_facts[OF o1 in1 G]
    have "world_ok w1" using o1 by (simp add: trees_ok_def)
    then have lt: "p < next_f w1" using world_ok_live[of w1 p] f1 p(1) by simp
    then have f2: "filts w2 p = filts w p" using cf(9) f1 by (simp add: frame_old_def)
    have "trees_ok w2 (ts_redo S @ G # ts_tree S # kept)" by (rule trees_ok_perm[OF cf(1)]) simp
    from clear_outside[OF this] p(2) have "filts w' p = filts w p" by (simp add: w' f2 ts_trees_def)
    moreover have "set (all_datas kept) \<subseteq> set (all_datas (ts_undo S))"
      by (cases "ts_undo S") (auto simp: kept_def)
    moreover have "p \<notin> set (datas (ft G))" using cf(10) lt by simp
    ultimately show ?thesis using p(2) by (auto simp: S' ts_trees_def)
  qed
  show "state_ok w' S'" using ok pc(1) w'
    by (auto simp: S' state_ok_def ts_trees_def kept_def)
  show "ts_tree S' = ts_tree S" "ts_map S' = ts_map S" "ts_redo S' = []" by (simp_all add: S')
  show "shows_same w w' (ts_tree S # kept)" using pc(3) l1 w' by (auto simp: shows_same_def)
  have "picture w' (ft G) = clonePicture V (picture w1 (ft (ts_tree S)))" using pc(2) w' by simp
  then show "\<exists>G. ts_undo S' = kept @ [G] \<and> picture w' (ft G) = clonePicture V (picture w (ft (ts_tree S)))"
    using l1 by (auto simp: S' shows_same_def)
qed

text \<open>
  The common part of undo and redo: the current tree is swapped with the entry \<open>u\<close> and what then
  is in the place of \<open>u\<close> is destroyed.
\<close>

lemma swap_destroy:
  assumes "trees_ok w (F # xs @ u # ys)" "ft_swap F u = (cur, popped)"
  shows "trees_ok (destroyFilterTree popped w) (cur # xs @ ys)"
    "picture (destroyFilterTree popped w) (ft cur) = picture w (ft u)"
    "shows_same w (destroyFilterTree popped w) (xs @ ys)"
proof -
  have "trees_ok w (F # u # xs @ ys)" by (rule trees_ok_perm[OF assms(1)]) simp
  from trees_ok_swap[OF this assms(2)]
  have o: "trees_ok w ([cur] @ popped # xs @ ys)" by simp
  show "trees_ok (destroyFilterTree popped w) (cur # xs @ ys)" using trees.drop_one(1)[OF o] by simp
  show "picture (destroyFilterTree popped w) (ft cur) = picture w (ft u)"
    using trees.drop_one(2)[OF o, of cur] ft_swap_facts(7)[OF assms(2)] by simp
  show "shows_same w (destroyFilterTree popped w) (xs @ ys)"
    using trees.drop_one(2)[OF o] by (simp add: shows_same_def)
qed

lemma pop_facts:
  assumes ok: "state_ok w S" and ne: "ts_undo S \<noteq> []" and pop: "popUndoStack V restore S w = (S', w')"
  defines "kept \<equiv> (if length (ts_redo S) \<ge> MAX_UNDO_SIZE then tl (ts_redo S) else ts_redo S)"
  shows "state_ok w' S'" "ts_undo S' = butlast (ts_undo S)" "ts_map S' = ts_map S"
    "picture w' (ft (ts_tree S')) = picture w (ft (if restore then last (ts_undo S) else ts_tree S))"
    "\<not> restore \<Longrightarrow> ts_tree S' = ts_tree S"
    "\<exists>G. ts_redo S' = kept @ [G] \<and> picture w' (ft G) = clonePicture V (picture w (ft (ts_tree S)))"
    "shows_same w w' (butlast (ts_undo S) @ kept)"
proof -
  let ?us = "butlast (ts_undo S)" and ?u = "last (ts_undo S)"
  have us: "ts_undo S = ?us @ [?u]" using ne by simp
  obtain G w1 where G: "copyFilterTree V (ts_tree S) w = (G, w1)" by fastforce
  define w2 where "w2 = (if length (ts_redo S) \<ge> MAX_UNDO_SIZE then destroyFilterTree (hd (ts_redo S)) w1 else w1)"
  obtain cur popped where cp: "(cur, popped) = (if restore then ft_swap (ts_tree S) ?u else (ts_tree S, ?u))" by (metis surj_pair)
  have nz: "MAX_UNDO_SIZE > 0" by (simp add: MAX_UNDO_SIZE_def)
  have red: "(if length (ts_redo S @ [G]) > MAX_UNDO_SIZE then (tl (ts_redo S @ [G]), destroyFilterTree (hd (ts_redo S @ [G])) w1)
      else (ts_redo S @ [G], w1)) = (kept @ [G], w2)"
    using nz by (cases "ts_redo S") (auto simp: kept_def w2_def)
  have S': "S' = setStateModifyLevel STATE_MODIFIED_DATA (S\<lparr>ts_tree := cur, ts_undo := ?us, ts_redo := kept @ [G]\<rparr>)"
    and w': "w' = destroyFilterTree popped w2"
    using pop ne G red cp[symmetric] unfolding popUndoStack_def by (auto simp: Let_def)
  have o: "trees_ok w (ts_tree S # (ts_undo S @ ts_redo S) @ [])" using ok by (simp add: state_ok_def ts_trees_def)
  note pc = trees.push_copy[OF o G, simplified]
  have o1: "trees_ok w1 (ts_tree S # ts_undo S @ ts_redo S @ [G])" and l1: "shows_same w w1 (ts_tree S # ts_undo S @ ts_redo S)"
    and g1: "picture w1 (ft G) = clonePicture V (picture w (ft (ts_tree S)))"
    using pc by (auto simp: shows_same_def)
  have o2: "trees_ok w2 (ts_tree S # ts_undo S @ kept @ [G])" and l2: "shows_same w1 w2 (ts_tree S # ts_undo S @ kept @ [G])"
  proof (atomize(full), cases "length (ts_redo S) \<ge> MAX_UNDO_SIZE")
    case True
    then obtain r rs where r: "ts_redo S = r # rs" using nz by (cases "ts_redo S") auto
    then have "trees_ok w1 ((ts_tree S # ts_undo S) @ r # rs @ [G])" using o1 by simp
    from trees.drop_one[OF this]
    show "trees_ok w2 (ts_tree S # ts_undo S @ kept @ [G]) \<and> shows_same w1 w2 (ts_tree S # ts_undo S @ kept @ [G])"
      using True r by (auto simp: w2_def kept_def shows_same_def)
  qed (use o1 in \<open>auto simp: w2_def kept_def shows_same_def\<close>)
  have "ts_undo S @ kept @ [G] = ?us @ ?u # kept @ [G]" by (subst us) simp
  with o2 have o2': "trees_ok w2 (ts_tree S # ?us @ ?u # kept @ [G])" by (simp only:)
  have fin: "trees_ok w' (cur # ?us @ kept @ [G]) \<and> picture w' (ft cur) = picture w2 (ft (if restore then ?u else ts_tree S))
      \<and> shows_same w2 w' (?us @ kept @ [G])"
  proof (cases restore)
    case True
    then show ?thesis using swap_destroy[OF o2', of cur popped] cp w' by simp
  next
    case False
    have "trees_ok w2 ((ts_tree S # ?us) @ ?u # kept @ [G])" using o2' by simp
    from trees.drop_one[OF this] show ?thesis using False cp w' by (auto simp: shows_same_def)
  qed
  have len: "length kept + length (ts_undo S) \<le> MAX_UNDO_SIZE + 1"
    using ok by (simp add: state_ok_def kept_def) arith
  have "ts_undo S \<noteq> []" by (rule ne)
  then show "state_ok w' S'" using fin len by (auto simp: S' state_ok_def ts_trees_def Suc_le_eq neq_Nil_conv)
  show "ts_undo S' = ?us" "ts_map S' = ts_map S" "\<not> restore \<Longrightarrow> ts_tree S' = ts_tree S" using cp by (simp_all add: S')
  have all: "shows_same w w2 (ts_tree S # ts_undo S @ kept)"
  proof -
    have "set kept \<subseteq> set (ts_redo S)" by (cases "ts_redo S") (auto simp: kept_def)
    then show ?thesis using l1 l2 by (auto simp: shows_same_def)
  qed
  have "?u \<in> set (ts_undo S)" using ne by simp
  then show "picture w' (ft (ts_tree S')) = picture w (ft (if restore then ?u else ts_tree S))"
    using fin all by (simp add: S' shows_same_def)
  show "\<exists>G. ts_redo S' = kept @ [G] \<and> picture w' (ft G) = clonePicture V (picture w (ft (ts_tree S)))"
    using fin l2 g1 by (simp add: S' shows_same_def)
  show "shows_same w w' (?us @ kept)"
    using fin all by (auto simp: shows_same_def dest: in_set_butlastD)
qed

lemma redo_facts:
  assumes ok: "state_ok w S" and ne: "ts_redo S \<noteq> []" and redo: "popRedoStack V S w = (S', w')"
  shows "state_ok w' S'" "ts_redo S' = butlast (ts_redo S)" "ts_map S' = ts_map S"
    "picture w' (ft (ts_tree S')) = picture w (ft (last (ts_redo S)))"
    "\<exists>G. ts_undo S' = ts_undo S @ [G] \<and> picture w' (ft G) = clonePicture V (picture w (ft (ts_tree S)))"
    "shows_same w w' (ts_undo S @ butlast (ts_redo S))"
proof -
  let ?rs = "butlast (ts_redo S)" and ?r = "last (ts_redo S)"
  have rs: "ts_redo S = ?rs @ [?r]" using ne by simp
  obtain G w1 where G: "copyFilterTree V (ts_tree S) w = (G, w1)" by fastforce
  obtain cur popped where cp: "ft_swap (ts_tree S) ?r = (cur, popped)" by fastforce
  have S': "S' = setStateModifyLevel STATE_MODIFIED_DATA (S\<lparr>ts_tree := cur, ts_undo := ts_undo S @ [G], ts_redo := ?rs\<rparr>)"
    and w': "w' = destroyFilterTree popped w1"
    using redo ne G cp unfolding popRedoStack_def by auto
  have o: "trees_ok w (ts_tree S # (ts_undo S @ ts_redo S) @ [])" using ok by (simp add: state_ok_def ts_trees_def)
  note pc = trees.push_copy[OF o G, simplified]
  have l1: "shows_same w w1 (ts_tree S # ts_undo S @ ts_redo S)"
    and g1: "picture w1 (ft G) = clonePicture V (picture w (ft (ts_tree S)))"
    using pc by (auto simp: shows_same_def)
  have "mset (ts_tree S # (ts_undo S @ [G] @ ?rs) @ ?r # []) = mset (ts_tree S # ts_undo S @ ts_redo S @ [G])"
    by (subst (2) rs) simp
  then have o1: "trees_ok w1 (ts_tree S # (ts_undo S @ [G] @ ?rs) @ ?r # [])" using pc(1) trees_ok_perm by blast
  note sd = swap_destroy[OF o1 cp]
  have len: "length (ts_undo S) + length (ts_redo S) \<le> MAX_UNDO_SIZE + 1" using ok by (simp add: state_ok_def)
  show "state_ok w' S'" using sd(1) len ne by (auto simp: S' w' state_ok_def ts_trees_def neq_Nil_conv)
  show "ts_redo S' = ?rs" "ts_map S' = ts_map S" by (simp_all add: S')
  have "?r \<in> set (ts_redo S)" using ne by simp
  then show "picture w' (ft (ts_tree S')) = picture w (ft ?r)"
    using sd(2) l1 by (simp add: S' w' shows_same_def)
  show "\<exists>G. ts_undo S' = ts_undo S @ [G] \<and> picture w' (ft G) = clonePicture V (picture w (ft (ts_tree S)))"
    using sd(3) g1 by (simp add: S' w' shows_same_def)
  show "shows_same w w' (ts_undo S @ ?rs)"
    using sd(3) l1 by (auto simp: w' shows_same_def dest: in_set_butlastD)
qed

lemma trees_ok_ft_ok: "trees_ok w (F # Fs) \<Longrightarrow> ft_ok w F"
  by (simp add: trees_ok_def ft_ok_def)

text \<open>What the user sees of a filter: its type, its settings, its name and whether it caches.\<close>

definition settings :: "'p filt \<Rightarrow> filterType \<times> 'p \<times> string \<times> bool" where
  "settings f = (f_type f, f_priv f, f_userString f, f_cache f)"

definition shownSettings :: "(nat \<times> 'p filt option) list \<Rightarrow> (nat \<times> (filterType \<times> 'p \<times> string \<times> bool) option) list" where
  "shownSettings p = map (\<lambda>(d, f). (d, map_option settings f)) p"

lemma clonePicture_settings:
  assumes "\<forall>f. Some f \<in> snd ` set p \<longrightarrow> v_clonePriv V (f_priv f) = f_priv f"
  shows "shownSettings (clonePicture V p) = shownSettings p"
proof -
  have "map_option settings (map_option (clone_of V) g) = map_option settings g" if "(d, g) \<in> set p" for d g
  proof (cases g)
    case (Some f)
    then have "Some f \<in> snd ` set p" using that by (force intro: rev_image_eqI)
    then show ?thesis using assms Some by (simp add: settings_def clone_of_def newFilter_def)
  qed simp
  then show ?thesis by (auto simp: shownSettings_def clonePicture_def)
qed

text \<open>
  Property C11. The tree that was pushed comes back on undo as a tree of clones, whatever an edit did in between to the
  current tree, the map and the world, if it left the filters of the stored trees alone: every filter stands at its old
  depth and in the old order as its uncached clone. If the clones of these filters lose nothing, their types, settings and
  names are those that were pushed (the clone of a ranging filter does lose \<^verbatim>\<open>showLegend\<close>). Redo after that shows the clones
  of the edited tree in the same way.
\<close>

theorem undo_restores:
  assumes ok: "state_ok w S" and push: "pushUndoStack V S w = (S1, w1)"
    and edit: "S2 = S1\<lparr>ts_tree := F, ts_map := m\<rparr>" "trees_ok w2 (F # ts_undo S1)"
      "\<forall>p \<in> set (all_datas (ts_undo S1)). filts w2 p = filts w1 p"
    and undo: "popUndoStack V True S2 w2 = (S3, w3)" and redo: "popRedoStack V S3 w3 = (S4, w4)"
  shows "picture w3 (ft (ts_tree S3)) = clonePicture V (picture w (ft (ts_tree S))) \<and>
    picture w4 (ft (ts_tree S4)) = clonePicture V (picture w2 (ft F)) \<and> state_ok w4 S4 \<and>
    ((\<forall>f. Some f \<in> snd ` set (picture w (ft (ts_tree S))) \<longrightarrow> v_clonePriv V (f_priv f) = f_priv f) \<longrightarrow>
       shownSettings (picture w3 (ft (ts_tree S3))) = shownSettings (picture w (ft (ts_tree S)))) \<and>
    ((\<forall>f. Some f \<in> snd ` set (picture w2 (ft F)) \<longrightarrow> v_clonePriv V (f_priv f) = f_priv f) \<longrightarrow>
       shownSettings (picture w4 (ft (ts_tree S4))) = shownSettings (picture w2 (ft F)))"
proof -
  note pf = push_facts[OF ok push]
  obtain us G where G: "ts_undo S1 = us @ [G]" "picture w1 (ft G) = clonePicture V (picture w (ft (ts_tree S)))"
    using pf(5) by blast
  have ok2: "state_ok w2 S2" using edit pf(1,4) by (simp add: state_ok_def ts_trees_def)
  have ne: "ts_undo S2 \<noteq> []" using G edit(1) by simp
  note po = pop_facts[OF ok2 ne undo]
  have "picture w2 (ft G) = picture w1 (ft G)"
    using edit(3) all_datas_mem[of G "ts_undo S1"] G(1) by (intro picture_cong) simp
  then have 1: "picture w3 (ft (ts_tree S3)) = clonePicture V (picture w (ft (ts_tree S)))"
    using po(4) G edit(1) by simp
  have "ts_redo S2 = []" using pf(4) edit(1) by simp
  then obtain H where H: "ts_redo S3 = [H]" "picture w3 (ft H) = clonePicture V (picture w2 (ft (ts_tree S2)))"
    using po(6) by (auto simp: MAX_UNDO_SIZE_def)
  then have "ts_redo S3 \<noteq> []" by simp
  note re = redo_facts[OF po(1) this redo]
  have 2: "picture w4 (ft (ts_tree S4)) = clonePicture V (picture w2 (ft F))" using re(4) H edit(1) by simp
  show ?thesis unfolding 1 2 using re(1) clonePicture_settings by blast
qed

text \<open>
  A move that is refused leaves the tree and the map as they are, but it is not free
  of effects on the history: the redo stack is lost and holds one entry, a copy of the current
  tree, and a full undo stack has lost its oldest entry.
\<close>

theorem refused_move:
  assumes ok: "state_ok w S" and ids: "map_of (ts_map S) i = Some f" "map_of (ts_map S) j = Some p"
    and fp: "f \<in> set (datas (ft (ts_tree S)))" "p \<in> set (branchOf (ft (ts_tree S)) f)"
    and p: "p \<in> set (datas (ft (ts_tree S)))"
    and step: "ts_reparentFilter V S i j w = (S', w', moved)"
  shows "\<not> moved \<and> ts_tree S' = ts_tree S \<and> ts_map S' = ts_map S \<and>
    picture w' (ft (ts_tree S')) = picture w (ft (ts_tree S)) \<and>
    ts_undo S' = (if length (ts_undo S) > MAX_UNDO_SIZE then tl (ts_undo S) else ts_undo S) \<and>
    (\<exists>G. ts_redo S' = [G] \<and> picture w' (ft G) = clonePicture V (picture w (ft (ts_tree S))))"
proof -
  obtain S1 w1 where push: "pushUndoStack V S w = (S1, w1)" by fastforce
  note pf = push_facts[OF ok push]
  have okF: "ft_ok w1 (ts_tree S)" using pf(1,2) trees_ok_ft_ok[of w1 "ts_tree S"] by (auto simp: state_ok_def ts_trees_def)
  obtain F w2 r where rp: "reparentFilter V (ts_tree S) f p w1 = (F, w2, r)" by (metis prod_cases3)
  have r: "\<not> r" "F = ts_tree S" "w2 = w1" using reparentFilter_core[OF okF fp(1) p rp] fp(2) by blast+
  have refs: "map_ref i (ts_map S) = (f, ts_map S)" "map_ref j (ts_map S) = (p, ts_map S)"
    using ids by (simp_all add: map_ref_def)
  have S1: "S1\<lparr>ts_tree := ts_tree S, ts_map := ts_map S\<rparr> = S1" using pf(2,3) by simp
  obtain S3 w3 where pop: "popUndoStack V False S1 w1 = (S3, w3)" by fastforce
  have res: "S' = S3" "w' = w3" "\<not> moved"
    using step push refs rp r pf(2,3) pop S1 by (auto simp: ts_reparentFilter_def)
  have ne: "ts_undo S1 \<noteq> []" using pf(5) by auto
  note po = pop_facts[OF pf(1) ne pop]
  have sh: "picture w1 (ft (ts_tree S)) = picture w (ft (ts_tree S))" using pf(6) by (simp add: shows_same_def)
  obtain G where "ts_redo S3 = [G]" "picture w3 (ft G) = clonePicture V (picture w1 (ft (ts_tree S1)))"
    using po(6) pf(4) by (auto simp: MAX_UNDO_SIZE_def)
  moreover have "ts_undo S3 = (if length (ts_undo S) > MAX_UNDO_SIZE then tl (ts_undo S) else ts_undo S)"
    using po(2) pf(5) by auto
  ultimately show ?thesis using res po(3,4,5) pf(2,3) sh by simp
qed

section \<open>Numbers and filters\<close>

lemma remap_nulls: "\<forall>x \<in> snd ` set m. r x = None \<or> r x = Some 0 \<Longrightarrow> remap_loop r m = map (\<lambda>(i, x). (i, 0)) m"
proof (induction m arbitrary: r)
  case (Cons e m)
  obtain i x where e: "e = (i, x)" by fastforce
  have "\<forall>y \<in> snd ` set m. r y = None \<or> r y = Some 0" "\<forall>y \<in> snd ` set m. (r(x \<mapsto> 0)) y = None \<or> (r(x \<mapsto> 0)) y = Some 0"
    using Cons.prems by auto
  then have "remap_loop r m = map (\<lambda>(i, x). (i, 0)) m" "remap_loop (r(x \<mapsto> 0)) m = map (\<lambda>(i, x). (i, 0)) m"
    using Cons.IH by blast+
  moreover have "r x = None \<or> r x = Some 0" using Cons.prems e by simp
  ultimately show ?case by (auto simp: e)
qed simp

lemma dom_filterRemap: "r \<in> dom (filterRemap fT ownT) \<Longrightarrow> r \<in> set (datas fT)"
proof -
  have "r \<in> dom (fold (\<lambda>(a, b) m. m(a \<mapsto> b)) ps m) \<Longrightarrow> r \<in> fst ` set ps \<union> dom m" for ps and m :: "fptr \<rightharpoonup> fptr"
    by (induction ps arbitrary: m) fastforce+
  then show "r \<in> dom (filterRemap fT ownT) \<Longrightarrow> r \<in> set (datas fT)"
    unfolding filterRemap_def by (fastforce dest: set_zip_leftD)
qed

text \<open>
  Property C35. \<^verbatim>\<open>switchoutFilterTree\<close> hands out the tree with its filters and keeps a clone, but it
  fills its remapping with the filters of the clone as keys and looks up the old filters: every
  number of the map is left with a null pointer.
\<close>

theorem switchout_nulls:
  assumes ok: "trees_ok w [f, ts_tree S]" and map: "\<forall>(i, x) \<in> set (ts_map S). x \<in> set (datas (ft (ts_tree S)))"
    and step: "switchoutFilterTree V S f w = (S', f', w')"
  shows "ts_map S' = map (\<lambda>(i, x). (i, 0)) (ts_map S) \<and> datas (ft f') = datas (ft (ts_tree S)) \<and>
    trees_ok w' [f', ts_tree S'] \<and> picture w' (ft (ts_tree S')) = clonePicture V (picture w (ft (ts_tree S)))"
proof -
  obtain f1 w1 where as: "assignFilterTree V f (ts_tree S) w = (f1, w1)" by fastforce
  have w0: "trees_ok (destroyFilterTree f w) [ts_tree S]" by (rule destroyFilterTree_facts(1)[OF ok])
  obtain G where G: "copyFilterTree V (ts_tree S) (destroyFilterTree f w) = (G, w1)" "ft f1 = ft G"
    using as by (auto simp: assignFilterTree_def copyFilterTree_def destroyFilterTree_def ft_clear_def split: prod.splits)
  note cf = copyFilterTree_facts[OF w0 _ G(1), simplified]
  obtain f2 own where sw: "ft_swap f1 (ts_tree S) = (f2, own)" by fastforce
  have res: "S' = S\<lparr>ts_tree := own, ts_map := remap_loop (filterRemap (ft f1) (ft (ts_tree S))) (ts_map S)\<rparr>"
    "f' = f2" "w' = w1"
    using step as sw by (auto simp: switchoutFilterTree_def)
  have o1: "trees_ok w1 [f1, ts_tree S]" using cf(1) G(2) by (simp add: trees_ok_def)
  have "x \<notin> set (datas (ft f1))" if "x \<in> set (datas (ft (ts_tree S)))" for x
    using o1 that by (auto simp: trees_ok_def)
  then have "filterRemap (ft f1) (ft (ts_tree S)) x = None" if "x \<in> set (datas (ft (ts_tree S)))" for x
    using dom_filterRemap[of x "ft f1"] that by blast
  then have "\<forall>x \<in> snd ` set (ts_map S). filterRemap (ft f1) (ft (ts_tree S)) x = None \<or> filterRemap (ft f1) (ft (ts_tree S)) x = Some 0"
    using map by auto
  from remap_nulls[OF this] have "ts_map S' = map (\<lambda>(i, x). (i, 0)) (ts_map S)" using res(1) by simp
  moreover have "picture (destroyFilterTree f w) (ft (ts_tree S)) = picture w (ft (ts_tree S))"
    using trees.look_destroy_other[OF ok] by simp
  then have "picture w1 (ft own) = clonePicture V (picture w (ft (ts_tree S)))"
    using cf(2) G(2) ft_swap_facts(8)[OF sw, of w1] by simp
  ultimately show ?thesis
    using res trees_ok_swap[OF o1 sw] ft_swap_facts(1)[OF sw] by simp
qed

section \<open>No sequence of edits frees a filter twice\<close>

text \<open>
  What \<^verbatim>\<open>setProperty\<close> of a filter must keep: it may change the filter and drop its cache, but makes
  and deletes no filters.
\<close>

definition set_keeps :: "'p vtable \<Rightarrow> bool" where
  "set_keeps V \<longleftrightarrow> (\<forall>p k v w w' ok need. filts w p \<noteq> None \<longrightarrow> v_setProperty V p k v w = (w', ok, need) \<longrightarrow> live_frame w w')"

definition bind_keeps :: "(fptr \<Rightarrow> 'b \<Rightarrow> 'p world \<Rightarrow> 'p world) \<Rightarrow> bool" where
  "bind_keeps B \<longleftrightarrow> (\<forall>p b w. filts w p \<noteq> None \<longrightarrow> live_frame w (B p b w))"

text \<open>
  A filter that is edited is one of the tree, named by its number, as the user interface takes it from the tree control,
  which it rebuilds after every change. A parent may also have a number without a filter: reading the map then
  makes a null pointer, and the filter goes to the base of the tree. So does a drop on the empty part of the
  control, which passes the number 0 for the parent (mainFrame.cpp), when no filter has it.
\<close>

definition numbered :: "treeState \<Rightarrow> nat \<Rightarrow> fptr \<Rightarrow> bool" where
  "numbered S i f \<longleftrightarrow> map_of (ts_map S) i = Some f \<and> f \<in> set (datas (ft (ts_tree S)))"

definition targeted :: "treeState \<Rightarrow> nat \<Rightarrow> fptr \<Rightarrow> bool" where
  "targeted S j p \<longleftrightarrow> p = fst (map_ref j (ts_map S)) \<and> (p = 0 \<or> p \<in> set (datas (ft (ts_tree S))))"

text \<open>
  One step of the program on the history: making a filter, the edits of the user on the tree, taking over another tree,
  the changes made by dragging in the scene (with the virtual method \<open>B\<close>), undo and redo when there is an entry, emptying
  the history or the tree, and renumbering.
\<close>

inductive history_step :: "'p vtable \<Rightarrow> (fptr \<Rightarrow> 'b \<Rightarrow> 'p world \<Rightarrow> 'p world) \<Rightarrow> treeState \<times> 'p world \<Rightarrow> treeState \<times> 'p world \<Rightarrow> bool"
  for V B where
  step_make: "history_step V B (S, w) (S, w\<lparr>filts := (filts w)(next_f w \<mapsto> newFilter ty priv), next_f := Suc (next_f w)\<rparr>)"
| step_add: "f \<noteq> 0 \<Longrightarrow> filts w f \<noteq> None \<Longrightarrow> f \<notin> set (all_datas (ts_trees S)) \<Longrightarrow>
    isBase \<or> targeted S i p \<Longrightarrow> ts_addFilter V junk S f isBase i w = (S', w') \<Longrightarrow> history_step V B (S, w) (S', w')"
| step_tree: "trees_ok w (G # ts_trees S) \<Longrightarrow> isBase \<or> targeted S i p \<and> roots (ft G) \<noteq> [] \<Longrightarrow>
    ts_addFilterTree S G isBase i w = (S', G', w') \<Longrightarrow> history_step V B (S, w) (S', w')"
| step_copy: "numbered S i f \<Longrightarrow> toRoot \<or> targeted S j p \<Longrightarrow> ts_copyFilter V S i j toRoot w = (S', w', r) \<Longrightarrow>
    history_step V B (S, w) (S', w')"
| step_move: "numbered S i f \<Longrightarrow> targeted S j p \<Longrightarrow> ts_reparentFilter V S i j w = (S', w', r) \<Longrightarrow>
    history_step V B (S, w) (S', w')"
| step_remove: "numbered S i f \<Longrightarrow> removeFilterSubtree V S i w = (S', w') \<Longrightarrow> history_step V B (S, w) (S', w')"
| step_property: "numbered S i f \<Longrightarrow> ts_setFilterProperty V S i k v w = (S', w', r, need) \<Longrightarrow>
    history_step V B (S, w) (S', w')"
| step_string: "numbered S i f \<Longrightarrow> setFilterString S i s w = (S', w') \<Longrightarrow> history_step V B (S, w) (S', w')"
| step_bindings: "applyBindingsToTree V B S modified w = (S', modified', w') \<Longrightarrow> history_step V B (S, w) (S', w')"
| step_undo: "ts_undo S \<noteq> [] \<Longrightarrow> popUndoStack V True S w = (S', w') \<Longrightarrow> history_step V B (S, w) (S', w')"
| step_redo: "ts_redo S \<noteq> [] \<Longrightarrow> popRedoStack V S w = (S', w') \<Longrightarrow> history_step V B (S, w) (S', w')"
| step_forget: "clearUndoRedoStacks S w = (S', w') \<Longrightarrow> history_step V B (S, w) (S', w')"
| step_clear: "ts_clear S w = (S', w') \<Longrightarrow> history_step V B (S, w) (S', w')"
| step_number: "swapFilterMap S m = (S', m') \<Longrightarrow> history_step V B (S, w) (S', w)"

lemma trees_ok_live_frame: "trees_ok w Fs \<Longrightarrow> live_frame w w' \<Longrightarrow> trees_ok w' Fs"
  by (auto simp: trees_ok_def live_frame_def world_ok_def)

lemma trees_ok_edit:
  assumes "trees_ok w (F # Fs)" "world_ok w'" "ub w' = ub w" "ft_ok w' F'"
    "\<forall>p \<in> set (all_datas Fs). filts w' p \<noteq> None" "set (datas (ft F')) \<inter> set (all_datas Fs) = {}"
  shows "trees_ok w' (F' # Fs)"
  using assms by (auto simp: trees_ok_def ft_ok_def)

lemma map_ref_numbered: "map_of m i = Some f \<Longrightarrow> map_ref i m = (f, m)"
  by (simp add: map_ref_def)

lemma targeted_ref: "targeted S j p \<Longrightarrow> \<exists>m. map_ref j (ts_map S) = (p, m)"
  by (cases "map_ref j (ts_map S)") (simp add: targeted_def)

lemma numbered_targeted: "numbered S j p \<Longrightarrow> targeted S j p"
  by (simp add: targeted_def numbered_def map_ref_def)

text \<open>An edit of the pushed state: the tree, the map and the world change, the history stays.\<close>

lemma edit_ok:
  assumes "state_ok w1 S1" "trees_ok w2 (F # ts_undo S1)" "ts_redo S1 = []"
  shows "state_ok w2 (S1\<lparr>ts_tree := F, ts_map := m\<rparr>)"
  using assms by (simp add: state_ok_def ts_trees_def)

lemma pushed:
  assumes "state_ok w S" "pushUndoStack V S w = (S1, w1)"
  shows "trees_ok w1 (ts_tree S # ts_undo S1)" "ft_ok w1 (ts_tree S)" "world_ok w1" "ts_undo S1 \<noteq> []"
proof -
  note pf = push_facts[OF assms]
  show o: "trees_ok w1 (ts_tree S # ts_undo S1)" using pf(1,2,4) by (simp add: state_ok_def ts_trees_def)
  show "ft_ok w1 (ts_tree S)" by (rule trees_ok_ft_ok[OF o])
  show "world_ok w1" using o by (simp add: trees_ok_def)
  show "ts_undo S1 \<noteq> []" using pf(5) by auto
qed

lemma remove_ok:
  assumes init: "filter_init (v_initFilter V)" and ok: "state_ok w S" and f: "numbered S i f"
    and step: "removeFilterSubtree V S i w = (S', w')"
  shows "state_ok w' S'"
proof -
  obtain S1 w1 where push: "pushUndoStack V S w = (S1, w1)" by fastforce
  note pf = push_facts[OF ok push] and pu = pushed[OF ok push]
  obtain F w2 where rm: "removeSubtree V (ts_tree S) f w1 = (F, w2)" by fastforce
  have S': "S' = S1\<lparr>ts_tree := F, ts_map := filter (\<lambda>(i, x). contains F x) (ts_map S)\<rparr>" "w' = w2"
    using step push rm f pf(2,3) map_ref_numbered[of "ts_map S" i f] by (auto simp: removeFilterSubtree_def numbered_def)
  have f': "f \<in> set (datas (ft (ts_tree S)))" "caches_ok w1" using f pu(3) by (simp_all add: numbered_def world_ok_def)
  note rc = removeSubtree_core[OF init pu(2) f'(2,1) rm]
  have "set (datas (ft (ts_tree S))) = set (datas (ft F)) \<union> set (branchOf (ft (ts_tree S)) f)"
    using rc by (metis set_mset_mset set_mset_union)
  moreover have dis: "set (datas (ft (ts_tree S))) \<inter> set (all_datas (ts_undo S1)) = {}"
    using pu(1) by (simp add: trees_ok_def)
  ultimately have "trees_ok w2 (F # ts_undo S1)"
    using rc pu(1,3) by (intro trees_ok_edit[OF pu(1)]) (auto simp: world_ok_def trees_ok_def)
  then show ?thesis unfolding S' by (rule edit_ok[OF pf(1) _ pf(4)])
qed

lemma copied_trees:
  assumes o: "trees_ok w1 (T # us)" and new: "\<forall>x \<in> set qs. filts w1 x = None"
    "mset (datas (ft F)) = mset (datas (ft T)) + mset qs"
    and res: "ub w2 = ub w1" "ft_ok w2 F" "world_ok w2" "\<forall>x. filts w1 x \<noteq> None \<longrightarrow> filts w2 x \<noteq> None"
  shows "trees_ok w2 (F # us)"
proof -
  have st: "set (datas (ft F)) = set (datas (ft T)) \<union> set qs" using arg_cong[OF new(2), of set_mset] by simp
  have "x \<notin> set qs" if "x \<in> set (all_datas us)" for x
  proof -
    have "filts w1 x \<noteq> None" using that o by (simp add: trees_ok_def)
    then show ?thesis using new(1) by metis
  qed
  moreover have "set (datas (ft T)) \<inter> set (all_datas us) = {}" using o by (simp add: trees_ok_def)
  ultimately have "set (datas (ft F)) \<inter> set (all_datas us) = {}" unfolding st by blast
  then show ?thesis using res o by (intro trees_ok_edit[OF o]) (simp_all add: trees_ok_def)
qed

lemma copy_ok:
  assumes init: "filter_init (v_initFilter V)" and ok: "state_ok w S" and f: "numbered S i f" and p: "toRoot \<or> targeted S j p"
    and step: "ts_copyFilter V S i j toRoot w = (S', w', r)"
  shows "state_ok w' S'"
proof -
  obtain S1 w1 where push: "pushUndoStack V S w = (S1, w1)" by fastforce
  note pf = push_facts[OF ok push] and pu = pushed[OF ok push]
  let ?p = "if toRoot then 0 else p"
  obtain F w2 c where cp: "copyFilter V (ts_tree S) f ?p w1 = (F, w2, c)" by (metis prod_cases3)
  have r: "map_ref i (ts_map S) = (f, ts_map S)" using f map_ref_numbered by (simp add: numbered_def)
  have S': "\<exists>m. S' = S1\<lparr>ts_tree := F, ts_map := m\<rparr>" "w' = w2"
    using step push cp r pf(2,3) p targeted_ref[of S j p]
    by (cases toRoot; auto simp: ts_copyFilter_def Let_def)+
  have fp: "f \<in> set (datas (ft (ts_tree S)))" "?p = 0 \<or> ?p \<in> set (datas (ft (ts_tree S)))"
    using f p by (auto simp: numbered_def targeted_def)
  have o: "trees_ok w2 (F # ts_undo S1)"
  proof (cases "?p = 0")
    case True
    from copyFilter_root[OF pu(2,3) init fp(1) cp[unfolded True]]
    show ?thesis using copied_trees[OF pu(1)] by blast
  next
    case False
    then have pin: "?p \<in> set (datas (ft (ts_tree S)))" using fp(2) by simp
    note cc = copyFilter_core[OF pu(2,3) init fp(1) pin cp]
    show ?thesis
    proof (cases c)
      case True
      then obtain q qs where "\<forall>x \<in> set (q # qs). filts w1 x = None"
        "mset (datas (ft F)) = mset (datas (ft (ts_tree S))) + mset (q # qs)" using cc by blast
      from copied_trees[OF pu(1) this] show ?thesis using cc True by blast
    qed (use cc pu(1) in simp)
  qed
  then show ?thesis using S' edit_ok[OF pf(1) o pf(4)] by auto
qed

lemma move_ok:
  assumes init: "filter_init (v_initFilter V)" and ok: "state_ok w S" and f: "numbered S i f" "targeted S j p"
    and step: "ts_reparentFilter V S i j w = (S', w', r)"
  shows "state_ok w' S'"
proof -
  obtain S1 w1 where push: "pushUndoStack V S w = (S1, w1)" by fastforce
  note pf = push_facts[OF ok push] and pu = pushed[OF ok push]
  obtain F w2 c where rp: "reparentFilter V (ts_tree S) f p w1 = (F, w2, c)" by (metis prod_cases3)
  have ri: "map_ref i (ts_map S) = (f, ts_map S)" using f map_ref_numbered by (simp add: numbered_def)
  obtain m where rj: "map_ref j (ts_map S) = (p, m)" using targeted_ref[OF f(2)] by blast
  let ?S2 = "S1\<lparr>ts_tree := F, ts_map := m\<rparr>"
  have fp: "f \<in> set (datas (ft (ts_tree S)))" "p = 0 \<or> p \<in> set (datas (ft (ts_tree S)))"
    using f unfolding numbered_def targeted_def by blast+
  have co: "caches_ok w1" using pu(3) by (simp add: world_ok_def)
  have rc: "\<not> c \<and> F = ts_tree S \<and> w2 = w1 \<or>
      c \<and> wf_ptree (ft F) \<and> mset (datas (ft F)) = mset (datas (ft (ts_tree S))) \<and> live_frame w1 w2"
  proof (cases "p = 0")
    case True
    then show ?thesis using reparentFilter_root[OF pu(2) init co fp(1)] rp by blast
  next
    case False
    then have "p \<in> set (datas (ft (ts_tree S)))" using fp(2) by simp
    from reparentFilter_core[OF pu(2) fp(1) this rp] show ?thesis using init co by blast
  qed
  have o: "trees_ok w2 (F # ts_undo S1)"
  proof (cases c)
    case False
    then show ?thesis using rc pu(1) by simp
  next
    case True
    then have lf: "live_frame w1 w2" and F: "wf_ptree (ft F)" "mset (datas (ft F)) = mset (datas (ft (ts_tree S)))"
      using rc by simp_all
    note dd = ft_ok_datas_eq[OF pu(2) F]
    from pu(1) have "trees_ok w1 (F # ts_undo S1)" using F(1) dd by (auto simp: trees_ok_def)
    then show ?thesis by (rule trees_ok_live_frame[OF _ lf])
  qed
  have ok2: "state_ok w2 ?S2" by (rule edit_ok[OF pf(1) o pf(4)])
  show ?thesis
  proof (cases c)
    case True
    then show ?thesis using step push rp ri rj pf(2,3) ok2 by (auto simp: ts_reparentFilter_def)
  next
    case False
    then have "popUndoStack V False ?S2 w2 = (S', w')"
      using step push rp ri rj pf(2,3) by (auto simp: ts_reparentFilter_def split: prod.splits)
    moreover have "ts_undo ?S2 \<noteq> []" using pu(4) by simp
    ultimately show ?thesis using pop_facts(1)[OF ok2] by blast
  qed
qed

text \<open>The numbers of the filters when the vector of \<^verbatim>\<open>addFilter\<close> is written: reading the parent may have added one.\<close>

definition ids_fit :: "treeState \<Rightarrow> bool \<Rightarrow> nat \<Rightarrow> bool" where
  "ids_fit S isBase i = ids_in_range (if isBase then ts_map S else snd (map_ref i (ts_map S)))"

lemma add_ok:
  assumes init: "filter_init (v_initFilter V)" and ok: "state_ok w S"
    and f: "f \<noteq> 0" "filts w f \<noteq> None" "f \<notin> set (all_datas (ts_trees S))"
    and ids: "ids_fit S isBase i" and p: "isBase \<or> targeted S i p"
    and step: "ts_addFilter V junk S f isBase i w = (S', w')"
  shows "state_ok w' S'"
proof -
  obtain S1 w1 where push: "pushUndoStack V S w = (S1, w1)" by fastforce
  note pf = push_facts[OF ok push] and pu = pushed[OF ok push]
  let ?p = "if isBase then 0 else p"
  obtain F w2 where ad: "addFilter V (ts_tree S) f ?p w1 = (F, w2)" by fastforce
  have S': "\<exists>m. S' = S1\<lparr>ts_tree := F, ts_map := m\<rparr>" "w' = w2"
    using step push ad pf(2,3) targeted_ref[of S i p] p ids
    by (cases isBase; auto simp: ts_addFilter_def ids_fit_def Let_def)+
  have f1: "filts w1 f \<noteq> None" "f \<notin> set (all_datas (ts_tree S # ts_undo S1))"
    using pf(7)[OF f(2,3)] f(2) pf(2,4) by (simp_all add: ts_trees_def)
  then have f2: "f \<notin> set (datas (ft (ts_tree S)))" by simp
  have "?p = 0 \<or> ?p \<in> set (datas (ft (ts_tree S)))" using p by (auto simp: targeted_def)
  note ac = addFilter_core[OF pu(2) init f(1) f2 f1(1) this ad]
  have st: "set (datas (ft F)) = insert f (set (datas (ft (ts_tree S))))"
    using conjunct1[OF ac] by (metis set_mset_add_mset_insert set_mset_mset)
  have "set (datas (ft (ts_tree S))) \<inter> set (all_datas (ts_undo S1)) = {}"
    using pu(1) by (simp add: trees_ok_def)
  then have "set (datas (ft F)) \<inter> set (all_datas (ts_undo S1)) = {}" using f1(2) unfolding st by simp
  moreover have fr: "frame w1 w2" "ft_ok w2 F" using ac by simp_all
  moreover have "world_ok w2" by (rule frame_world_ok[OF fr(1) pu(3)])
  ultimately have "trees_ok w2 (F # ts_undo S1)"
    using pu(1) by (intro trees_ok_edit[OF pu(1)]) (simp_all add: trees_ok_def frame_def)
  then show ?thesis using S' edit_ok[OF pf(1) _ pf(4)] by auto
qed

lemma tree_ok:
  assumes ok: "state_ok w S" and G: "trees_ok w (G # ts_trees S)" and p: "isBase \<or> targeted S i p \<and> roots (ft G) \<noteq> []"
    and step: "ts_addFilterTree S G isBase i w = (S', G', w')"
  shows "state_ok w' S'"
proof -
  let ?p = "if isBase then 0 else p"
  obtain F w2 where ad: "addFilterTree (ts_tree S) G ?p w = (F, G', w2)"
    and S': "S' = S\<lparr>ts_tree := F, ts_map := []\<rparr>" "w' = w2"
    using step p by (auto simp: ts_addFilterTree_def targeted_def split: prod.splits if_splits)
  have o: "trees_ok w (ts_tree S # ts_undo S @ ts_redo S)" using ok by (simp add: state_ok_def ts_trees_def)
  then have wf: "wf_ptree (ft (ts_tree S))" "distinct (datas (ft (ts_tree S)))" by (simp_all add: trees_ok_def)
  have "?p = 0 \<or> ?p \<in> set (datas (ft (ts_tree S))) \<and> roots (ft G) \<noteq> []" using p by (auto simp: targeted_def)
  from addFilterTree_core[OF wf this ad] obtain gs where r: "w2 = w" "wf_ptree (ft F)"
    "mset (datas (ft F)) = mset (datas (ft (ts_tree S)) @ gs)"
    "gs = (case roots (ft G) of [] \<Rightarrow> [] | g # _ \<Rightarrow> map snd (flat g))" by auto
  obtain rest where rest: "datas (ft G) = gs @ rest"
    unfolding r(4) datas_items by (cases "roots (ft G)") auto
  have d: "distinct (datas (ft (ts_tree S)) @ gs)" "set gs \<inter> set (all_datas (ts_undo S @ ts_redo S)) = {}"
    "\<forall>x \<in> set gs. x \<noteq> 0 \<and> filts w x \<noteq> None"
    using G rest by (auto simp: trees_ok_def ts_trees_def)
  have "distinct (datas (ft F))" using r(3) d(1) by (metis mset_eq_imp_distinct_iff)
  moreover have st: "set (datas (ft F)) = set (datas (ft (ts_tree S))) \<union> set gs" using mset_eq_setD[OF r(3)] by simp
  ultimately have "ft_ok w F" using r(2) o d(3) by (auto simp: ft_ok_def trees_ok_def)
  moreover have "set (datas (ft F)) \<inter> set (all_datas (ts_undo S @ ts_redo S)) = {}"
    using o d(2) unfolding st trees_ok_def by auto
  ultimately have "trees_ok w (F # ts_undo S @ ts_redo S)"
    using o by (intro trees_ok_edit[OF o]) (simp_all add: trees_ok_def)
  then show ?thesis using ok r(1) by (simp add: S' state_ok_def ts_trees_def)
qed

lemma string_ok:
  assumes ok: "state_ok w S" and f: "numbered S i f" and step: "setFilterString S i s w = (S', w')"
  shows "state_ok w' S'"
proof -
  have o: "trees_ok w (ts_trees S)" using ok by (simp add: state_ok_def)
  then have "filts w f \<noteq> None" using f by (auto simp: numbered_def trees_ok_def ts_trees_def)
  then obtain g where g: "filts w f = Some g" by blast
  let ?w = "w\<lparr>filts := (filts w)(f \<mapsto> g\<lparr>f_userString := s\<rparr>)\<rparr>"
  have r: "S' = S" "w' = ?w"
    using step f g by (auto simp: setFilterString_def upd_filt_def numbered_def map_ref_numbered)
  have "outputs_of ?w = outputs_of w" "haveCache ?w = haveCache w"
    using g by (auto simp: outputs_of_def haveCache_def get_filt_def fun_eq_iff)
  moreover have "streamCached ?w = streamCached w" by (simp add: streamCached_def fun_eq_iff)
  ultimately have "live_frame w ?w" using g by (simp add: live_frame_def caches_ok_def)
  then show ?thesis using ok trees_ok_live_frame[OF o] r by (simp add: state_ok_def)
qed

lemma ft_clearCache_live:
  assumes ok: "ft_ok w F" and co: "caches_ok w" and f: "f \<in> set (datas (ft F))"
  shows "live_frame w (ft_clearCache V F f includeSelf w)"
proof -
  have f0: "f \<noteq> 0" using ok f by (auto simp: ft_ok_def)
  obtain anc n where n: "(anc, n) \<in> set (entries (ft F))" "tdata n = f" "find_data (ft F) f = Some (addr n)"
    using ft_ok_entry[OF ok f] .
  let ?l = "filter (\<lambda>p. \<not> (\<not> includeSelf \<and> p = f)) (scan_filters (ft F) (addr n))"
  have "x \<in> set (datas (ft F))" if "x \<in> set ?l" for x
    using ancestorOf_datas[of "ft F" f x] n(3) f that by (cases "x = f") (auto simp: ancestorOf_def branchOf_def)
  then have "\<forall>p \<in> set ?l. filts w p \<noteq> None" using ok by (auto simp: ft_ok_def)
  from live_frame_clearCaches[OF co this, of V] show ?thesis
    using n(3) f0 by (simp add: ft_clearCache_def clearCaches_def)
qed

lemma bindings_live:
  assumes B: "bind_keeps B" and ok: "ft_ok w F" "world_ok w"
  shows "live_frame w (fold (\<lambda>(p, b) w. case find_data (ft F) p of None \<Rightarrow> w
      | Some _ \<Rightarrow> B p b (ft_clearCache V F p False w)) bs w)"
  using ok
proof (induction bs arbitrary: w)
  case Nil
  then show ?case by (simp add: live_frame_def)
next
  case (Cons e bs)
  obtain p b where e: "e = (p, b)" by fastforce
  let ?w = "case find_data (ft F) p of None \<Rightarrow> w | Some _ \<Rightarrow> B p b (ft_clearCache V F p False w)"
  have co: "caches_ok w" using Cons.prems(2) by (simp add: world_ok_def)
  have lf: "live_frame w ?w"
  proof (cases "find_data (ft F) p")
    case (Some a)
    then have p: "p \<in> set (datas (ft F))" using find_data_SomeD[of "ft F" p a] unfolding datas_entry by blast
    note l1 = ft_clearCache_live[OF Cons.prems(1) co p, of V False]
    have "filts (ft_clearCache V F p False w) p \<noteq> None"
      using l1 p Cons.prems(1) by (simp add: live_frame_def ft_ok_def)
    then have "live_frame (ft_clearCache V F p False w) ?w" using B Some by (simp add: bind_keeps_def)
    from live_frame_trans[OF l1 this] show ?thesis .
  qed (simp add: live_frame_def)
  have ok': "ft_ok ?w F" "world_ok ?w"
    using Cons.prems lf by (auto simp: ft_ok_def live_frame_def world_ok_def)
  from live_frame_trans[OF lf Cons.IH[OF ok']] show ?case by (simp add: e)
qed

lemma bindings_ok:
  assumes B: "bind_keeps B" and ok: "state_ok w S" and step: "applyBindingsToTree V B S modified w = (S', modified', w')"
  shows "state_ok w' S'"
proof -
  let ?S = "S\<lparr>ts_pending := False\<rparr>" and ?bs = "concat (map modified (ts_devices S))"
  have ok0: "state_ok w ?S" using ok by (simp add: state_ok_def ts_trees_def)
  show ?thesis
  proof (cases "?bs = []")
    case True
    then show ?thesis using step ok0 by (auto simp: applyBindingsToTree_def applyBindings_def)
  next
    case False
    obtain S1 w1 where push: "pushUndoStack V ?S w = (S1, w1)" by fastforce
    note pf = push_facts[OF ok0 push] and pu = pushed[OF ok0 push]
    have tr: "ts_tree S1 = ts_tree ?S" by (rule pf(2))
    let ?f = "\<lambda>(p, b) w. case find_data (ft (ts_tree S1)) p of None \<Rightarrow> w
          | Some _ \<Rightarrow> B p b (ft_clearCache V (ts_tree S1) p False w)"
    define w2 where "w2 = fold ?f ?bs w1"
    have "applyBindings V B ?S ?bs w = (S1, w2)"
      unfolding applyBindings_def if_not_P[OF False] push w2_def by simp
    then have "S' = S1" "w' = fold ?f ?bs w1" using step unfolding w2_def[symmetric] by (simp_all add: applyBindingsToTree_def)
    then have r: "S' = S1" "live_frame w1 w'"
      using bindings_live[OF B pu(2,3), of V ?bs, folded tr] by simp_all
    then show ?thesis using pf(1) trees_ok_live_frame[of w1 "ts_trees S1" w'] by (simp add: state_ok_def)
  qed
qed

lemma clear_ok:
  assumes ok: "state_ok w S" and step: "ts_clear S w = (S', w')"
  shows "state_ok w' S'"
proof -
  have o: "trees_ok w (ts_tree S # ts_undo S @ ts_redo S)" using ok by (simp add: state_ok_def ts_trees_def)
  have "S' = S\<lparr>ts_tree := (ts_tree S)\<lparr>ft := clear_tree (ft (ts_tree S))\<rparr>, ts_map := [], ts_fta := []\<rparr>"
    "w' = destroyFilterTree (ts_tree S) w"
    using step by (auto simp: ts_clear_def ft_clear_def destroyFilterTree_def)
  moreover have "trees_ok (destroyFilterTree (ts_tree S) w) (ts_undo S @ ts_redo S)"
    by (rule destroyFilterTree_facts(1)[OF o])
  ultimately show ?thesis
    using ok by (simp add: state_ok_def ts_trees_def trees_ok_def clear_tree_def wf_ptree_def addrs_def datas_def entries_def)
qed

lemma setFilterProperty_live:
  assumes init: "filter_init (v_initFilter V)" and set: "set_keeps V" and ok: "ft_ok w F" "world_ok w"
    and f: "f \<in> set (datas (ft F))" and step: "setFilterProperty V F f k v w = (w', r, need)"
  shows "live_frame w w'"
proof -
  obtain w1 ok1 need1 where v: "v_setProperty V f k v w = (w1, ok1, need1)" by (metis prod_cases3)
  have "filts w f \<noteq> None" using ok(1) f by (simp add: ft_ok_def)
  then have l1: "live_frame w w1" using set v unfolding set_keeps_def by blast
  have live: "filts w1 p \<noteq> None" if "p \<in> set (datas (ft F))" for p
    using that l1 ok(1) by (simp add: live_frame_def ft_ok_def)
  have co: "caches_ok w1" using l1 ok(2) by (simp add: live_frame_def world_ok_def)
  obtain anc n where n: "(anc, n) \<in> set (entries (ft F))" "tdata n = f" "find_data (ft F) f = Some (addr n)"
    using ft_ok_entry[OF ok(1) f] .
  let ?l = "filter (\<lambda>p. p \<noteq> f) (scan_filters (ft F) (addr n))"
  have "set ?l \<subseteq> set (datas (ft F))"
    using ancestorOf_datas[of "ft F" f] n(3) by (auto simp: ancestorOf_def branchOf_def)
  then have l2: "live_frame w1 (clearCaches V ?l w1)"
    unfolding clearCaches_def using live by (intro live_frame_clearCaches[OF co]) blast
  have l3: "live_frame w2 (initFilterTree V (ft F) w2)" if l: "live_frame w1 w2" for w2
  proof -
    have "\<forall>p \<in> set (datas (ft F)). filts w2 p \<noteq> None" using l live unfolding live_frame_def by blast
    from filter_init.initFilterTree_frame[OF init refl this] show ?thesis by (rule frame_live_frame)
  qed
  have "live_frame w1 w1" by (simp add: live_frame_def)
  then show ?thesis
    using step v n(3) l1 l2 l3 live_frame_trans[OF l1]
    by (auto simp: setFilterProperty_def Let_def split: if_splits intro: live_frame_trans)
qed

lemma property_ok:
  assumes init: "filter_init (v_initFilter V)" and set: "set_keeps V" and ok: "state_ok w S" and f: "numbered S i f"
    and step: "ts_setFilterProperty V S i k v w = (S', w', r, need)"
  shows "state_ok w' S'"
proof -
  obtain S1 w1 where push: "pushUndoStack V S w = (S1, w1)" by fastforce
  note pf = push_facts[OF ok push] and pu = pushed[OF ok push]
  obtain w2 c nd where sp: "setFilterProperty V (ts_tree S) f k v w1 = (w2, c, nd)" by (metis prod_cases3)
  have f': "f \<in> set (datas (ft (ts_tree S)))" using f by (simp add: numbered_def)
  have lf: "live_frame w1 w2" by (rule setFilterProperty_live[OF init set pu(2,3) f' sp])
  let ?S2 = "S1\<lparr>ts_map := ts_map S\<rparr>"
  have ok2: "state_ok w2 ?S2"
    using pf(1) trees_ok_live_frame[OF _ lf, of "ts_trees S1"] by (simp add: state_ok_def ts_trees_def)
  show ?thesis
  proof (cases c)
    case True
    then show ?thesis using step push sp f pf(2,3) map_ref_numbered[of "ts_map S"] ok2
      by (auto simp: ts_setFilterProperty_def numbered_def)
  next
    case False
    then have "popUndoStack V False ?S2 w2 = (S', w')"
      using step push sp f pf(2,3) map_ref_numbered[of "ts_map S"]
      by (auto simp: ts_setFilterProperty_def numbered_def split: prod.splits)
    moreover have "ts_undo ?S2 \<noteq> []" using pu(4) by simp
    ultimately show ?thesis using pop_facts(1)[OF ok2] by blast
  qed
qed

lemma make_ok:
  assumes "trees_ok w Fs"
  shows "trees_ok (w\<lparr>filts := (filts w)(next_f w \<mapsto> newFilter ty priv), next_f := Suc (next_f w)\<rparr>) Fs"
    (is "trees_ok ?w Fs")
proof -
  have wo: "world_ok w" using assms by (simp add: trees_ok_def)
  then have "filts w (next_f w) = None" by (simp add: world_ok_def)
  then have "outputs_of ?w = outputs_of w" "haveCache ?w = haveCache w"
    by (auto simp: outputs_of_def haveCache_def get_filt_def newFilter_def fun_eq_iff)
  moreover have "streamCached ?w = streamCached w" by (simp add: streamCached_def fun_eq_iff)
  ultimately have "world_ok ?w" using wo by (simp add: world_ok_def caches_ok_def)
  then show ?thesis using assms by (simp add: trees_ok_def)
qed

lemma forget_ok:
  assumes "state_ok w S" "clearUndoRedoStacks S w = (S', w')"
  shows "state_ok w' S'"
proof -
  have "trees_ok w (ts_undo S @ (ts_redo S @ [ts_tree S]))"
    using assms(1) by (auto simp: state_ok_def ts_trees_def intro: trees_ok_perm)
  from trees.owned_clear[OF this] have "trees_ok (fold destroyFilterTree (ts_undo S) w) (ts_redo S @ [ts_tree S])" .
  from trees.owned_clear[OF this] show ?thesis
    using assms(2) by (auto simp: clearUndoRedoStacks_def state_ok_def ts_trees_def)
qed

text \<open>The one step that can go wrong: an addition while a number lies behind the vector that \<^verbatim>\<open>addFilter\<close> makes.\<close>

definition overrun :: "'p vtable \<Rightarrow> treeState \<times> 'p world \<Rightarrow> treeState \<times> 'p world \<Rightarrow> bool" where
  "overrun V s s' \<longleftrightarrow> (\<exists>f isBase i junk. \<not> ids_fit (fst s) isBase i \<and> ts_addFilter V junk (fst s) f isBase i (snd s) = s')"

lemma history_step_ok:
  assumes "history_step V B s s'" "filter_init (v_initFilter V)" "set_keeps V" "bind_keeps B" "state_ok (snd s) (fst s)"
  shows "state_ok (snd s') (fst s') \<or> overrun V s s'"
  using assms
proof (induction rule: history_step.induct)
  case (step_make S w ty priv)
  then show ?case using make_ok by (auto simp: state_ok_def)
next
  case (step_add f w S isBase i p junk S' w')
  show ?case
  proof (cases "ids_fit S isBase i")
    case True
    then show ?thesis using add_ok[OF step_add(6) _ step_add(1,2,3) True step_add(4,5)] step_add(9) by simp
  next
    case False
    then show ?thesis using step_add(5) by (auto simp: overrun_def)
  qed
next
  case (step_number S m S' m' w)
  then show ?case by (auto simp: swapFilterMap_def state_ok_def ts_trees_def)
qed (auto dest: copy_ok move_ok remove_ok property_ok forget_ok tree_ok string_ok bindings_ok clear_ok
    pop_facts(1) redo_facts(1))


lemma contains_iff: "contains F x \<longleftrightarrow> x \<in> set (datas (ft F))"
  by (simp add: contains_def find_data_None)


section \<open>The number of a new filter\<close>

lemma fold_use: "ui < length v \<Longrightarrow> fold (\<lambda>(i, x) v. v[i := True]) m v ! ui \<longleftrightarrow> v ! ui \<or> ui \<in> fst ` set m"
proof (induction m arbitrary: v)
  case (Cons e m)
  obtain i x where e: "e = (i, x)" by fastforce
  have "fold (\<lambda>(i, x) v. v[i := True]) m (v[i := True]) ! ui \<longleftrightarrow> v[i := True] ! ui \<or> ui \<in> fst ` set m"
    using Cons.prems by (intro Cons.IH) simp
  moreover have "v[i := True] ! ui \<longleftrightarrow> v ! ui \<or> ui = i" using Cons.prems by (cases "ui = i") auto
  ultimately show ?case by (auto simp: e)
qed simp

lemma fold_last: "fold (\<lambda>ui r. if \<not> P ui then ui else r) [0..<n] j =
    (if \<exists>i < n. \<not> P i then Max {i. i < n \<and> \<not> P i} else j)"
proof (induction n)
  case (Suc n)
  show ?case
  proof (cases "P n")
    case True
    then have "{i. i < Suc n \<and> \<not> P i} = {i. i < n \<and> \<not> P i}" by (auto simp: less_Suc_eq)
    then show ?thesis using Suc True by (auto simp: less_Suc_eq)
  next
    case False
    have "Max {i. i < Suc n \<and> \<not> P i} = n" using False by (intro Max_eqI) auto
    then show ?thesis using Suc False by (auto simp: less_Suc_eq)
  qed
qed simp

text \<open>
  The number of a new filter is the largest one below the size of the map that is not
  in use. The tree control numbers the filters from 1 on, so that 0 is free right after a renumbering; when there is
  no gap, as on an empty map, the number is what the uninitialised variable holds.
\<close>

theorem idToUse_last_gap:
  "idToUse junk m = (let gaps = {i. i < length m \<and> i \<notin> fst ` set m} in if gaps = {} then junk else Max gaps)"
proof -
  have "fold (\<lambda>(i, x) v. v[i := True]) m (replicate (length m + 1) False) ! ui \<longleftrightarrow> ui \<in> fst ` set m"
    if "ui < length m" for ui
    using fold_use[of ui "replicate (length m + 1) False" m] nth_replicate[of ui "length m + 1" False] that
    by (simp del: replicate_Suc)
  then have "fold (\<lambda>ui r. if \<not> fold (\<lambda>(i, x) v. v[i := True]) m (replicate (length m + 1) False) ! ui then ui else r) [0..<length m] junk
      = fold (\<lambda>ui r. if \<not> ui \<in> fst ` set m then ui else r) [0..<length m] junk"
    by (intro fold_cong) auto
  then show ?thesis unfolding idToUse_def Let_def fold_last by auto
qed

end
