(* ===== verification/SamplesState.thy ===== *)
theory SamplesState
  imports Samples TreeState
begin

text \<open>
  The properties of the analysis and of the tree state on concrete trees: the tree of \<open>Samples\<close>
  with numbered filters, and one in which a sampling filter is followed by a profile.
\<close>

section \<open>The history\<close>

definition sampleS :: treeState where
  "sampleS = newTreeState\<lparr>ts_tree := sampleF, ts_map := [(0, 1), (1, 2), (2, 4), (3, 3)]\<rparr>"

lemma sampleS_fields [simp]:
  "ts_tree sampleS = sampleF" "ts_map sampleS = [(0, 1), (1, 2), (2, 4), (3, 3)]" "ts_undo sampleS = []" "ts_redo sampleS = []"
  by (simp_all add: sampleS_def newTreeState_def)

lemma sample_trees: "trees_ok sampleW [sampleF]"
  using sample_ok sample_world by (simp add: trees_ok_def ft_ok_def) (simp add: sampleW_def)

lemma sampleS_ok: "state_ok sampleW sampleS"
  using sample_trees by (simp add: state_ok_def ts_trees_def)

lemma sample_set: "set_keeps sampleV"
  by (simp add: set_keeps_def sampleV_def live_frame_def)

lemma sample_numbered: "numbered sampleS 1 2" "numbered sampleS 2 4"
  by (simp_all add: numbered_def)

lemma sample_branch: "4 \<in> set (branchOf (ft sampleF) 2)"
  by (simp add: branchOf_def find_data_def scan_filters_def scan_subtree_def scan_from_def)

text \<open>A filter is moved to the base of the tree by the number 0, which no filter has, and the move is undone.\<close>

definition sampleN :: treeState where
  "sampleN = sampleS\<lparr>ts_map := [(1, 1), (2, 2), (3, 4), (4, 3)]\<rparr>"

lemma sampleN_fields [simp]:
  "ts_tree sampleN = sampleF" "ts_map sampleN = [(1, 1), (2, 2), (3, 4), (4, 3)]" "ts_undo sampleN = []" "ts_redo sampleN = []"
  by (simp_all add: sampleN_def)

lemma sampleN_ok: "state_ok sampleW sampleN"
  using sample_trees by (simp add: state_ok_def ts_trees_def)

definition sampleB :: "fptr \<Rightarrow> nat \<Rightarrow> unit world \<Rightarrow> unit world" where
  "sampleB p b w = w"

lemma sampleB_keeps: "bind_keeps sampleB"
  by (simp add: bind_keeps_def sampleB_def live_frame_def)



text \<open>The edit changes a setting of the pushed tree.\<close>

lemma undo_restores_witness:
  "\<exists>S1 w1 S3 w3. pushUndoStack sampleV sampleS sampleW = (S1, w1) \<and>
     popUndoStack sampleV True (S1\<lparr>ts_tree := setCachePercent 10 (ts_tree S1), ts_map := []\<rparr>) w1 = (S3, w3) \<and>
     picture w3 (ft (ts_tree S3)) = clonePicture sampleV (picture sampleW (ft sampleF)) \<and>
     shownSettings (picture w3 (ft (ts_tree S3))) = shownSettings (picture sampleW (ft sampleF))"
proof -
  obtain S1 w1 where p: "pushUndoStack sampleV sampleS sampleW = (S1, w1)" by fastforce
  let ?S2 = "S1\<lparr>ts_tree := setCachePercent 10 (ts_tree S1), ts_map := []\<rparr>"
  obtain S3 w3 where u: "popUndoStack sampleV True ?S2 w1 = (S3, w3)" by fastforce
  obtain S4 w4 where r: "popRedoStack sampleV S3 w3 = (S4, w4)" by fastforce
  have "trees_ok w1 (ts_tree S1 # ts_undo S1)"
    using pushed(1)[OF sampleS_ok p] push_facts(2)[OF sampleS_ok p] by simp
  then have "trees_ok w1 (setCachePercent 10 (ts_tree S1) # ts_undo S1)"
    by (simp add: trees_ok_def setCachePercent_def)
  from undo_restores[OF sampleS_ok p refl this _ u r] show ?thesis using p u by auto
qed

lemma refused_move_witness:
  "\<exists>S' w' G. ts_reparentFilter sampleV sampleS 1 2 sampleW = (S', w', False) \<and> ts_tree S' = sampleF \<and> ts_redo S' = [G]"
proof -
  obtain S' w' r where m: "ts_reparentFilter sampleV sampleS 1 2 sampleW = (S', w', r)" by (metis prod_cases3)
  have "\<not> r \<and> ts_tree S' = sampleF \<and> (\<exists>G. ts_redo S' = [G])"
    using refused_move[OF sampleS_ok _ _ _ _ _ m, of 2 4] sample_branch by auto
  then show ?thesis using m by simp
qed

lemma switchout_nulls_witness:
  "\<exists>S' f' w'. switchoutFilterTree sampleV sampleS newFilterTree sampleW = (S', f', w') \<and>
     ts_map S' = [(0, 0), (1, 0), (2, 0), (3, 0)]"
proof -
  obtain S' f' w' where s: "switchoutFilterTree sampleV sampleS newFilterTree sampleW = (S', f', w')" by (metis prod_cases3)
  have "trees_ok sampleW [newFilterTree, ts_tree sampleS]"
    using sample_trees by (simp add: trees_ok_def newFilterTree_def datas_def entries_def empty_ptree_def wf_ptree_def addrs_def)
  from switchout_nulls[OF this _ s] show ?thesis using s by simp
qed

section \<open>The analysis\<close>

text \<open>
  A downsampling to a fixed number of ions and a normalised profile below it; both lie below a
  data source, as does a range file.
\<close>

definition sampleA :: "unit analyseEnv" where
  "sampleA = \<lparr>a_getProperties = (\<lambda>f. if f_type f = FILTER_TYPE_IONDOWNSAMPLE
         then addProperty (sampleProp KEY_IONDOWNSAMPLE_FIXEDOUT ''1'') 0 newPropGroup
         else addProperty (sampleProp PROFILE_KEY_NORMALISE ''1'') 0 newPropGroup),
     a_undefinedProp = sampleProp 0 ''0'', a_lessOne = (\<lambda>_. False), a_needsUnranged = (\<lambda>_. False), a_dropUnranged = (\<lambda>_. False),
     a_enabledIons = (\<lambda>_. []), a_enabledRanges = (\<lambda>_. [])\<rparr>"

definition sampleT :: "fptr ptree" where
  "sampleT = \<lparr>roots = [TNode 1 1 [TNode 2 2 [TNode 3 5 []], TNode 4 3 []]], next_addr = 5\<rparr>"

lemma sampleT_facts [simp]:
  "wf_ptree sampleT" "datas sampleT = [1, 2, 5, 3]"
  "branchOf sampleT 1 = [1, 2, 5, 3]" "branchOf sampleT 2 = [2, 5]" "branchOf sampleT 5 = [5]" "branchOf sampleT 3 = [3]"
  by (simp_all add: sampleT_def wf_ptree_def datas_def addrs_def entries_def branchOf_def find_data_def scan_filters_def
      scan_subtree_def scan_from_def)

lemma sampleT_ancestors:
  "ancestorOf sampleT h 2 \<longleftrightarrow> h = 1" "ancestorOf sampleT h 5 \<longleftrightarrow> h = 1 \<or> h = 2"
proof -
  have "ancestorOf sampleT h g \<longleftrightarrow> h = 1 \<and> g \<in> {2, 5, 3} \<or> h = 2 \<and> g = 5" for g
  proof (cases "h \<in> {1, 2, 5, 3}")
    case True
    then show ?thesis by (elim insertE emptyE) (auto simp: ancestorOf_def simp del: One_nat_def)
  next
    case False
    then show ?thesis using ancestorOf_datas[of sampleT h g] by (auto simp del: One_nat_def)
  qed
  then show "ancestorOf sampleT h 2 \<longleftrightarrow> h = 1" "ancestorOf sampleT h 5 \<longleftrightarrow> h = 1 \<or> h = 2" by simp_all
qed

lemma sampleW_types [simp]:
  "filts sampleW 1 = Some (newFilter FILTER_TYPE_DATALOAD ())" "filts sampleW 2 = Some (newFilter FILTER_TYPE_IONDOWNSAMPLE ())"
  "filts sampleW 5 = Some (newFilter FILTER_TYPE_PROFILE ())"
  by (simp_all add: sampleW_def)

lemmas sample_keys = KEY_IONDOWNSAMPLE_FIXEDOUT_def PROFILE_KEY_NORMALISE_def DATALOAD_KEY_SAMPLE_def

lemma sample_getProp:
  "getPropValue 2 (addProperty (sampleProp 2 ''1'') 0 newPropGroup) = Some (sampleProp 2 ''1'')"
  "getPropValue 12 (addProperty (sampleProp 12 ''1'') 0 newPropGroup) = Some (sampleProp 12 ''1'')"
  "hasProp 2 (addProperty (sampleProp 2 ''1'') 0 newPropGroup)"
  "\<not> hasProp 2 (addProperty (sampleProp 12 ''1'') 0 newPropGroup)"
  by (simp_all add: getPropValue_def hasProp_def addProperty_def newPropGroup_def sampleProp_def)

lemma sampleProp_data: "fp_data (sampleProp k d) = d"
  by (simp add: sampleProp_def)

lemma spatialSampling_reports_witness:
  "[2, 5] \<in> reportedFilters ` set (spatialSampling sampleA sampleW sampleT)"
proof -
  have "get_filt False (filterIsSampling sampleA) sampleW 2" "\<not> get_filt False (filterIsSampling sampleA) sampleW 1"
    by (simp_all add: get_filt_def filterIsSampling_def sampleA_def newFilter_def prop_data_def sample_getProp
        sample_keys sampleProp_data del: One_nat_def)
  moreover have no: "(\<exists>h. ancestorOf sampleT h 5 \<and> type_is sampleW FILTER_TYPE_RANGEFILE h) \<longleftrightarrow> False"
    by (auto simp: sampleT_ancestors type_is_def get_filt_def newFilter_def simp del: One_nat_def)
  moreover have "get_filt False (\<lambda>k. affectedBySampling sampleA k False) sampleW 5"
    by (simp add: get_filt_def affectedBySampling_def sampleA_def newFilter_def prop_data_def sample_keys
        sample_getProp sampleProp_data)
  moreover have "ancestorOf sampleT 2 5" by (simp add: sampleT_ancestors)
  moreover have "wf_ptree sampleT" "distinct (datas sampleT)" by simp_all
  note iff = spatialSampling_reports[OF this, of 2 5 sampleA sampleW]
  ultimately show ?thesis unfolding iff no by (auto simp: sampleT_ancestors simp del: One_nat_def)
qed

lemma checkRequiredParent_exact_witness:
  "[5] \<notin> reportedFilters ` set (checkRequiredParent sampleW sampleT)"
  using checkRequiredParent_exact[of sampleT 5 sampleW]
  by (simp add: get_filt_def needsRangeParent_def newFilter_def)

lemma blockingPairError_exact_witness:
  "[5, 2] \<notin> reportedFilters ` set (blockingPairError sampleV sampleW sampleT Map.empty Map.empty)"
  using blockingPairError_exact[of sampleT 5 2 sampleV sampleW Map.empty Map.empty]
  by (simp add: useMask_def emitMask_def map_at_def get_filt_def sampleV_def STREAM_TYPE_IONS_def)

end
