(* ===== verification/RangeFilter.thy ===== *)
theory RangeFilter
  imports RangeFile FilterProps Float32
begin

text \<open>
  The ranging filter (src/src/backend/filters/rangeFile.cpp and rangeFile.h): it assigns every ion of
  its input to the species of the range that holds its mass and emits one stream of ions for each
  species. Streams are values here, with their ions; who owns and frees them is the matter of
  theory \<open>Filters\<close>. Ion masses, colours and sizes are exact rationals. None is an undefined access.
\<close>

record ionStream =
  is_hits :: "ionHit list"
  is_rgb :: rgb
  is_a :: rat
  is_size :: rat
  is_valueType :: string

definition newIonStream :: ionStream where
  "newIonStream = \<lparr>is_hits = [], is_rgb = (1, 0, 0), is_a = 1, is_size = 2,
     is_valueType = ''Mass-to-Charge (amu/e)''\<rparr>"

text \<open>
  A range stream points to the range file of its filter; a legend is the draw stream this filter
  makes. The streams of other kinds are their type, their number of basic objects and a tag.
\<close>

datatype fstream = IonStream ionStream | RangeStream rangeFile "bool list" "bool list"
  | LegendStream "(string \<times> rgb) list" | OtherStream "32 word" nat nat

fun fs_type :: "fstream \<Rightarrow> 32 word" where
  "fs_type (IonStream s) = STREAM_TYPE_IONS"
| "fs_type (RangeStream r er ei) = STREAM_TYPE_RANGE"
| "fs_type (LegendStream l) = STREAM_TYPE_DRAW"
| "fs_type (OtherStream t n i) = t"

fun fs_numBasic :: "fstream \<Rightarrow> nat" where
  "fs_numBasic (IonStream s) = length (is_hits s)"
| "fs_numBasic (RangeStream r er ei) = 0"
| "fs_numBasic (LegendStream l) = 1"
| "fs_numBasic (OtherStream t n i) = n"

definition fs_numElements :: "fstream list \<Rightarrow> 32 word \<Rightarrow> nat" where
  "fs_numElements v msk = sum_list (map fs_numBasic (filter (\<lambda>s. fs_type s AND msk \<noteq> 0) v))"

definition fs_propagate :: "fstream list \<Rightarrow> 64 word \<Rightarrow> bool \<Rightarrow> fstream list" where
  "fs_propagate dataIn msk invertMask =
     (let m = (if invertMask then NOT msk else msk) in filter (\<lambda>s. ucast (fs_type s) AND m \<noteq> 0) dataIn)"

record rangeFilter =
  rg_userString :: string
  rg_cache :: bool
  rg_cacheOK :: bool
  rg_outputs :: "fstream list"
  rg_rngName :: string
  rg_rng :: rangeFile
  rg_enabledRanges :: "bool list"
  rg_enabledIons :: "bool list"
  rg_dropUnranged :: bool
  rg_showLegend :: bool
  rg_format :: nat

definition newRangeFilter :: rangeFilter where
  "newRangeFilter = \<lparr>rg_userString = [], rg_cache = True, rg_cacheOK = False, rg_outputs = [],
     rg_rngName = [], rg_rng = newRangeFile, rg_enabledRanges = [], rg_enabledIons = [],
     rg_dropUnranged = True, rg_showLegend = False, rg_format = 0\<rparr>"

definition rg_cloneUncached :: "rangeFilter \<Rightarrow> rangeFilter" where
  "rg_cloneUncached f = newRangeFilter\<lparr>rg_rng := rg_rng f, rg_rngName := rg_rngName f,
     rg_enabledRanges := rg_enabledRanges f, rg_enabledIons := rg_enabledIons f, rg_format := rg_format f,
     rg_dropUnranged := rg_dropUnranged f, rg_cache := rg_cache f, rg_userString := rg_userString f\<rparr>"

definition rg_clearCache :: "rangeFilter \<Rightarrow> rangeFilter" where
  "rg_clearCache f = f\<lparr>rg_cacheOK := False, rg_outputs := []\<rparr>"

definition rg_cacheAsNeeded :: "fstream \<Rightarrow> rangeFilter \<Rightarrow> rangeFilter" where
  "rg_cacheAsNeeded s f = (if rg_cache f then f\<lparr>rg_outputs := rg_outputs f @ [s], rg_cacheOK := True\<rparr> else f)"

definition resize_flags :: "nat \<Rightarrow> bool list \<Rightarrow> bool list" where
  "resize_flags n l = take n l @ replicate (n - length l) True"

definition setRangeData :: "rangeFile \<Rightarrow> rangeFilter \<Rightarrow> rangeFilter" where
  "setRangeData rngNew f = rg_clearCache (f\<lparr>rg_rng := rngNew,
     rg_enabledRanges := resize_flags (getNumRanges rngNew) (rg_enabledRanges f),
     rg_enabledIons := resize_flags (getNumIons rngNew) (rg_enabledIons f)\<rparr>)"

text \<open>Reading a range file is a parameter: the file that \<^verbatim>\<open>openGuessFormat\<close> reads under a name, or None.\<close>

definition updateRng :: "(string \<Rightarrow> rangeFile option) \<Rightarrow> rangeFilter \<Rightarrow> rangeFilter \<times> bool" where
  "updateRng openFile f = (case openFile (rg_rngName f) of None \<Rightarrow> (f, False)
     | Some r \<Rightarrow> (f\<lparr>rg_rng := r, rg_enabledRanges := resize_flags (getNumRanges r) (rg_enabledRanges f),
         rg_enabledIons := resize_flags (getNumIons r) (rg_enabledIons f)\<rparr>, True))"

definition rg_numBytesForCache :: "64 word \<Rightarrow> 64 word" where "rg_numBytesForCache nObjects = nObjects * 4"

definition rg_blockMask :: "32 word" where "rg_blockMask = STREAM_TYPE_IONS"

definition STREAM_TYPE_OPENVDBGRID :: "32 word" where "STREAM_TYPE_OPENVDBGRID = 64"

definition rg_emitMask :: "rangeFilter \<Rightarrow> 32 word" where
  "rg_emitMask f = STREAM_TYPE_RANGE OR STREAM_TYPE_IONS OR STREAM_TYPE_OPENVDBGRID OR
     (if rg_showLegend f then STREAM_TYPE_DRAW else 0)"

definition rg_useMask :: "32 word" where "rg_useMask = STREAM_TYPE_IONS OR STREAM_TYPE_OPENVDBGRID"

section \<open>Initialisation\<close>

definition rg_initFilter :: "fstream list \<Rightarrow> rangeFilter \<Rightarrow> fstream list" where
  "rg_initFilter dataIn f = filter (\<lambda>s. fs_type s \<noteq> STREAM_TYPE_RANGE) dataIn @
     (if getNumIons (rg_rng f) \<noteq> 0 \<and> getNumRanges (rg_rng f) \<noteq> 0
      then [RangeStream (rg_rng f) (rg_enabledRanges f) (rg_enabledIons f)] else [])"

section \<open>Ranging\<close>

definition haveEnabled :: "rangeFilter \<Rightarrow> bool" where
  "haveEnabled f \<longleftrightarrow> True \<in> set (rg_enabledRanges f) \<and> True \<in> set (rg_enabledIons f)"

text \<open>Where an ion goes: the number of its output stream, the last one for unranged ions.\<close>

definition dest :: "rangeFilter \<Rightarrow> mass \<Rightarrow> nat option option" where
  "dest f m = (case getRangeID (rg_rng f) m of
       None \<Rightarrow> Some (if rg_dropUnranged f then None else Some (getNumIons (rg_rng f)))
     | Some rangeID \<Rightarrow>
         (case (ionIDOfRange (rg_rng f) rangeID, elem_at (rg_enabledRanges f) rangeID) of
            (Some ionID, Some er) \<Rightarrow>
              (if \<not> er then Some None
               else map_option (\<lambda>ei. if ei then Some ionID else None) (elem_at (rg_enabledIons f) ionID))
          | _ \<Rightarrow> None))"

definition push_at :: "nat \<Rightarrow> 'a \<Rightarrow> 'a list list \<Rightarrow> 'a list list option" where
  "push_at k h d = (if k < length d then Some (d[k := d ! k @ [h]]) else None)"

definition NUM_CALLBACK :: nat where "NUM_CALLBACK = 50000"

text \<open>
  One input stream. The abort flag is polled whenever \<^verbatim>\<open>curProg\<close> has run down; \<open>ab n\<close> is its value at
  the poll number \<open>n\<close> of the stream. The flag in the result says that the ranging was aborted.
\<close>

fun sort_ions :: "(nat \<Rightarrow> bool) \<Rightarrow> rangeFilter \<Rightarrow> nat \<Rightarrow> nat \<Rightarrow> ionHit list \<Rightarrow> ionHit list list \<Rightarrow>
    (ionHit list list \<times> bool) option" where
  "sort_ions ab f curProg n [] d = Some (d, False)"
| "sort_ions ab f curProg n (h # hs) d =
     (case dest f (ih_mass h) of None \<Rightarrow> None
      | Some t \<Rightarrow>
         (case (case t of None \<Rightarrow> Some d | Some k \<Rightarrow> push_at k h d) of None \<Rightarrow> None
          | Some d' \<Rightarrow>
             if curProg = 0
             then (if ab n then Some (d', True) else sort_ions ab f NUM_CALLBACK (Suc n) hs d')
             else sort_ions ab f (curProg - 1) n hs d'))"

text \<open>The default colour is that of the first ion stream; the size is kept when all streams share it.\<close>

record looks =
  lk_colour :: "rgb option"
  lk_size :: "rat option"
  lk_same :: bool


definition note_look :: "ionStream \<Rightarrow> looks \<Rightarrow> looks" where
  "note_look s l = \<lparr>lk_colour = (case lk_colour l of None \<Rightarrow> Some (is_rgb s) | Some c \<Rightarrow> Some c),
     lk_size = (case lk_size l of None \<Rightarrow> Some (is_size s) | Some z \<Rightarrow> Some z),
     lk_same = (case lk_size l of None \<Rightarrow> lk_same l | Some z \<Rightarrow> lk_same l \<and> \<bar>z - is_size s\<bar> < FLT_EPSILON)\<rparr>"

definition newLooks :: looks where "newLooks = \<lparr>lk_colour = None, lk_size = None, lk_same = True\<rparr>"

text \<open>All input streams, in order: the ions are sorted, range streams end here, others are passed on.\<close>

fun range_streams :: "(nat \<Rightarrow> nat \<Rightarrow> bool) \<Rightarrow> rangeFilter \<Rightarrow> nat \<Rightarrow> fstream list \<Rightarrow>
    looks \<times> ionHit list list \<times> fstream list \<Rightarrow> ((looks \<times> ionHit list list \<times> fstream list) \<times> bool) option" where
  "range_streams ab f ui [] acc = Some (acc, False)"
| "range_streams ab f ui (IonStream s # ss) (l, d, out) =
     (case sort_ions (ab ui) f NUM_CALLBACK 0 (is_hits s) d of None \<Rightarrow> None
      | Some (d', stop) \<Rightarrow> if stop then Some ((note_look s l, d', out), True)
                          else range_streams ab f (Suc ui) ss (note_look s l, d', out))"
| "range_streams ab f ui (RangeStream r er ei # ss) acc = range_streams ab f (Suc ui) ss acc"
| "range_streams ab f ui (LegendStream x # ss) (l, d, out) =
     range_streams ab f (Suc ui) ss (l, d, out @ [LegendStream x])"
| "range_streams ab f ui (OtherStream t n i # ss) (l, d, out) =
     range_streams ab f (Suc ui) ss (l, d, out @ [OtherStream t n i])"

text \<open>
  With no range enabled every ion counts as unranged. The output vector has room for the basic
  objects of all streams; each ion stream is copied to its beginning, since \<^verbatim>\<open>off\<close> stays 0.
\<close>

fun copy_streams :: "fstream list \<Rightarrow> ionHit list \<times> fstream list \<Rightarrow> ionHit list \<times> fstream list" where
  "copy_streams [] acc = acc"
| "copy_streams (IonStream s # ss) (buf, out) = copy_streams ss (is_hits s @ drop (length (is_hits s)) buf, out)"
| "copy_streams (RangeStream r er ei # ss) acc = copy_streams ss acc"
| "copy_streams (LegendStream x # ss) (buf, out) = copy_streams ss (buf, out @ [LegendStream x])"
| "copy_streams (OtherStream t n i # ss) (buf, out) = copy_streams ss (buf, out @ [OtherStream t n i])"

text \<open>Colours and sizes of the output streams; every species has a colour.\<close>

definition dress :: "rangeFilter \<Rightarrow> looks \<Rightarrow> ionHit list list \<Rightarrow> ionStream list option" where
  "dress f l d =
     (let n = getNumIons (rg_rng f);
          size = (case lk_size l of Some z \<Rightarrow> if lk_same l then z else is_size newIonStream | None \<Rightarrow> is_size newIonStream);
          col = (\<lambda>k. if k < n then colours (rg_rng f) ! k
                     else case lk_colour l of None \<Rightarrow> is_rgb newIonStream | Some c \<Rightarrow> c)
      in if n \<le> length (colours (rg_rng f))
         then Some (map (\<lambda>k. newIonStream\<lparr>is_hits := d ! k, is_rgb := col k, is_a := 1, is_size := size\<rparr>) [0..<length d])
         else None)"

text \<open>Empty streams are deleted: swapped with the last one, which is then popped.\<close>

function trim :: "nat \<Rightarrow> ionStream list \<Rightarrow> ionStream list" where
  "trim ui d = (if ui < length d
     then if is_hits (d ! ui) = [] then trim ui (case swap_pop ui d of None \<Rightarrow> [] | Some d' \<Rightarrow> d')
          else trim (Suc ui) d
     else d)"
  by pat_completeness auto
termination
  by (relation "measure (\<lambda>(ui, d). length d - ui)") (auto simp: swap_pop_def)

declare trim.simps [simp del]

definition createLegend :: "rangeFilter \<Rightarrow> fstream option" where
  "createLegend f =
     (let item = (\<lambda>ui. case (getName (rg_rng f) ui True, getColour (rg_rng f) ui) of
                          (Some n, Some c) \<Rightarrow> Some (n, c) | _ \<Rightarrow> None);
          items = map item (filter (\<lambda>ui. rg_enabledIons f ! ui) [0..<length (rg_enabledIons f)])
      in if None \<in> set items then None else Some (LegendStream (map the items)))"

definition RANGEFILE_ABORT_FAIL :: nat where "RANGEFILE_ABORT_FAIL = 1"
definition RANGEFILE_BAD_ALLOC :: nat where "RANGEFILE_BAD_ALLOC = 2"

text \<open>
  What the run meets from outside: an abort seen by the first sweep, which only estimates sizes;
  a failed allocation; the abort flag at each poll; and at the end of the copying without ranges;
  and the content of ions that are not initialised.
\<close>

record outside =
  o_sweepAbort :: bool
  o_badAlloc :: bool
  o_abort :: "nat \<Rightarrow> nat \<Rightarrow> bool"
  o_endAbort :: bool
  o_junk :: ionHit

text \<open>The ion streams and passed-on streams of an uncached run; an error code ends it.\<close>

definition range_input :: "outside \<Rightarrow> rangeFilter \<Rightarrow> fstream list \<Rightarrow>
    (looks \<times> ionHit list list \<times> fstream list \<times> nat) option" where
  "range_input E f dataIn =
     (let n = getNumIons (rg_rng f) in
      if haveEnabled f \<and> o_sweepAbort E then Some (newLooks, [], [], RANGEFILE_ABORT_FAIL)
      else if o_badAlloc E then Some (newLooks, [], [], RANGEFILE_BAD_ALLOC)
      else if haveEnabled f then
        (case range_streams (o_abort E) f 0 dataIn (newLooks, replicate (n + 1) [], []) of None \<Rightarrow> None
         | Some ((l, d, out), stop) \<Rightarrow> Some (l, d, out, if stop then RANGEFILE_ABORT_FAIL else 0))
      else
        (let (buf, out) = copy_streams dataIn (replicate (fs_numElements dataIn STREAMTYPE_MASK_ALL) (o_junk E), [])
         in Some (newLooks, replicate n [] @ [buf], out, if o_endAbort E then RANGEFILE_ABORT_FAIL else 0)))"

definition cache_all :: "fstream list \<Rightarrow> rangeFilter \<Rightarrow> rangeFilter" where
  "cache_all ss f = fold rg_cacheAsNeeded ss f"

text \<open>
  The whole method: the filter, the streams it puts out and its error code. Nothing is ranged when
  nothing is enabled and unranged ions are dropped.
\<close>

definition rg_refresh :: "outside \<Rightarrow> fstream list \<Rightarrow> rangeFilter \<Rightarrow> (rangeFilter \<times> fstream list \<times> nat) option" where
  "rg_refresh E dataIn f =
     (if rg_cacheOK f
      then Some (f, fs_propagate (rg_outputs f) (ucast STREAMTYPE_MASK_ALL) False @
                    fs_propagate dataIn (ucast rg_blockMask) True, 0)
      else
        (case (if \<not> haveEnabled f \<and> rg_dropUnranged f then Some ([], [], 0)
               else case range_input E f dataIn of None \<Rightarrow> None
                 | Some (l, d, out, err) \<Rightarrow>
                     if err \<noteq> 0 then Some (out, [], err)
                     else map_option (\<lambda>ds. (out, map IonStream (trim 0 ds), 0)) (dress f l d)) of
           None \<Rightarrow> None
         | Some (out, ions, err) \<Rightarrow>
             if err \<noteq> 0 then Some (f, out, err)
             else case (if haveEnabled f \<and> rg_showLegend f then map_option (\<lambda>x. [x]) (createLegend f) else Some []) of
                 None \<Rightarrow> None
               | Some leg \<Rightarrow>
                   (let new = ions @ leg @ [RangeStream (rg_rng f) (rg_enabledRanges f) (rg_enabledIons f)]
                    in Some ((cache_all new f)\<lparr>rg_cacheOK := rg_cache f\<rparr>, out @ new, 0))))"

section \<open>What ranging does\<close>

definition rg_ok :: "rangeFilter \<Rightarrow> bool" where
  "rg_ok f \<longleftrightarrow> rf_ok (rg_rng f) \<and> length (rg_enabledRanges f) = length (ranges (rg_rng f)) \<and>
     length (rg_enabledIons f) = length (ionNames (rg_rng f))"

definition ion_streams :: "fstream list \<Rightarrow> ionStream list" where
  "ion_streams ss = concat (map (\<lambda>s. case s of IonStream x \<Rightarrow> [x] | _ \<Rightarrow> []) ss)"

definition ions_of :: "fstream list \<Rightarrow> ionHit list" where
  "ions_of ss = concat (map is_hits (ion_streams ss))"

text \<open>The streams that are neither ions nor ranges.\<close>

definition passed :: "fstream list \<Rightarrow> fstream list" where
  "passed ss = filter (\<lambda>s. case s of IonStream x \<Rightarrow> False | RangeStream r er ei \<Rightarrow> False | _ \<Rightarrow> True) ss"

lemma streams_simps [simp]:
  "ion_streams [] = []" "ion_streams (IonStream x # ss) = x # ion_streams ss"
  "ion_streams (RangeStream r er ei # ss) = ion_streams ss" "ion_streams (LegendStream y # ss) = ion_streams ss"
  "ion_streams (OtherStream t n i # ss) = ion_streams ss"
  "passed [] = []" "passed (IonStream x # ss) = passed ss"
  "passed (RangeStream r er ei # ss) = passed ss" "passed (LegendStream y # ss) = LegendStream y # passed ss"
  "passed (OtherStream t n i # ss) = OtherStream t n i # passed ss"
  by (simp_all add: ion_streams_def passed_def)

lemma dest_total:
  assumes "rg_ok f"
  obtains t where "dest f m = Some t" "\<And>k. t = Some k \<Longrightarrow> k < getNumIons (rg_rng f) + 1"
proof (cases "getRangeID (rg_rng f) m")
  case None
  show ?thesis
    by (rule that[of "if rg_dropUnranged f then None else Some (getNumIons (rg_rng f))"])
      (auto simp: dest_def None split: if_splits)
next
  case (Some r)
  then have r: "r < length (ranges (rg_rng f))" using find_index_Some by (auto simp: getRangeID_def)
  have len: "length (ionIDs (rg_rng f)) = length (ranges (rg_rng f))" "length (rg_enabledRanges f) = length (ranges (rg_rng f))"
    using assms by (auto simp: rg_ok_def rf_ok_def)
  have "ionIDs (rg_rng f) ! r \<in> set (ionIDs (rg_rng f))" using r len(1) by simp
  then have "ionIDs (rg_rng f) ! r < length (ionNames (rg_rng f))"
    using assms by (simp add: rg_ok_def rf_ok_def)
  moreover from this have "ionIDs (rg_rng f) ! r < length (rg_enabledIons f)" using assms by (simp add: rg_ok_def)
  ultimately show ?thesis
    using Some r len
    by (intro that[of "if rg_enabledRanges f ! r \<and> rg_enabledIons f ! (ionIDs (rg_rng f) ! r)
          then Some (ionIDs (rg_rng f) ! r) else None"])
      (auto simp: dest_def ionIDOfRange_def elem_at_def getNumIons_def split: if_splits)
qed

lemma sort_ions_exact:
  assumes "rg_ok f" "\<And>n. \<not> ab n" "length d = getNumIons (rg_rng f) + 1"
  shows "sort_ions ab f c n hs d =
    Some (map (\<lambda>k. d ! k @ filter (\<lambda>h. dest f (ih_mass h) = Some (Some k)) hs) [0..<length d], False)"
  using assms(3)
proof (induction hs arbitrary: d c n)
  case Nil
  show ?case by (simp add: map_nth)
next
  case (Cons h hs)
  obtain t where t: "dest f (ih_mass h) = Some t" "\<And>k. t = Some k \<Longrightarrow> k < getNumIons (rg_rng f) + 1"
    using dest_total[OF assms(1)] by blast
  show ?case
  proof (cases t)
    case None
    have "sort_ions ab f c n (h # hs) d =
        Some (map (\<lambda>j. d ! j @ filter (\<lambda>h. dest f (ih_mass h) = Some (Some j)) hs) [0..<length d], False)"
      by (simp only: sort_ions.simps t(1) None option.case assms(2) if_False Cons.IH[OF Cons.prems] if_cancel)
    then show ?thesis by (simp only: filter.simps t(1) None option.inject option.distinct if_False)
  next
    case (Some k)
    let ?d = "d[k := d ! k @ [h]]"
    have k: "k < length d" using t(2) Some Cons.prems by simp
    have upd: "map (\<lambda>j. ?d ! j @ filter (\<lambda>h. dest f (ih_mass h) = Some (Some j)) hs) [0..<length d] =
        map (\<lambda>j. d ! j @ filter (\<lambda>h. dest f (ih_mass h) = Some (Some j)) (h # hs)) [0..<length d]"
      using k by (intro map_cong refl) (auto simp: t(1) Some nth_list_update)
    have "sort_ions ab f c n (h # hs) d = Some (map (\<lambda>j. ?d ! j @ filter (\<lambda>h. dest f (ih_mass h) = Some (Some j)) hs) [0..<length ?d], False)"
    proof -
      have "length ?d = getNumIons (rg_rng f) + 1" using Cons.prems by simp
      note ih = Cons.IH[OF this]
      show ?thesis
        by (simp only: sort_ions.simps t(1) Some option.case push_at_def k if_True assms(2) if_False ih if_cancel)
    qed
    then show ?thesis using upd by simp
  qed
qed

lemma range_streams_exact:
  assumes "rg_ok f" "\<And>i n. \<not> ab i n" "length d = getNumIons (rg_rng f) + 1"
  shows "range_streams ab f ui ss (l, d, out) =
    Some ((fold note_look (ion_streams ss) l,
           map (\<lambda>k. d ! k @ filter (\<lambda>h. dest f (ih_mass h) = Some (Some k)) (ions_of ss)) [0..<length d],
           out @ passed ss), False)"
  using assms(3)
proof (induction ss arbitrary: ui l d out)
  case Nil
  show ?case by (simp add: ions_of_def map_nth)
next
  case (Cons s ss)
  show ?case
  proof (cases s)
    case (IonStream x)
    let ?d = "map (\<lambda>k. d ! k @ filter (\<lambda>h. dest f (ih_mass h) = Some (Some k)) (is_hits x)) [0..<length d]"
    have "sort_ions (ab ui) f NUM_CALLBACK 0 (is_hits x) d = Some (?d, False)"
      by (rule sort_ions_exact[OF assms(1) _ Cons.prems]) (rule assms(2))
    then have "range_streams ab f ui (s # ss) (l, d, out) = range_streams ab f (Suc ui) ss (note_look x l, ?d, out)"
      using IonStream by simp
    also have "\<dots> = Some ((fold note_look (ion_streams ss) (note_look x l),
        map (\<lambda>k. ?d ! k @ filter (\<lambda>h. dest f (ih_mass h) = Some (Some k)) (ions_of ss)) [0..<length ?d], out @ passed ss), False)"
      using Cons.IH Cons.prems by simp
    also have "map (\<lambda>k. ?d ! k @ filter (\<lambda>h. dest f (ih_mass h) = Some (Some k)) (ions_of ss)) [0..<length ?d] =
        map (\<lambda>k. d ! k @ filter (\<lambda>h. dest f (ih_mass h) = Some (Some k)) (ions_of (s # ss))) [0..<length d]"
      by (intro map_cong) (auto simp: IonStream ions_of_def)
    finally show ?thesis using IonStream by simp
  qed (use Cons in \<open>auto simp: ions_of_def\<close>)
qed

lemma trim_mset:
  "ui \<le> length d \<Longrightarrow> mset (trim ui d) = mset (take ui d) + filter_mset (\<lambda>s. is_hits s \<noteq> []) (mset (drop ui d))"
proof (induction ui d rule: trim.induct)
  case (1 ui d)
  show ?case
  proof (cases "ui < length d")
    case False
    then show ?thesis using 1 by (subst trim.simps) simp
  next
    case lt: True
    show ?thesis
    proof (cases "is_hits (d ! ui) = []")
      case True
      obtain xs x where d: "d = xs @ [x]" using lt by (cases d rule: rev_cases) auto
      define d' where "d' = (if ui < length xs then xs[ui := x] else xs)"
      have sp: "swap_pop ui d = Some d'" using lt by (auto simp: d swap_pop_snoc d'_def)
      have "take ui d' = take ui d" using lt by (simp add: d d'_def)
      moreover have "filter_mset (\<lambda>s. is_hits s \<noteq> []) (mset (drop ui d')) = filter_mset (\<lambda>s. is_hits s \<noteq> []) (mset (drop ui d))"
      proof (cases "ui < length xs")
        case lx: True
        have "drop ui xs = xs ! ui # drop (Suc ui) xs" using lx by (simp add: Cons_nth_drop_Suc)
        moreover have "drop ui (xs[ui := x]) = x # drop (Suc ui) xs" using lx by (simp add: drop_update_swap[symmetric] Cons_nth_drop_Suc[symmetric])
        ultimately show ?thesis using lx True by (simp add: d d'_def nth_append)
      next
        case False
        then have "ui = length xs" using lt d by simp
        then show ?thesis using True by (simp add: d d'_def)
      qed
      moreover have "mset (trim ui d') = mset (take ui d') + filter_mset (\<lambda>s. is_hits s \<noteq> []) (mset (drop ui d'))"
        using 1(1)[OF lt True] lt sp by (simp add: d d'_def)
      moreover have "trim ui d = trim ui d'" using lt True sp by (subst trim.simps) simp
      ultimately show ?thesis by simp
    next
      case False
      then have "trim ui d = trim (Suc ui) d" using lt by (subst trim.simps) simp
      then show ?thesis using 1(2)[OF lt False] lt False
        by (simp add: take_Suc_conv_app_nth Cons_nth_drop_Suc[symmetric])
    qed
  qed
qed

text \<open>
  What the ranging should do, said of the range file alone: an ion of mass \<open>m\<close> belongs to the species \<open>k\<close> when the
  first of the ranges that hold \<open>m\<close> is a range of \<open>k\<close> and that range and that species are both enabled. The number of
  species stands for the ions that no range holds.
\<close>

definition holds_mass :: "rangeFile \<Rightarrow> nat \<Rightarrow> mass \<Rightarrow> bool" where
  "holds_mass r i m \<longleftrightarrow> i < length (ranges r) \<and> fst (ranges r ! i) \<le> m \<and> m \<le> snd (ranges r ! i)"

definition belongs :: "rangeFilter \<Rightarrow> mass \<Rightarrow> nat \<Rightarrow> bool" where
  "belongs f m k \<longleftrightarrow>
     (if k < length (ionNames (rg_rng f))
      then \<exists>i < length (ranges (rg_rng f)). holds_mass (rg_rng f) i m \<and> (\<forall>j < i. \<not> holds_mass (rg_rng f) j m) \<and>
             ionIDs (rg_rng f) ! i = k \<and> rg_enabledRanges f ! i \<and> rg_enabledIons f ! k
      else k = length (ionNames (rg_rng f)) \<and> \<not> rg_dropUnranged f \<and>
             (\<forall>i < length (ranges (rg_rng f)). \<not> holds_mass (rg_rng f) i m))"

lemma range_first:
  "getRangeID r m = Some i \<longleftrightarrow> holds_mass r i m \<and> (\<forall>j < i. \<not> holds_mass r j m)"
  "getRangeID r m = None \<longleftrightarrow> (\<forall>i < length (ranges r). \<not> holds_mass r i m)"
proof -
  have some: "holds_mass r i m \<and> (\<forall>j < i. \<not> holds_mass r j m)" if "getRangeID r m = Some i" for i
    using find_index_Some [OF that [unfolded getRangeID_def]] by (auto simp: holds_mass_def inRange_def)
  show none: "getRangeID r m = None \<longleftrightarrow> (\<forall>i < length (ranges r). \<not> holds_mass r i m)"
    by (simp add: getRangeID_def find_index_None all_set_conv_all_nth holds_mass_def inRange_def)
  show "getRangeID r m = Some i \<longleftrightarrow> holds_mass r i m \<and> (\<forall>j < i. \<not> holds_mass r j m)"
  proof
    assume i: "holds_mass r i m \<and> (\<forall>j < i. \<not> holds_mass r j m)"
    then obtain k where k: "getRangeID r m = Some k"
      using none by (cases "getRangeID r m") (auto simp: holds_mass_def)
    then show "getRangeID r m = Some i"
      using some [OF k] i by (metis linorder_neqE_nat)
  qed (rule some)
qed

lemma dest_belongs:
  assumes "rg_ok f"
  shows "dest f m = Some (Some k) \<longleftrightarrow> belongs f m k"
proof (cases "getRangeID (rg_rng f) m")
  case None
  then show ?thesis
    using range_first(2) [of "rg_rng f" m] by (auto simp: dest_def belongs_def getNumIons_def holds_mass_def)
next
  case (Some r)
  note first = range_first(1) [of "rg_rng f" m, unfolded Some]
  have r: "r < length (ranges (rg_rng f))" "holds_mass (rg_rng f) r m"
    using first by (auto simp: holds_mass_def)
  have len: "length (ionIDs (rg_rng f)) = length (ranges (rg_rng f))" "length (rg_enabledRanges f) = length (ranges (rg_rng f))"
      "length (rg_enabledIons f) = length (ionNames (rg_rng f))"
    using assms by (auto simp: rg_ok_def rf_ok_def)
  have "ionIDs (rg_rng f) ! r \<in> set (ionIDs (rg_rng f))" using r len(1) by simp
  then have id: "ionIDs (rg_rng f) ! r < length (ionNames (rg_rng f))"
    using assms by (simp add: rg_ok_def rf_ok_def)
  have "belongs f m k \<longleftrightarrow> k = ionIDs (rg_rng f) ! r \<and> rg_enabledRanges f ! r \<and> rg_enabledIons f ! k"
  proof -
    have "(\<exists>i < length (ranges (rg_rng f)). holds_mass (rg_rng f) i m \<and> (\<forall>j < i. \<not> holds_mass (rg_rng f) j m) \<and> P i) \<longleftrightarrow> P r" for P
      using first r(1) by (metis option.inject)
    moreover have "\<not> (\<forall>i < length (ranges (rg_rng f)). \<not> holds_mass (rg_rng f) i m)" using r by blast
    ultimately show ?thesis using id unfolding belongs_def by auto
  qed
  then show ?thesis
    using Some r len id by (auto simp: dest_def ionIDOfRange_def elem_at_def split: if_splits)
qed

text \<open>The stream of the species \<open>k\<close>.\<close>

definition species_hits :: "rangeFilter \<Rightarrow> fstream list \<Rightarrow> nat \<Rightarrow> ionHit list" where
  "species_hits f dataIn k = filter (\<lambda>h. belongs f (ih_mass h) k) (ions_of dataIn)"

definition species_stream :: "rangeFilter \<Rightarrow> fstream list \<Rightarrow> nat \<Rightarrow> ionStream" where
  "species_stream f dataIn k =
     \<lparr>is_hits = species_hits f dataIn k,
      is_rgb = (if k < getNumIons (rg_rng f) then colours (rg_rng f) ! k
                else if ion_streams dataIn = [] then (1, 0, 0) else is_rgb (hd (ion_streams dataIn))),
      is_a = 1,
      is_size = (if ion_streams dataIn \<noteq> [] \<and>
                    (\<forall>s \<in> set (ion_streams dataIn). \<bar>is_size (hd (ion_streams dataIn)) - is_size s\<bar> < FLT_EPSILON)
                 then is_size (hd (ion_streams dataIn)) else 2),
      is_valueType = ''Mass-to-Charge (amu/e)''\<rparr>"

definition legend_of :: "rangeFilter \<Rightarrow> (string \<times> rgb) list" where
  "legend_of f = map (\<lambda>ui. (fst (ionNames (rg_rng f) ! ui), colours (rg_rng f) ! ui))
     (filter (\<lambda>ui. rg_enabledIons f ! ui) [0..<length (rg_enabledIons f)])"

lemma looks_step: "lk_colour l = Some c \<Longrightarrow> lk_size l = Some z \<Longrightarrow>
   fold note_look xs l = \<lparr>lk_colour = Some c, lk_size = Some z,
     lk_same = (lk_same l \<and> (\<forall>s \<in> set xs. \<bar>z - is_size s\<bar> < FLT_EPSILON))\<rparr>"
proof (induction xs arbitrary: l)
  case (Cons x xs)
  show ?case using Cons.IH[of "note_look x l"] Cons.prems by (auto simp: note_look_def)
qed simp

lemma looks_exact: "fold note_look xs newLooks =
   (case xs of [] \<Rightarrow> newLooks | s # r \<Rightarrow>
      \<lparr>lk_colour = Some (is_rgb s), lk_size = Some (is_size s),
       lk_same = (\<forall>t \<in> set xs. \<bar>is_size s - is_size t\<bar> < FLT_EPSILON)\<rparr>)"
proof (cases xs)
  case (Cons s r)
  have "note_look s newLooks = \<lparr>lk_colour = Some (is_rgb s), lk_size = Some (is_size s), lk_same = True\<rparr>"
    by (simp add: note_look_def newLooks_def)
  then show ?thesis using looks_step[of "note_look s newLooks" "is_rgb s" "is_size s" r]
    by (simp add: Cons FLT_EPSILON_def)
qed simp

lemma legend_exact: "rg_ok f \<Longrightarrow> createLegend f = Some (LegendStream (legend_of f))"
proof -
  assume ok: "rg_ok f"
  let ?on = "filter (\<lambda>ui. rg_enabledIons f ! ui) [0..<length (rg_enabledIons f)]"
  let ?item = "\<lambda>ui. case (getName (rg_rng f) ui True, getColour (rg_rng f) ui) of (Some n, Some c) \<Rightarrow> Some (n, c) | _ \<Rightarrow> None"
  have "?item ui = Some (fst (ionNames (rg_rng f) ! ui), colours (rg_rng f) ! ui)" if "ui \<in> set ?on" for ui
    using ok that by (simp add: rg_ok_def rf_ok_def getName_def getColour_def elem_at_def)
  then have items: "map ?item ?on = map Some (legend_of f)" by (simp add: legend_of_def)
  then show ?thesis unfolding createLegend_def Let_def items by (simp add: comp_def)
qed

lemma dress_exact:
  assumes "rg_ok f" "length d = getNumIons (rg_rng f) + 1"
    "\<And>k. k < length d \<Longrightarrow> d ! k = species_hits f dataIn k"
  shows "dress f (fold note_look (ion_streams dataIn) newLooks) d =
    Some (map (species_stream f dataIn) [0..<getNumIons (rg_rng f) + 1])"
proof -
  have "getNumIons (rg_rng f) \<le> length (colours (rg_rng f))" using assms(1) by (simp add: rg_ok_def rf_ok_def getNumIons_def)
  then show ?thesis
    unfolding dress_def Let_def looks_exact assms(2)
    by (auto simp: assms species_stream_def newIonStream_def newLooks_def split: list.splits intro!: map_cong)
qed

lemma fold_cache: "rg_cache f \<Longrightarrow> ss \<noteq> [] \<Longrightarrow> cache_all ss f = f\<lparr>rg_outputs := rg_outputs f @ ss, rg_cacheOK := True\<rparr>"
proof (induction ss arbitrary: f)
  case (Cons s ss)
  then show ?case
    by (cases "ss = []") (simp_all add: cache_all_def rg_cacheAsNeeded_def)
qed simp

lemma fold_no_cache: "\<not> rg_cache f \<Longrightarrow> cache_all ss f = f"
  by (induction ss arbitrary: f) (simp_all add: cache_all_def rg_cacheAsNeeded_def)

lemma cache_all_exact:
  "ss \<noteq> [] \<Longrightarrow> \<not> rg_cacheOK f \<Longrightarrow> (cache_all ss f)\<lparr>rg_cacheOK := rg_cache f\<rparr> =
     (if rg_cache f then f\<lparr>rg_outputs := rg_outputs f @ ss, rg_cacheOK := True\<rparr> else f)"
  by (cases "rg_cache f") (simp_all add: fold_cache fold_no_cache)

lemma rg_refresh_core:
  assumes ok: "rg_ok f" and cold: "\<not> rg_cacheOK f" and en: "haveEnabled f"
    and calm: "\<not> o_sweepAbort E" "\<not> o_badAlloc E" "\<forall>i n. \<not> o_abort E i n"
  shows "\<exists>ds. rg_refresh E dataIn f =
      (let new = map IonStream ds @ (if rg_showLegend f then [LegendStream (legend_of f)] else []) @
             [RangeStream (rg_rng f) (rg_enabledRanges f) (rg_enabledIons f)]
       in Some (if rg_cache f then f\<lparr>rg_outputs := rg_outputs f @ new, rg_cacheOK := True\<rparr> else f, passed dataIn @ new, 0)) \<and>
    mset ds = filter_mset (\<lambda>s. is_hits s \<noteq> []) (mset (map (species_stream f dataIn) [0..<getNumIons (rg_rng f) + 1]))"
proof -
  let ?n = "getNumIons (rg_rng f)"
  let ?d = "map (species_hits f dataIn) [0..<?n + 1]"
  have "map (\<lambda>k. replicate (?n + 1) [] ! k @ filter (\<lambda>h. dest f (ih_mass h) = Some (Some k)) (ions_of dataIn))
      [0..<length (replicate (?n + 1) ([] :: ionHit list))] = ?d"
    by (intro map_cong) (auto simp: species_hits_def dest_belongs [OF ok] simp del: replicate.simps replicate_Suc upt_Suc)
  then have "range_streams (o_abort E) f 0 dataIn (newLooks, replicate (?n + 1) [], []) =
      Some ((fold note_look (ion_streams dataIn) newLooks, ?d, passed dataIn), False)"
    using range_streams_exact[OF ok, of "o_abort E" "replicate (?n + 1) []" 0 dataIn newLooks "[]"] calm(3)
    by (simp del: replicate.simps replicate_Suc upt_Suc)
  then have inp: "range_input E f dataIn = Some (fold note_look (ion_streams dataIn) newLooks, ?d, passed dataIn, 0)"
    using calm en by (simp add: range_input_def Let_def del: replicate.simps replicate_Suc upt_Suc)
  let ?ss = "map (species_stream f dataIn) [0..<?n + 1]"
  have dr: "dress f (fold note_look (ion_streams dataIn) newLooks) ?d = Some ?ss"
  proof (rule dress_exact[OF ok])
    show "\<And>k. k < length ?d \<Longrightarrow> ?d ! k = species_hits f dataIn k" by (simp del: upt_Suc)
  qed (simp del: upt_Suc)
  let ?new = "map IonStream (trim 0 ?ss) @ (if rg_showLegend f then [LegendStream (legend_of f)] else []) @
      [RangeStream (rg_rng f) (rg_enabledRanges f) (rg_enabledIons f)]"
  have "rg_refresh E dataIn f = Some ((cache_all ?new f)\<lparr>rg_cacheOK := rg_cache f\<rparr>, passed dataIn @ ?new, 0)"
    using cold en inp dr legend_exact[OF ok] by (simp add: rg_refresh_def Let_def del: upt_Suc)
  moreover have "mset (trim 0 ?ss) = filter_mset (\<lambda>s. is_hits s \<noteq> []) (mset ?ss)"
    using trim_mset[of 0 ?ss] by (simp del: upt_Suc)
  ultimately show ?thesis
    using cache_all_exact[of ?new f] cold by (intro exI[of _ "trim 0 ?ss"]) (simp add: Let_def del: upt_Suc)
qed


section \<open>Running from the cache\<close>

definition known_types :: "fstream list \<Rightarrow> bool" where
  "known_types ss \<longleftrightarrow> (\<forall>t n i. OtherStream t n i \<in> set ss \<longrightarrow> t \<in> {2, 4, 8, 32, 64})"

definition range_inputs :: "fstream list \<Rightarrow> fstream list" where
  "range_inputs ss = filter (\<lambda>s. case s of RangeStream r er ei \<Rightarrow> True | _ \<Rightarrow> False) ss"

lemma range_streams_out:
  "range_streams ab f ui ss (l, d, out) = Some ((l', d', out'), False) \<Longrightarrow> out' = out @ passed ss"
proof (induction ss arbitrary: ui l d out)
  case (Cons s ss)
  show ?case
  proof (cases s)
    case (IonStream x)
    then obtain d1 where "range_streams ab f (Suc ui) ss (note_look x l, d1, out) = Some ((l', d', out'), False)"
      using Cons.prems by (auto split: option.splits prod.splits if_splits)
    then show ?thesis using Cons.IH IonStream by simp
  qed (use Cons in force)+
qed simp

lemma copy_streams_out: "snd (copy_streams ss (buf, out)) = out @ passed ss"
proof (induction ss arbitrary: buf out)
  case (Cons s ss)
  then show ?case by (cases s) simp_all
qed simp

lemma range_input_out: "range_input E f ss = Some (l, d, out, 0) \<Longrightarrow> out = passed ss"
  using range_streams_out[of "o_abort E" f 0 ss newLooks "replicate (getNumIons (rg_rng f) + 1) []" "[]" l d out]
    copy_streams_out[of ss "replicate (fs_numElements ss STREAMTYPE_MASK_ALL) (o_junk E)" "[]"]
  by (auto simp: range_input_def Let_def RANGEFILE_ABORT_FAIL_def RANGEFILE_BAD_ALLOC_def
      split: if_splits option.splits prod.splits)

lemma passed_kinds:
  "s \<in> set (passed ss) \<Longrightarrow> (\<exists>x. s = LegendStream x) \<or> (\<exists>t n i. s = OtherStream t n i \<and> s \<in> set ss)"
  by (auto simp: passed_def split: fstream.splits)

lemma propagate_all:
  "\<forall>s \<in> set ss. (\<exists>x. s = IonStream x) \<or> (\<exists>x. s = LegendStream x) \<or> (\<exists>r er ei. s = RangeStream r er ei) \<Longrightarrow>
   fs_propagate ss (ucast STREAMTYPE_MASK_ALL) False = ss"
  unfolding fs_propagate_def Let_def
  by (rule filter_True)
    (auto simp: STREAMTYPE_MASK_ALL_def NUM_STREAM_TYPES_def STREAM_TYPE_IONS_def STREAM_TYPE_DRAW_def STREAM_TYPE_RANGE_def)

lemma known_not_ions: "t \<in> {2, 4, 8, 32, 64} \<Longrightarrow> (ucast (t :: 32 word) :: 64 word) AND NOT (ucast (1 :: 32 word)) \<noteq> 0"
  by auto

lemma propagate_not_ions:
  "known_types ss \<Longrightarrow> fs_propagate ss (ucast rg_blockMask) True = filter (\<lambda>s. case s of IonStream x \<Rightarrow> False | _ \<Rightarrow> True) ss"
  unfolding fs_propagate_def Let_def
  by (rule filter_cong)
    (use known_not_ions in \<open>auto simp: known_types_def rg_blockMask_def STREAM_TYPE_IONS_def STREAM_TYPE_DRAW_def
        STREAM_TYPE_RANGE_def simp del: insert_iff split: fstream.split\<close>)

lemma not_ions_mset:
  "mset (filter (\<lambda>s. case s of IonStream x \<Rightarrow> False | _ \<Rightarrow> True) ss) = mset (passed ss) + mset (range_inputs ss)"
  by (induction ss) (auto simp: passed_def range_inputs_def split: fstream.splits)

lemma refresh_parts:
  assumes "rg_refresh E dataIn f = Some (f1, out1, 0)" "\<not> rg_cacheOK f"
  obtains out ions leg where
      "out1 = out @ ions @ leg @ [RangeStream (rg_rng f) (rg_enabledRanges f) (rg_enabledIons f)]"
      "f1 = (cache_all (ions @ leg @ [RangeStream (rg_rng f) (rg_enabledRanges f) (rg_enabledIons f)]) f)\<lparr>rg_cacheOK := rg_cache f\<rparr>"
      "out = (if \<not> haveEnabled f \<and> rg_dropUnranged f then [] else passed dataIn)"
      "\<forall>s \<in> set ions. \<exists>x. s = IonStream x" "\<forall>s \<in> set leg. \<exists>x. s = LegendStream x"
proof -
  let ?skip = "\<not> haveEnabled f \<and> rg_dropUnranged f"
  let ?R = "if ?skip then Some ([], [], 0) else case range_input E f dataIn of None \<Rightarrow> None
     | Some (l, d, out, err) \<Rightarrow> if err \<noteq> 0 then Some (out, [], err)
         else map_option (\<lambda>ds. (out, map IonStream (trim 0 ds), 0)) (dress f l d)"
  obtain out ions err where R: "?R = Some (out, ions, err)"
    using assms unfolding rg_refresh_def by (cases ?R) auto
  have err: "err = 0" using assms R unfolding rg_refresh_def by (cases "err = 0") auto
  have out: "out = (if ?skip then [] else passed dataIn)" and ions: "\<forall>s \<in> set ions. \<exists>x. s = IonStream x"
    using R err range_input_out[of E f dataIn] by (auto split: if_splits option.splits prod.splits)
  obtain leg where leg: "(if haveEnabled f \<and> rg_showLegend f then map_option (\<lambda>x. [x]) (createLegend f) else Some []) = Some leg"
    using assms R err unfolding rg_refresh_def
    by (cases "if haveEnabled f \<and> rg_showLegend f then map_option (\<lambda>x. [x]) (createLegend f) else Some []") auto
  have "\<forall>s \<in> set leg. \<exists>x. s = LegendStream x"
    using leg by (auto simp: createLegend_def Let_def split: if_splits)
  moreover have "rg_refresh E dataIn f =
      (let new = ions @ leg @ [RangeStream (rg_rng f) (rg_enabledRanges f) (rg_enabledIons f)]
       in Some ((cache_all new f)\<lparr>rg_cacheOK := rg_cache f\<rparr>, out @ new, 0))"
    using assms(2) R err leg unfolding rg_refresh_def by simp
  ultimately show ?thesis using that out ions assms(1) by (simp add: Let_def)
qed

text \<open>
  A second run from the cache, on the same input, does not put out the same streams:
  range data of other filters, which the first run stopped, is passed on; and when nothing was
  enabled and unranged ions were dropped, so are the streams of other kinds, which the first run
  lost.
\<close>

theorem rg_second_run:
  assumes run: "rg_refresh E dataIn f = Some (f1, out1, 0)"
    and st: "rg_cache f" "\<not> rg_cacheOK f" "rg_outputs f = []" "known_types dataIn"
  shows "\<exists>out2. rg_refresh E' dataIn f1 = Some (f1, out2, 0) \<and>
    mset out2 = mset out1 + mset (range_inputs dataIn) +
      (if \<not> haveEnabled f \<and> rg_dropUnranged f then mset (passed dataIn) else {#})"
proof -
  let ?skip = "\<not> haveEnabled f \<and> rg_dropUnranged f"
  obtain out ions leg where new:
      "out1 = out @ ions @ leg @ [RangeStream (rg_rng f) (rg_enabledRanges f) (rg_enabledIons f)]"
      "f1 = (cache_all (ions @ leg @ [RangeStream (rg_rng f) (rg_enabledRanges f) (rg_enabledIons f)]) f)\<lparr>rg_cacheOK := rg_cache f\<rparr>"
      "out = (if ?skip then [] else passed dataIn)" "\<forall>s \<in> set ions. \<exists>x. s = IonStream x" "\<forall>s \<in> set leg. \<exists>x. s = LegendStream x"
    using refresh_parts[OF run st(2)] by blast
  let ?new = "ions @ leg @ [RangeStream (rg_rng f) (rg_enabledRanges f) (rg_enabledIons f)]"
  have f1: "f1 = f\<lparr>rg_outputs := ?new, rg_cacheOK := True\<rparr>"
    using new(2) cache_all_exact[of ?new f] st by simp
  have "fs_propagate ?new (ucast STREAMTYPE_MASK_ALL) False = ?new"
    by (rule propagate_all) (use new(4,5) in auto)
  then have "rg_refresh E' dataIn f1 = Some (f1, ?new @ filter (\<lambda>s. case s of IonStream x \<Rightarrow> False | _ \<Rightarrow> True) dataIn, 0)"
    using f1 propagate_not_ions[OF st(4)] by (simp add: rg_refresh_def)
  then show ?thesis using new(1,3) not_ions_mset[of dataIn] by (auto simp: ac_simps)
qed

text \<open>
  With no range enabled and unranged ions kept, each input stream is copied to the
  beginning of the output: of two streams the ions of the first one are overwritten, and as many
  uninitialised ions as the second has fill the end.
\<close>

theorem unranged_copy_overwrites:
  assumes "rg_ok f" "\<not> rg_cacheOK f" "\<not> haveEnabled f" "\<not> rg_dropUnranged f" "\<not> o_badAlloc E" "\<not> o_endAbort E"
    and "is_hits a \<noteq> [] \<or> is_hits b \<noteq> []"
  shows "\<exists>f' s. rg_refresh E [IonStream a, IonStream b] f =
      Some (f', [IonStream s, RangeStream (rg_rng f) (rg_enabledRanges f) (rg_enabledIons f)], 0) \<and>
    is_hits s = is_hits b @ drop (length (is_hits b)) (is_hits a @ replicate (length (is_hits b)) (o_junk E))"
proof -
  let ?n = "getNumIons (rg_rng f)"
  let ?buf = "is_hits b @ drop (length (is_hits b)) (is_hits a @ replicate (length (is_hits b)) (o_junk E))"
  have sz: "fs_numElements [IonStream a, IonStream b] STREAMTYPE_MASK_ALL = length (is_hits a) + length (is_hits b)"
    by (simp add: fs_numElements_def STREAMTYPE_MASK_ALL_def NUM_STREAM_TYPES_def STREAM_TYPE_IONS_def)
  have "range_input E f [IonStream a, IonStream b] = Some (newLooks, replicate ?n [] @ [?buf], [], 0)"
    using assms(3,5,6) by (simp add: range_input_def sz Let_def)
  moreover obtain ds where ds: "dress f newLooks (replicate ?n [] @ [?buf]) = Some ds"
      "map is_hits ds = replicate ?n [] @ [?buf]"
  proof -
    have "?n \<le> length (colours (rg_rng f))" using assms(1) by (simp add: rg_ok_def rf_ok_def getNumIons_def)
    moreover have "map ((!) (replicate ?n [] @ [?buf])) [0..<length (replicate ?n ([] :: ionHit list) @ [?buf])] = replicate ?n [] @ [?buf]"
      by (rule map_nth)
    ultimately show ?thesis using that by (simp add: dress_def Let_def comp_def del: upt_Suc)
  qed
  have "?buf \<noteq> []" using assms(7) by auto
  obtain s where s: "trim 0 ds = [s]" "is_hits s = ?buf"
  proof -
    obtain zs s where z: "ds = zs @ [s]" "map is_hits zs = replicate ?n []" "is_hits s = ?buf"
      using ds(2) by (cases ds rule: rev_cases) auto
    have "\<forall>x \<in> set zs. is_hits x = []" using z(2) by (metis in_set_replicate list.set_map image_eqI)
    then have "filter (\<lambda>s. is_hits s \<noteq> []) zs = []" by (simp add: filter_empty_conv)
    then have "filter_mset (\<lambda>s. is_hits s \<noteq> []) (mset zs) = {#}" by (metis mset_filter mset.simps(1))
    then have "mset (trim 0 ds) = {#s#}" using trim_mset[of 0 ds] z(1,3) \<open>?buf \<noteq> []\<close> by simp
    then show ?thesis using that z(3) by (metis mset_single_iff_right mset_single_iff)
  qed
  ultimately show ?thesis
    using assms(2-4) s ds by (simp add: rg_refresh_def Let_def)
qed

end
