(* ===== verification/XmlTree.thy ===== *)
theory XmlTree
  imports StringFuncs
begin

text \<open>
  XML documents as the state files use them: the element tree that libxml2 hands to the program,
  the two helpers that walk and read it (src/src/common/xmlHelper.cpp and xmlHelper.h), and
  the escaping of text. Parsing the text of a file into a tree is the library's work; \<open>xml_text\<close> is
  the text of a tree, so that what a writer prints can be compared with the tree it describes.
\<close>

datatype xmlNode = Text string | Elem string "(string \<times> string) list" "xmlNode list"

text \<open>The name libxml2 gives a node.\<close>

fun xmlName :: "xmlNode \<Rightarrow> string" where
  "xmlName (Text s) = ''text''"
| "xmlName (Elem n as ks) = n"

fun xmlAttrs :: "xmlNode \<Rightarrow> (string \<times> string) list" where
  "xmlAttrs (Text s) = []"
| "xmlAttrs (Elem n as ks) = as"

fun xmlChildren :: "xmlNode \<Rightarrow> xmlNode list" where
  "xmlChildren (Text s) = []"
| "xmlChildren (Elem n as ks) = ks"

text \<open>
  A node pointer is the list of the node and its later siblings; null is the empty list. The
  loop moves to the next sibling at least once.
\<close>

definition fwdToElem :: "string \<Rightarrow> xmlNode list \<Rightarrow> xmlNode list" where
  "fwdToElem nodeName node = dropWhile (\<lambda>n. xmlName n \<noteq> nodeName) (tl node)"

text \<open>The string attribute of the node under the pointer.\<close>

definition getProp_string :: "string \<Rightarrow> xmlNode list \<Rightarrow> string option" where
  "getProp_string propName node = (case node of [] \<Rightarrow> None | n # r \<Rightarrow> map_of (xmlAttrs n) propName)"

definition castSizeT :: "string \<Rightarrow> 64 word option" where
  "castSizeT s = (case scanInt s of None \<Rightarrow> None
     | Some (neg, n) \<Rightarrow> if n < 2 ^ 64 then Some (if neg then - of_nat n else of_nat n) else None)"

definition getProp_size :: "string \<Rightarrow> xmlNode list \<Rightarrow> 64 word option" where
  "getProp_size propName node = (case getProp_string propName node of None \<Rightarrow> None | Some s \<Rightarrow> castSizeT s)"

interpretation size_code: codec "\<lambda>k :: 64 word. showNat (unat k)" castSizeT "\<lambda>_. True"
proof
  fix k :: "64 word"
  show "castSizeT (showNat (unat k)) = Some k" using unsigned_less[of k] by (simp add: castSizeT_def scanInt_show)
qed

section \<open>The text of a document\<close>

definition nl :: string where "nl = [CHR 0x0A]"

definition tabs :: "nat \<Rightarrow> string" where "tabs n = replicate n (CHR 0x09)"

definition xml_attr :: "string \<times> string \<Rightarrow> string" where
  "xml_attr a = '' '' @ fst a @ ''=\"'' @ snd a @ ''\"''"

fun xml_text :: "xmlNode \<Rightarrow> string" and xml_texts :: "xmlNode list \<Rightarrow> string" where
  "xml_text (Text s) = s"
| "xml_text (Elem n as ks) = ''<'' @ n @ concat (map xml_attr as) @
     (if ks = [] then ''/>'' else ''>'' @ xml_texts ks @ ''</'' @ n @ ''>'')"
| "xml_texts [] = []"
| "xml_texts (k # ks) = xml_text k @ xml_texts ks"

lemma xml_texts_append [simp]: "xml_texts (xs @ ys) = xml_texts xs @ xml_texts ys"
  by (induction xs) auto

lemma fwdToElem_skip: "xmlName n \<noteq> nm \<Longrightarrow> fwdToElem nm (p # n # ns) = fwdToElem nm (n # ns)"
  by (simp add: fwdToElem_def)

lemma fwdToElem_hit: "xmlName n = nm \<Longrightarrow> fwdToElem nm (p # n # ns) = n # ns"
  by (simp add: fwdToElem_def)

lemma fwdToElem_length: "node \<noteq> [] \<Longrightarrow> length (fwdToElem nm node) < length node"
  using length_dropWhile_le[of "\<lambda>n. xmlName n \<noteq> nm" "tl node"] by (cases node) (auto simp: fwdToElem_def)

section \<open>Escaping\<close>

definition escapeChar :: "char \<Rightarrow> string" where
  "escapeChar c = (if c = CHR ''&'' then ''&amp;'' else if c = CHR ''<'' then ''&lt;'' else if c = CHR ''>'' then ''&gt;''
     else if c = CHR 0x22 then ''&quot;'' else if c = CHR 0x27 then ''&apos;'' else [c])"

definition escapeXML :: "string \<Rightarrow> string" where
  "escapeXML input = concat (map escapeChar input)"

text \<open>
  A writer that escapes its values prints the escaped document; the parser of the library hands the
  program the document itself.
\<close>

fun escape_doc :: "xmlNode \<Rightarrow> xmlNode" where
  "escape_doc (Text s) = Text s"
| "escape_doc (Elem n as ks) = Elem n (map (\<lambda>(a, v). (a, escapeXML v)) as) (map escape_doc ks)"

text \<open>Elements on lines of their own, each with its indentation, and the indentation of the closing tag.\<close>

definition lay :: "(nat \<times> xmlNode) list \<Rightarrow> nat \<Rightarrow> xmlNode list" where
  "lay es k = concat (map (\<lambda>(i, e). [Text (nl @ tabs i), e]) es) @ [Text (nl @ tabs k)]"

lemma lay_simps [simp]:
  "lay [] k = [Text (nl @ tabs k)]" "lay ((i, e) # es) k = Text (nl @ tabs i) # e # lay es k" "lay es k \<noteq> []"
  by (simp_all add: lay_def)

lemma lay_text:
  "xml_texts (map escape_doc (lay es k)) = nl @ concat (map (\<lambda>(i, e). tabs i @ xml_text (escape_doc e) @ nl) es) @ tabs k"
  by (induction es) auto

lemma escape_plain [simp]: "\<forall>c \<in> set s. escapeChar c = [c] \<Longrightarrow> escapeXML s = s"
  unfolding escapeXML_def by (induction s) auto

text \<open>\<^verbatim>\<open>std::string::find(ref, from)\<close>.\<close>

fun find_from :: "string \<Rightarrow> nat \<Rightarrow> string \<Rightarrow> nat option" where
  "find_from r from s = find (\<lambda>i. take (length r) (drop i s) = r) [from..<Suc (length s) - length r]"

text \<open>
  The loop of \<^verbatim>\<open>unescapeXML\<close> for one reference: after a replacement the search goes on behind where the
  reference ended before it was shortened.
\<close>

function unescape_loop :: "string \<Rightarrow> char \<Rightarrow> nat option \<Rightarrow> string \<Rightarrow> string" where
  "unescape_loop r c None d = d"
| "unescape_loop r c (Some pos) d =
     (if r = [] \<or> length d < pos + length r then d
      else let d' = take pos d @ [c] @ drop (pos + length r) d
           in unescape_loop r c (find_from r (pos + length r) d') d')"
  by pat_completeness auto
termination
proof (relation "measure (\<lambda>(r, c, p, d). case p of None \<Rightarrow> 0 | Some pos \<Rightarrow> Suc (length d) - pos)")
  fix r :: string and c :: char and pos :: nat and d d' :: string
  assume a: "\<not> (r = [] \<or> length d < pos + length r)" "d' = take pos d @ [c] @ drop (pos + length r) d"
  show "((r, c, find_from r (pos + length r) d', d'), r, c, Some pos, d)
      \<in> measure (\<lambda>(r, c, p, d). case p of None \<Rightarrow> 0 | Some pos \<Rightarrow> Suc (length d) - pos)"
  proof (cases "find_from r (pos + length r) d'")
    case (Some q)
    then have q: "pos + length r \<le> q" by (auto dest!: find_Some_in)
    have r: "0 < length r" "pos + length r \<le> length d" using a(1) by auto
    have p: "pos < length d" using r by arith
    have "length d' = pos + 1 + (length d - (pos + length r))" using p by (simp add: a(2))
    then have "length d' \<le> length d" using r by arith
    then have "Suc (length d') - q < Suc (length d) - pos" using q r by arith
    then show ?thesis by (simp only: in_measure Some option.case split_conv)
  qed (use a in simp)
qed simp

definition unescapeXML :: "string \<Rightarrow> string" where
  "unescapeXML input = fold (\<lambda>(r, c) d. unescape_loop r c (find_from r 0 d) d)
     [(''&lt;'', CHR ''<''), (''&gt;'', CHR ''>''), (''&apos;'', CHR 0x27), (''&quot;'', CHR 0x22), (''&amp;'', CHR ''&'')] input"

end
