(* ===== verification/RangeFilterProps.thy ===== *)
theory RangeFilterProps
  imports RangeFilter XmlTree
begin

text \<open>
  The properties of the ranging filter and its state in a state file (src/src/backend/filters/rangeFile.cpp):
  the rows it shows for ions and ranges, the edits a user makes through their keys, and what is
  written and read back. Printing and parsing of real numbers and the reading of range files are
  parameters.
\<close>

definition RANGE_KEY_DROP_UNRANGED :: "32 word" where "RANGE_KEY_DROP_UNRANGED = 2"
definition RANGE_KEY_RANGE_FILENAME :: "32 word" where "RANGE_KEY_RANGE_FILENAME = 3"
definition RANGE_KEY_ENABLE_LEGEND :: "32 word" where "RANGE_KEY_ENABLE_LEGEND = 4"
definition RANGE_KEY_ENABLE_ALL_IONS :: "32 word" where "RANGE_KEY_ENABLE_ALL_IONS = 5"
definition RANGE_KEY_ENABLE_ALL_RANGES :: "32 word" where "RANGE_KEY_ENABLE_ALL_RANGES = 100000"
definition NUM_ROWS_ION :: "32 word" where "NUM_ROWS_ION = 3"
definition NUM_ROWS_RANGE :: "32 word" where "NUM_ROWS_RANGE = 4"

lemmas range_keys = RANGE_KEY_DROP_UNRANGED_def RANGE_KEY_RANGE_FILENAME_def RANGE_KEY_ENABLE_LEGEND_def
  RANGE_KEY_ENABLE_ALL_IONS_def RANGE_KEY_ENABLE_ALL_RANGES_def NUM_ROWS_ION_def NUM_ROWS_RANGE_def

definition PROPERTY_TYPE_STRING :: nat where "PROPERTY_TYPE_STRING = 5"
definition PROPERTY_TYPE_FILE :: nat where "PROPERTY_TYPE_FILE = 8"

text \<open>A colour of floats as bytes, truncated, and back.\<close>

definition byteOf :: "rat \<Rightarrow> 8 word" where "byteOf c = of_int \<lfloor>c * 255\<rfloor>"

definition toRGBA :: "rgb \<Rightarrow> colourRGBA" where
  "toRGBA c = (case c of (r, g, b) \<Rightarrow> \<lparr>c_r = byteOf r, c_g = byteOf g, c_b = byteOf b, c_a = byteOf 1\<rparr>)"

definition toRGBf :: "colourRGBA \<Rightarrow> rgb" where
  "toRGBf c = (of_nat (unat (c_r c)) / 255, of_nat (unat (c_g c)) / 255, of_nat (unat (c_b c)) / 255)"

section \<open>The property grid\<close>

definition rgRow :: "string \<Rightarrow> nat \<Rightarrow> string \<Rightarrow> 32 word \<Rightarrow> string \<Rightarrow> filterProperty" where
  "rgRow nm ty help key dat = \<lparr>fp_helpText = help, fp_type = ty, fp_key = ucast key, fp_data = dat,
     fp_dataSecondary = ''Range Files (*.rng; *.env; *.rrng)|*.rng;*.env;*.rrng;*.RRNG;*.RNG;*.ENV|RNG File (*.rng)|*.rng;*.RNG|Environment File (*.env)|*.env;*.ENV|RRNG Files (*.rrng)|*.rrng;*.RRNG|All Files (*)|*'',
     fp_name = nm\<rparr>"

definition ionKey :: "nat \<Rightarrow> nat \<Rightarrow> 32 word" where
  "ionKey ui row = NUM_ROWS_ION * of_nat ui + of_nat row + RANGE_KEY_ENABLE_ALL_IONS"

definition rangeKey :: "nat \<Rightarrow> nat \<Rightarrow> 32 word" where
  "rangeKey ui row = RANGE_KEY_ENABLE_ALL_RANGES + NUM_ROWS_RANGE * of_nat ui + of_nat row"

definition allFlag :: "bool list \<Rightarrow> nat \<Rightarrow> string" where
  "allFlag flags n = (if list_all (\<lambda>uj. flags ! uj) [0..<n] then ''1'' else ''0'')"

definition ionRows :: "rangeFilter \<Rightarrow> nat \<Rightarrow> filterProperty list" where
  "ionRows f ui =
     [rgRow (''IonID '' @ showNat ui) PROPERTY_TYPE_STRING ''Enable/disable specified ion'' (ionKey ui 1)
        (fst (ionNames (rg_rng f) ! ui)),
      rgRow (''Active Ion '' @ showNat ui) PROPERTY_TYPE_BOOL ''If true, ion is used in output'' (ionKey ui 2)
        (boolStrEnc (rg_enabledIons f ! ui)),
      rgRow (''Colour '' @ showNat ui) PROPERTY_TYPE_COLOUR ''Colour used to represent ion'' (ionKey ui 3)
        (rgbaString (toRGBA (colours (rg_rng f) ! ui)))]"

definition rangeRows :: "(rat \<Rightarrow> string) \<Rightarrow> rangeFilter \<Rightarrow> nat \<Rightarrow> filterProperty list" where
  "rangeRows pr f ui =
     [rgRow (''Active Rng '' @ showNat ui) PROPERTY_TYPE_BOOL
        ''Enable/disable specified range (ion must also be enabled to activiate range)'' (rangeKey ui 1)
        (boolStrEnc (rg_enabledRanges f ! ui)),
      rgRow (''Ion '' @ showNat ui) PROPERTY_TYPE_STRING ''Name of ion associate to this range'' (rangeKey ui 2)
        (fst (ionNames (rg_rng f) ! (ionIDs (rg_rng f) ! ui))),
      rgRow (''Start rng '' @ showNat ui) PROPERTY_TYPE_REAL ''Start value for range'' (rangeKey ui 3)
        (pr (fst (ranges (rg_rng f) ! ui))),
      rgRow (''End rng '' @ showNat ui) PROPERTY_TYPE_REAL ''Stopping value for range`'' (rangeKey ui 4)
        (pr (snd (ranges (rg_rng f) ! ui)))]"

definition addGroup :: "filterProperty list \<Rightarrow> string \<Rightarrow> filterPropGroup \<Rightarrow> filterPropGroup" where
  "addGroup ps title g =
     (let grp = groupCount g; g' = fold (\<lambda>p. addProperty p grp) ps g
      in case setGroupTitle grp title g' of None \<Rightarrow> g' | Some g2 \<Rightarrow> g2)"

text \<open>
  The groups are numbered as they are added. A group of ions is titled twice; the second title stays.
\<close>

definition rg_getProperties :: "(rat \<Rightarrow> string) \<Rightarrow> rangeFilter \<Rightarrow> filterPropGroup" where
  "rg_getProperties pr f =
     (if rg_rngName f = [] then newPropGroup
      else let r = rg_rng f;
        g1 = addGroup
          [rgRow ''File'' PROPERTY_TYPE_FILE ''File to use for range data'' RANGE_KEY_RANGE_FILENAME (rg_rngName f),
           rgRow ''Drop unranged'' PROPERTY_TYPE_BOOL ''Remove unranged points when generating output''
             RANGE_KEY_DROP_UNRANGED (boolStrEnc (rg_dropUnranged f))] ''File'' newPropGroup;
        g2 = addGroup [rgRow ''Legend'' PROPERTY_TYPE_BOOL ''Display colour legend for enabled ions''
             RANGE_KEY_ENABLE_LEGEND (boolStrEnc (rg_showLegend f))] ''View'' g1;
        g3 = (if getNumIons r = 0 then g2 else addGroup
          (rgRow ''All Ions'' PROPERTY_TYPE_BOOL ''Enable/disable all ions at once'' RANGE_KEY_ENABLE_ALL_IONS
             (allFlag (rg_enabledIons f) (getNumIons r)) # concat (map (ionRows f) [0..<getNumIons r])) ''Ions'' g2)
      in if getNumRanges r = 0 then g3 else addGroup
          (rgRow ''All Ranges'' PROPERTY_TYPE_BOOL ''Enable/disable all ranges'' RANGE_KEY_ENABLE_ALL_RANGES
             (allFlag (rg_enabledRanges f) (getNumRanges r)) # concat (map (rangeRows pr f) [0..<getNumRanges r])) ''Ranges'' g3)"

section \<open>Setting a property\<close>

definition rg_apply :: "(string \<Rightarrow> 'v option) \<Rightarrow> (rangeFilter \<Rightarrow> 'v) \<Rightarrow> ('v \<Rightarrow> rangeFilter \<Rightarrow> rangeFilter) \<Rightarrow>
    string \<Rightarrow> rangeFilter \<Rightarrow> rangeFilter \<times> bool \<times> bool" where
  "rg_apply dec get put value f = (case dec value of None \<Rightarrow> (f, False, False)
     | Some tmp \<Rightarrow> if tmp = get f then (f, True, False) else (rg_clearCache (put tmp f), True, True))"

text \<open>The end of each branch: the cache is cleared when something changed, and the edit is accepted.\<close>

definition rg_finish :: "bool \<Rightarrow> rangeFilter \<Rightarrow> rangeFilter \<times> bool \<times> bool" where
  "rg_finish needUpdate f = (if needUpdate then rg_clearCache f else f, True, needUpdate)"

definition rg_reject :: "rangeFilter \<Rightarrow> rangeFilter \<times> bool \<times> bool" where
  "rg_reject f = (f, False, False)"

definition isAlnum :: "char \<Rightarrow> bool" where
  "isAlnum c \<longleftrightarrow> isDigit c \<or> 65 \<le> ord c \<and> ord c \<le> 90 \<or> 97 \<le> ord c \<and> ord c \<le> 122"

definition setFlag :: "(bool list \<Rightarrow> rangeFilter \<Rightarrow> rangeFilter) \<Rightarrow> bool list \<Rightarrow> nat \<Rightarrow> string \<Rightarrow> rangeFilter \<Rightarrow>
    (rangeFilter \<times> bool \<times> bool) option" where
  "setFlag put flags i value f =
     (case castUInt value of None \<Rightarrow> Some (rg_reject f)
      | Some v \<Rightarrow> if v = 0 \<or> v = 1
          then map_option (\<lambda>old. if old = (v = 1) then rg_finish False f
                 else rg_finish True (put (flags[i := (v = 1)]) f)) (elem_at flags i)
          else Some (rg_reject f))"

definition setLegend :: "string \<Rightarrow> rangeFilter \<Rightarrow> (rangeFilter \<times> bool \<times> bool) option" where
  "setLegend value f =
     (let put = (\<lambda>b f. f\<lparr>rg_showLegend := b\<rparr>) in
      if \<not> rg_cacheOK f \<or> \<not> rg_cache f then Some (rg_apply boolStrDec rg_showLegend put value f)
      else case boolStrDec value of None \<Rightarrow> Some (rg_reject f)
       | Some newShow \<Rightarrow>
           if rg_showLegend f = newShow then Some (rg_reject f)
           else map_option (\<lambda>outs. ((put newShow f)\<lparr>rg_outputs := outs\<rparr>, True, True))
             (if rg_showLegend f
              then (case find_index (\<lambda>s. fs_type s = STREAM_TYPE_DRAW) (rg_outputs f) of
                      None \<Rightarrow> Some (rg_outputs f) | Some ui \<Rightarrow> swap_pop ui (rg_outputs f))
              else map_option (\<lambda>ds. rg_outputs f @ [ds]) (createLegend f)))"

definition setAll :: "(bool list \<Rightarrow> rangeFilter \<Rightarrow> rangeFilter) \<Rightarrow> bool list \<Rightarrow> nat \<Rightarrow> string \<Rightarrow> rangeFilter \<Rightarrow>
    (rangeFilter \<times> bool \<times> bool) option" where
  "setAll put flags n value f =
     (case boolStrDec value of None \<Rightarrow> Some (rg_reject f)
      | Some allEnable \<Rightarrow> if n \<le> length flags
          then Some (rg_finish (\<not> list_all (\<lambda>b. b = allEnable) (take n flags)) (put (replicate n allEnable @ drop n flags) f))
          else None)"

definition setIonName :: "nat \<Rightarrow> string \<Rightarrow> rangeFilter \<Rightarrow> (rangeFilter \<times> bool \<times> bool) option" where
  "setIonName i value f =
     (if \<not> list_all isAlnum value then Some (rg_reject f)
      else map_option (\<lambda>r. rg_finish True (f\<lparr>rg_rng := r\<rparr>))
             (Option.bind (setIonShortName (rg_rng f) i value) (\<lambda>r. setIonLongName r i value)))"

text \<open>A text that is not a colour leaves the colour uninitialised.\<close>

definition setIonColour :: "nat \<Rightarrow> string \<Rightarrow> rangeFilter \<Rightarrow> (rangeFilter \<times> bool \<times> bool) option" where
  "setIonColour i value f =
     (case parseColour value of None \<Rightarrow> None
      | Some c \<Rightarrow> map_option (\<lambda>r. rg_finish True (f\<lparr>rg_rng := r\<rparr>)) (setColour (rg_rng f) i (toRGBf c)))"

definition setRangeIon :: "nat \<Rightarrow> string \<Rightarrow> rangeFilter \<Rightarrow> (rangeFilter \<times> bool \<times> bool) option" where
  "setRangeIon i value f =
     (case castUInt value of None \<Rightarrow> Some (rg_reject f)
      | Some newID \<Rightarrow> Option.bind (ionIDOfRange (rg_rng f) i) (\<lambda>old.
          if unat newID = old then Some (rg_reject f)
          else if unat newID > getNumRanges (rg_rng f) then Some (rg_reject f)
          else map_option (\<lambda>r. rg_finish True (f\<lparr>rg_rng := r\<rparr>)) (setIonID (rg_rng f) i (unat newID))))"

definition setRangeMass :: "bool \<Rightarrow> (string \<Rightarrow> rat option) \<Rightarrow> nat \<Rightarrow> string \<Rightarrow> rangeFilter \<Rightarrow> (rangeFilter \<times> bool \<times> bool) option" where
  "setRangeMass upper rd i value f =
     (case rd value of None \<Rightarrow> Some (rg_reject f)
      | Some newMass \<Rightarrow> Option.bind (getRange (rg_rng f) i) (\<lambda>rg.
          if newMass = (if upper then snd rg else fst rg) then Some (rg_reject f)
          else map_option (\<lambda>(r, moved). if moved then rg_finish True (f\<lparr>rg_rng := r\<rparr>) else rg_reject f)
                 (moveRange (rg_rng f) i upper newMass)))"

definition setIonRow :: "32 word \<Rightarrow> string \<Rightarrow> rangeFilter \<Rightarrow> (rangeFilter \<times> bool \<times> bool) option" where
  "setIonRow key value f =
     (let ionID = (key - 1 - RANGE_KEY_ENABLE_ALL_IONS) div NUM_ROWS_ION;
          row = (key - 1 - RANGE_KEY_ENABLE_ALL_IONS) - ionID * NUM_ROWS_ION; i = unat ionID in
      if row = 0 then setIonName i value f
      else if row = 1 then setFlag (\<lambda>l f. f\<lparr>rg_enabledIons := l\<rparr>) (rg_enabledIons f) i value f
      else setIonColour i value f)"

definition setRangeRow :: "(string \<Rightarrow> rat option) \<Rightarrow> 32 word \<Rightarrow> string \<Rightarrow> rangeFilter \<Rightarrow> (rangeFilter \<times> bool \<times> bool) option" where
  "setRangeRow rd key value f =
     (let rangeId = (key - 1 - RANGE_KEY_ENABLE_ALL_RANGES) div NUM_ROWS_RANGE;
          row = (key - 1 - RANGE_KEY_ENABLE_ALL_RANGES) - rangeId * NUM_ROWS_RANGE; i = unat rangeId in
      if row = 0 then setFlag (\<lambda>l f. f\<lparr>rg_enabledRanges := l\<rparr>) (rg_enabledRanges f) i value f
      else if row = 1 then setRangeIon i value f
      else if row = 2 then setRangeMass False rd i value f
      else setRangeMass True rd i value f)"

text \<open>The result is the filter, whether the edit was accepted, and \<^verbatim>\<open>needUpdate\<close>.\<close>

definition rg_setProperty :: "(string \<Rightarrow> rat option) \<Rightarrow> (string \<Rightarrow> rangeFile option) \<Rightarrow> 32 word \<Rightarrow> string \<Rightarrow>
    rangeFilter \<Rightarrow> (rangeFilter \<times> bool \<times> bool) option" where
  "rg_setProperty rd openFile key value f =
     (if key = RANGE_KEY_RANGE_FILENAME then
        (if value = rg_rngName f then Some (rg_reject f)
         else let (f', ok) = updateRng openFile (f\<lparr>rg_rngName := value\<rparr>)
              in Some (if ok then rg_finish True f' else rg_reject f))
      else if key = RANGE_KEY_DROP_UNRANGED
        then Some (rg_apply boolStrDec rg_dropUnranged (\<lambda>b f. f\<lparr>rg_dropUnranged := b\<rparr>) value f)
      else if key = RANGE_KEY_ENABLE_LEGEND then setLegend value f
      else if key = RANGE_KEY_ENABLE_ALL_RANGES
        then setAll (\<lambda>l f. f\<lparr>rg_enabledRanges := l\<rparr>) (rg_enabledRanges f) (getNumRanges (rg_rng f)) value f
      else if key = RANGE_KEY_ENABLE_ALL_IONS
        then setAll (\<lambda>l f. f\<lparr>rg_enabledIons := l\<rparr>) (rg_enabledIons f) (getNumIons (rg_rng f)) value f
      else if key < RANGE_KEY_ENABLE_ALL_RANGES then setIonRow key value f
      else setRangeRow rd key value f)"

text \<open>Dragging a range in the plot: its lower end, its middle or its upper end.\<close>

datatype regionMove = REGION_MOVE_EXTEND_XMINUS | REGION_MOVE_TRANSLATE_X | REGION_MOVE_EXTEND_XPLUS

definition rg_setPropFromRegion :: "regionMove \<Rightarrow> nat \<Rightarrow> rat \<Rightarrow> rangeFilter \<Rightarrow> rangeFilter option" where
  "rg_setPropFromRegion mv rangeID newPos f =
     map_option (\<lambda>(r, moved). rg_clearCache (f\<lparr>rg_rng := r\<rparr>))
       (case mv of
          REGION_MOVE_EXTEND_XMINUS \<Rightarrow> moveRange (rg_rng f) rangeID False newPos
        | REGION_MOVE_TRANSLATE_X \<Rightarrow> Option.bind (getRange (rg_rng f) rangeID) (\<lambda>lim.
            let delta = (snd lim - fst lim) / 2 in moveBothRanges (rg_rng f) rangeID (newPos - delta) (newPos + delta))
        | REGION_MOVE_EXTEND_XPLUS \<Rightarrow> moveRange (rg_rng f) rangeID True newPos)"

section \<open>Keys and rows\<close>

lemma of_nat_div_word: "n < 2 ^ 32 \<Longrightarrow> d < 2 ^ 32 \<Longrightarrow> (of_nat n :: 32 word) div of_nat d = of_nat (n div d)"
  by (simp add: word_arith_nat_div unat_of_nat)

lemma ionKey_decode:
  assumes "i < 33331" "row < 3"
  shows "(ionKey i (Suc row) - 1 - RANGE_KEY_ENABLE_ALL_IONS) div NUM_ROWS_ION = of_nat i"
    "(ionKey i (Suc row) - 1 - RANGE_KEY_ENABLE_ALL_IONS) - of_nat i * NUM_ROWS_ION = of_nat row"
    "unat (ionKey i (Suc row)) = 3 * i + row + 6"
proof -
  have e: "ionKey i (Suc row) - 1 - RANGE_KEY_ENABLE_ALL_IONS = of_nat (3 * i + row)"
    by (simp add: ionKey_def range_keys)
  have "(of_nat (3 * i + row) :: 32 word) div of_nat 3 = of_nat ((3 * i + row) div 3)"
    by (rule of_nat_div_word) (use assms in simp_all)
  moreover have "(3 * i + row) div 3 = i" using assms by simp
  ultimately show "(ionKey i (Suc row) - 1 - RANGE_KEY_ENABLE_ALL_IONS) div NUM_ROWS_ION = of_nat i"
    unfolding e by (simp add: NUM_ROWS_ION_def)
  show "(ionKey i (Suc row) - 1 - RANGE_KEY_ENABLE_ALL_IONS) - of_nat i * NUM_ROWS_ION = of_nat row"
    unfolding e by (simp add: NUM_ROWS_ION_def)
  have "ionKey i (Suc row) = of_nat (3 * i + row + 6)" by (simp add: ionKey_def range_keys)
  then show "unat (ionKey i (Suc row)) = 3 * i + row + 6"
    using assms by (simp only: unat_of_nat) simp
qed

lemma rangeKey_decode:
  assumes "i < 1000000000" "row < 4"
  shows "(rangeKey i (Suc row) - 1 - RANGE_KEY_ENABLE_ALL_RANGES) div NUM_ROWS_RANGE = of_nat i"
    "(rangeKey i (Suc row) - 1 - RANGE_KEY_ENABLE_ALL_RANGES) - of_nat i * NUM_ROWS_RANGE = of_nat row"
    "unat (rangeKey i (Suc row)) = 4 * i + row + 100001"
proof -
  have e: "rangeKey i (Suc row) - 1 - RANGE_KEY_ENABLE_ALL_RANGES = of_nat (4 * i + row)"
    by (simp add: rangeKey_def range_keys)
  have "(of_nat (4 * i + row) :: 32 word) div of_nat 4 = of_nat ((4 * i + row) div 4)"
    by (rule of_nat_div_word) (use assms in simp_all)
  moreover have "(4 * i + row) div 4 = i" using assms by simp
  ultimately show "(rangeKey i (Suc row) - 1 - RANGE_KEY_ENABLE_ALL_RANGES) div NUM_ROWS_RANGE = of_nat i"
    unfolding e by (simp add: NUM_ROWS_RANGE_def)
  show "(rangeKey i (Suc row) - 1 - RANGE_KEY_ENABLE_ALL_RANGES) - of_nat i * NUM_ROWS_RANGE = of_nat row"
    unfolding e by (simp add: NUM_ROWS_RANGE_def)
  have "rangeKey i (Suc row) = of_nat (4 * i + row + 100001)" by (simp add: rangeKey_def range_keys)
  then show "unat (rangeKey i (Suc row)) = 4 * i + row + 100001"
    using assms by (simp only: unat_of_nat) simp
qed

text \<open>An edit with the key of a row reaches the code for that row.\<close>

lemma ion_key_route:
  assumes "i < 33331" "row < 3"
  shows "rg_setProperty rd op (ionKey i (Suc row)) value f = setIonRow (ionKey i (Suc row)) value f"
proof -
  let ?k = "ionKey i (Suc row)"
  have u: "unat ?k = 3 * i + row + 6" by (rule ionKey_decode(3)[OF assms])
  have "?k \<noteq> 2" "?k \<noteq> 3" "?k \<noteq> 4" "?k \<noteq> 5" "?k \<noteq> 100000" using u assms by auto
  moreover have "?k < 100000" using u assms by (simp add: word_less_nat_alt)
  ultimately show ?thesis by (simp add: rg_setProperty_def range_keys)
qed

lemma range_key_route:
  assumes "i < 1000000000" "row < 4"
  shows "rg_setProperty rd op (rangeKey i (Suc row)) value f = setRangeRow rd (rangeKey i (Suc row)) value f"
proof -
  let ?k = "rangeKey i (Suc row)"
  have u: "unat ?k = 4 * i + row + 100001" by (rule rangeKey_decode(3)[OF assms])
  have "?k \<noteq> 2" "?k \<noteq> 3" "?k \<noteq> 4" "?k \<noteq> 5" "?k \<noteq> 100000" using u assms by auto
  moreover have "\<not> ?k < 100000" using u assms by (simp add: word_less_nat_alt)
  ultimately show ?thesis by (simp add: rg_setProperty_def range_keys)
qed

section \<open>The rows and the edits agree\<close>

lemma castUInt_bool: "castUInt (boolStrEnc b) = Some (if b then 1 else 0)"
proof -
  have "showNat 0 = ''0''" "showNat 1 = ''1''" by (subst showNat.simps, simp add: digitChar_def)+
  then have "boolStrEnc b = showNat (unat (if b then 1 else 0 :: 32 word))" by (simp add: boolStrEnc_def)
  then show ?thesis by (simp only: castUInt_show)
qed

text \<open>
  The key under which a row of the property grid is shown leads an edit to the field
  the row shows: the switch of an ion or of a range changes that flag only, and only then is the
  cache dropped.
\<close>

theorem rows_switch_flags:
  assumes "rg_ok f" "i < getNumIons (rg_rng f)" "getNumIons (rg_rng f) \<le> 33331"
    and "j < getNumRanges (rg_rng f)" "getNumRanges (rg_rng f) \<le> 1000000000"
  shows "rg_setProperty rd openFile (ionKey i 2) (boolStrEnc b) f =
      Some (if rg_enabledIons f ! i = b then (f, True, False)
            else (rg_clearCache (f\<lparr>rg_enabledIons := (rg_enabledIons f)[i := b]\<rparr>), True, True)) \<and>
    rg_setProperty rd openFile (rangeKey j 1) (boolStrEnc b) f =
      Some (if rg_enabledRanges f ! j = b then (f, True, False)
            else (rg_clearCache (f\<lparr>rg_enabledRanges := (rg_enabledRanges f)[j := b]\<rparr>), True, True))"
proof
  have i: "i < 33331" "i < length (rg_enabledIons f)" using assms by (auto simp: rg_ok_def getNumIons_def)
  have j: "j < 1000000000" "j < length (rg_enabledRanges f)" using assms by (auto simp: rg_ok_def getNumRanges_def)
  have u: "unat (of_nat i :: 32 word) = i" "unat (of_nat j :: 32 word) = j" using i(1) j(1) by (simp_all add: unat_of_nat)
  have flag: "setFlag put flags k (boolStrEnc b) g = Some (if flags ! k = b then (g, True, False)
      else (rg_clearCache (put (flags[k := b]) g), True, True))" if "k < length flags" for put flags k and g :: rangeFilter
    using that by (simp add: setFlag_def castUInt_bool elem_at_def rg_finish_def)
  show "rg_setProperty rd openFile (ionKey i 2) (boolStrEnc b) f =
      Some (if rg_enabledIons f ! i = b then (f, True, False)
            else (rg_clearCache (f\<lparr>rg_enabledIons := (rg_enabledIons f)[i := b]\<rparr>), True, True))"
  proof -
    have "ionKey i 2 = ionKey i (Suc 1)" by (simp add: numeral_2_eq_2)
    then have "rg_setProperty rd openFile (ionKey i 2) (boolStrEnc b) f = setIonRow (ionKey i (Suc 1)) (boolStrEnc b) f"
      using ion_key_route[of i 1] i by simp
    also have "\<dots> = setFlag (\<lambda>l f. f\<lparr>rg_enabledIons := l\<rparr>) (rg_enabledIons f) i (boolStrEnc b) f"
    proof -
      have dk: "(ionKey i (Suc 1) - 1 - RANGE_KEY_ENABLE_ALL_IONS) div NUM_ROWS_ION = of_nat i"
        "(ionKey i (Suc 1) - 1 - RANGE_KEY_ENABLE_ALL_IONS) - of_nat i * NUM_ROWS_ION = of_nat 1"
        by (rule ionKey_decode; use i in simp)+
      show ?thesis unfolding setIonRow_def Let_def dk u by simp
    qed
    finally show ?thesis unfolding flag[OF i(2)] by auto
  qed
  show "rg_setProperty rd openFile (rangeKey j 1) (boolStrEnc b) f =
      Some (if rg_enabledRanges f ! j = b then (f, True, False)
            else (rg_clearCache (f\<lparr>rg_enabledRanges := (rg_enabledRanges f)[j := b]\<rparr>), True, True))"
  proof -
    have "rangeKey j 1 = rangeKey j (Suc 0)" by simp
    then have "rg_setProperty rd openFile (rangeKey j 1) (boolStrEnc b) f = setRangeRow rd (rangeKey j (Suc 0)) (boolStrEnc b) f"
      using range_key_route[of j 0] j by simp
    also have "\<dots> = setFlag (\<lambda>l f. f\<lparr>rg_enabledRanges := l\<rparr>) (rg_enabledRanges f) j (boolStrEnc b) f"
    proof -
      have dk: "(rangeKey j (Suc 0) - 1 - RANGE_KEY_ENABLE_ALL_RANGES) div NUM_ROWS_RANGE = of_nat j"
        "(rangeKey j (Suc 0) - 1 - RANGE_KEY_ENABLE_ALL_RANGES) - of_nat j * NUM_ROWS_RANGE = of_nat 0"
        by (rule rangeKey_decode; use j in simp)+
      show ?thesis unfolding setRangeRow_def Let_def dk u by simp
    qed
    finally show ?thesis unfolding flag[OF j(2)] by auto
  qed
qed

text \<open>All rows have different keys, so that the grid is consistent.\<close>

lemma addGroup_props [simp]: "properties (addGroup ps title g) = properties g @ ps"
proof -
  have p: "properties (fold (\<lambda>p. addProperty p grp) ps g) = properties g @ ps" for grp
    by (induction ps arbitrary: g) (simp_all add: addProperty_def Let_def)
  then show ?thesis by (auto simp: addGroup_def Let_def setGroupTitle_def split: option.splits if_splits)
qed

lemma ionRows_keys: "map fp_key (ionRows f i) = map (\<lambda>r. ucast (ionKey i (Suc r))) [0..<3]"
  by (simp add: ionRows_def rgRow_def upt_rec numeral_3_eq_3 numeral_2_eq_2)

lemma rangeRows_keys: "map fp_key (rangeRows pr f i) = map (\<lambda>r. ucast (rangeKey i (Suc r))) [0..<4]"
  by (simp add: rangeRows_def rgRow_def upt_rec eval_nat_numeral)

definition rg_keys :: "nat \<Rightarrow> nat \<Rightarrow> nat list" where
  "rg_keys n m = [3, 2, 4] @ (if n = 0 then [] else 5 # concat (map (\<lambda>i. map (\<lambda>r. 3 * i + r + 6) [0..<3]) [0..<n])) @
     (if m = 0 then [] else 100000 # concat (map (\<lambda>i. map (\<lambda>r. 4 * i + r + 100001) [0..<4]) [0..<m]))"

lemma blocks_upt: "concat (map (\<lambda>i. map (\<lambda>r. w * i + r + c) [0..<w]) [0..<n]) = [c..<c + w * n]"
proof (induction n)
  case (Suc n)
  have "map (\<lambda>r. w * n + r + c) [0..<w] = [c + w * n..<c + w * n + w]"
    by (rule nth_equalityI) simp_all
  moreover have "[c..<c + w * n] @ [c + w * n..<c + w * n + w] = [c..<c + w * n + w]"
    by (rule upt_add_eq_append[symmetric]) simp
  ultimately show ?case using Suc by (simp add: add.assoc[symmetric] add.commute[of w])
qed simp

lemma rg_keys_distinct: "n \<le> 33331 \<Longrightarrow> distinct (rg_keys n m)"
  using blocks_upt[of 3 6 n] blocks_upt[of 4 100001 m] by (auto simp: rg_keys_def)

text \<open>
  A range file with at most 33331 ions is shown with one row per setting, each under a
  key of its own.
\<close>

theorem rg_properties_keys:
  assumes "rg_rngName f \<noteq> []" "getNumIons (rg_rng f) \<le> 33331" "getNumRanges (rg_rng f) \<le> 1000000000"
  shows "map (\<lambda>p. unat (fp_key p)) (properties (rg_getProperties pr f)) = rg_keys (getNumIons (rg_rng f)) (getNumRanges (rg_rng f)) \<and>
    distinct (map fp_key (properties (rg_getProperties pr f)))"
proof -
  let ?n = "getNumIons (rg_rng f)" and ?m = "getNumRanges (rg_rng f)"
  have up: "unat (ucast (k :: 32 word) :: 64 word) = unat k" for k using unsigned_less[where 'a = nat and w = k] by (simp add: unsigned_ucast_eq take_bit_nat_eq_self_iff)
  have ik: "map (\<lambda>p. unat (fp_key p)) (ionRows f i) = map (\<lambda>r. 3 * i + r + 6) [0..<3]" if "i < ?n" for i
  proof -
    have "map (\<lambda>p. unat (fp_key p)) (ionRows f i) = map unat (map (\<lambda>r. ucast (ionKey i (Suc r)) :: 64 word) [0..<3])"
      using arg_cong[OF ionRows_keys[of f i], of "map unat"] by (simp only: map_map comp_def)
    also have "\<dots> = map (\<lambda>r. 3 * i + r + 6) [0..<3]"
      using that assms ionKey_decode(3)[of i] up by simp
    finally show ?thesis .
  qed
  have rk: "map (\<lambda>p. unat (fp_key p)) (rangeRows pr f i) = map (\<lambda>r. 4 * i + r + 100001) [0..<4]" if "i < ?m" for i
  proof -
    have "map (\<lambda>p. unat (fp_key p)) (rangeRows pr f i) = map unat (map (\<lambda>r. ucast (rangeKey i (Suc r)) :: 64 word) [0..<4])"
      using arg_cong[OF rangeRows_keys[of pr f i], of "map unat"] by (simp only: map_map comp_def)
    also have "\<dots> = map (\<lambda>r. 4 * i + r + 100001) [0..<4]"
      using that assms rangeKey_decode(3)[of i] up by simp
    finally show ?thesis .
  qed
  have ions: "map (\<lambda>p. unat (fp_key p)) (concat (map (ionRows f) [0..<?n])) = concat (map (\<lambda>i. map (\<lambda>r. 3 * i + r + 6) [0..<3]) [0..<?n])"
    unfolding map_concat map_map by (intro arg_cong[of _ _ concat] map_cong) (use ik in simp_all)
  have rngs: "map (\<lambda>p. unat (fp_key p)) (concat (map (rangeRows pr f) [0..<?m])) = concat (map (\<lambda>i. map (\<lambda>r. 4 * i + r + 100001) [0..<4]) [0..<?m])"
    unfolding map_concat map_map by (intro arg_cong[of _ _ concat] map_cong) (use rk in simp_all)
  have keys: "map (\<lambda>p. unat (fp_key p)) (properties (rg_getProperties pr f)) = rg_keys ?n ?m"
    using assms(1) ions rngs
    by (simp add: rg_getProperties_def Let_def newPropGroup_def rgRow_def range_keys rg_keys_def)
  then have "distinct (map unat (map fp_key (properties (rg_getProperties pr f))))"
    using rg_keys_distinct[OF assms(2)] by (simp add: comp_def)
  then have "distinct (map fp_key (properties (rg_getProperties pr f)))" by (simp only: distinct_map)
  then show ?thesis using keys by blast
qed

section \<open>Edits keep the filter well formed\<close>

lemma rg_ok_fields [simp]:
  "rg_ok (f\<lparr>rg_cacheOK := b\<rparr>) = rg_ok f" "rg_ok (f\<lparr>rg_outputs := os\<rparr>) = rg_ok f" "rg_ok (f\<lparr>rg_rngName := s\<rparr>) = rg_ok f"
  "rg_ok (f\<lparr>rg_dropUnranged := b\<rparr>) = rg_ok f" "rg_ok (f\<lparr>rg_showLegend := b\<rparr>) = rg_ok f"
  "rg_ok (rg_clearCache f) = rg_ok f"
  by (simp_all add: rg_ok_def rg_clearCache_def)

lemma rg_ok_flags [simp]:
  "rg_ok f \<Longrightarrow> length l = length (rg_enabledIons f) \<Longrightarrow> rg_ok (f\<lparr>rg_enabledIons := l\<rparr>)"
  "rg_ok f \<Longrightarrow> length l = length (rg_enabledRanges f) \<Longrightarrow> rg_ok (f\<lparr>rg_enabledRanges := l\<rparr>)"
  by (simp_all add: rg_ok_def)

lemma rg_ok_range:
  "rg_ok f \<Longrightarrow> rf_ok r \<Longrightarrow> length (ranges r) = length (ranges (rg_rng f)) \<Longrightarrow> length (ionNames r) = length (ionNames (rg_rng f)) \<Longrightarrow>
   rg_ok (f\<lparr>rg_rng := r\<rparr>)"
  by (simp add: rg_ok_def)

lemma apply_ok:
  "rg_ok f \<Longrightarrow> (\<And>v. rg_ok (put v f)) \<Longrightarrow> rg_ok (fst (rg_apply dec get put value f))"
  by (auto simp: rg_apply_def split: option.splits)

lemma setFlag_ok:
  assumes "setFlag put flags i value f = Some (f', a, u)" "rg_ok f"
    "\<And>l. length l = length flags \<Longrightarrow> rg_ok (put l f)"
  shows "rg_ok f'"
  using assms by (auto simp: setFlag_def rg_reject_def rg_finish_def split: option.splits if_splits)

lemma setAll_ok:
  assumes "setAll put flags n value f = Some (f', a, u)" "rg_ok f"
    "\<And>l. length l = length flags \<Longrightarrow> rg_ok (put l f)"
  shows "rg_ok f'"
  using assms by (auto simp: setAll_def rg_reject_def rg_finish_def split: option.splits if_splits)

lemma setLegend_ok:
  assumes "setLegend value f = Some (f', a, u)" "rg_ok f" shows "rg_ok f'"
proof (cases "\<not> rg_cacheOK f \<or> \<not> rg_cache f")
  case True
  then show ?thesis using assms apply_ok[of f "\<lambda>b f. f\<lparr>rg_showLegend := b\<rparr>" boolStrDec rg_showLegend "value"]
    by (auto simp: setLegend_def Let_def)
next
  case False
  then show ?thesis using assms
    by (auto simp: setLegend_def Let_def rg_reject_def split: option.splits if_splits)
qed

lemma names_ok:
  "rf_ok r \<Longrightarrow> length ns = length (ionNames r) \<Longrightarrow> rf_ok (r\<lparr>ionNames := ns\<rparr>)"
  "rf_ok r \<Longrightarrow> length cs = length (colours r) \<Longrightarrow> rf_ok (r\<lparr>colours := cs\<rparr>)"
  by (simp_all add: rf_ok_def)

lemma finish_ok: "rg_ok f \<Longrightarrow> rg_finish b f = (f', a, u) \<Longrightarrow> rg_ok f'"
  by (auto simp: rg_finish_def split: if_splits)

lemma setIonName_ok:
  assumes "setIonName i value f = Some (f', a, u)" "rg_ok f" shows "rg_ok f'"
proof (cases "list_all isAlnum value")
  case True
  then obtain r1 r2 where r: "setIonShortName (rg_rng f) i value = Some r1" "setIonLongName r1 i value = Some r2"
      "rg_finish True (f\<lparr>rg_rng := r2\<rparr>) = (f', a, u)"
    using assms(1) by (auto simp: setIonName_def bind_eq_Some_conv)
  then obtain ns where "r2 = (rg_rng f)\<lparr>ionNames := ns\<rparr>" "length ns = length (ionNames (rg_rng f))"
    by (auto simp: setIonShortName_def setIonLongName_def set_at_def bind_eq_Some_conv split: if_splits)
  then show ?thesis using finish_ok[OF _ r(3)] rg_ok_range[OF assms(2), of r2] names_ok(1)[of "rg_rng f" ns] assms(2)
    by (simp add: rg_ok_def)
qed (use assms in \<open>simp add: setIonName_def rg_reject_def\<close>)

lemma setIonColour_ok:
  assumes "setIonColour i value f = Some (f', a, u)" "rg_ok f" shows "rg_ok f'"
proof -
  obtain c r where r: "setColour (rg_rng f) i c = Some r" "rg_finish True (f\<lparr>rg_rng := r\<rparr>) = (f', a, u)"
    using assms(1) by (auto simp: setIonColour_def split: option.splits) (metis prod.collapse)
  then obtain cs where "r = (rg_rng f)\<lparr>colours := cs\<rparr>" "length cs = length (colours (rg_rng f))"
    by (auto simp: setColour_def set_at_def split: if_splits)
  then show ?thesis using finish_ok[OF _ r(2)] rg_ok_range[OF assms(2), of r] names_ok(2)[of "rg_rng f" cs] assms(2)
    by (simp add: rg_ok_def)
qed

lemma setRangeIon_ok:
  assumes "setRangeIon i value f = Some (f', a, u)" "rg_ok f"
    and ion: "\<forall>v. castUInt value = Some v \<longrightarrow> unat v < getNumIons (rg_rng f)"
  shows "rg_ok f'"
proof -
  consider "f' = f" | v r where "castUInt value = Some v" "setIonID (rg_rng f) i (unat v) = Some r"
      "rg_finish True (f\<lparr>rg_rng := r\<rparr>) = (f', a, u)"
    using assms(1) by (auto simp: setRangeIon_def rg_reject_def bind_eq_Some_conv split: option.splits if_splits)
  then show ?thesis
  proof cases
    case 2
    then have r: "r = (rg_rng f)\<lparr>ionIDs := (ionIDs (rg_rng f))[i := unat v]\<rparr>" by (auto simp: setIonID_def set_at_def split: if_splits)
    have "unat v < length (ionNames (rg_rng f))" using ion 2(1) by (simp add: getNumIons_def)
    then have "rf_ok r" using assms(2) set_update_subset_insert[of "ionIDs (rg_rng f)" i "unat v"]
      by (auto simp: rg_ok_def rf_ok_def r)
    then show ?thesis using finish_ok[OF _ 2(3)] rg_ok_range[OF assms(2), of r] r by simp
  qed (use assms(2) in simp)
qed

lemma setRangeMass_ok:
  assumes "setRangeMass up rd i value f = Some (f', a, u)" "rg_ok f" "enforceConsistency (rg_rng f)"
  shows "rg_ok f'"
proof -
  have rf: "rf_ok (rg_rng f)" using assms by (simp add: rg_ok_def)
  consider "f' = f" | r m where "moveRange (rg_rng f) i up m = Some (r, True)" "rg_finish True (f\<lparr>rg_rng := r\<rparr>) = (f', a, u)"
    using assms(1) by (auto simp: setRangeMass_def rg_reject_def bind_eq_Some_conv split: option.splits if_splits)
  then show ?thesis
  proof cases
    case 2
    then have i: "i < length (ranges (rg_rng f))" by (auto simp: moveRange_def elem_at_def split: if_splits)
    obtain r' moved x where m: "moveRange (rg_rng f) i up m = Some (r', moved)"
        "moved \<longrightarrow> rf_ok r' \<and> r' = (rg_rng f)\<lparr>ranges := (ranges (rg_rng f))[i := x]\<rparr>"
      using moveRange_core[OF rf assms(3) i refl, of up m] by blast
    have "r' = r" "moved" using m(1) 2(1) by simp_all
    then have "rf_ok r" "r = (rg_rng f)\<lparr>ranges := (ranges (rg_rng f))[i := x]\<rparr>" using m(2) by blast+
    then show ?thesis using finish_ok[OF _ 2(2)] rg_ok_range[OF assms(2), of r] by simp
  qed (use assms(2) in simp)
qed

lemma setIonRow_ok:
  assumes "setIonRow key value f = Some (f', a, u)" "rg_ok f" shows "rg_ok f'"
proof -
  have fl: "rg_ok f'" if "setFlag (\<lambda>l f. f\<lparr>rg_enabledIons := l\<rparr>) (rg_enabledIons f) i value f = Some (f', a, u)" for i
    by (rule setFlag_ok[OF that assms(2)]) (use assms(2) in simp)
  consider i where "setIonName i value f = Some (f', a, u)" | i where "setIonColour i value f = Some (f', a, u)"
    | i where "setFlag (\<lambda>l f. f\<lparr>rg_enabledIons := l\<rparr>) (rg_enabledIons f) i value f = Some (f', a, u)"
    using assms(1) unfolding setIonRow_def Let_def by (metis (no_types, lifting))
  then show ?thesis using assms(2) setIonName_ok setIonColour_ok fl by cases blast+
qed

text \<open>An edit of the ion of a range; everything else a row of a range can change is guarded.\<close>

definition ion_edit :: "32 word \<Rightarrow> bool" where
  "ion_edit key \<longleftrightarrow> key > RANGE_KEY_ENABLE_ALL_RANGES \<and> (key - 1 - RANGE_KEY_ENABLE_ALL_RANGES) mod NUM_ROWS_RANGE = 1"

lemma setRangeRow_ok:
  assumes run: "setRangeRow rd key value f = Some (f', a, u)" and ok: "rg_ok f" "enforceConsistency (rg_rng f)"
    and ion: "(key - 1 - RANGE_KEY_ENABLE_ALL_RANGES) mod NUM_ROWS_RANGE = 1 \<Longrightarrow>
      \<forall>v. castUInt value = Some v \<longrightarrow> unat v < getNumIons (rg_rng f)"
  shows "rg_ok f'"
proof -
  let ?w = "key - 1 - RANGE_KEY_ENABLE_ALL_RANGES"
  have md: "?w - ?w div NUM_ROWS_RANGE * NUM_ROWS_RANGE = ?w mod NUM_ROWS_RANGE" by (rule minus_div_mult_eq_mod)
  have fl: "rg_ok f'" if "setFlag (\<lambda>l f. f\<lparr>rg_enabledRanges := l\<rparr>) (rg_enabledRanges f) i value f = Some (f', a, u)" for i
    by (rule setFlag_ok[OF that ok(1)]) (use ok in simp)
  consider i where "setFlag (\<lambda>l f. f\<lparr>rg_enabledRanges := l\<rparr>) (rg_enabledRanges f) i value f = Some (f', a, u)"
    | i where "?w mod NUM_ROWS_RANGE = 1" "setRangeIon i value f = Some (f', a, u)"
    | i up where "setRangeMass up rd i value f = Some (f', a, u)"
    using run unfolding setRangeRow_def Let_def md by (metis (no_types, lifting))
  then show ?thesis
    using ok ion setRangeIon_ok setRangeMass_ok fl by cases blast+
qed

text \<open>A rejected edit changes nothing.\<close>

lemma edit_rejects:
  "rg_apply dec get wr value f = (f', False, u) \<Longrightarrow> f' = f"
  "setFlag put flags i value f = Some (f', False, u) \<Longrightarrow> f' = f"
  "setAll put flags i value f = Some (f', False, u) \<Longrightarrow> f' = f"
  "setIonName i value f = Some (f', False, u) \<Longrightarrow> f' = f"
  "setIonColour i value f = Some (f', False, u) \<Longrightarrow> f' = f"
  "setRangeIon i value f = Some (f', False, u) \<Longrightarrow> f' = f"
  "setRangeMass up rd i value f = Some (f', False, u) \<Longrightarrow> f' = f"
  by (auto simp: rg_apply_def setFlag_def setAll_def setIonName_def setIonColour_def setRangeIon_def setRangeMass_def
      rg_reject_def rg_finish_def bind_eq_Some_conv split: option.splits if_splits)

lemma legend_rejects: "setLegend value f = Some (f', False, u) \<Longrightarrow> f' = f"
  using edit_rejects(1)[of boolStrDec rg_showLegend "\<lambda>b f. f\<lparr>rg_showLegend := b\<rparr>" "value" f f' u]
  by (auto simp: setLegend_def Let_def rg_reject_def split: option.splits if_splits)

lemma rows_reject:
  "setIonRow key value f = Some (f', False, u) \<Longrightarrow> f' = f"
  "setRangeRow rd key value f = Some (f', False, u) \<Longrightarrow> f' = f"
  unfolding setIonRow_def setRangeRow_def Let_def using edit_rejects by (metis (no_types, lifting))+

text \<open>
  Property C31. Every edit through the property grid keeps the filter well formed: the flags match
  the ranges and ions, every range has an ion, and no two ranges overlap. Range files that are
  read must be well formed, and the one edit that is not guarded, the ion of a range, must name an
  existing ion.
\<close>

theorem rg_setProperty_ok:
  assumes run: "rg_setProperty rd openFile key value f = Some (f', accepted, needUpdate)"
    and ok: "rg_ok f" "enforceConsistency (rg_rng f)"
    and files: "\<forall>name r. openFile name = Some r \<longrightarrow> rf_ok r"
    and ion: "ion_edit key \<longrightarrow> (\<forall>v. castUInt value = Some v \<longrightarrow> unat v < getNumIons (rg_rng f))"
  shows "rg_ok f' \<and> (\<not> accepted \<longrightarrow> f' = f)"
proof
  show "rg_ok f'"
  proof (cases "key = RANGE_KEY_RANGE_FILENAME")
    case fn: True
    show ?thesis
    proof (cases "value = rg_rngName f")
      case False
      then show ?thesis using run fn ok(1) files
        by (auto simp: rg_setProperty_def updateRng_def rg_reject_def rg_finish_def rg_ok_def resize_flags_def
            rg_clearCache_def getNumRanges_def getNumIons_def split: option.splits)
    qed (use run fn ok(1) in \<open>simp add: rg_setProperty_def rg_reject_def\<close>)
  next
    case False
    consider (drop) "f' = fst (rg_apply boolStrDec rg_dropUnranged (\<lambda>b f. f\<lparr>rg_dropUnranged := b\<rparr>) value f)"
      | (legend) "setLegend value f = Some (f', accepted, needUpdate)"
      | (ranges) n where "setAll (\<lambda>l f. f\<lparr>rg_enabledRanges := l\<rparr>) (rg_enabledRanges f) n value f = Some (f', accepted, needUpdate)"
      | (ions) n where "setAll (\<lambda>l f. f\<lparr>rg_enabledIons := l\<rparr>) (rg_enabledIons f) n value f = Some (f', accepted, needUpdate)"
      | (ion) "setIonRow key value f = Some (f', accepted, needUpdate)"
      | (range) "key > RANGE_KEY_ENABLE_ALL_RANGES" "setRangeRow rd key value f = Some (f', accepted, needUpdate)"
      using run False unfolding rg_setProperty_def by (auto split: if_splits)
    then show ?thesis
    proof cases
      case drop
      show ?thesis unfolding drop by (rule apply_ok) (use ok in simp_all)
    next
      case ranges
      show ?thesis by (rule setAll_ok[OF ranges ok(1)]) (use ok in simp)
    next
      case ions
      show ?thesis by (rule setAll_ok[OF ions ok(1)]) (use ok in simp)
    next
      case range
      show ?thesis by (rule setRangeRow_ok[OF range(2) ok]) (use ion range(1) in \<open>simp add: ion_edit_def\<close>)
    qed (use ok setLegend_ok setIonRow_ok in blast)+
  qed
next
  show "\<not> accepted \<longrightarrow> f' = f"
  proof
    assume "\<not> accepted"
    then have r: "rg_setProperty rd openFile key value f = Some (f', False, needUpdate)" using run by simp
    show "f' = f"
    proof (cases "key = RANGE_KEY_RANGE_FILENAME")
      case True
      then show ?thesis using r
        by (auto simp: rg_setProperty_def updateRng_def rg_reject_def rg_finish_def split: option.splits if_splits)
    next
      case False
      then show ?thesis using r edit_rejects(1,3) legend_rejects rows_reject
        unfolding rg_setProperty_def by (metis (no_types, lifting) option.inject)
    qed
  qed
qed

text \<open>
  The guard of that edit compares with the number of ranges: an ion that does not exist
  is accepted whenever its number is not above that.
\<close>

theorem rg_setProperty_bad_ion:
  assumes "rg_ok f" "i < getNumRanges (rg_rng f)" "getNumRanges (rg_rng f) \<le> 1000000000"
    and "getNumIons (rg_rng f) \<le> k" "k \<le> getNumRanges (rg_rng f)"
  shows "\<exists>f'. rg_setProperty rd openFile (rangeKey i 2) (showNat k) f = Some (f', True, True) \<and> \<not> rg_ok f' \<and>
    ionIDOfRange (rg_rng f') i = Some k"
proof -
  have i: "i < 1000000000" and k: "unat (of_nat k :: 32 word) = k" using assms by (simp_all add: unat_of_nat)
  have u: "unat (of_nat i :: 32 word) = i" using i by (simp add: unat_of_nat)
  have ids: "length (ionIDs (rg_rng f)) = length (ranges (rg_rng f))" "ionIDs (rg_rng f) ! i < getNumIons (rg_rng f)"
    using assms(1,2) by (auto simp: rg_ok_def rf_ok_def getNumRanges_def getNumIons_def)
  let ?r = "(rg_rng f)\<lparr>ionIDs := (ionIDs (rg_rng f))[i := k]\<rparr>"
  have dk: "(rangeKey i (Suc 1) - 1 - RANGE_KEY_ENABLE_ALL_RANGES) div NUM_ROWS_RANGE = of_nat i"
    "(rangeKey i (Suc 1) - 1 - RANGE_KEY_ENABLE_ALL_RANGES) - of_nat i * NUM_ROWS_RANGE = of_nat 1"
    by (rule rangeKey_decode; use i in simp)+
  have "rangeKey i 2 = rangeKey i (Suc 1)" by (simp add: numeral_2_eq_2)
  then have "rg_setProperty rd openFile (rangeKey i 2) (showNat k) f = setRangeRow rd (rangeKey i (Suc 1)) (showNat k) f"
    using range_key_route[of i 1] i by simp
  also have "\<dots> = setRangeIon i (showNat k) f" unfolding setRangeRow_def Let_def dk u by simp
  also have "castUInt (showNat k) = Some (of_nat k)" using castUInt_show[of "of_nat k"] k by simp
  then have "setRangeIon i (showNat k) f = Some (rg_finish True (f\<lparr>rg_rng := ?r\<rparr>))"
    using ids assms k
    by (simp add: setRangeIon_def ionIDOfRange_def elem_at_def getNumRanges_def setIonID_def set_at_def)
  finally have run: "rg_setProperty rd openFile (rangeKey i 2) (showNat k) f = Some (rg_clearCache (f\<lparr>rg_rng := ?r\<rparr>), True, True)"
    by (simp add: rg_finish_def)
  have "k \<in> set (ionIDs ?r)" using ids assms(2) by (simp add: getNumRanges_def set_update_memI)
  moreover have "\<not> k < length (ionNames ?r)" using assms(4) by (simp add: getNumIons_def)
  ultimately have "\<not> rf_ok ?r" unfolding rf_ok_def by blast
  then show ?thesis using run ids assms(2)
    by (simp add: rg_ok_def rg_clearCache_def ionIDOfRange_def elem_at_def getNumRanges_def)
qed

end
