(* ===== verification/RangeFilterState.thy ===== *)
theory RangeFilterState
  imports RangeFilterProps
begin

text \<open>
  The state of the ranging filter in a state file (src/src/backend/filters/rangeFile.cpp): what
  \<^verbatim>\<open>writeState\<close> prints and \<^verbatim>\<open>readState\<close> makes of it. Reading a range file is a parameter.
\<close>

definition ionLine :: "nat \<Rightarrow> rangeFilter \<Rightarrow> nat \<Rightarrow> string" where
  "ionLine depth f ui = tabs (depth + 2) @ ''<ion id=\"'' @ showNat ui @ ''\" enabled=\"'' @
     boolStrEnc (rg_enabledIons f ! ui) @ ''\" colour=\"'' @ rgbString (toRGBA (colours (rg_rng f) ! ui)) @ ''\"/>'' @ nl"

definition rangeLine :: "nat \<Rightarrow> rangeFilter \<Rightarrow> nat \<Rightarrow> string" where
  "rangeLine depth f ui = tabs (depth + 2) @ ''<range id=\"'' @ showNat ui @ ''\" enabled=\"'' @
     boolStrEnc (rg_enabledRanges f ! ui) @ ''\"/>'' @ nl"

definition rg_writeState :: "nat \<Rightarrow> rangeFilter \<Rightarrow> string option" where
  "rg_writeState depth f =
     (if length (rg_enabledIons f) \<le> length (colours (rg_rng f)) then Some (
        tabs depth @ ''<rangefile>'' @ nl @
        tabs (depth + 1) @ ''<userstring value=\"'' @ escapeXML (rg_userString f) @ ''\"/>'' @ nl @
        tabs (depth + 1) @ ''<file name=\"'' @ escapeXML (rg_rngName f) @ ''\"/>'' @ nl @
        tabs (depth + 1) @ ''<legend enabled=\"'' @ boolStrEnc (rg_showLegend f) @ ''\"/>'' @ nl @
        tabs (depth + 1) @ ''<dropunranged value=\"'' @ boolStrEnc (rg_dropUnranged f) @ ''\"/>'' @ nl @
        tabs (depth + 1) @ ''<enabledions>'' @ nl @
        concat (map (ionLine depth f) [0..<length (rg_enabledIons f)]) @
        tabs (depth + 1) @ ''</enabledions>'' @ nl @
        tabs (depth + 1) @ ''<enabledranges>'' @ nl @
        concat (map (rangeLine depth f) [0..<length (rg_enabledRanges f)]) @
        tabs (depth + 1) @ ''</enabledranges>'' @ nl @
        tabs depth @ ''</rangefile>'' @ nl)
      else None)"

definition rg_getStateOverrides :: "rangeFilter \<Rightarrow> string list" where
  "rg_getStateOverrides f = [rg_rngName f]"

text \<open>A package is written with the name of the copied file; the filter itself is unchanged.\<close>

definition rg_writePackageState :: "nat \<Rightarrow> string list \<Rightarrow> rangeFilter \<Rightarrow> string option" where
  "rg_writePackageState depth valueOverrides f = (case valueOverrides of [] \<Rightarrow> None
     | v # vs \<Rightarrow> rg_writeState depth (f\<lparr>rg_rngName := v\<rparr>))"

section \<open>Reading\<close>

text \<open>Stream extraction of a boolean and of a word.\<close>

definition castBool :: "string \<Rightarrow> bool option" where
  "castBool s = (case scanInt s of None \<Rightarrow> None
     | Some (neg, n) \<Rightarrow> if n = 0 then Some False else if n = 1 \<and> \<not> neg then Some True else None)"

definition castWord :: "string \<Rightarrow> string option" where
  "castWord s = (let t = takeWhile (\<lambda>c. \<not> isSpace c) (dropWhile isSpace s) in if t = [] then None else Some t)"

text \<open>The loops over the ions and the ranges of the file; a null pointer to follow is None.\<close>

function ion_loop :: "nat \<Rightarrow> xmlNode list \<Rightarrow> (nat \<times> bool) list \<Rightarrow> (nat \<times> rgb) list \<Rightarrow>
    ((nat \<times> bool) list \<times> (nat \<times> rgb) list) option" where
  "ion_loop n node en col =
     (if node = [] then None
      else let nd = fwdToElem ''ion'' node in
      if nd = [] then Some (en, col)
      else case (Option.bind (getProp_string ''id'' nd) castUInt, Option.bind (getProp_string ''enabled'' nd) boolStrDec,
                 Option.bind (getProp_string ''colour'' nd) parseColour) of
          (Some k, Some b, Some c) \<Rightarrow>
            if unat k \<ge> n then None else ion_loop n nd (map_put (unat k) b en) (map_put (unat k) (toRGBf c) col)
        | _ \<Rightarrow> None)"
  by pat_completeness auto
termination
  by (relation "measure (\<lambda>(n, node, en, col). length node)") (auto simp: fwdToElem_length)

declare ion_loop.simps [simp del]

function range_loop :: "nat \<Rightarrow> xmlNode list \<Rightarrow> (nat \<times> bool) list \<Rightarrow> (nat \<times> bool) list option" where
  "range_loop n node en =
     (if node = [] then None
      else let nd = fwdToElem ''range'' node in
      if nd = [] then Some en
      else case (Option.bind (getProp_string ''id'' nd) castUInt, Option.bind (getProp_string ''enabled'' nd) boolStrDec) of
          (Some k, Some b) \<Rightarrow> if unat k \<ge> n then None else range_loop n nd (map_put (unat k) b en)
        | _ \<Rightarrow> None)"
  by pat_completeness auto
termination
  by (relation "measure (\<lambda>(n, node, en). length node)") (auto simp: fwdToElem_length)

declare range_loop.simps [simp del]

text \<open>
  The flags of the ranges: reading a key that the map does not have inserts it, so that the bound
  of the loop grows. There are never more keys than ranges, hence the fuel.
\<close>

fun flag_loop :: "nat \<Rightarrow> nat \<Rightarrow> (nat \<times> bool) list \<Rightarrow> bool list \<Rightarrow> bool list" where
  "flag_loop 0 ui m fl = fl"
| "flag_loop (Suc k) ui m fl =
     (if ui < length m
      then (case map_of m ui of
              Some b \<Rightarrow> flag_loop k (Suc ui) m (fl[ui := b])
            | None \<Rightarrow> flag_loop k (Suc ui) (map_put ui False m) (fl[ui := False]))
      else fl)"

definition strip_dot :: "string \<Rightarrow> string \<Rightarrow> string" where
  "strip_dot dir name = (if dir \<noteq> [] \<and> length name > 2 \<and> take 2 name = ''./'' then dir @ drop 2 name else name)"

text \<open>The switches read from the file are used only when the file names as many ions as there are.\<close>

definition restore_flags :: "(nat \<times> bool) list \<Rightarrow> (nat \<times> rgb) list \<Rightarrow> (nat \<times> bool) list \<Rightarrow> rangeFilter \<Rightarrow> rangeFilter" where
  "restore_flags en col enR f =
     (let r = rg_rng f; n = getNumIons r;
          f1 = f\<lparr>rg_enabledIons := resize_flags n (rg_enabledIons f),
                 rg_enabledRanges := resize_flags (getNumRanges r) (rg_enabledRanges f)\<rparr>
      in if length en = n
         then f1\<lparr>rg_enabledIons := map (\<lambda>ui. map_of en ui = Some True) [0..<n],
                 rg_rng := r\<lparr>colours := map (\<lambda>ui. case map_of col ui of None \<Rightarrow> (0, 0, 0) | Some c \<Rightarrow> c) [0..<n] @
                                           drop n (colours r)\<rparr>,
                 rg_enabledRanges := flag_loop (getNumRanges r) 0 enR (rg_enabledRanges f1)\<rparr>
         else f1)"

text \<open>None: the state could not be read, and the filter is not to be used.\<close>

definition rg_readState :: "(string \<Rightarrow> rangeFile option) \<Rightarrow> string \<Rightarrow> xmlNode list \<Rightarrow> rangeFilter \<Rightarrow> rangeFilter option" where
  "rg_readState openFile stateFileDir nodePtr f =
     (let n1 = fwdToElem ''userstring'' nodePtr; n2 = fwdToElem ''file'' n1;
          lg = fwdToElem ''legend'' n2; n3 = fwdToElem ''dropunranged'' n2;
          n4 = fwdToElem ''enabledions'' n3; n5 = fwdToElem ''enabledranges'' n4 in
      if nodePtr = [] \<or> n1 = [] \<or> n2 = [] then None
      else Option.bind (getProp_string ''value'' n1) (\<lambda>us.
           Option.bind (map_option (strip_dot stateFileDir) (getProp_string ''name'' n2)) (\<lambda>name.
           Option.bind (openFile name) (\<lambda>r.
           Option.bind (if lg = [] then Some False else Option.bind (getProp_string ''enabled'' lg) castBool) (\<lambda>leg.
           if n3 = [] then None else
           Option.bind (Option.bind (Option.bind (getProp_string ''value'' n3) castWord) boolStrDec) (\<lambda>drp.
           if n4 = [] then None else
           Option.bind (ion_loop (getNumIons r) (xmlChildren (hd n4)) [] []) (\<lambda>(en, col).
           if n5 = [] then None else
           Option.bind (range_loop (getNumRanges r) (xmlChildren (hd n5)) []) (\<lambda>enR.
             Some (restore_flags en col enR
               (f\<lparr>rg_userString := us, rg_rngName := name, rg_rng := r, rg_showLegend := leg, rg_dropUnranged := drp\<rparr>))))))))))"

section \<open>The document that is written\<close>

definition ionDoc :: "rangeFilter \<Rightarrow> nat \<Rightarrow> xmlNode" where
  "ionDoc f ui = Elem ''ion'' [(''id'', showNat ui), (''enabled'', boolStrEnc (rg_enabledIons f ! ui)),
     (''colour'', rgbString (toRGBA (colours (rg_rng f) ! ui)))] []"

definition rangeDoc :: "rangeFilter \<Rightarrow> nat \<Rightarrow> xmlNode" where
  "rangeDoc f ui = Elem ''range'' [(''id'', showNat ui), (''enabled'', boolStrEnc (rg_enabledRanges f ! ui))] []"

definition itemsDoc :: "nat \<Rightarrow> (nat \<Rightarrow> xmlNode) \<Rightarrow> nat list \<Rightarrow> xmlNode list" where
  "itemsDoc d item is = lay (map (\<lambda>ui. (d + 2, item ui)) is) (d + 1)"

definition rangeFilterDoc :: "nat \<Rightarrow> rangeFilter \<Rightarrow> xmlNode" where
  "rangeFilterDoc d f =
     (let sp = Text (nl @ tabs (d + 1)) in
      Elem ''rangefile'' []
       [sp, Elem ''userstring'' [(''value'', rg_userString f)] [],
        sp, Elem ''file'' [(''name'', rg_rngName f)] [],
        sp, Elem ''legend'' [(''enabled'', boolStrEnc (rg_showLegend f))] [],
        sp, Elem ''dropunranged'' [(''value'', boolStrEnc (rg_dropUnranged f))] [],
        sp, Elem ''enabledions'' [] (itemsDoc d (ionDoc f) [0..<length (rg_enabledIons f)]),
        sp, Elem ''enabledranges'' [] (itemsDoc d (rangeDoc f) [0..<length (rg_enabledRanges f)]),
        Text (nl @ tabs d)])"

lemma escape_digits [simp]: "escapeXML (showNat n) = showNat n"
  by (rule escape_plain) (auto simp: escapeChar_def dest: showNat_digits)

lemma escape_bool [simp]: "escapeXML (boolStrEnc b) = boolStrEnc b"
  by (simp add: boolStrEnc_def escapeXML_def escapeChar_def)

lemma xdigit_plain: "isXDigit c \<Longrightarrow> escapeChar c = [c]"
proof -
  assume "isXDigit c"
  then have "c \<notin> {CHR ''&'', CHR ''<'', CHR ''>'', CHR 0x22, CHR 0x27}"
    by (auto simp: isXDigit_def isDigit_def ord_def)
  then show ?thesis by (simp add: escapeChar_def)
qed

lemma escape_rgb [simp]: "escapeXML (rgbString c) = rgbString c"
proof (rule escape_plain)
  show "\<forall>x \<in> set (rgbString c). escapeChar x = [x]"
    using xdigit_plain hex_xdigits by (auto simp: rgbString_def) (simp add: escapeChar_def)
qed

lemma items_text:
  "xml_texts (map escape_doc (itemsDoc d item is)) =
     nl @ concat (map (\<lambda>ui. tabs (d + 2) @ xml_text (escape_doc (item ui)) @ nl) is) @ tabs (d + 1)"
  by (simp add: itemsDoc_def lay_text comp_def)

lemma item_lines:
  "tabs (d + 2) @ xml_text (escape_doc (ionDoc f ui)) @ nl = ionLine d f ui"
  "tabs (d + 2) @ xml_text (escape_doc (rangeDoc f ui)) @ nl = rangeLine d f ui"
  by (simp_all add: ionDoc_def rangeDoc_def ionLine_def rangeLine_def xml_attr_def)

lemma items_lines:
  "xml_texts (map escape_doc (itemsDoc d (ionDoc f) is)) = nl @ concat (map (ionLine d f) is) @ tabs (d + 1)"
  "xml_texts (map escape_doc (itemsDoc d (rangeDoc f) is)) = nl @ concat (map (rangeLine d f) is) @ tabs (d + 1)"
  by (simp_all only: items_text item_lines)

lemma itemsDoc_concat:
  "itemsDoc d item is = concat (map (\<lambda>ui. [Text (nl @ tabs (d + 2)), item ui]) is) @ [Text (nl @ tabs (d + 1))]"
  by (simp add: itemsDoc_def lay_def comp_def)

lemma itemsDoc_nonempty [simp]: "itemsDoc d item is \<noteq> []"
  by (simp add: itemsDoc_def)

lemma rg_write_text:
  assumes "length (rg_enabledIons f) \<le> length (colours (rg_rng f))"
  shows "rg_writeState d f = Some (tabs d @ xml_text (escape_doc (rangeFilterDoc d f)) @ nl)"
  using assms
  by (simp add: rg_writeState_def rangeFilterDoc_def Let_def items_lines xml_attr_def)

section \<open>Reading it back\<close>

lemma map_put_end: "\<forall>i \<in> fst ` set m. i < k \<Longrightarrow> map_put k v m = m @ [(k, v)]"
  by (induction k v m rule: map_put.induct) auto

lemma map_put_next: "map fst m = [0..<k] \<Longrightarrow> map_put k v m = m @ [(k, v)]"
proof -
  assume "map fst m = [0..<k]"
  then have "fst ` set m = {0..<k}" by (metis list.set_map set_upt)
  then show ?thesis by (intro map_put_end) auto
qed

lemma castUInt_index: "k < 2 ^ 32 \<Longrightarrow> castUInt (showNat k) = Some (of_nat k) \<and> unat (of_nat k :: 32 word) = k"
  using castUInt_show[of "of_nat k"] by (simp add: unat_of_nat)

lemma ion_loop_docs:
  assumes "n < 2 ^ 32" "map fst en = [0..<k]" "map fst col = [0..<k]" "k \<le> n"
  shows "ion_loop n (x # concat (map (\<lambda>ui. [Text s, ionDoc f ui]) [k..<n]) @ [Text t]) en col =
    Some (en @ map (\<lambda>ui. (ui, rg_enabledIons f ! ui)) [k..<n],
          col @ map (\<lambda>ui. (ui, toRGBf ((toRGBA (colours (rg_rng f) ! ui))\<lparr>c_a := 255\<rparr>))) [k..<n])"
  using assms(2-4)
proof (induction "n - k" arbitrary: k x en col)
  case 0
  then have "k = n" by simp
  then show ?case by (subst ion_loop.simps) (simp add: fwdToElem_def)
next
  case (Suc m)
  then have k: "k < n" by simp
  let ?c = "toRGBf ((toRGBA (colours (rg_rng f) ! k))\<lparr>c_a := 255\<rparr>)"
  let ?rest = "concat (map (\<lambda>ui. [Text s, ionDoc f ui]) [Suc k..<n]) @ [Text t]"
  have ks: "[k..<n] = k # [Suc k..<n]" using k by (simp add: upt_conv_Cons)
  have fwd: "fwdToElem ''ion'' (x # Text s # ionDoc f k # ?rest) = ionDoc f k # ?rest"
    by (simp add: fwdToElem_def ionDoc_def)
  have cu: "castUInt (showNat k) = Some (of_nat k)" "unat (of_nat k :: 32 word) = k"
    using castUInt_index[of k] k assms(1) by auto
  have col3: "parseColour (rgbString (toRGBA (colours (rg_rng f) ! k))) = Some ((toRGBA (colours (rg_rng f) ! k))\<lparr>c_a := 255\<rparr>)"
    using colour3.dec_enc[of "(toRGBA (colours (rg_rng f) ! k))\<lparr>c_a := 255\<rparr>"] by (simp add: rgbString_def)
  have props: "getProp_string ''id'' (ionDoc f k # ?rest) = Some (showNat k)"
    "getProp_string ''enabled'' (ionDoc f k # ?rest) = Some (boolStrEnc (rg_enabledIons f ! k))"
    "getProp_string ''colour'' (ionDoc f k # ?rest) = Some (rgbString (toRGBA (colours (rg_rng f) ! k)))"
    by (simp_all add: getProp_string_def ionDoc_def)
  have "ion_loop n (x # concat (map (\<lambda>ui. [Text s, ionDoc f ui]) [k..<n]) @ [Text t]) en col =
      ion_loop n (ionDoc f k # ?rest) (map_put k (rg_enabledIons f ! k) en) (map_put k ?c col)"
    unfolding ks using fwd props cu col3 k bool_code.dec_enc[of "rg_enabledIons f ! k"]
    by (subst ion_loop.simps) simp
  also have "\<dots> = ion_loop n (ionDoc f k # ?rest) (en @ [(k, rg_enabledIons f ! k)]) (col @ [(k, ?c)])"
    using map_put_next Suc.prems(1,2) by metis
  also have "\<dots> = Some ((en @ [(k, rg_enabledIons f ! k)]) @ map (\<lambda>ui. (ui, rg_enabledIons f ! ui)) [Suc k..<n],
      (col @ [(k, ?c)]) @ map (\<lambda>ui. (ui, toRGBf ((toRGBA (colours (rg_rng f) ! ui))\<lparr>c_a := 255\<rparr>))) [Suc k..<n])"
    by (rule Suc.hyps(1)) (use Suc.hyps(2) Suc.prems k in simp_all)
  finally show ?case unfolding ks by simp
qed

lemma range_loop_docs:
  assumes "n < 2 ^ 32" "map fst en = [0..<k]" "k \<le> n"
  shows "range_loop n (x # concat (map (\<lambda>ui. [Text s, rangeDoc f ui]) [k..<n]) @ [Text t]) en =
    Some (en @ map (\<lambda>ui. (ui, rg_enabledRanges f ! ui)) [k..<n])"
  using assms(2-3)
proof (induction "n - k" arbitrary: k x en)
  case 0
  then have "k = n" by simp
  then show ?case by (subst range_loop.simps) (simp add: fwdToElem_def)
next
  case (Suc m)
  then have k: "k < n" by simp
  let ?rest = "concat (map (\<lambda>ui. [Text s, rangeDoc f ui]) [Suc k..<n]) @ [Text t]"
  have ks: "[k..<n] = k # [Suc k..<n]" using k by (simp add: upt_conv_Cons)
  have fwd: "fwdToElem ''range'' (x # Text s # rangeDoc f k # ?rest) = rangeDoc f k # ?rest"
    by (simp add: fwdToElem_def rangeDoc_def)
  have cu: "castUInt (showNat k) = Some (of_nat k)" "unat (of_nat k :: 32 word) = k"
    using castUInt_index[of k] k assms(1) by auto
  have put: "map_put k (rg_enabledRanges f ! k) en = en @ [(k, rg_enabledRanges f ! k)]"
    by (rule map_put_next[OF Suc.prems(1)])
  have props: "getProp_string ''id'' (rangeDoc f k # ?rest) = Some (showNat k)"
    "getProp_string ''enabled'' (rangeDoc f k # ?rest) = Some (boolStrEnc (rg_enabledRanges f ! k))"
    by (simp_all add: getProp_string_def rangeDoc_def)
  have "range_loop n (x # concat (map (\<lambda>ui. [Text s, rangeDoc f ui]) [k..<n]) @ [Text t]) en =
      range_loop n (rangeDoc f k # ?rest) (en @ [(k, rg_enabledRanges f ! k)])"
    unfolding ks using fwd props cu put k bool_code.dec_enc[of "rg_enabledRanges f ! k"]
    by (subst range_loop.simps) simp
  also have "\<dots> = Some ((en @ [(k, rg_enabledRanges f ! k)]) @ map (\<lambda>ui. (ui, rg_enabledRanges f ! ui)) [Suc k..<n])"
    by (rule Suc.hyps(1)) (use Suc.hyps(2) Suc.prems k in simp_all)
  finally show ?case unfolding ks by simp
qed

lemma flag_loop_full:
  assumes "length fl = n" "\<And>ui. ui < n \<Longrightarrow> map_of m ui = Some (g ui)" "length m = n" "ui + k = n"
  shows "flag_loop k ui m fl = take ui fl @ map g [ui..<n]"
  using assms(1,4)
proof (induction k arbitrary: ui fl)
  case (Suc k)
  then have "ui < n" by simp
  then have "flag_loop (Suc k) ui m fl = flag_loop k (Suc ui) m (fl[ui := g ui])" using assms(2,3) by simp
  also have "\<dots> = take (Suc ui) (fl[ui := g ui]) @ map g [Suc ui..<n]" using Suc by simp
  finally show ?case using \<open>ui < n\<close> Suc.prems by (simp add: upt_conv_Cons take_Suc_conv_app_nth)
qed simp

lemma read_bool: "castBool (boolStrEnc b) = Some b" "castWord (boolStrEnc b) = Some (boolStrEnc b)"
proof -
  have z: "showNat 0 = ''0''" "showNat 1 = ''1''" by (subst showNat.simps, simp add: digitChar_def)+
  then have "boolStrEnc b = showNat (if b then 1 else 0)" by (simp add: boolStrEnc_def)
  then show "castBool (boolStrEnc b) = Some b" by (simp add: castBool_def scanInt_show)
  show "castWord (boolStrEnc b) = Some (boolStrEnc b)"
    by (simp add: castWord_def boolStrEnc_def isSpace_def WHITE_def)
qed

lemma map_of_index: "map_of (map (\<lambda>i. (i, g i)) [0..<n]) k = (if k < n then Some (g k) else None)"
  by (simp add: map_of_map_restrict restrict_map_def)

lemma map_nth_length: "length xs = n \<Longrightarrow> map (\<lambda>i. xs ! i) [0..<n] = xs"
  using map_nth[of xs] by simp

text \<open>The colours that come back are those of whole bytes.\<close>

definition byteColour :: "rgb \<Rightarrow> rgb" where "byteColour c = toRGBf (toRGBA c)"

lemma alpha_lost [simp]: "toRGBf (c\<lparr>c_a := x\<rparr>) = toRGBf c"
  by (simp add: toRGBf_def)

lemma ion_items_read:
  assumes "n < 2 ^ 32"
  shows "ion_loop n (itemsDoc d (ionDoc f) [0..<n]) [] [] =
    Some (map (\<lambda>ui. (ui, rg_enabledIons f ! ui)) [0..<n], map (\<lambda>ui. (ui, byteColour (colours (rg_rng f) ! ui))) [0..<n])"
proof (cases "n = 0")
  case True
  then show ?thesis by (subst ion_loop.simps) (simp add: itemsDoc_def fwdToElem_def)
next
  case False
  then have "itemsDoc d (ionDoc f) [0..<n] = Text (nl @ tabs (d + 2)) # ionDoc f 0 #
      concat (map (\<lambda>ui. [Text (nl @ tabs (d + 2)), ionDoc f ui]) [Suc 0..<n]) @ [Text (nl @ tabs (d + 1))]"
    by (simp add: itemsDoc_concat upt_conv_Cons)
  moreover have "ion_loop n (Text (nl @ tabs (d + 2)) # ionDoc f 0 # ys) [] [] =
      ion_loop n (Text [] # Text (nl @ tabs (d + 2)) # ionDoc f 0 # ys) [] []" for ys
    by (subst (1 2) ion_loop.simps) (simp add: fwdToElem_def ionDoc_def)
  ultimately show ?thesis
    using ion_loop_docs[OF assms, of "[]" 0 "[]" "Text []" "nl @ tabs (d + 2)" f "nl @ tabs (d + 1)"] False
    by (simp add: upt_conv_Cons byteColour_def)
qed

lemma range_items_read:
  assumes "n < 2 ^ 32"
  shows "range_loop n (itemsDoc d (rangeDoc f) [0..<n]) [] = Some (map (\<lambda>ui. (ui, rg_enabledRanges f ! ui)) [0..<n])"
proof (cases "n = 0")
  case True
  then show ?thesis by (subst range_loop.simps) (simp add: itemsDoc_def fwdToElem_def)
next
  case False
  then have "itemsDoc d (rangeDoc f) [0..<n] = Text (nl @ tabs (d + 2)) # rangeDoc f 0 #
      concat (map (\<lambda>ui. [Text (nl @ tabs (d + 2)), rangeDoc f ui]) [Suc 0..<n]) @ [Text (nl @ tabs (d + 1))]"
    by (simp add: itemsDoc_concat upt_conv_Cons)
  moreover have "range_loop n (Text (nl @ tabs (d + 2)) # rangeDoc f 0 # ys) [] =
      range_loop n (Text [] # Text (nl @ tabs (d + 2)) # rangeDoc f 0 # ys) []" for ys
    by (subst (1 2) range_loop.simps) (simp add: fwdToElem_def rangeDoc_def)
  ultimately show ?thesis
    using range_loop_docs[OF assms, of "[]" 0 "Text []" "nl @ tabs (d + 2)" f "nl @ tabs (d + 1)"] False
    by (simp add: upt_conv_Cons)
qed

lemma restore_read:
  assumes len: "length ei = getNumIons (rg_rng f)" "length er = getNumRanges (rg_rng f)" "length cs = getNumIons (rg_rng f)"
    "length (colours (rg_rng f)) = getNumIons (rg_rng f)"
  shows "restore_flags (map (\<lambda>ui. (ui, ei ! ui)) [0..<length ei]) (map (\<lambda>ui. (ui, byteColour (cs ! ui))) [0..<length ei])
      (map (\<lambda>ui. (ui, er ! ui)) [0..<length er]) f =
    f\<lparr>rg_rng := (rg_rng f)\<lparr>colours := map byteColour cs\<rparr>, rg_enabledIons := ei, rg_enabledRanges := er\<rparr>"
proof -
  let ?en = "map (\<lambda>ui. (ui, ei ! ui)) [0..<length ei]" and ?enR = "map (\<lambda>ui. (ui, er ! ui)) [0..<length er]"
  let ?col = "map (\<lambda>ui. (ui, byteColour (cs ! ui))) [0..<length ei]"
  have "map (\<lambda>ui. map_of ?en ui = Some True) [0..<length ei] = map (\<lambda>ui. ei ! ui) [0..<length ei]"
    by (intro map_cong) (simp_all add: map_of_index)
  then have en: "map (\<lambda>ui. map_of ?en ui = Some True) [0..<length ei] = ei" by (simp add: map_nth)
  have "map (\<lambda>ui. case map_of ?col ui of None \<Rightarrow> (0, 0, 0) | Some c \<Rightarrow> c) [0..<length ei] =
      map (\<lambda>ui. byteColour (cs ! ui)) [0..<length cs]"
    using len by (intro map_cong) (simp_all add: map_of_index)
  then have col: "map (\<lambda>ui. case map_of ?col ui of None \<Rightarrow> (0, 0, 0) | Some c \<Rightarrow> c) [0..<length ei] = map byteColour cs"
    using map_nth[of "map byteColour cs"] by (metis (no_types, lifting) length_map map_cong map_nth nth_map atLeastLessThan_upt atLeastLessThan_iff)
  have fl: "flag_loop (length er) 0 ?enR fl = er" if "length fl = length er" for fl
    using flag_loop_full[OF that, of ?enR "\<lambda>ui. er ! ui" 0 "length er"] by (simp add: map_of_index map_nth)
  show ?thesis using len en col fl by (simp add: restore_flags_def Let_def resize_flags_def)
qed

text \<open>The document is read as the filter that was written, with the range file that is found under its name.\<close>

definition reloaded :: "rangeFile \<Rightarrow> rangeFilter \<Rightarrow> rangeFilter" where
  "reloaded r f = newRangeFilter\<lparr>rg_userString := rg_userString f, rg_rngName := rg_rngName f,
     rg_rng := r\<lparr>colours := map byteColour (colours (rg_rng f))\<rparr>,
     rg_showLegend := rg_showLegend f, rg_dropUnranged := rg_dropUnranged f,
     rg_enabledIons := rg_enabledIons f, rg_enabledRanges := rg_enabledRanges f\<rparr>"

lemma rg_read_doc:
  assumes ok: "rg_ok f" and open1: "openFile (rg_rngName f) = Some r"
    and same: "getNumIons r = getNumIons (rg_rng f)" "getNumRanges r = getNumRanges (rg_rng f)" "rf_ok r"
    and small: "getNumIons r < 2 ^ 32" "getNumRanges r < 2 ^ 32"
    and dir: "dir = [] \<or> take 2 (rg_rngName f) \<noteq> ''./''"
  shows "rg_readState openFile dir (xmlChildren (rangeFilterDoc d f)) newRangeFilter = Some (reloaded r f)"
proof -
  let ?f1 = "newRangeFilter\<lparr>rg_userString := rg_userString f, rg_rngName := rg_rngName f, rg_rng := r,
      rg_showLegend := rg_showLegend f, rg_dropUnranged := rg_dropUnranged f\<rparr>"
  have len: "length (rg_enabledIons f) = getNumIons r" "length (rg_enabledRanges f) = getNumRanges r"
      "length (colours (rg_rng f)) = getNumIons r" "length (colours r) = getNumIons r"
    using ok same by (simp_all add: rg_ok_def rf_ok_def getNumIons_def getNumRanges_def)
  have nm: "strip_dot dir (rg_rngName f) = rg_rngName f" using dir by (auto simp: strip_dot_def)
  show ?thesis
    using ion_items_read[OF small(1)] range_items_read[OF small(2)] open1 nm read_bool bool_code.dec_enc
      restore_read[of "rg_enabledIons f" ?f1 "rg_enabledRanges f" "colours (rg_rng f)"]
    by (simp add: rg_readState_def rangeFilterDoc_def Let_def fwdToElem_def getProp_string_def len reloaded_def)
qed

text \<open>
  Property C10. A ranging filter that is written and read back, with a range file that still has the
  same number of ions and ranges, has its name, switches and flags again, and the colours of its
  ions rounded down to bytes; the text that is written is that of the document that is read.
\<close>

theorem rangeFilter_reload:
  assumes ok: "rg_ok f" and open1: "openFile (rg_rngName f) = Some r"
    and same: "getNumIons r = getNumIons (rg_rng f)" "getNumRanges r = getNumRanges (rg_rng f)" "rf_ok r"
    and small: "getNumIons r < 2 ^ 32" "getNumRanges r < 2 ^ 32"
    and dir: "dir = [] \<or> take 2 (rg_rngName f) \<noteq> ''./''"
  shows "rg_writeState d f = Some (tabs d @ xml_text (escape_doc (rangeFilterDoc d f)) @ nl) \<and>
    rg_readState openFile dir (xmlChildren (rangeFilterDoc d f)) newRangeFilter =
      Some (newRangeFilter\<lparr>rg_userString := rg_userString f, rg_rngName := rg_rngName f,
        rg_rng := r\<lparr>colours := map byteColour (colours (rg_rng f))\<rparr>,
        rg_showLegend := rg_showLegend f, rg_dropUnranged := rg_dropUnranged f,
        rg_enabledIons := rg_enabledIons f, rg_enabledRanges := rg_enabledRanges f\<rparr>)"
  using rg_write_text[of f d] rg_read_doc[of f openFile r dir d] assms
  by (simp add: reloaded_def rg_ok_def rf_ok_def getNumIons_def)

end
