(* ===== verification/SamplesFilter.thy ===== *)
theory SamplesFilter
  imports Samples RangeFilterState
begin

text \<open>
  A ranging filter with the range file of theory \<open>Samples\<close> and a small input, on which the properties of
  the ranging filter are applied.
\<close>

definition sampleRF :: rangeFilter where
  "sampleRF = newRangeFilter\<lparr>rg_rng := sampleR, rg_rngName := ''a.rng'', rg_enabledRanges := [True, True, True],
     rg_enabledIons := [True, True]\<rparr>"

definition hit :: "rat \<Rightarrow> ionHit" where "hit m = \<lparr>ih_pos = Tri 0 0 0, ih_mass = m\<rparr>"

definition calm :: outside where
  "calm = \<lparr>o_sweepAbort = False, o_badAlloc = False, o_abort = (\<lambda>i n. False), o_endAbort = False, o_junk = hit 0\<rparr>"

definition sampleIn :: "fstream list" where
  "sampleIn = [IonStream (newIonStream\<lparr>is_hits := [hit 1, hit 60, hit 28]\<rparr>), RangeStream newRangeFile [] [], OtherStream 2 1 0]"

lemma sampleRF_fields [simp]:
  "rg_rng sampleRF = sampleR" "rg_enabledRanges sampleRF = [True, True, True]" "rg_enabledIons sampleRF = [True, True]"
  "\<not> rg_cacheOK sampleRF" "rg_cache sampleRF" "rg_dropUnranged sampleRF" "\<not> rg_showLegend sampleRF"
  "rg_outputs sampleRF = []" "rg_rngName sampleRF = ''a.rng''"
  by (simp_all add: sampleRF_def newRangeFilter_def)

lemma sampleR_colours [simp]: "colours sampleR = [(1, 0, 0), (0, 1, 0)]" by (simp add: sampleR_def newRangeFile_def)

lemma sampleRF_ok: "rg_ok sampleRF"
  using sampleR_ok by (simp add: rg_ok_def)

lemma sampleRF_dest:
  "dest sampleRF 1 = Some (Some 0)" "dest sampleRF 60 = Some None" "dest sampleRF 28 = Some (Some 1)"
  by (simp_all add: dest_def getRangeID_def inRange_def ionIDOfRange_def elem_at_def)


lemma rg_second_run_witness:
  "\<exists>f1 out1 out2. rg_refresh calm sampleIn sampleRF = Some (f1, out1, 0) \<and> rg_refresh calm sampleIn f1 = Some (f1, out2, 0) \<and>
    mset out2 = mset out1 + {#RangeStream newRangeFile [] []#}"
proof -
  have en: "haveEnabled sampleRF" by (simp add: haveEnabled_def)
  obtain f1 out1 where run: "rg_refresh calm sampleIn sampleRF = Some (f1, out1, 0)"
    using rg_refresh_core[OF sampleRF_ok sampleRF_fields(4) en, of calm sampleIn] by (auto simp: calm_def Let_def)
  have "known_types sampleIn" by (simp add: known_types_def sampleIn_def)
  from rg_second_run[OF run sampleRF_fields(5,4,8) this, of calm] run show ?thesis
    by (auto simp: range_inputs_def sampleIn_def haveEnabled_def)
qed

definition sampleOff :: rangeFilter where
  "sampleOff = sampleRF\<lparr>rg_enabledRanges := [False, False, False], rg_dropUnranged := False\<rparr>"

lemma unranged_copy_overwrites_witness:
  "\<exists>f' s. rg_refresh calm [IonStream (newIonStream\<lparr>is_hits := [hit 1, hit 2]\<rparr>), IonStream (newIonStream\<lparr>is_hits := [hit 3]\<rparr>)] sampleOff =
      Some (f', [IonStream s, RangeStream sampleR [False, False, False] [True, True]], 0) \<and> is_hits s = [hit 3, hit 2, hit 0]"
proof -
  have ok: "rg_ok sampleOff" using sampleRF_ok by (simp add: rg_ok_def sampleOff_def)
  from unranged_copy_overwrites[OF ok, of calm "newIonStream\<lparr>is_hits := [hit 1, hit 2]\<rparr>" "newIonStream\<lparr>is_hits := [hit 3]\<rparr>"]
  show ?thesis by (simp add: sampleOff_def haveEnabled_def calm_def)
qed

lemma sampleR_sizes [simp]: "getNumIons sampleR = 2" "getNumRanges sampleR = 3"
  by (simp_all add: getNumIons_def getNumRanges_def)

lemma rows_switch_flags_witness:
  "rg_setProperty (\<lambda>_. None) (\<lambda>_. None) 10 ''0'' sampleRF =
     Some (rg_clearCache (sampleRF\<lparr>rg_enabledIons := [True, False]\<rparr>), True, True)"
  using rows_switch_flags[OF sampleRF_ok, of 1 0 "\<lambda>_. None" "\<lambda>_. None" False]
  by (simp add: ionKey_def range_keys boolStrEnc_def)

lemma rg_properties_keys_witness:
  "map (\<lambda>p. unat (fp_key p)) (properties (rg_getProperties (\<lambda>_. []) sampleRF)) = rg_keys 2 3"
  using rg_properties_keys[of sampleRF "\<lambda>_. []"] by simp

lemma sampleRF_drag: "rg_setProperty (\<lambda>_. Some 55) (\<lambda>_. None) 100011 [] sampleRF =
    Some (rg_clearCache (sampleRF\<lparr>rg_rng := sampleR\<lparr>ranges := [(1, 2), (28, 29), (55, 57)]\<rparr>\<rparr>), True, True)"
  by (simp add: rg_setProperty_def range_keys setRangeRow_def setRangeMass_def getRange_def elem_at_def moveRange_def
      moves_over_def rg_finish_def upt_rec)

lemma rg_setProperty_ok_witness: "rg_ok (rg_clearCache (sampleRF\<lparr>rg_rng := sampleR\<lparr>ranges := [(1, 2), (28, 29), (55, 57)]\<rparr>\<rparr>))"
  using rg_setProperty_ok[OF sampleRF_drag sampleRF_ok] by (simp add: ion_edit_def range_keys)

lemma rg_setProperty_bad_ion_witness:
  "\<exists>f'. rg_setProperty (\<lambda>_. None) (\<lambda>_. None) 100002 ''3'' sampleRF = Some (f', True, True) \<and> \<not> rg_ok f'"
proof -
  have "showNat 3 = ''3''" by (subst showNat.simps) (simp add: digitChar_def)
  then show ?thesis
    using rg_setProperty_bad_ion[OF sampleRF_ok, of 0 3 "\<lambda>_. None" "\<lambda>_. None"] by (auto simp: rangeKey_def range_keys)
qed

lemma rangeFilter_reload_witness:
  "rg_readState (\<lambda>_. Some sampleR) [] (xmlChildren (rangeFilterDoc 1 sampleRF)) newRangeFilter = Some sampleRF"
proof -
  have "byteColour (1, 0, 0) = (1, 0, 0)" "byteColour (0, 1, 0) = (0, 1, 0)"
    by (simp_all add: byteColour_def toRGBA_def toRGBf_def byteOf_def)
  moreover have "sampleR\<lparr>colours := [(1, 0, 0), (0, 1, 0)]\<rparr> = sampleR" by (simp add: sampleR_def)
  ultimately show ?thesis
    using rangeFilter_reload[OF sampleRF_ok, of "\<lambda>_. Some sampleR" sampleR "[]" 1] sampleR_ok
    by (simp add: sampleRF_def newRangeFilter_def)
qed

end
