(* ===== verification/FilterTreeXML.thy ===== *)
theory FilterTreeXML
  imports Snapshots XmlTree
begin

text \<open>
  \<^verbatim>\<open>FilterTree::saveXML\<close> and \<^verbatim>\<open>loadXML\<close> (src/src/backend/filtertree.cpp) with the filter factory of
  filters/allFilter.cpp: the filter tree in a state file, and the names of the files that are
  copied into a package. Writing and reading a single filter are virtual methods, the record
  \<open>xmlMethods\<close>; the locale \<open>filter_xml\<close> states what the tree relies on.
\<close>

section \<open>The filter factory\<close>

definition FILTER_NAMES :: "string list" where
  "FILTER_NAMES = [''posload'', ''iondownsample'', ''rangefile'', ''spectrumplot'', ''ionclip'', ''ioncolour'',
     ''compositionprofile'', ''boundingbox'', ''transform'', ''externalprog'', ''spatialanalysis'',
     ''clusteranalysis'', ''voxelise'', ''ioninfo'', ''annotation'', ''proxigram'']"

definition filterTypes :: "filterType list" where
  "filterTypes = [FILTER_TYPE_DATALOAD, FILTER_TYPE_IONDOWNSAMPLE, FILTER_TYPE_RANGEFILE, FILTER_TYPE_SPECTRUMPLOT,
     FILTER_TYPE_IONCLIP, FILTER_TYPE_IONCOLOURFILTER, FILTER_TYPE_PROFILE, FILTER_TYPE_BOUNDBOX,
     FILTER_TYPE_TRANSFORM, FILTER_TYPE_EXTERNALPROC, FILTER_TYPE_SPATIAL_ANALYSIS, FILTER_TYPE_CLUSTER_ANALYSIS,
     FILTER_TYPE_VOXELS, FILTER_TYPE_IONINFO, FILTER_TYPE_ANNOTATION, FILTER_TYPE_PROXIGRAM]"

definition trueName :: "filterType \<Rightarrow> string" where "trueName ty = FILTER_NAMES ! filterTypeNum ty"

definition isValidFilterName :: "string \<Rightarrow> bool" where "isValidFilterName s = list_ex (\<lambda>n. n = s) FILTER_NAMES"

text \<open>The loop of the factory keeps the last match; none is the type -1, for which there is no filter.\<close>

definition makeFilterType :: "string \<Rightarrow> filterType option" where
  "makeFilterType s = fold (\<lambda>(n, ty) r. if s = n then Some ty else r) (zip FILTER_NAMES filterTypes) None"

lemma trueName_type: "makeFilterType (trueName ty) = Some ty" "isValidFilterName (trueName ty)"
  by (cases ty; simp add: makeFilterType_def trueName_def FILTER_NAMES_def filterTypes_def filterTypeNum_def isValidFilterName_def)+

lemma trueName_not_special [simp]: "trueName ty \<noteq> ''children''" "trueName ty \<noteq> ''text''"
  by (cases ty; simp add: trueName_def FILTER_NAMES_def filterTypeNum_def)+

record 'p xmlMethods =
  fx_writeState :: "'p filt \<Rightarrow> nat \<Rightarrow> string option"
  fx_writePackageState :: "'p filt \<Rightarrow> string list \<Rightarrow> nat \<Rightarrow> string option"
  fx_stateOverrides :: "'p filt \<Rightarrow> string list"
  fx_make :: "filterType \<Rightarrow> 'p filt"
  fx_readState :: "filterType \<Rightarrow> string \<Rightarrow> xmlNode list \<Rightarrow> 'p filt option"

section \<open>Saving\<close>

text \<open>\<^verbatim>\<open>while(depthLast++ < depth)\<close> and \<^verbatim>\<open>while(depthLast-- > depth)\<close>.\<close>

fun open_tags :: "nat \<Rightarrow> nat \<Rightarrow> nat \<Rightarrow> string" where
  "open_tags m 0 depthLast = []"
| "open_tags m (Suc k) depthLast = tabs (m + Suc depthLast + 1) @ ''<children>'' @ nl @ open_tags m k (Suc depthLast)"

fun close_tags :: "nat \<Rightarrow> nat \<Rightarrow> nat \<Rightarrow> string" where
  "close_tags m 0 depthLast = []"
| "close_tags m (Suc k) depthLast = tabs (m + (depthLast - 1) + 2) @ ''</children>'' @ nl @ close_tags m k (depthLast - 1)"

definition depth_tags :: "nat \<Rightarrow> nat \<Rightarrow> nat \<Rightarrow> string" where
  "depth_tags m depthLast depth =
     (if depth > depthLast then open_tags m (depth - depthLast) depthLast
      else if depth < depthLast then close_tags m (depthLast - depth) depthLast
      else [])"

text \<open>
  The name of an external file in a package: numbered until it is new, then, when the mapping
  already has the file under another name, prefixed until the mapping does not know it. The two
  results are the new name, the names in use and the mapping from new names to files.
\<close>

definition numberedName :: "string \<Rightarrow> nat \<Rightarrow> string" where
  "numberedName newFilename offset =
     (let (a, b, c) = splitFileData newFilename in a @ b @ ''-'' @ showNat offset @ ''.'' @ c)"

definition unusedName :: "string set \<Rightarrow> string \<Rightarrow> string" where
  "unusedName existing newFilename =
     (if newFilename \<notin> existing then newFilename
      else case fresh_loop (numberedName newFilename) existing (Suc (card existing)) 0 of
             None \<Rightarrow> newFilename | Some k \<Rightarrow> numberedName newFilename k)"

definition remapName :: "string \<Rightarrow> nat \<Rightarrow> string" where
  "remapName newFilename k = concat (replicate k ''remap'') @ newFilename"

definition unmappedName :: "(string \<times> string) list \<Rightarrow> string \<Rightarrow> string" where
  "unmappedName fm newFilename =
     (case fresh_loop (remapName newFilename) (fst ` set fm) (Suc (card (fst ` set fm))) 0 of
        None \<Rightarrow> newFilename | Some k \<Rightarrow> remapName newFilename k)"

text \<open>The mapping is a list of entries; a later entry for a key replaces the earlier one.\<close>

definition fm_put :: "string \<Rightarrow> string \<Rightarrow> (string \<times> string) list \<Rightarrow> (string \<times> string) list" where
  "fm_put k v fm = (k, v) # filter (\<lambda>e. fst e \<noteq> k) fm"

definition override_step :: "string \<Rightarrow> string set \<times> (string \<times> string) list \<Rightarrow>
    string \<times> string set \<times> (string \<times> string) list" where
  "override_step v st =
     (let (existing, fm) = st;
          nf = unusedName existing (''./'' @ onlyFilename v);
          existing' = insert nf existing
      in case map_of fm v of
           None \<Rightarrow> (nf, existing', fm_put nf v fm)
         | Some old \<Rightarrow> if old \<noteq> v then (let nf' = unmappedName fm nf in (nf', existing', fm_put nf' v fm))
                       else (nf, existing', fm))"

fun override_loop :: "string list \<Rightarrow> string set \<times> (string \<times> string) list \<Rightarrow>
    string list \<times> string set \<times> (string \<times> string) list" where
  "override_loop [] st = ([], st)"
| "override_loop (v # vs) st =
     (let (nf, st1) = override_step v st; (nfs, st2) = override_loop vs st1 in (nf # nfs, st2))"

text \<open>The state of the loop over the tree: \<^verbatim>\<open>depthLast\<close>, \<^verbatim>\<open>child\<close>, the text, and the file names.\<close>

fun save_loop :: "'p xmlMethods \<Rightarrow> bool \<Rightarrow> nat \<Rightarrow> 'p world \<Rightarrow> (nat list \<times> fptr tnode) list \<Rightarrow>
    nat \<times> nat \<times> string \<times> string set \<times> (string \<times> string) list \<Rightarrow>
    (nat \<times> nat \<times> string \<times> string set \<times> (string \<times> string) list) option" where
  "save_loop M pkg m w [] st = Some st"
| "save_loop M pkg m w ((anc, n) # es) (depthLast, child, txt, names) =
     (let depth = length anc in
      case filts w (tdata n) of None \<Rightarrow> None
      | Some f \<Rightarrow>
          (let (overrides, names') = (if pkg then override_loop (fx_stateOverrides M f) names else ([], names))
           in case (if pkg then fx_writePackageState M f overrides (depth + 2) else fx_writeState M f (depth + 2)) of
                None \<Rightarrow> None
              | Some s \<Rightarrow> save_loop M pkg m w es
                  (depth, child + (depth - depthLast) - (depthLast - depth), txt @ depth_tags m depthLast depth @ s, names')))"

definition final_tags :: "nat \<Rightarrow> nat \<Rightarrow> string" where
  "final_tags m child = concat (map (\<lambda>c. tabs (m + c + 2) @ ''</children>'' @ nl) (rev [0..<child]))"

text \<open>The text of the tree and the mapping of the files; None is a filter that could not be written.\<close>

definition saveXML :: "'p xmlMethods \<Rightarrow> bool \<Rightarrow> bool \<Rightarrow> nat \<Rightarrow> 'p world \<Rightarrow> filterTree \<Rightarrow> (string \<times> string) list \<Rightarrow>
    (string \<times> (string \<times> string) list) option" where
  "saveXML M writePackage useRelativePaths m w F fileMapping =
     map_option (\<lambda>(depthLast, child, txt, existing, fm).
         (tabs (m + 1) @ ''<filtertree>'' @ nl @ txt @ final_tags m child @ tabs (m + 1) @ ''</filtertree>'' @ nl, fm))
       (save_loop M (writePackage \<or> useRelativePaths) m w (entries (ft F)) (0, 0, [], {}, fileMapping))"

section \<open>Loading\<close>

text \<open>\<^verbatim>\<open>XMLHelpNextType(nodePtr, XML_ELEMENT_NODE)\<close>: the next sibling that is an element.\<close>

definition next_elem :: "xmlNode list \<Rightarrow> xmlNode list" where
  "next_elem node = dropWhile (\<lambda>n. case n of Text s \<Rightarrow> True | Elem nm as ks \<Rightarrow> False) (tl node)"

fun weight :: "xmlNode \<Rightarrow> nat" where
  "weight (Text s) = 1"
| "weight (Elem nm as ks) = Suc (sum_list (map weight ks))"

definition cost :: "xmlNode list \<Rightarrow> nat" where "cost node = sum_list (map weight (tl node))"

lemma next_elem_cost: "next_elem node = e # rest \<Longrightarrow> weight e + cost (e # rest) \<le> cost node"
proof -
  have "sum_list (map weight (dropWhile P xs)) \<le> sum_list (map weight xs)" for P and xs
    by (induction xs) auto
  then show "next_elem node = e # rest \<Longrightarrow> weight e + cost (e # rest) \<le> cost node"
    unfolding next_elem_def cost_def by (metis list.map(2) list.sel(3) sum_list.Cons)
qed

lemma next_elem_kids: "next_elem node = e # rest \<Longrightarrow> cost (xmlChildren e) + cost (e # rest) < cost node"
proof -
  have "cost ks \<le> sum_list (map weight ks)" for ks by (cases ks) (simp_all add: cost_def)
  then have "cost (xmlChildren e) < weight e" by (cases e) (auto simp: cost_def less_Suc_eq_le)
  then show "next_elem node = e # rest \<Longrightarrow> cost (xmlChildren e) + cost (e # rest) < cost node"
    using next_elem_cost[of node e rest] by simp
qed

text \<open>
  Where a filter that was read is put: the base of an empty tree, the last child of the node on the
  stack, or before \<^verbatim>\<open>lastTop\<close>, which starts at the end of the empty tree. The results are the tree,
  \<^verbatim>\<open>lastFilt\<close> and \<^verbatim>\<open>lastTop\<close>.
\<close>

definition place_filter :: "fptr ptree \<Rightarrow> nat list \<Rightarrow> nat option \<Rightarrow> fptr \<Rightarrow> fptr ptree \<times> nat \<times> nat option" where
  "place_filter t ts lastTop p =
     (if roots t = [] then (let (t1, a) = tree_insert t (tree_begin t) p in (t1, a, lastTop))
      else case ts of
          s # _ \<Rightarrow> (let (t1, a) = append_child t s p in (t1, a, lastTop))
        | [] \<Rightarrow> (let (t1, a) = tree_insert t lastTop p in (t1, a, Some a)))"

definition new_filter :: "'p filt \<Rightarrow> 'p world \<Rightarrow> 'p world" where
  "new_filter f w = w\<lparr>filts := (filts w)(next_f w \<mapsto> f), next_f := Suc (next_f w)\<rparr>"

text \<open>
  The loop. \<open>node\<close> is \<^verbatim>\<open>nodePtr\<close> with its later siblings, \<open>ns\<close> and \<open>ts\<close> are \<^verbatim>\<open>nodeStack\<close> and
  \<^verbatim>\<open>treeNodeStack\<close>, \<open>lf\<close> and \<open>lt\<close> are \<^verbatim>\<open>lastFilt\<close> and \<^verbatim>\<open>lastTop\<close>. The code 1 stands for
  \<^verbatim>\<open>needCleanup\<close>. A filter whose state cannot be read is never freed.
\<close>

function xml_loop :: "'p xmlMethods \<Rightarrow> string \<Rightarrow> xmlNode list \<Rightarrow> xmlNode list list \<Rightarrow> nat list \<Rightarrow> nat \<Rightarrow> nat option \<Rightarrow>
    fptr ptree \<Rightarrow> 'p world \<Rightarrow> string list \<Rightarrow> fptr ptree \<times> 'p world \<times> string list \<times> nat" where
  "xml_loop M dir node ns ts lf lt t w msgs =
     (case next_elem node of
        [] \<Rightarrow>
          (case ts of [] \<Rightarrow> (t, w, msgs, 0)
           | lf' # ts' \<Rightarrow> (case ns of [] \<Rightarrow> (t, w, msgs, 0)
               | nd # ns' \<Rightarrow> xml_loop M dir nd ns' ts' lf' lt t w msgs))
      | e # rest \<Rightarrow>
          if xmlName e = ''children''
          then (if roots t = [] \<or> xmlChildren e = []
                then (t, w, msgs @ [''Error processing node: '' @ xmlName e], 1)
                else xml_loop M dir (xmlChildren e) ((e # rest) # ns) (lf # ts) lf lt t w msgs)
          else (case (if isValidFilterName (xmlName e) then makeFilterType (xmlName e) else None) of
                  None \<Rightarrow> xml_loop M dir (e # rest) ns ts lf lt t w
                            (msgs @ [''WARNING: Skipping node '' @ xmlName e @ '' as it was not recognised''])
                | Some ty \<Rightarrow>
                    (case fx_readState M ty dir (xmlChildren e) of
                       None \<Rightarrow> (t, new_filter (fx_make M ty) w, msgs @ [''Error processing node: '' @ xmlName e], 1)
                     | Some f \<Rightarrow>
                         (case place_filter t ts lt (next_f w) of (t1, lf1, lt1) \<Rightarrow>
                            xml_loop M dir (e # rest) ns ts lf1 lt1 t1 (new_filter f w) msgs))))"
  by pat_completeness auto
termination
by (relation "measures [\<lambda>(M, dir, node, ns, ts, lf, lt, t, w, msgs). cost node + sum_list (map cost ns),
      \<lambda>(M, dir, node, ns, ts, lf, lt, t, w, msgs). length ts]")
    (auto dest!: next_elem_kids)

declare xml_loop.simps [simp del]

text \<open>None: the element has no children at all, and a null pointer is followed.\<close>

definition loadXML :: "'p xmlMethods \<Rightarrow> xmlNode \<Rightarrow> string \<Rightarrow> filterTree \<Rightarrow> 'p world \<Rightarrow>
    (filterTree \<times> 'p world \<times> string list \<times> nat) option" where
  "loadXML M treeParent stateFileDir F w =
     (let (F1, w1) = ft_clear F w; nodePtr = xmlChildren treeParent in
      if nodePtr = [] then None
      else let (t, w2, msgs, code) = xml_loop M stateFileDir nodePtr [nodePtr] [] 0 None (ft F1) w1 [] in
        if code = 0 then Some (F1\<lparr>ft := t\<rparr>, w2, msgs, 0)
        else let (F3, w3) = ft_clear (F1\<lparr>ft := t\<rparr>) w2 in Some (F3, w3, msgs, 1))"

section \<open>The document of a tree\<close>

text \<open>
  \<open>D p d\<close> is the element of filter \<open>p\<close> written at depth \<open>d\<close>. The lines of a node are its own element and,
  when it has children, one element that holds theirs.
\<close>

fun node_lines :: "nat \<Rightarrow> (fptr \<Rightarrow> nat \<Rightarrow> xmlNode) \<Rightarrow> nat \<Rightarrow> fptr tnode \<Rightarrow> (nat \<times> xmlNode) list"
  and forest_lines :: "nat \<Rightarrow> (fptr \<Rightarrow> nat \<Rightarrow> xmlNode) \<Rightarrow> nat \<Rightarrow> fptr tnode list \<Rightarrow> (nat \<times> xmlNode) list" where
  "node_lines m D d (TNode a p ks) = (d + 2, D p (d + 2)) #
     (if ks = [] then []
      else [(m + d + 2, Elem ''children'' [] (lay (forest_lines m D (Suc d) ks) (m + d + 2)))])"
| "forest_lines m D d [] = []"
| "forest_lines m D d (n # ns) = node_lines m D d n @ forest_lines m D d ns"

definition treeDoc :: "nat \<Rightarrow> (fptr \<Rightarrow> nat \<Rightarrow> xmlNode) \<Rightarrow> fptr ptree \<Rightarrow> xmlNode" where
  "treeDoc m D t = Elem ''filtertree'' [] (lay (forest_lines m D 0 (roots t)) (m + 1))"

definition lines_text :: "(nat \<times> xmlNode) list \<Rightarrow> string" where
  "lines_text es = concat (map (\<lambda>(i, e). tabs i @ xml_text (escape_doc e) @ nl) es)"

lemma lines_text_simps [simp]:
  "lines_text [] = []" "lines_text ((i, e) # es) = tabs i @ xml_text (escape_doc e) @ nl @ lines_text es"
  "lines_text (xs @ ys) = lines_text xs @ lines_text ys"
  by (simp_all add: lines_text_def)

lemma lay_element:
  "xml_text (escape_doc (Elem n [] (lay es k))) = ''<'' @ n @ ''>'' @ nl @ lines_text es @ tabs k @ ''</'' @ n @ ''>''"
  by (simp add: lay_text lines_text_def)

lemma close_tags_add: "close_tags m (j + k) L = close_tags m j L @ close_tags m k (L - j)"
  by (induction j arbitrary: L) simp_all

lemma depth_tags_simps [simp]:
  "depth_tags m L L = []" "depth_tags m L (Suc L) = tabs (m + L + 2) @ ''<children>'' @ nl"
  by (simp_all add: depth_tags_def)

lemma depth_tags_close: "d \<le> L \<Longrightarrow> depth_tags m L d = close_tags m (L - d) L"
  by (cases "d = L") (simp_all add: depth_tags_def)

lemma close_one: "d < L \<Longrightarrow> close_tags m (L - d) L = close_tags m (L - Suc d) L @ tabs (m + d + 2) @ ''</children>'' @ nl"
  using close_tags_add[of m "L - Suc d" 1 L] by (simp add: Suc_diff_Suc)

lemma final_close: "final_tags m L = close_tags m L L"
proof (induction L)
  case (Suc L)
  then show ?case using close_one[of 0 "Suc L" m] by (simp add: final_tags_def)
qed (simp add: final_tags_def)

text \<open>
  The closing tags of a node are written when the next node is reached: with the tags that are still
  open, the text of a forest is its lines.
\<close>

lemma save_loop_append:
  "save_loop M pkg m w (xs @ ys) st = Option.bind (save_loop M pkg m w xs st) (save_loop M pkg m w ys)"
proof (induction xs arbitrary: st)
  case (Cons e xs)
  obtain anc n where e: "e = (anc, n)" by (cases e)
  obtain dl child out names where st: "st = (dl, child, out, names)" by (metis prod_cases4)
  show ?case unfolding e st using Cons.IH by (cases pkg) (auto simp: Let_def split: option.split prod.split)
qed simp

definition written :: "'p xmlMethods \<Rightarrow> 'p world \<Rightarrow> (fptr \<Rightarrow> nat \<Rightarrow> xmlNode) \<Rightarrow> fptr \<Rightarrow> bool" where
  "written M w D p \<longleftrightarrow> (\<exists>f. filts w p = Some f \<and>
     (\<forall>d. fx_writeState M f d = Some (tabs d @ xml_text (escape_doc (D p d)) @ nl)))"

lemma save_lines:
  fixes n :: "fptr tnode" and ns :: "fptr tnode list"
  shows "\<forall>p \<in> snd ` set (flat n). written M w D p \<Longrightarrow> d = length anc \<Longrightarrow> d \<le> Suc L \<Longrightarrow>
      \<exists>L' T. save_loop M False m w (walk anc n) (L, L, out, nm) = Some (L', L', out @ T, nm) \<and> d \<le> L' \<and>
        T @ close_tags m (L' - d) L' = depth_tags m L d @ lines_text (node_lines m D d n)"
    and "\<forall>p \<in> snd ` set (items ns). written M w D p \<Longrightarrow> d = length anc \<Longrightarrow> d \<le> Suc L \<Longrightarrow> ns \<noteq> [] \<Longrightarrow>
      \<exists>L' T. save_loop M False m w (walks anc ns) (L, L, out, nm) = Some (L', L', out @ T, nm) \<and> d \<le> L' \<and>
        T @ close_tags m (L' - d) L' = depth_tags m L d @ lines_text (forest_lines m D d ns)"
proof (induction anc n and anc ns arbitrary: d L out and d L out rule: walk_walks.induct)
  case (1 anc a p ks)
  obtain f where f: "filts w p = Some f" "fx_writeState M f (d + 2) = Some (tabs (d + 2) @ xml_text (escape_doc (D p (d + 2))) @ nl)"
    using 1(2) by (auto simp: written_def)
  let ?T = "depth_tags m L d @ tabs (d + 2) @ xml_text (escape_doc (D p (d + 2))) @ nl"
  have L: "L + (d - L) - (L - d) = d" using 1(4) by simp
  have step: "save_loop M False m w (walk anc (TNode a p ks)) (L, L, out, nm) =
      save_loop M False m w (walks (a # anc) ks) (d, d, out @ ?T, nm)"
    using f 1(3) L by (simp add: Let_def)
  show ?case
  proof (cases "ks = []")
    case True
    then show ?thesis using step by auto
  next
    case False
    obtain L' T where r: "save_loop M False m w (walks (a # anc) ks) (d, d, out @ ?T, nm) = Some (L', L', (out @ ?T) @ T, nm)"
        "Suc d \<le> L'" "T @ close_tags m (L' - Suc d) L' = depth_tags m d (Suc d) @ lines_text (forest_lines m D (Suc d) ks)"
      using 1(1)[of "Suc d" d "out @ ?T"] 1(2,3) False by auto
    have "(?T @ T) @ close_tags m (L' - d) L' =
        ?T @ (T @ close_tags m (L' - Suc d) L') @ tabs (m + d + 2) @ ''</children>'' @ nl"
      using close_one[of d L' m] r(2) by simp
    also have "\<dots> = depth_tags m L d @ lines_text (node_lines m D d (TNode a p ks))"
      unfolding r(3) using False by (simp add: lay_element del: escape_doc.simps xml_text.simps)
    finally show ?thesis using r(1,2) step by (intro exI[of _ L'] exI[of _ "?T @ T"]) simp
  qed
next
  case (3 anc n ns)
  obtain L1 T1 where r1: "save_loop M False m w (walk anc n) (L, L, out, nm) = Some (L1, L1, out @ T1, nm)" "d \<le> L1"
      "T1 @ close_tags m (L1 - d) L1 = depth_tags m L d @ lines_text (node_lines m D d n)"
    using 3(1)[of d L out] 3(3-5) by auto
  show ?case
  proof (cases "ns = []")
    case True
    then show ?thesis using r1 by (intro exI[of _ L1] exI[of _ T1]) simp
  next
    case False
    obtain L2 T2 where r2: "save_loop M False m w (walks anc ns) (L1, L1, out @ T1, nm) = Some (L2, L2, (out @ T1) @ T2, nm)"
        "d \<le> L2" "T2 @ close_tags m (L2 - d) L2 = depth_tags m L1 d @ lines_text (forest_lines m D d ns)"
      using 3(2)[of d L1 "out @ T1"] 3(3,4) r1(2) False by auto
    have "(T1 @ T2) @ close_tags m (L2 - d) L2 = depth_tags m L d @ lines_text (forest_lines m D d (n # ns))"
      using r1(3) r2(3) depth_tags_close[OF r1(2), of m] by simp
    then show ?thesis using r1(1) r2(1,2) by (intro exI[of _ L2] exI[of _ "T1 @ T2"]) (simp add: save_loop_append)
  qed
qed simp

lemma saveXML_text:
  assumes "\<forall>p \<in> set (datas (ft F)). written M w D p"
  shows "saveXML M False False m w F fm = Some (tabs (m + 1) @ xml_text (escape_doc (treeDoc m D (ft F))) @ nl, fm)"
proof (cases "roots (ft F) = []")
  case True
  then show ?thesis by (simp add: saveXML_def entries_def treeDoc_def final_tags_def)
next
  case False
  have "\<forall>p \<in> snd ` set (items (roots (ft F))). written M w D p" using assms by (simp add: datas_items)
  from save_lines(2)[OF this, of 0 "[]" 0 m "[]" "({}, fm)"] False
  obtain L T where "save_loop M False m w (walks [] (roots (ft F))) (0, 0, [], {}, fm) = Some (L, L, T, {}, fm)"
      "T @ close_tags m L L = lines_text (forest_lines m D 0 (roots (ft F)))"
    by auto
  then show ?thesis
    by (simp add: saveXML_def entries_def treeDoc_def final_close lay_element del: escape_doc.simps xml_text.simps)
qed

section \<open>Loading a document\<close>

text \<open>A tree with new addresses and new filters, both numbered in depth-first order.\<close>

fun build :: "nat \<Rightarrow> nat \<Rightarrow> 'a tnode \<Rightarrow> nat tnode" and builds :: "nat \<Rightarrow> nat \<Rightarrow> 'a tnode list \<Rightarrow> nat tnode list" where
  "build a p (TNode b x ks) = TNode a p (builds (Suc a) (Suc p) ks)"
| "builds a p [] = []"
| "builds a p (n # ns) = build a p n # builds (a + length (flat n)) (p + length (flat n)) ns"

lemma build_items:
  fixes n :: "'a tnode" and ns :: "'a tnode list"
  shows "map fst (flat (build a p n)) = [a..<a + length (flat n)] \<and> map snd (flat (build a p n)) = [p..<p + length (flat n)]"
    and "map fst (items (builds a p ns)) = [a..<a + length (items ns)] \<and>
      map snd (items (builds a p ns)) = [p..<p + length (items ns)]"
proof (induction a p n and a p ns rule: build_builds.induct)
  case (3 a p n ns)
  have "[k..<k + length (flat n)] @ [k + length (flat n)..<k + length (flat n) + length (items ns)] =
      [k..<k + (length (flat n) + length (items ns))]" for k
    using upt_add_eq_append[of k "k + length (flat n)" "length (items ns)"] by (simp add: add.assoc)
  then show ?case using 3 by simp
qed (simp_all add: upt_conv_Cons del: upt_Suc)

lemma build_length [simp]:
  "length (flat (build a p n)) = length (flat n)" "length (items (builds a p ns)) = length (items ns)"
  using build_items[of a p] by (metis add_diff_cancel_left' length_map length_upt)+

lemma builds_append: "builds a p (xs @ ys) = builds a p xs @ builds (a + length (items xs)) (p + length (items xs)) ys"
  by (induction xs arbitrary: a p) (simp_all add: add.assoc)

lemma build_depths:
  fixes n :: "'a tnode" and ns :: "'a tnode list"
  shows "length anc = length anc' \<Longrightarrow> map (length \<circ> fst) (walk anc (build a p n)) = map (length \<circ> fst) (walk anc' n)"
    and "length anc = length anc' \<Longrightarrow> map (length \<circ> fst) (walks anc (builds a p ns)) = map (length \<circ> fst) (walks anc' ns)"
proof (induction a p n and a p ns arbitrary: anc anc' and anc anc' rule: build_builds.induct)
  case (1 a p b x ks)
  show ?case using 1(1)[of "a # anc" "b # anc'"] 1(2) by (simp add: comp_def)
qed auto

text \<open>New children of a node.\<close>

definition grow :: "'a ptree \<Rightarrow> nat \<Rightarrow> 'a tnode list \<Rightarrow> 'a ptree" where
  "grow t s cs = t\<lparr>roots := splice_at s (\<lambda>n. [TNode (addr n) (tdata n) (kids n @ cs)]) (roots t),
     next_addr := next_addr t + length (items cs)\<rparr>"

lemma grow_twice: "grow (grow t s xs) s ys = grow t s (xs @ ys)"
proof -
  have "splice_at s (\<lambda>n. [TNode (addr n) (tdata n) (kids n @ ys)]) (splice_node s (\<lambda>n. [TNode (addr n) (tdata n) (kids n @ xs)]) n) =
        splice_node s (\<lambda>n. [TNode (addr n) (tdata n) (kids n @ xs @ ys)]) n"
    and "splice_at s (\<lambda>n. [TNode (addr n) (tdata n) (kids n @ ys)]) (splice_at s (\<lambda>n. [TNode (addr n) (tdata n) (kids n @ xs)]) ns) =
        splice_at s (\<lambda>n. [TNode (addr n) (tdata n) (kids n @ xs @ ys)]) ns" for n :: "'a tnode" and ns :: "'a tnode list"
    by (induction n and ns rule: flat_items.induct) auto
  then show ?thesis by (simp add: grow_def)
qed

lemma grow_inside:
  assumes "a \<notin> set (addrs t)" "a \<noteq> s"
  shows "grow (grow t s [TNode a p []]) a ks = grow t s [TNode a p ks]"
proof -
  let ?g = "\<lambda>n. [TNode (addr n) (tdata n) (kids n @ [TNode a p []])]"
  have "a \<notin> fst ` set (flat n) \<Longrightarrow> splice_at a (\<lambda>n. [TNode (addr n) (tdata n) (kids n @ ks)]) (splice_node s ?g n) =
        splice_node s (\<lambda>n. [TNode (addr n) (tdata n) (kids n @ [TNode a p ks])]) n"
    and "a \<notin> fst ` set (items ns) \<Longrightarrow> splice_at a (\<lambda>n. [TNode (addr n) (tdata n) (kids n @ ks)]) (splice_at s ?g ns) =
        splice_at s (\<lambda>n. [TNode (addr n) (tdata n) (kids n @ [TNode a p ks])]) ns" for n :: "'a tnode" and ns :: "'a tnode list"
    by (induction n and ns rule: flat_items.induct) (use assms(2) in \<open>auto simp: splice_notin image_Un\<close>)
  then show ?thesis using assms(1) by (simp add: grow_def addrs_items)
qed

lemma grow_roots: "roots (grow t s cs) = [] \<longleftrightarrow> roots t = []"
proof -
  have "splice_node s g n \<noteq> []" if "\<And>m. g m \<noteq> []" for g and n :: "'a tnode" using that by (cases n) simp
  then show ?thesis by (cases "roots t") (auto simp: grow_def)
qed

definition below_next :: "'a ptree \<Rightarrow> bool" where
  "below_next t \<longleftrightarrow> (\<forall>a \<in> set (addrs t). a < next_addr t)"

lemma grow_below:
  assumes "below_next t" "\<forall>a \<in> fst ` set (items cs). a < next_addr t + length (items cs)"
  shows "below_next (grow t s cs)"
proof -
  have "fst ` set (items (splice_node s (\<lambda>n. [TNode (addr n) (tdata n) (kids n @ cs)]) n)) \<subseteq> fst ` set (flat n) \<union> fst ` set (items cs)"
    and "fst ` set (items (splice_at s (\<lambda>n. [TNode (addr n) (tdata n) (kids n @ cs)]) ns)) \<subseteq> fst ` set (items ns) \<union> fst ` set (items cs)"
    for n :: "'a tnode" and ns :: "'a tnode list"
    by (induction n and ns rule: flat_items.induct) (auto simp: image_Un)
  note sub = this(2)[of "roots t"]
  show ?thesis unfolding below_next_def
  proof
    fix a assume "a \<in> set (addrs (grow t s cs))"
    then have "a \<in> fst ` set (items (roots t)) \<union> fst ` set (items cs)"
      using sub by (auto simp: addrs_items grow_def)
    then show "a < next_addr (grow t s cs)"
      using assms by (auto simp: below_next_def addrs_items grow_def)
  qed
qed

lemma grow_nil [simp]: "grow t s [] = t"
proof -
  have "splice_node s (\<lambda>n. [TNode (addr n) (tdata n) (kids n)]) n = [n]"
    and "splice_at s (\<lambda>n. [TNode (addr n) (tdata n) (kids n)]) ns = ns" for n :: "'a tnode" and ns :: "'a tnode list"
    by (induction n and ns rule: flat_items.induct) auto
  then show ?thesis by (simp add: grow_def)
qed

lemma append_child_grow: "append_child t s p = (grow t s [TNode (next_addr t) p []], next_addr t)"
  by (simp add: append_child_def grow_def)

text \<open>The filters that are read, in order.\<close>

definition load_all :: "(fptr \<Rightarrow> 'p filt) \<Rightarrow> fptr list \<Rightarrow> 'p world \<Rightarrow> 'p world" where
  "load_all L ps w = fold (\<lambda>p. new_filter (L p)) ps w"

lemma load_all_simps [simp]:
  "load_all L [] w = w" "load_all L (p # ps) w = load_all L ps (new_filter (L p) w)"
  "load_all L (ps @ qs) w = load_all L qs (load_all L ps w)"
  by (simp_all add: load_all_def)

lemma load_all_next [simp]: "next_f (load_all L ps w) = next_f w + length ps"
  by (induction ps arbitrary: w) (simp_all add: new_filter_def)

lemma load_all_old: "q < next_f w \<Longrightarrow> filts (load_all L ps w) q = filts w q"
  by (induction ps arbitrary: w) (simp_all add: new_filter_def)

lemma load_all_filts: "map (filts (load_all L ps w)) [next_f w..<next_f w + length ps] = map (Some \<circ> L) ps"
proof (induction ps arbitrary: w)
  case (Cons p ps)
  then show ?case
    using load_all_old[of "next_f w" "new_filter (L p) w" L ps] Cons[of "new_filter (L p) w"]
    by (simp add: upt_conv_Cons new_filter_def del: upt_Suc)
qed simp

definition readable :: "'p xmlMethods \<Rightarrow> string \<Rightarrow> (fptr \<Rightarrow> nat \<Rightarrow> xmlNode) \<Rightarrow> (fptr \<Rightarrow> 'p filt) \<Rightarrow> fptr \<Rightarrow> bool" where
  "readable M dir D L p \<longleftrightarrow> (\<exists>ty. \<forall>d. xmlName (D p d) = trueName ty \<and>
     fx_readState M ty dir (xmlChildren (D p d)) = Some (L p))"

lemma xml_filter:
  assumes "readable M dir D L p" "next_elem node = D p d # rest" "place_filter t ts lt (next_f w) = (t1, a, lt1)"
  shows "xml_loop M dir node ns ts lf lt t w msgs = xml_loop M dir (D p d # rest) ns ts a lt1 t1 (new_filter (L p) w) msgs"
proof -
  obtain ty where "xmlName (D p d) = trueName ty" "fx_readState M ty dir (xmlChildren (D p d)) = Some (L p)"
    using assms(1) by (auto simp: readable_def)
  then show ?thesis using assms(2,3) by (subst xml_loop.simps) (simp add: trueName_type)
qed

lemma xml_loop_next: "next_elem node = next_elem node' \<Longrightarrow>
    xml_loop M dir node ns ts lf lt t w msgs = xml_loop M dir node' ns ts lf lt t w msgs"
  by (subst (1 2) xml_loop.simps) simp

definition spread :: "(nat \<times> xmlNode) list \<Rightarrow> xmlNode list" where
  "spread es = concat (map (\<lambda>(i, e). [Text (nl @ tabs i), e]) es)"

lemma spread_simps [simp]:
  "spread [] = []" "spread ((i, e) # es) = Text (nl @ tabs i) # e # spread es" "spread (xs @ ys) = spread xs @ spread ys"
  by (simp_all add: spread_def)

lemma lay_spread: "lay es k = spread es @ [Text (nl @ tabs k)]"
  by (simp add: lay_def spread_def)

lemma next_elem_simps:
  "xmlName e \<noteq> ''text'' \<Longrightarrow> next_elem (x # Text s # e # r) = e # r"
  "xmlName e \<noteq> ''text'' \<Longrightarrow> next_elem (Text s # e # r) = e # r"
  "next_elem [x] = []" "next_elem (x # [Text s]) = []"
  by (cases e; simp add: next_elem_def)+

lemma readable_name: "readable M dir D L p \<Longrightarrow> xmlName (D p d) \<noteq> ''text''"
  by (auto simp: readable_def)

text \<open>The \<open>children\<close> element: its filters are read with the last filter as their parent.\<close>

lemma xml_children:
  assumes lines: "\<And>x R nst. \<exists>y lf'. xml_loop M dir (x # spread es @ R) nst (a # ts) a lt t w msgs =
      xml_loop M dir (y # R) nst (a # ts) lf' lt t' w' msgs"
    and es: "es \<noteq> []" "\<exists>i p d es'. es = (i, D p d) # es' \<and> readable M dir D L p" and t: "roots t \<noteq> []"
  shows "xml_loop M dir (x # Text s # Elem ''children'' [] (lay es k) # R) nst ts a lt t w msgs =
    xml_loop M dir (Elem ''children'' [] (lay es k) # R) nst ts a lt t' w' msgs"
proof -
  let ?e = "Elem ''children'' [] (lay es k)"
  obtain i p d es' where es': "es = (i, D p d) # es'" "readable M dir D L p" using es(2) by blast
  have "xml_loop M dir (x # Text s # ?e # R) nst ts a lt t w msgs =
      xml_loop M dir (lay es k) ((?e # R) # nst) (a # ts) a lt t w msgs"
    using t by (subst xml_loop.simps) (simp add: next_elem_simps)
  also have "\<dots> = xml_loop M dir (Text [] # spread es @ [Text (nl @ tabs k)]) ((?e # R) # nst) (a # ts) a lt t w msgs"
    by (rule xml_loop_next) (simp add: lay_spread es'(1) next_elem_simps readable_name[OF es'(2)])
  also obtain y lf' where "\<dots> = xml_loop M dir (y # [Text (nl @ tabs k)]) ((?e # R) # nst) (a # ts) lf' lt t' w' msgs"
    using lines by blast
  also have "\<dots> = xml_loop M dir (?e # R) nst ts a lt t' w' msgs"
    by (subst xml_loop.simps) (simp add: next_elem_simps)
  finally show ?thesis .
qed

text \<open>Filters below a node that is on the stack: they become its last children.\<close>

lemma new_leaf_below: "below_next t \<Longrightarrow> below_next (grow t s [TNode (next_addr t) p []])"
  by (rule grow_below) auto

lemma load_lines:
  fixes n :: "fptr tnode" and ns :: "fptr tnode list"
  shows "\<forall>q \<in> snd ` set (flat n). readable M dir D L q \<Longrightarrow> roots t \<noteq> [] \<Longrightarrow> below_next t \<Longrightarrow> s < next_addr t \<Longrightarrow>
      \<exists>y lf'. xml_loop M dir (x # spread (node_lines m D d n) @ R) nst (s # ts) lf lt t w msgs =
        xml_loop M dir (y # R) nst (s # ts) lf' lt (grow t s [build (next_addr t) (next_f w) n])
          (load_all L (map snd (flat n)) w) msgs"
    and "\<forall>q \<in> snd ` set (items ns). readable M dir D L q \<Longrightarrow> roots t \<noteq> [] \<Longrightarrow> below_next t \<Longrightarrow> s < next_addr t \<Longrightarrow>
      \<exists>y lf'. xml_loop M dir (x # spread (forest_lines m D d ns) @ R) nst (s # ts) lf lt t w msgs =
        xml_loop M dir (y # R) nst (s # ts) lf' lt (grow t s (builds (next_addr t) (next_f w) ns))
          (load_all L (map snd (items ns)) w) msgs"
proof (induction m D d n and m D d ns arbitrary: x R nst s ts lf t w and x R nst s ts lf t w
    rule: node_lines_forest_lines.induct)
  case (1 m D d a p ks)
  let ?a = "next_addr t" and ?q = "next_f w"
  let ?t1 = "grow t s [TNode ?a ?q []]" and ?w1 = "new_filter (L p) w"
  have rd: "readable M dir D L p" using 1(2) by simp
  have a: "?a \<notin> set (addrs t)" "?a \<noteq> s" using 1(4,5) by (auto simp: below_next_def)
  have n1: "next_addr ?t1 = Suc ?a" "next_f ?w1 = Suc ?q" by (simp_all add: grow_def new_filter_def)
  have pl: "place_filter t (s # ts) lt ?q = (?t1, ?a, lt)"
    using 1(3) by (simp add: place_filter_def append_child_grow)
  have step: "xml_loop M dir (x # Text (nl @ tabs (d + 2)) # D p (d + 2) # Q) nst (s # ts) lf lt t w msgs =
      xml_loop M dir (D p (d + 2) # Q) nst (s # ts) ?a lt ?t1 ?w1 msgs" for Q
    by (rule xml_filter[OF rd next_elem_simps(1)[OF readable_name[OF rd]] pl])
  show ?case
  proof (cases "ks = []")
    case True
    then show ?thesis using step[of R] by auto
  next
    case False
    let ?es = "forest_lines m D (Suc d) ks"
    obtain b q ks1 ks2 where ks: "ks = TNode b q ks1 # ks2" using False by (metis neq_Nil_conv tnode.exhaust)
    have es: "?es \<noteq> []" "\<exists>i p d es'. ?es = (i, D p d) # es' \<and> readable M dir D L p"
      unfolding ks using 1(2) ks by auto
    have ih: "\<exists>y lf'. xml_loop M dir (x' # spread ?es @ R') nst' (?a # s # ts) ?a lt ?t1 ?w1 msgs =
        xml_loop M dir (y # R') nst' (?a # s # ts) lf' lt (grow ?t1 ?a (builds (Suc ?a) (Suc ?q) ks))
          (load_all L (map snd (items ks)) ?w1) msgs" for x' R' nst'
      using 1(1)[OF False, of ?t1 ?a x' R' nst' "s # ts" ?a ?w1] 1(2,3) new_leaf_below[OF 1(4)] n1 grow_roots[of t s]
      by simp
    have "xml_loop M dir (D p (d + 2) # Text (nl @ tabs (m + d + 2)) # Elem ''children'' [] (lay ?es (m + d + 2)) # R)
          nst (s # ts) ?a lt ?t1 ?w1 msgs =
        xml_loop M dir (Elem ''children'' [] (lay ?es (m + d + 2)) # R) nst (s # ts) ?a lt
          (grow ?t1 ?a (builds (Suc ?a) (Suc ?q) ks)) (load_all L (map snd (items ks)) ?w1) msgs"
      by (rule xml_children[OF ih es]) (use 1(3) grow_roots[of t s] in simp)
    then have "xml_loop M dir (x # spread (node_lines m D d (TNode a p ks)) @ R) nst (s # ts) lf lt t w msgs =
        xml_loop M dir (Elem ''children'' [] (lay ?es (m + d + 2)) # R) nst (s # ts) ?a lt
          (grow t s [build ?a ?q (TNode a p ks)]) (load_all L (map snd (flat (TNode a p ks))) w) msgs"
      using step False grow_inside[OF a] by simp
    then show ?thesis by blast
  qed
next
  case (3 m D d n ns)
  let ?t1 = "grow t s [build (next_addr t) (next_f w) n]" and ?w1 = "load_all L (map snd (flat n)) w"
  obtain y lf1 where r1: "xml_loop M dir (x # spread (node_lines m D d n) @ spread (forest_lines m D d ns) @ R)
        nst (s # ts) lf lt t w msgs = xml_loop M dir (y # spread (forest_lines m D d ns) @ R) nst (s # ts) lf1 lt ?t1 ?w1 msgs"
    using 3(1)[of t s x "spread (forest_lines m D d ns) @ R" nst ts lf w] 3(3-6) by auto
  have "below_next ?t1"
  proof (rule grow_below[OF 3(5)])
    have "set (map fst (flat (build (next_addr t) (next_f w) n))) = {next_addr t..<next_addr t + length (flat n)}"
      using build_items(1)[of "next_addr t" "next_f w" n] by simp
    then show "\<forall>a \<in> fst ` set (items [build (next_addr t) (next_f w) n]).
        a < next_addr t + length (items [build (next_addr t) (next_f w) n])" by auto
  qed
  then obtain y2 lf2 where "xml_loop M dir (y # spread (forest_lines m D d ns) @ R) nst (s # ts) lf1 lt ?t1 ?w1 msgs =
      xml_loop M dir (y2 # R) nst (s # ts) lf2 lt (grow ?t1 s (builds (next_addr ?t1) (next_f ?w1) ns))
        (load_all L (map snd (items ns)) ?w1) msgs"
    using 3(2)[of ?t1 s y R nst ts lf1 ?w1] 3(3,4,6) grow_roots[of t s] by (auto simp: grow_def)
  then show ?case using r1 by (auto simp: grow_twice) (auto simp: grow_def)
qed auto

text \<open>A base filter with its branch, put between the base filters \<open>X\<close> and \<open>Y\<close>.\<close>

lemma load_base:
  assumes rd: "\<forall>q \<in> snd ` set (flat n). readable M dir D L q"
    and pl: "place_filter t [] lt (next_f w) = (t1, next_addr t, lt1)"
    and t1: "t1 = t\<lparr>roots := X @ [TNode (next_addr t) (next_f w) []] @ Y, next_addr := Suc (next_addr t)\<rparr>"
    and below: "\<forall>a \<in> fst ` set (items (X @ Y)). a < next_addr t"
  shows "\<exists>y lf'. xml_loop M dir (x # spread (node_lines m D d n) @ R) nst [] lf lt t w msgs =
    xml_loop M dir (y # R) nst [] lf' lt1 (t\<lparr>roots := X @ [build (next_addr t) (next_f w) n] @ Y,
      next_addr := next_addr t + length (flat n)\<rparr>) (load_all L (map snd (flat n)) w) msgs"
proof -
  let ?a = "next_addr t" and ?q = "next_f w"
  obtain b p ks where n: "n = TNode b p ks" by (cases n)
  have rdp: "readable M dir D L p" using rd n by simp
  have step: "xml_loop M dir (x # Text (nl @ tabs (d + 2)) # D p (d + 2) # Q) nst [] lf lt t w msgs =
      xml_loop M dir (D p (d + 2) # Q) nst [] ?a lt1 t1 (new_filter (L p) w) msgs" for Q
    by (rule xml_filter[OF rdp next_elem_simps(1)[OF readable_name[OF rdp]] pl])
  show ?thesis
  proof (cases "ks = []")
    case True
    then show ?thesis using step[of R] n t1 by auto
  next
    case False
    let ?es = "forest_lines m D (Suc d) ks" and ?w1 = "new_filter (L p) w"
    obtain b' q ks1 ks2 where ks: "ks = TNode b' q ks1 # ks2" using False by (metis neq_Nil_conv tnode.exhaust)
    have es: "?es \<noteq> []" "\<exists>i p d es'. ?es = (i, D p d) # es' \<and> readable M dir D L p"
      unfolding ks using rd ks n by auto
    have n1: "next_addr t1 = Suc ?a" "next_f ?w1 = Suc ?q" "roots t1 \<noteq> []" by (simp_all add: t1 new_filter_def)
    have bl: "below_next t1" using below by (auto simp: below_next_def addrs_items t1 less_Suc_eq)
    have "xml_loop M dir (D p (d + 2) # Text (nl @ tabs (m + d + 2)) # Elem ''children'' [] (lay ?es (m + d + 2)) # R)
          nst [] ?a lt1 t1 ?w1 msgs =
        xml_loop M dir (Elem ''children'' [] (lay ?es (m + d + 2)) # R) nst [] ?a lt1
          (grow t1 ?a (builds (Suc ?a) (Suc ?q) ks)) (load_all L (map snd (items ks)) ?w1) msgs"
      using load_lines(2)[of ks M dir D L t1 ?a _ m "Suc d" _ _ "[]" ?a lt1 ?w1 msgs] rd n bl n1
      by (intro xml_children[OF _ es]) simp_all
    moreover have "?a \<notin> fst ` set (items X)" "?a \<notin> fst ` set (items Y)"
      using below by (simp_all only: items_append set_append image_Un) (blast dest: less_irrefl_nat)+
    then have "grow t1 ?a (builds (Suc ?a) (Suc ?q) ks) =
        t\<lparr>roots := X @ [build ?a ?q n] @ Y, next_addr := ?a + length (flat n)\<rparr>"
      by (simp add: grow_def t1 n splice_notin)
    ultimately have "xml_loop M dir (x # spread (node_lines m D d n) @ R) nst [] lf lt t w msgs =
        xml_loop M dir (Elem ''children'' [] (lay ?es (m + d + 2)) # R) nst [] ?a lt1
          (t\<lparr>roots := X @ [build ?a ?q n] @ Y, next_addr := ?a + length (flat n)\<rparr>) (load_all L (map snd (flat n)) w) msgs"
      using step False n by simp
    then show ?thesis by blast
  qed
qed

text \<open>The base filters after the first: each is put before the one read last.\<close>

lemma place_base:
  assumes "roots t = c # rev cs" "lt = (if cs = [] then None else Some (addr (last cs)))" "wf_ptree t"
  shows "place_filter t [] lt p = (t\<lparr>roots := [c] @ [TNode (next_addr t) p []] @ rev cs, next_addr := Suc (next_addr t)\<rparr>,
    next_addr t, Some (next_addr t))"
proof (cases cs rule: rev_cases)
  case Nil
  then show ?thesis using assms by (simp add: place_filter_def tree_insert_def)
next
  case (snoc ds e)
  let ?g = "\<lambda>n. [TNode (next_addr t) p [], n]"
  have d: "distinct (map fst (items (c # e # rev ds)))" using wf_ptree_distinct[OF assms(3)] assms(1) snoc by simp
  have e: "addr e \<in> fst ` set (flat e)" using flat_addr[of e] by force
  have "splice_node (addr e) ?g c = [c]" "splice_at (addr e) ?g (rev ds) = rev ds"
    using d e by (auto intro!: splice_notin)
  moreover have "splice_node (addr e) ?g e = ?g e" by (cases e) simp
  ultimately show ?thesis using assms snoc by (simp add: place_filter_def tree_insert_def)
qed

lemma wf_base:
  assumes "wf_ptree t" "roots t = X @ Y"
  shows "wf_ptree (t\<lparr>roots := X @ [build (next_addr t) q n] @ Y, next_addr := next_addr t + length (flat n)\<rparr>)"
proof -
  let ?b = "build (next_addr t) q n"
  have b: "map fst (flat ?b) = [next_addr t..<next_addr t + length (flat n)]" using build_items(1) by blast
  have old: "\<forall>a \<in> set (map fst (items (X @ Y))). a < next_addr t" and d: "distinct (map fst (items (X @ Y)))"
    using assms by (auto simp: wf_ptree_def addrs_items)
  have sb: "set (map fst (flat ?b)) = {next_addr t..<next_addr t + length (flat n)}" unfolding b by simp
  have dis: "set (map fst (flat ?b)) \<inter> set (map fst (items (X @ Y))) = {}"
    unfolding sb disjoint_iff using old by (meson atLeastLessThan_iff leD)
  have "distinct (map fst (flat ?b))" unfolding b by simp
  then have "distinct (map fst (items (X @ [?b] @ Y)))"
    using d dis by (simp only: items_append map_append distinct_append items.simps append_Nil2 set_append) blast
  moreover have "\<forall>a \<in> set (map fst (items (X @ [?b] @ Y))). a < next_addr t + length (flat n)"
  proof -
    have "set (map fst (items (X @ [?b] @ Y))) = set (map fst (items (X @ Y))) \<union> {next_addr t..<next_addr t + length (flat n)}"
      using sb by (simp only: items_append map_append items.simps append_Nil2 set_append) blast
    then show ?thesis using old by (metis Un_iff atLeastLessThan_iff trans_less_add1)
  qed
  ultimately show ?thesis by (simp add: wf_ptree_def addrs_items)
qed

lemma load_bases:
  assumes "\<forall>q \<in> snd ` set (items rs). readable M dir D L q" "wf_ptree t" "roots t = c # rev cs"
    "lt = (if cs = [] then None else Some (addr (last cs)))"
  shows "\<exists>y lf' lt'. xml_loop M dir (x # spread (forest_lines m D d rs) @ R) nst [] lf lt t w msgs =
    xml_loop M dir (y # R) nst [] lf' lt' (t\<lparr>roots := c # rev (cs @ builds (next_addr t) (next_f w) rs),
      next_addr := next_addr t + length (items rs)\<rparr>) (load_all L (map snd (items rs)) w) msgs"
  using assms
proof (induction rs arbitrary: x t cs lt lf w)
  case Nil
  then have "t\<lparr>roots := c # rev cs, next_addr := next_addr t\<rparr> = t" by simp
  then show ?case by auto
next
  case (Cons n rs)
  let ?b = "build (next_addr t) (next_f w) n" and ?w1 = "load_all L (map snd (flat n)) w"
  let ?t1 = "t\<lparr>roots := [c] @ [?b] @ rev cs, next_addr := next_addr t + length (flat n)\<rparr>"
  have below: "\<forall>a \<in> fst ` set (items ([c] @ rev cs)). a < next_addr t"
    using Cons.prems(2,3) by (auto simp: wf_ptree_def addrs_items)
  obtain y lf1 where r1: "xml_loop M dir (x # spread (node_lines m D d n) @ spread (forest_lines m D d rs) @ R) nst [] lf lt t w msgs =
      xml_loop M dir (y # spread (forest_lines m D d rs) @ R) nst [] lf1 (Some (next_addr t)) ?t1 ?w1 msgs"
    using load_base[OF _ place_base[OF Cons.prems(3,4,2)] refl below] Cons.prems(1) by auto blast
  have ab: "addr ?b = next_addr t" by (cases n) simp
  have "wf_ptree ?t1" by (rule wf_base[OF Cons.prems(2)]) (simp add: Cons.prems(3))
  from Cons.IH[OF _ this, of "cs @ [?b]" "Some (next_addr t)" y lf1 ?w1] Cons.prems(1) ab
  obtain y2 lf2 lt2 where "xml_loop M dir (y # spread (forest_lines m D d rs) @ R) nst [] lf1 (Some (next_addr t)) ?t1 ?w1 msgs =
      xml_loop M dir (y2 # R) nst [] lf2 lt2 (?t1\<lparr>roots := c # rev ((cs @ [?b]) @ builds (next_addr ?t1) (next_f ?w1) rs),
        next_addr := next_addr ?t1 + length (items rs)\<rparr>) (load_all L (map snd (items rs)) ?w1) msgs"
    by auto
  then show ?case using r1 by (auto simp: add.assoc)
qed

section \<open>Saving and loading\<close>

text \<open>The base filters come back in another order: the first stays, the others are reversed.\<close>

definition reorder :: "'a list \<Rightarrow> 'a list" where
  "reorder rs = (case rs of [] \<Rightarrow> [] | r # q \<Rightarrow> r # rev q)"

lemma reorder_simps [simp]:
  "reorder [] = []" "reorder (r # q) = r # rev q" "map f (reorder rs) = reorder (map f rs)"
  by (simp_all add: reorder_def rev_map split: list.split)

definition reordered :: "'a ptree \<Rightarrow> 'a ptree" where
  "reordered t = t\<lparr>roots := reorder (roots t)\<rparr>"

lemma load_roots:
  assumes rd: "\<forall>q \<in> snd ` set (items rs). readable M dir D L q" and wf: "wf_ptree t" "roots t = []"
  shows "\<exists>y lf' lt'. xml_loop M dir (x # spread (forest_lines m D d rs) @ R) nst [] lf None t w msgs =
    xml_loop M dir (y # R) nst [] lf' lt' (t\<lparr>roots := reorder (builds (next_addr t) (next_f w) rs),
      next_addr := next_addr t + length (items rs)\<rparr>) (load_all L (map snd (items rs)) w) msgs"
proof (cases rs)
  case Nil
  have "t\<lparr>roots := [], next_addr := next_addr t\<rparr> = t" using wf(2) by simp
  then show ?thesis using Nil by auto
next
  case (Cons n ns)
  let ?b = "build (next_addr t) (next_f w) n" and ?w1 = "load_all L (map snd (flat n)) w"
  let ?t1 = "t\<lparr>roots := [] @ [?b] @ [], next_addr := next_addr t + length (flat n)\<rparr>"
  have pl: "place_filter t [] None (next_f w) =
      (t\<lparr>roots := [] @ [TNode (next_addr t) (next_f w) []] @ [], next_addr := Suc (next_addr t)\<rparr>, next_addr t, None)"
    using wf(2) by (simp add: place_filter_def tree_insert_def tree_begin_def)
  obtain y lf1 where r1: "xml_loop M dir (x # spread (node_lines m D d n) @ spread (forest_lines m D d ns) @ R) nst [] lf None t w msgs =
      xml_loop M dir (y # spread (forest_lines m D d ns) @ R) nst [] lf1 None ?t1 ?w1 msgs"
    using load_base[OF _ pl refl, of n M dir D L x m d "spread (forest_lines m D d ns) @ R" nst lf msgs] rd Cons by auto
  have "wf_ptree ?t1" by (rule wf_base[OF wf(1)]) (simp add: wf(2))
  from load_bases[OF _ this, of ns M dir D L ?b "[]" None y m d R nst lf1 ?w1 msgs] rd Cons
  obtain y2 lf2 lt2 where "xml_loop M dir (y # spread (forest_lines m D d ns) @ R) nst [] lf1 None ?t1 ?w1 msgs =
      xml_loop M dir (y2 # R) nst [] lf2 lt2 (?t1\<lparr>roots := ?b # rev (builds (next_addr ?t1) (next_f ?w1) ns),
        next_addr := next_addr ?t1 + length (items ns)\<rparr>) (load_all L (map snd (items ns)) ?w1) msgs"
    by auto
  then show ?thesis using r1 Cons by (auto simp: add.assoc)
qed

lemma loadXML_doc:
  assumes "\<forall>p \<in> set (datas t0). readable M dir D L p" "wf_ptree (ft F)"
  shows "loadXML M (treeDoc m D t0) dir F w = Some (F\<lparr>ft := (ft F)\<lparr>
      roots := reorder (builds (next_addr (ft F)) (next_f w) (roots t0)), next_addr := next_addr (ft F) + tree_size t0\<rparr>\<rparr>,
    load_all L (datas t0) (deleteFilters (datas (ft F)) w), [], 0)"
proof -
  let ?t = "clear_tree (ft F)" and ?w1 = "deleteFilters (datas (ft F)) w" and ?rs = "roots t0"
  let ?ks = "lay (forest_lines m D 0 ?rs) (m + 1)"
  have rd: "\<forall>q \<in> snd ` set (items ?rs). readable M dir D L q" using assms(1) by (simp add: datas_items)
  have wf: "wf_ptree ?t" "roots ?t = []" by (simp_all add: wf_ptree_def clear_tree_def addrs_items)
  have sz: "tree_size t0 = length (items ?rs)" by (metis addrs_items length_addrs length_map)
  have "next_elem (Text [] # ?ks) = next_elem ?ks"
  proof (cases ?rs)
    case Nil
    then show ?thesis by (simp add: next_elem_def)
  next
    case (Cons n ns)
    obtain b p ks where n: "n = TNode b p ks" by (cases n)
    then have "readable M dir D L p" using rd Cons by simp
    then show ?thesis using Cons n by (simp add: next_elem_simps readable_name)
  qed
  then have "xml_loop M dir ?ks [?ks] [] 0 None ?t ?w1 [] = xml_loop M dir (Text [] # ?ks) [?ks] [] 0 None ?t ?w1 []"
    by (intro xml_loop_next) simp
  also obtain y lf' lt' where "\<dots> = xml_loop M dir (y # [Text (nl @ tabs (m + 1))]) [?ks] [] lf' lt'
      (?t\<lparr>roots := reorder (builds (next_addr ?t) (next_f ?w1) ?rs), next_addr := next_addr ?t + length (items ?rs)\<rparr>)
      (load_all L (map snd (items ?rs)) ?w1) []"
    using load_roots[OF rd wf, of "Text []" m 0 "[Text (nl @ tabs (m + 1))]" "[?ks]" 0 ?w1 "[]"] by (auto simp: lay_spread)
  also have "\<dots> = (?t\<lparr>roots := reorder (builds (next_addr ?t) (next_f ?w1) ?rs), next_addr := next_addr ?t + length (items ?rs)\<rparr>,
      load_all L (map snd (items ?rs)) ?w1, [], 0)"
    by (subst xml_loop.simps) (simp add: next_elem_simps)
  finally show ?thesis
    by (simp add: loadXML_def ft_clear_def treeDoc_def datas_items sz clear_tree_def deleteFilters_next_f del: One_nat_def)
qed

lemma builds_map:
  assumes "map g [q..<q + length (items rs)] = map h (map snd (items rs))"
  shows "map (\<lambda>n. map (g \<circ> snd) (flat n)) (builds a q rs) = map (\<lambda>n. map (h \<circ> snd) (flat n)) rs"
  using assms
proof (induction rs arbitrary: a q)
  case (Cons n rs)
  let ?l = "length (flat n)"
  have up: "[q..<q + length (items (n # rs))] = [q..<q + ?l] @ [q + ?l..<q + ?l + length (items rs)]"
    using upt_add_eq_append[of q "q + ?l" "length (items rs)"] by (simp add: add.assoc)
  have "map g [q..<q + ?l] @ map g [q + ?l..<q + ?l + length (items rs)] =
      map h (map snd (flat n)) @ map h (map snd (items rs))"
    using Cons.prems unfolding up by simp
  then have "map g [q..<q + ?l] = map h (map snd (flat n))"
    "map g [q + ?l..<q + ?l + length (items rs)] = map h (map snd (items rs))"
    by (simp_all add: append_eq_append_conv)
  moreover have "map (g \<circ> snd) (flat (build a q n)) = map g [q..<q + ?l]"
    using build_items(1)[of a q n] by (metis map_map)
  ultimately show ?case using Cons.IH[of "q + ?l" "a + ?l"] by (simp add: comp_def)
qed simp

lemma items_flat: "items ns = concat (map flat ns)"
  by (induction ns) simp_all

lemma picture_loaded:
  "picture (load_all L (map snd (items rs)) w) (t\<lparr>roots := reorder (builds a (next_f w) rs), next_addr := k\<rparr>) =
   zip (depths (t0\<lparr>roots := reorder rs\<rparr>)) (map (Some \<circ> L) (datas (t0\<lparr>roots := reorder rs\<rparr>)))"
proof -
  let ?w = "load_all L (map snd (items rs)) w" and ?bs = "builds a (next_f w) rs"
  have wk: "walks [] ns = concat (map (walk []) ns)" for ns :: "fptr tnode list" by (induction ns) simp_all
  have dp: "map (\<lambda>n. map (length \<circ> fst) (walk [] n)) (builds b q rs) = map (\<lambda>n. map (length \<circ> fst) (walk [] n)) rs" for b q
    by (induction rs arbitrary: b q) (simp_all add: build_depths(1))
  have "map (length \<circ> fst) (walks [] (reorder ?bs)) = concat (reorder (map (\<lambda>n. map (length \<circ> fst) (walk [] n)) ?bs))"
    by (simp add: wk map_concat comp_def)
  also have "\<dots> = map (length \<circ> fst) (walks [] (reorder rs))" unfolding dp by (simp add: wk map_concat comp_def)
  finally have d: "depths (t\<lparr>roots := reorder ?bs, next_addr := k\<rparr>) = depths (t0\<lparr>roots := reorder rs\<rparr>)"
    by (simp add: depths_def entries_def)
  have "map (filts ?w) [next_f w..<next_f w + length (items rs)] = map (Some \<circ> L) (map snd (items rs))"
    using load_all_filts[of L "map snd (items rs)" w] by simp
  note bm = builds_map[OF this, of a]
  have "map (filts ?w) (map snd (items (reorder ?bs))) = concat (reorder (map (\<lambda>n. map (filts ?w \<circ> snd) (flat n)) ?bs))"
    by (simp add: items_flat map_concat comp_def)
  also have "\<dots> = map (Some \<circ> L) (map snd (items (reorder rs)))" unfolding bm by (simp add: items_flat map_concat comp_def)
  finally show ?thesis by (simp add: picture_def d datas_items)
qed

section \<open>The contract of a filter's state\<close>

text \<open>
  \<open>doc f d\<close> is the element a filter writes at depth \<open>d\<close>, \<open>loaded f\<close> the filter that is read from it. A good
  filter prints its document, with the values escaped, under the name of its type.
\<close>

locale filter_xml =
  fixes M :: "'p xmlMethods" and dir :: string and doc :: "'p filt \<Rightarrow> nat \<Rightarrow> xmlNode"
    and loaded :: "'p filt \<Rightarrow> 'p filt" and good :: "'p filt \<Rightarrow> bool"
  assumes writes: "good f \<Longrightarrow> fx_writeState M f d = Some (tabs d @ xml_text (escape_doc (doc f d)) @ nl)"
    and named: "good f \<Longrightarrow> xmlName (doc f d) = trueName (f_type f)"
    and reads: "good f \<Longrightarrow> fx_readState M (f_type f) dir (xmlChildren (doc f d)) = Some (loaded f)"
begin

lemma good_written: "filts w p = Some f \<Longrightarrow> good f \<Longrightarrow> written M w (\<lambda>p. doc (the (filts w p))) p"
  by (simp add: written_def writes)

lemma good_readable: "filts w p = Some f \<Longrightarrow> good f \<Longrightarrow>
    readable M dir (\<lambda>p. doc (the (filts w p))) (\<lambda>p. loaded (the (filts w p))) p"
  using named reads by (auto simp: readable_def)

lemma saved_and_loaded:
  fixes m :: nat
  assumes good: "\<forall>p \<in> set (datas (ft F)). \<exists>f. filts w p = Some f \<and> good f" and wf: "wf_ptree (ft G)"
  defines "T \<equiv> treeDoc m (\<lambda>p. doc (the (filts w p))) (ft F)"
  shows "saveXML M False False m w F fm = Some (tabs (m + 1) @ xml_text (escape_doc T) @ nl, fm)"
    and "\<exists>G' w2. loadXML M T dir G w1 = Some (G', w2, [], 0) \<and>
      picture w2 (ft G') = map (\<lambda>(d, f). (d, map_option loaded f)) (picture w (reordered (ft F)))"
proof -
  show "saveXML M False False m w F fm = Some (tabs (m + 1) @ xml_text (escape_doc T) @ nl, fm)"
    unfolding T_def by (rule saveXML_text) (use good good_written in blast)
  let ?L = "\<lambda>p. loaded (the (filts w p))" and ?t = "reordered (ft F)" and ?w0 = "deleteFilters (datas (ft G)) w1"
  let ?k = "next_addr (ft G) + tree_size (ft F)"
  have "\<forall>p \<in> set (datas (ft F)). readable M dir (\<lambda>p. doc (the (filts w p))) ?L p" using good good_readable by blast
  note ld = loadXML_doc[OF this wf, of m w1, folded T_def]
  have "set (items (reorder rs)) = set (items rs)" for rs :: "fptr tnode list"
    by (cases rs) (auto simp: items_flat)
  then have same: "set (datas ?t) = set (datas (ft F))" by (simp add: datas_items reordered_def)
  have "picture (load_all ?L (datas (ft F)) ?w0)
      ((ft G)\<lparr>roots := reorder (builds (next_addr (ft G)) (next_f ?w0) (roots (ft F))), next_addr := ?k\<rparr>) =
    zip (depths ?t) (map (Some \<circ> ?L) (datas ?t))"
    using picture_loaded[where L = ?L and rs = "roots (ft F)" and w = ?w0 and t = "ft G" and a = "next_addr (ft G)"
        and k = ?k and ?t0.0 = "ft F"]
    by (simp add: datas_items[of "ft F"] reordered_def)
  also have "map (Some \<circ> ?L) (datas ?t) = map (map_option loaded \<circ> filts w) (datas ?t)"
    by (rule map_cong[OF refl]) (use good same in fastforce)
  also have "zip (depths ?t) (map (map_option loaded \<circ> filts w) (datas ?t)) =
      map (\<lambda>(d, f). (d, map_option loaded f)) (picture w ?t)"
    by (simp add: picture_def zip_map2 comp_def split_def)
  finally show "\<exists>G' w2. loadXML M T dir G w1 = Some (G', w2, [], 0) \<and>
      picture w2 (ft G') = map (\<lambda>(d, f). (d, map_option loaded f)) (picture w ?t)"
    unfolding ld by (simp add: deleteFilters_next_f)
qed

end

text \<open>
  Property C7. A tree whose filters keep the contract is written as the text of one document, and
  loading that document, whatever tree was there before, gives the tree again, each filter as it
  reloads, but with the base filters after the first in reverse order.
\<close>

theorem filterTree_reload:
  assumes "filter_xml M dir doc loaded good" "\<forall>p \<in> set (datas (ft F)). \<exists>f. filts w p = Some f \<and> good f" "wf_ptree (ft G)"
  shows "\<exists>T G' w2. saveXML M False False m w F fm = Some (tabs (m + 1) @ xml_text (escape_doc T) @ nl, fm) \<and>
    loadXML M T dir G w1 = Some (G', w2, [], 0) \<and>
    picture w2 (ft G') = map (\<lambda>(d, f). (d, map_option loaded f)) (picture w (reordered (ft F)))"
  using filter_xml.saved_and_loaded[OF assms] by blast

end
