(* ===== verification/PackageNames.thy ===== *)
theory PackageNames
  imports FilterTreeXML
begin

text \<open>
  The names under which \<^verbatim>\<open>FilterTree::saveXML\<close> (src/src/backend/filtertree.cpp) puts the external files of the
  filters into a package, and the mapping by which the main window then copies the files.
\<close>

section \<open>New names\<close>

lemma numberedName_ends:
  assumes "finite existing"
  shows "\<exists>k. fresh_loop (numberedName nf) existing (Suc (card existing)) 0 = Some k"
proof -
  obtain a b c where sp: "splitFileData nf = (a, b, c)" by (metis prod_cases3)
  have cand: "numberedName nf = (\<lambda>k. (a @ b @ ''-'') @ showNat k @ (''.'' @ c))" by (simp add: fun_eq_iff numberedName_def sp)
  show ?thesis
    using numbered.fresh_total[OF assms, of "Suc (card existing)" "a @ b @ ''-''" "''.'' @ c" 0] unfolding cand by simp
qed

lemma unusedName_new: "finite existing \<Longrightarrow> unusedName existing nf \<notin> existing"
  using numberedName_ends[of existing nf] fresh_loop_Some[of "numberedName nf" existing] by (auto simp: unusedName_def)

interpretation remapped: fresh_names "remapName nf" for nf
proof
  have len: "length (remapName nf k) = 5 * k + length nf" for k by (simp add: remapName_def length_concat sum_list_replicate)
  show "inj (remapName nf)"
  proof (rule injI)
    fix j k assume "remapName nf j = remapName nf k"
    then have "length (remapName nf j) = length (remapName nf k)" by simp
    then show "j = k" by (simp add: len)
  qed
qed

lemma unmappedName_new: "unmappedName fm nf \<notin> fst ` set fm"
proof -
  obtain k where k: "fresh_loop (remapName nf) (fst ` set fm) (Suc (card (fst ` set fm))) 0 = Some k"
    using remapped.fresh_total[of "fst ` set fm" "Suc (card (fst ` set fm))" nf 0] by auto
  then show ?thesis using fresh_loop_Some[OF k] by (simp add: unmappedName_def)
qed

text \<open>
  Property C33. Both loops that look for a name end: whatever names are taken, after at most as many
  rounds as there are of them a number gives a name that is not in use, and a number of prefixes a
  name that the mapping does not have.
\<close>

theorem naming_ends:
  assumes "finite existing"
  shows "(\<exists>k. fresh_loop (numberedName nf) existing (Suc (card existing)) 0 = Some k \<and> numberedName nf k \<notin> existing) \<and>
    (\<exists>k. fresh_loop (remapName nf) (fst ` set fm) (Suc (card (fst ` set fm))) 0 = Some k \<and> remapName nf k \<notin> fst ` set fm)"
  using numberedName_ends[OF assms] remapped.fresh_total[of "fst ` set fm" "Suc (card (fst ` set fm))" nf 0]
    fresh_loop_Some[of "numberedName nf"] fresh_loop_Some[of "remapName nf"] by (meson finite_imageI finite_set lessI)

section \<open>All files of a tree\<close>

text \<open>The overrides of all filters of a tree, in the order in which they are written.\<close>

definition tree_overrides :: "'p xmlMethods \<Rightarrow> 'p world \<Rightarrow> fptr ptree \<Rightarrow> string list" where
  "tree_overrides M w t = concat (map (\<lambda>p. case filts w p of None \<Rightarrow> [] | Some f \<Rightarrow> fx_stateOverrides M f) (datas t))"

lemma override_loop_append:
  "override_loop (us @ vs) st = (let (n1, st1) = override_loop us st; (n2, st2) = override_loop vs st1 in (n1 @ n2, st2))"
  by (induction us arbitrary: st) (simp_all add: Let_def split: prod.split)

lemma save_loop_names:
  assumes "save_loop M True m w es (dl, ch, out, names) = Some (dl', ch', out', names')"
  shows "names' = snd (override_loop (concat (map (\<lambda>e. case filts w (tdata (snd e)) of None \<Rightarrow> [] | Some f \<Rightarrow> fx_stateOverrides M f) es)) names)"
  using assms
proof (induction es arbitrary: dl ch out names)
  case (Cons e es)
  obtain anc n where e: "e = (anc, n)" by (cases e)
  from Cons.prems obtain f ov nm s where f: "filts w (tdata n) = Some f" "override_loop (fx_stateOverrides M f) names = (ov, nm)"
      "save_loop M True m w es (length anc, ch + (length anc - dl) - (dl - length anc), s, nm) = Some (dl', ch', out', names')"
    unfolding e by (auto simp: Let_def split: option.splits prod.splits)
  show ?case using Cons.IH[OF f(3)] f(1,2) by (simp add: e override_loop_append split: prod.split)
qed simp

text \<open>
  The names given so far are the keys of the mapping, and no file of a filter is named like one of
  them: then every file gets a name of its own and is mapped under it.
\<close>

definition names_ok :: "string set \<times> (string \<times> string) list \<Rightarrow> bool" where
  "names_ok st \<longleftrightarrow> finite (fst st) \<and> fst ` set (snd st) = fst st \<and> distinct (map fst (snd st))"

lemma override_step_ok:
  assumes ok: "names_ok (existing, fm)" and new: "v \<notin> existing"
    and step: "override_step v (existing, fm) = (nf, existing', fm')"
  shows "nf \<notin> existing" "existing' = insert nf existing" "fm' = (nf, v) # fm" "names_ok (existing', fm')"
proof -
  have nm: "map_of fm v = None" using ok new by (auto simp: names_ok_def map_of_eq_None_iff)
  have un: "unusedName existing (''./'' @ onlyFilename v) \<notin> existing" using ok by (intro unusedName_new) (simp add: names_ok_def)
  show r: "nf \<notin> existing" "existing' = insert nf existing" using step nm un by (auto simp: override_step_def Let_def)
  have "fm' = fm_put nf v fm" using step nm by (auto simp: override_step_def Let_def)
  moreover have "filter (\<lambda>e. fst e \<noteq> nf) fm = fm" using ok r(1) by (intro filter_True) (force simp: names_ok_def)
  ultimately show fm: "fm' = (nf, v) # fm" by (simp add: fm_put_def)
  show "names_ok (existing', fm')" using ok r fm by (auto simp: names_ok_def)
qed

text \<open>A new name starts with \<^verbatim>\<open>./\<close>, and so does a file that is already in the working directory.\<close>

definition local_name :: "string \<Rightarrow> bool" where "local_name s \<longleftrightarrow> take 2 s = ''./''"

lemma onlyFilename_slash: "CHR ''/'' \<notin> set (onlyFilename v)"
proof (cases "find_last_char (CHR ''/'') v")
  case None
  then show ?thesis using find_last_None by (metis onlyFilename_def option.case(1))
next
  case (Some i)
  then show ?thesis using find_last_Some[OF Some] by (simp add: onlyFilename_def)
qed

lemma local_dir: "CHR ''/'' \<notin> set x \<Longrightarrow> onlyDir (''./'' @ x) = ''./'' \<and> onlyFilename (''./'' @ x) = x"
proof -
  assume x: "CHR ''/'' \<notin> set x"
  let ?s = "''./'' @ x"
  obtain i where i: "find_last_char (CHR ''/'') ?s = Some i" using find_last_None[of "CHR ''/''" ?s] by auto
  note l = find_last_Some[OF i]
  have at: "?s ! i = CHR ''/''" using l by (metis length_take min.absorb4 nth_append_length)
  have "\<not> i > 1"
  proof
    assume i1: "i > 1"
    then have "i - 2 < length x" "?s ! i = x ! (i - 2)" using l by (auto simp: nth_Cons' numeral_2_eq_2)
    then show False using at x nth_mem by metis
  qed
  moreover have "i \<noteq> 0" using at by (intro notI) simp
  ultimately have "i = 1" by simp
  then show ?thesis using i by (simp add: onlyDir_def onlyFilename_def)
qed

lemma unused_local: "local_name (unusedName existing (''./'' @ onlyFilename v))"
proof -
  let ?n = "''./'' @ onlyFilename v"
  obtain a b c where sp: "splitFileData ?n = (a, b, c)" by (metis prod_cases3)
  then have "a = ''./''" using local_dir[OF onlyFilename_slash, of v] by (auto simp: splitFileData_def Let_def split: option.splits)
  then have "local_name (numberedName ?n k)" for k using sp by (simp add: numberedName_def local_name_def)
  then show ?thesis by (simp add: unusedName_def local_name_def split: option.split)
qed

lemma override_step_local: "map_of fm v = None \<Longrightarrow> override_step v (existing, fm) = (nf, st) \<Longrightarrow> local_name nf"
  using unused_local by (auto simp: override_step_def Let_def)

lemma override_loop_ok:
  assumes "names_ok (existing, fm)" "\<forall>s \<in> existing. local_name s" "\<forall>v \<in> set vs. \<not> local_name v"
    "override_loop vs (existing, fm) = (nfs, existing', fm')"
  shows "length nfs = length vs \<and> distinct nfs \<and> set nfs \<inter> existing = {} \<and> existing' = existing \<union> set nfs \<and>
    fm' = rev (zip nfs vs) @ fm \<and> names_ok (existing', fm') \<and> (\<forall>s \<in> existing'. local_name s)"
  using assms
proof (induction vs arbitrary: existing fm nfs)
  case (Cons v vs)
  obtain nf e1 f1 where st: "override_step v (existing, fm) = (nf, e1, f1)" by (metis prod_cases3)
  obtain ns where ov: "override_loop vs (e1, f1) = (ns, existing', fm')" "nfs = nf # ns"
    using Cons.prems(4) st by (auto split: prod.splits)
  have new: "v \<notin> existing" using Cons.prems(2,3) by auto
  note s = override_step_ok[OF Cons.prems(1) new st]
  have "map_of fm v = None" using Cons.prems(1) new by (auto simp: names_ok_def map_of_eq_None_iff)
  then have "\<forall>s \<in> e1. local_name s" using override_step_local[OF _ st] Cons.prems(2) s(2) by auto
  moreover have "\<forall>v \<in> set vs. \<not> local_name v" using Cons.prems(3) by simp
  ultimately have "length ns = length vs" "distinct ns" "set ns \<inter> e1 = {}" "existing' = e1 \<union> set ns"
      "fm' = rev (zip ns vs) @ f1" "names_ok (existing', fm')" "\<forall>s \<in> existing'. local_name s"
    using Cons.IH[OF s(4) _ _ ov(1)] by blast+
  then show ?case using s(1-3) ov(2) by (intro conjI) auto
qed simp

text \<open>
  Property C32. When no filter names a file in the working directory, a package maps every external
  file of every filter under a name of its own, and maps nothing else: the mapping has one entry for
  each file, in order, with pairwise distinct names.
\<close>

theorem package_files:
  assumes "saveXML M True rel m w F [] = Some (out, fm)" "\<forall>v \<in> set (tree_overrides M w (ft F)). \<not> local_name v"
  shows "\<exists>nfs. distinct nfs \<and> length nfs = length (tree_overrides M w (ft F)) \<and>
    rev fm = zip nfs (tree_overrides M w (ft F)) \<and> (\<forall>n \<in> set nfs. local_name n)"
proof -
  let ?vs = "tree_overrides M w (ft F)"
  obtain dl ch txt1 ex where sl: "save_loop M True m w (entries (ft F)) (0, 0, [], {}, []) = Some (dl, ch, txt1, ex, fm)"
    using assms(1) by (auto simp: saveXML_def)
  have vs: "concat (map (\<lambda>e. case filts w (tdata (snd e)) of None \<Rightarrow> [] | Some f \<Rightarrow> fx_stateOverrides M f) (entries (ft F))) = ?vs"
    by (simp add: tree_overrides_def datas_def comp_def)
  obtain nfs ex' fm' where ov: "override_loop ?vs ({}, []) = (nfs, ex', fm')" by (metis prod_cases3)
  have "(ex, fm) = (ex', fm')" using save_loop_names[OF sl] ov unfolding vs by simp
  moreover have "length nfs = length ?vs \<and> distinct nfs \<and> ex' = set nfs \<and> fm' = rev (zip nfs ?vs) \<and> (\<forall>s \<in> ex'. local_name s)"
    using override_loop_ok[of "{}" "[]" ?vs nfs ex' fm'] assms(2) ov by (simp add: names_ok_def)
  ultimately show ?thesis by auto
qed

text \<open>
  The trees of a state share the mapping but not the names in use: a file of a stashed
  tree takes the name of a file of the same base name of the active tree, whose entry is lost, so
  that the package holds the wrong file.
\<close>

theorem package_stash_overwrites:
  assumes "override_loop [v] ({}, []) = (nfs, ex, fm)" "override_loop [u] ({}, fm) = (nfs', ex', fm')"
    and "u \<noteq> v" "onlyFilename u = onlyFilename v" "\<not> local_name u"
  shows "nfs' = nfs \<and> map_of fm (hd nfs) = Some v \<and> map_of fm' (hd nfs) = Some u \<and> v \<notin> snd ` set fm'"
proof -
  have fm: "nfs = [''./'' @ onlyFilename v]" "fm = [(''./'' @ onlyFilename v, v)]"
    using assms(1) by (auto simp: override_step_def unusedName_def fm_put_def Let_def)
  have "u \<noteq> ''./'' @ onlyFilename v" using assms(5) by (auto simp: local_name_def)
  then have "nfs' = nfs" "fm' = [(''./'' @ onlyFilename v, u)]"
    using assms(2) fm by (auto simp: override_step_def unusedName_def fm_put_def assms(4) Let_def)
  then show ?thesis using fm assms(3) by simp
qed

text \<open>
  A file in the working directory that two filters use is mapped for the first one only:
  the second filter is written with a new name that the mapping does not have, so that the file it
  names is not in the package.
\<close>

theorem package_repeat_unmapped:
  assumes "v = ''./'' @ x" "CHR ''/'' \<notin> set x"
  shows "\<exists>n ex. override_loop [v, v] ({}, []) = ([v, n], ex, [(v, v)]) \<and> n \<noteq> v"
proof -
  have f: "''./'' @ onlyFilename v = v" using local_dir[OF assms(2)] assms(1) by simp
  have "unusedName {v} v \<noteq> v" using unusedName_new[of "{v}" v] by simp
  moreover have "override_step v ({}, []) = (v, {v}, [(v, v)])"
    by (simp add: override_step_def f unusedName_def fm_put_def Let_def del: append_Cons)
  moreover have "override_step v ({v}, [(v, v)]) = (unusedName {v} v, {unusedName {v} v, v}, [(v, v)])"
    by (simp add: override_step_def f Let_def del: append_Cons)
  ultimately show ?thesis by auto
qed

end
