(* ===== verification/RangeFilterTree.thy ===== *)
theory RangeFilterTree
  imports PackageNames RangeFilterState
begin

text \<open>
  Trees of ranging filters in a state file: the ranging filter keeps the contract \<open>filter_xml\<close>. The
  private part of a filter is the record of the ranging filter; reading a range file is the parameter
  \<open>openFile\<close>. Filters of other types are not written and not read here.
\<close>

definition rangeMethods :: "(string \<Rightarrow> rangeFile option) \<Rightarrow> rangeFilter xmlMethods" where
  "rangeMethods openFile = \<lparr>
     fx_writeState = (\<lambda>f d. if f_type f = FILTER_TYPE_RANGEFILE then rg_writeState d (f_priv f) else None),
     fx_writePackageState = (\<lambda>f vs d. if f_type f = FILTER_TYPE_RANGEFILE then rg_writePackageState d vs (f_priv f) else None),
     fx_stateOverrides = (\<lambda>f. if f_type f = FILTER_TYPE_RANGEFILE then rg_getStateOverrides (f_priv f) else []),
     fx_make = (\<lambda>ty. newFilter ty newRangeFilter),
     fx_readState = (\<lambda>ty dir node. if ty = FILTER_TYPE_RANGEFILE
        then map_option (newFilter ty) (rg_readState openFile dir node newRangeFilter) else None)\<rparr>"

text \<open>A filter whose range file is still found with as many ions and ranges.\<close>

definition rg_good :: "(string \<Rightarrow> rangeFile option) \<Rightarrow> string \<Rightarrow> rangeFilter filt \<Rightarrow> bool" where
  "rg_good openFile dir f \<longleftrightarrow> f_type f = FILTER_TYPE_RANGEFILE \<and> rg_ok (f_priv f) \<and>
     (case openFile (rg_rngName (f_priv f)) of None \<Rightarrow> False
      | Some r \<Rightarrow> getNumIons r = getNumIons (rg_rng (f_priv f)) \<and> getNumRanges r = getNumRanges (rg_rng (f_priv f)) \<and>
          rf_ok r \<and> getNumIons r < 2 ^ 32 \<and> getNumRanges r < 2 ^ 32) \<and>
     (dir = [] \<or> take 2 (rg_rngName (f_priv f)) \<noteq> ''./'')"

definition rg_doc :: "rangeFilter filt \<Rightarrow> nat \<Rightarrow> xmlNode" where
  "rg_doc f d = rangeFilterDoc d (f_priv f)"

definition rg_loaded :: "(string \<Rightarrow> rangeFile option) \<Rightarrow> rangeFilter filt \<Rightarrow> rangeFilter filt" where
  "rg_loaded openFile f = newFilter FILTER_TYPE_RANGEFILE (reloaded (the (openFile (rg_rngName (f_priv f)))) (f_priv f))"

lemma rangefile_name [simp]: "trueName FILTER_TYPE_RANGEFILE = ''rangefile''"
  by (simp add: trueName_def FILTER_NAMES_def filterTypeNum_def)

interpretation ranging: filter_xml "rangeMethods openFile" dir rg_doc "rg_loaded openFile" "rg_good openFile dir"
  for openFile dir
proof
  fix f :: "rangeFilter filt" and d
  assume g: "rg_good openFile dir f"
  then obtain r where r: "openFile (rg_rngName (f_priv f)) = Some r" by (auto simp: rg_good_def split: option.splits)
  have "length (rg_enabledIons (f_priv f)) \<le> length (colours (rg_rng (f_priv f)))"
    using g by (simp add: rg_good_def rg_ok_def rf_ok_def)
  then show "fx_writeState (rangeMethods openFile) f d = Some (tabs d @ xml_text (escape_doc (rg_doc f d)) @ nl)"
    using g rg_write_text by (simp add: rangeMethods_def rg_good_def rg_doc_def)
  show "xmlName (rg_doc f d) = trueName (f_type f)" using g by (simp add: rg_doc_def rangeFilterDoc_def rg_good_def Let_def)
  have "rg_readState openFile dir (xmlChildren (rangeFilterDoc d (f_priv f))) newRangeFilter = Some (reloaded r (f_priv f))"
    using g r rg_read_doc[of "f_priv f" openFile r dir d] by (simp add: rg_good_def)
  then show "fx_readState (rangeMethods openFile) (f_type f) dir (xmlChildren (rg_doc f d)) = Some (rg_loaded openFile f)"
    using g r by (simp add: rangeMethods_def rg_good_def rg_doc_def rg_loaded_def)
qed

end
