(* ===== verification/SamplesXML.thy ===== *)
theory SamplesXML
  imports SamplesFilter RangeFilterTree
begin

text \<open>A tree of ranging filters that is saved, packaged and loaded.\<close>

definition rangeW :: "rangeFilter world" where
  "rangeW = \<lparr>filts = (\<lambda>p. if p \<in> {1, 2, 3} then Some (newFilter FILTER_TYPE_RANGEFILE sampleRF) else None),
     strms = (\<lambda>_. None), next_f = 4, next_s = 1, ub = False\<rparr>"

text \<open>A base filter with a child, and a second base filter.\<close>

definition rangeF :: filterTree where
  "rangeF = newFilterTree\<lparr>ft := \<lparr>roots = [TNode 1 1 [TNode 2 2 []], TNode 3 3 []], next_addr = 4\<rparr>\<rparr>"

lemma rangeF_facts [simp]:
  "datas (ft rangeF) = [1, 2, 3]" "datas (reordered (ft rangeF)) = [1, 2, 3]" "depths (reordered (ft rangeF)) = [0, 1, 0]"
  "wf_ptree (ft rangeF)"
  by (simp_all add: rangeF_def entries_def datas_def reordered_def depths_def wf_ptree_def addrs_def)

lemma sample_good: "rg_good (\<lambda>_. Some sampleR) [] (newFilter FILTER_TYPE_RANGEFILE sampleRF)"
  using sampleRF_ok sampleR_ok by (simp add: rg_good_def newFilter_def getNumIons_def getNumRanges_def)

lemma filterTree_reload_witness:
  "\<exists>T G' w2. saveXML (rangeMethods (\<lambda>_. Some sampleR)) False False 0 rangeW rangeF [] =
      Some (tabs 1 @ xml_text (escape_doc T) @ nl, []) \<and>
    loadXML (rangeMethods (\<lambda>_. Some sampleR)) T [] newFilterTree rangeW = Some (G', w2, [], 0) \<and>
    map fst (picture w2 (ft G')) = [0, 1, 0]"
proof -
  have "wf_ptree (ft newFilterTree)" by (simp add: newFilterTree_def empty_ptree_def wf_ptree_def addrs_def entries_def)
  from filterTree_reload[OF ranging.filter_xml_axioms _ this, of rangeF rangeW "\<lambda>_. Some sampleR" "[]" 0 "[]" rangeW] sample_good
  obtain T G' w2 where "saveXML (rangeMethods (\<lambda>_. Some sampleR)) False False 0 rangeW rangeF [] =
      Some (tabs (0 + 1) @ xml_text (escape_doc T) @ nl, [])"
    "loadXML (rangeMethods (\<lambda>_. Some sampleR)) T [] newFilterTree rangeW = Some (G', w2, [], 0)"
    "picture w2 (ft G') = map (\<lambda>(d, f). (d, map_option (rg_loaded (\<lambda>_. Some sampleR)) f)) (picture rangeW (reordered (ft rangeF)))"
    by (auto simp: rangeW_def)
  then show ?thesis by (intro exI[of _ T] exI[of _ G'] exI[of _ w2]) (simp add: picture_def)
qed

lemma rangeF_package:
  "\<exists>out fm. saveXML (rangeMethods (\<lambda>_. Some sampleR)) True False 0 rangeW rangeF [] = Some (out, fm)"
proof -
  have e: "entries (ft rangeF) = [([], TNode 1 1 [TNode 2 2 []]), ([1], TNode 2 2 []), ([], TNode 3 3 [])]"
    by (simp add: rangeF_def entries_def)
  have f: "filts rangeW k = Some (newFilter FILTER_TYPE_RANGEFILE sampleRF)" if "k \<in> {1, 2, 3}" for k
    using that by (simp add: rangeW_def)
  have wr: "\<exists>s. fx_writePackageState (rangeMethods (\<lambda>_. Some sampleR)) (newFilter FILTER_TYPE_RANGEFILE sampleRF) (v # vs) d = Some s"
    for v vs d
    by (simp add: rangeMethods_def newFilter_def rg_writePackageState_def rg_writeState_def)
  have ov: "\<exists>v st'. override_loop (fx_stateOverrides (rangeMethods (\<lambda>_. Some sampleR)) (newFilter FILTER_TYPE_RANGEFILE sampleRF)) st = ([v], st')" for st
    by (simp add: rangeMethods_def newFilter_def rg_getStateOverrides_def split: prod.split)
  have step: "\<exists>st'. save_loop (rangeMethods (\<lambda>_. Some sampleR)) True 0 rangeW ((anc, TNode a k ks) # es) (dl, ch, out, st) =
      save_loop (rangeMethods (\<lambda>_. Some sampleR)) True 0 rangeW es st'" if "k \<in> {1, 2, 3}" for anc a k ks es dl ch out st
  proof -
    obtain v st' where "override_loop (fx_stateOverrides (rangeMethods (\<lambda>_. Some sampleR)) (newFilter FILTER_TYPE_RANGEFILE sampleRF)) st = ([v], st')"
      using ov by blast
    moreover obtain s where "fx_writePackageState (rangeMethods (\<lambda>_. Some sampleR)) (newFilter FILTER_TYPE_RANGEFILE sampleRF) [v] (length anc + 2) = Some s"
      using wr by blast
    ultimately show ?thesis using f[OF that]
      by (intro exI[of _ "(length anc, ch + (length anc - dl) - (dl - length anc), out @ depth_tags 0 dl (length anc) @ s, st')"])
        (simp add: Let_def)
  qed
  have "\<exists>st'. save_loop (rangeMethods (\<lambda>_. Some sampleR)) True 0 rangeW ((anc, TNode a k ks) # es) st0 =
      save_loop (rangeMethods (\<lambda>_. Some sampleR)) True 0 rangeW es st'" if "k \<in> {1, 2, 3}" for anc a k ks es st0
    using step[OF that] by (metis prod_cases4)
  then have "\<exists>r. save_loop (rangeMethods (\<lambda>_. Some sampleR)) True 0 rangeW
      ((a1, TNode k1 1 l1) # (a2, TNode k2 2 l2) # [(a3, TNode k3 3 l3)]) st0 = Some r" for a1 k1 l1 a2 k2 l2 a3 k3 l3 st0
    by (metis insertI1 insertI2 save_loop.simps(1))
  then have "\<exists>r. save_loop (rangeMethods (\<lambda>_. Some sampleR)) True 0 rangeW (entries (ft rangeF)) (0, 0, [], {}, []) = Some r"
    unfolding e .
  then show ?thesis by (auto simp: saveXML_def)
qed

lemma package_files_witness:
  "\<exists>out fm. saveXML (rangeMethods (\<lambda>_. Some sampleR)) True False 0 rangeW rangeF [] = Some (out, fm) \<and>
    map snd (rev fm) = [''a.rng'', ''a.rng'', ''a.rng''] \<and> distinct (map fst fm)"
proof -
  obtain out fm where s: "saveXML (rangeMethods (\<lambda>_. Some sampleR)) True False 0 rangeW rangeF [] = Some (out, fm)"
    using rangeF_package by blast
  have ov: "tree_overrides (rangeMethods (\<lambda>_. Some sampleR)) rangeW (ft rangeF) = [''a.rng'', ''a.rng'', ''a.rng'']"
    by (simp add: tree_overrides_def rangeW_def rangeMethods_def newFilter_def rg_getStateOverrides_def)
  obtain nfs where "distinct nfs" "length nfs = 3" "rev fm = zip nfs [''a.rng'', ''a.rng'', ''a.rng'']"
    using package_files[OF s] unfolding ov by (auto simp: local_name_def)
  then have "map snd (rev fm) = [''a.rng'', ''a.rng'', ''a.rng'']" "distinct (map fst (rev fm))" by simp_all
  moreover have "distinct (map fst fm)" using calculation(2) by (simp add: rev_map[symmetric])
  ultimately show ?thesis using s by (intro exI[of _ out] exI[of _ fm] conjI)
qed

lemma naming_ends_witness:
  "\<exists>k. fresh_loop (numberedName ''./a.rng'') {''./a.rng''} 2 0 = Some k \<and> numberedName ''./a.rng'' k \<notin> {''./a.rng''}"
  using naming_ends[of "{''./a.rng''}" "''./a.rng''" "[]"] by (simp add: numeral_2_eq_2)

lemma package_stash_overwrites_witness:
  "\<exists>nfs ex fm nfs' ex' fm'. override_loop [''/a/x''] ({}, []) = (nfs, ex, fm) \<and>
    override_loop [''/b/x''] ({}, fm) = (nfs', ex', fm') \<and> map_of fm' (hd nfs) = Some ''/b/x''"
proof -
  obtain nfs ex fm where a: "override_loop [''/a/x''] ({}, []) = (nfs, ex, fm)" by (metis prod_cases3)
  obtain nfs' ex' fm' where b: "override_loop [''/b/x''] ({}, fm) = (nfs', ex', fm')" by (metis prod_cases3)
  have "onlyFilename ''/b/x'' = onlyFilename ''/a/x''" by (simp add: onlyFilename_def find_last_char_def find_char.simps)
  then show ?thesis using package_stash_overwrites[OF a b] a b by (auto simp: local_name_def)
qed

lemma package_repeat_unmapped_witness:
  "\<exists>n ex. override_loop [''./x'', ''./x''] ({}, []) = ([''./x'', n], ex, [(''./x'', ''./x'')]) \<and> n \<noteq> ''./x''"
  using package_repeat_unmapped[of "''./x''" "''x''"] by simp

end
