(* ===== verification/KDSearch.thy ===== *)
theory KDSearch
  imports IonHits
begin

text \<open>
  The nearest point search that the two spatial trees share: \<^verbatim>\<open>K3DTree::findNearest\<close>
  (src/src/backend/filters/algorithms/K3DTree.cpp) and \<^verbatim>\<open>K3DTreeMk2::findNearestUntagged\<close>,
  \<^verbatim>\<open>K3DTreeMk2::findNearestWithSkip\<close> (K3DTree-mk2.cpp) walk a k-d tree with one and the same loop
  over an explicit stack. They differ in what a node is, in when a branch is cut off and in when a
  point is promoted to the best one; those are parameters here. Each node is seen up to three
  times: on the way down, back from the near child, back from the far child.
\<close>

section \<open>The loop\<close>

datatype visit = FIRST_VISIT | SECOND_VISIT | THIRD_VISIT

record 'n view =
  kv_pt :: "'n \<Rightarrow> point"
  kv_left :: "'n \<Rightarrow> 'n option"
  kv_right :: "'n \<Rightarrow> 'n option"

text \<open>
  The local variables of the search: the current node, the visit number, the three stacks as one
  (node, visit, saved bounds of the axis), the axis, the domain, the best node with its distance.
\<close>

record 'n search =
  s_cur :: 'n
  s_visit :: visit
  s_stack :: "('n \<times> visit \<times> rat \<times> rat) list"
  s_axis :: nat
  s_dom :: boundCube
  s_best :: "'n option"
  s_dist :: rat

text \<open>
  \<open>cut box best dist\<close> says that a branch with bounds \<open>box\<close> is skipped, \<open>better n d dist\<close> that node
  \<open>n\<close> at distance \<open>d\<close> replaces the best; \<open>cap\<close> is the size of the stack arrays.
\<close>

record 'n params =
  sp_view :: "'n view"
  sp_pt :: point
  sp_cut :: "boundCube \<Rightarrow> 'n option \<Rightarrow> rat \<Rightarrow> bool"
  sp_better :: "'n \<Rightarrow> rat \<Rightarrow> rat \<Rightarrow> bool"
  sp_cap :: nat

definition setMax :: "boundCube \<Rightarrow> nat \<Rightarrow> rat \<Rightarrow> boundCube" where
  "setMax c a x = putc c a ((sel c a)\<lparr>bmax := x\<rparr>)"

definition setMin :: "boundCube \<Rightarrow> nat \<Rightarrow> rat \<Rightarrow> boundCube" where
  "setMin c a x = putc c a ((sel c a)\<lparr>bmin := x\<rparr>)"

text \<open>
  Trying a child: there is none and control falls through to the next case; the branch is cut and
  the loop continues with the next visit; the state is saved and the child becomes current; or the
  stack arrays are full and the write is out of bounds.
\<close>

datatype 's move = Fall | Cut | Go 's | Overflow

definition tryChild :: "'n params \<Rightarrow> 'n option \<Rightarrow> boundCube \<Rightarrow> visit \<Rightarrow> 'n search \<Rightarrow> 'n search move" where
  "tryChild q child box ret s =
     (case child of None \<Rightarrow> Fall
      | Some c \<Rightarrow>
          if sp_cut q box (s_best s) (s_dist s) then Cut
          else if length (s_stack s) \<ge> sp_cap q then Overflow
          else Go (s\<lparr>s_stack := (s_cur s, ret, bmin (sel (s_dom s) (s_axis s)), bmax (sel (s_dom s) (s_axis s)))
                               # s_stack s,
                     s_cur := c, s_visit := FIRST_VISIT, s_axis := (s_axis s + 1) mod 3, s_dom := box\<rparr>))"

definition tryLeft :: "'n params \<Rightarrow> visit \<Rightarrow> 'n search \<Rightarrow> 'n search move" where
  "tryLeft q ret s = tryChild q (kv_left (sp_view q) (s_cur s))
     (setMax (s_dom s) (s_axis s) (sel (kv_pt (sp_view q) (s_cur s)) (s_axis s))) ret s"

definition tryRight :: "'n params \<Rightarrow> visit \<Rightarrow> 'n search \<Rightarrow> 'n search move" where
  "tryRight q ret s = tryChild q (kv_right (sp_view q) (s_cur s))
     (setMin (s_dom s) (s_axis s) (sel (kv_pt (sp_view q) (s_cur s)) (s_axis s))) ret s"

definition onLeft :: "'n params \<Rightarrow> 'n \<Rightarrow> nat \<Rightarrow> bool" where
  "onLeft q n a \<longleftrightarrow> sel (sp_pt q) a < sel (kv_pt (sp_view q) n) a"

definition promote :: "'n params \<Rightarrow> 'n \<Rightarrow> 'n option \<times> rat \<Rightarrow> 'n option \<times> rat" where
  "promote q n z = (let d = sqrDist (kv_pt (sp_view q) n) (sp_pt q)
                    in if sp_better q n d (snd z) then (Some n, d) else z)"

definition thirdVisit :: "'n params \<Rightarrow> 'n search \<Rightarrow> 'n search" where
  "thirdVisit q s =
     (let z = promote q (s_cur s) (s_best s, s_dist s);
          a = (if s_axis s \<noteq> 0 then s_axis s - 1 else 2);
          s1 = s\<lparr>s_best := fst z, s_dist := snd z, s_axis := a\<rparr>
      in case s_stack s1 of [] \<Rightarrow> s1
         | (n, w, lo, hi) # st \<Rightarrow>
             s1\<lparr>s_stack := st, s_visit := w, s_cur := n,
                s_dom := putc (s_dom s1) a ((sel (s_dom s1) a)\<lparr>bmin := lo, bmax := hi\<rparr>)\<rparr>)"

definition secondVisit :: "'n params \<Rightarrow> 'n search \<Rightarrow> 'n search option" where
  "secondVisit q s =
     (case (if onLeft q (s_cur s) (s_axis s) then tryRight q THIRD_VISIT s else tryLeft q THIRD_VISIT s) of
        Fall \<Rightarrow> Some (thirdVisit q (s\<lparr>s_visit := THIRD_VISIT\<rparr>))
      | Cut \<Rightarrow> Some (s\<lparr>s_visit := THIRD_VISIT\<rparr>)
      | Go s' \<Rightarrow> Some s' | Overflow \<Rightarrow> None)"

definition firstVisit :: "'n params \<Rightarrow> 'n search \<Rightarrow> 'n search option" where
  "firstVisit q s =
     (case (if onLeft q (s_cur s) (s_axis s) then tryLeft q SECOND_VISIT s else tryRight q SECOND_VISIT s) of
        Fall \<Rightarrow> secondVisit q (s\<lparr>s_visit := SECOND_VISIT\<rparr>)
      | Cut \<Rightarrow> Some (s\<lparr>s_visit := SECOND_VISIT\<rparr>)
      | Go s' \<Rightarrow> Some s' | Overflow \<Rightarrow> None)"

definition searchStep :: "'n params \<Rightarrow> 'n search \<Rightarrow> 'n search option" where
  "searchStep q s = (case s_visit s of FIRST_VISIT \<Rightarrow> firstVisit q s | SECOND_VISIT \<Rightarrow> secondVisit q s
                     | THIRD_VISIT \<Rightarrow> Some (thirdVisit q s))"

text \<open>The loop ends when it is back at the start node with the third visit due.\<close>

partial_function (option) searchLoop :: "'n params \<Rightarrow> 'n \<Rightarrow> 'n search \<Rightarrow> 'n search option" where
  "searchLoop q start s =
     (case searchStep q s of None \<Rightarrow> None
      | Some s' \<Rightarrow> if s_cur s' = start \<and> s_visit s' = THIRD_VISIT then Some s' else searchLoop q start s')"

declare searchLoop.simps [code]

section \<open>The recursion it implements\<close>

text \<open>The tree a node unfolds to.\<close>

datatype 'n shape = Tip | Bin "'n shape" 'n "'n shape"

fun nodesOf :: "'n shape \<Rightarrow> 'n set" where
  "nodesOf Tip = {}"
| "nodesOf (Bin l n r) = insert n (nodesOf l \<union> nodesOf r)"

fun height :: "'n shape \<Rightarrow> nat" where
  "height Tip = 0"
| "height (Bin l n r) = Suc (max (height l) (height r))"

fun rootOf :: "'n shape \<Rightarrow> 'n option" where
  "rootOf Tip = None"
| "rootOf (Bin l n r) = Some n"

fun shaped :: "'n view \<Rightarrow> 'n shape \<Rightarrow> bool" where
  "shaped v Tip \<longleftrightarrow> True"
| "shaped v (Bin l n r) \<longleftrightarrow> kv_left v n = rootOf l \<and> kv_right v n = rootOf r \<and> shaped v l \<and> shaped v r"

fun srch :: "'n params \<Rightarrow> nat \<Rightarrow> boundCube \<Rightarrow> 'n shape \<Rightarrow> 'n option \<times> rat \<Rightarrow> 'n option \<times> rat"
and kids :: "'n params \<Rightarrow> nat \<Rightarrow> boundCube \<Rightarrow> 'n shape \<Rightarrow> 'n option \<times> rat \<Rightarrow> 'n option \<times> rat" where
  "srch q a box Tip z = z"
| "srch q a box (Bin l n r) z =
     (if sp_cut q box (fst z) (snd z) then z else promote q n (kids q a box (Bin l n r) z))"
| "kids q a box Tip z = z"
| "kids q a box (Bin l n r) z =
     (let x = sel (kv_pt (sp_view q) n) a; a' = (a + 1) mod 3;
          fl = srch q a' (setMax box a x) l; fr = srch q a' (setMin box a x) r
      in if onLeft q n a then fr (fl z) else fl (fr z))"

section \<open>The loop implements the recursion\<close>

definition resume :: "'n params \<Rightarrow> 'n \<Rightarrow> 'n search \<Rightarrow> 'n search option" where
  "resume q start s = (if s_cur s = start \<and> s_visit s = THIRD_VISIT then Some s else searchLoop q start s)"

abbreviation andThen :: "'n params \<Rightarrow> 'n \<Rightarrow> 'n search option \<Rightarrow> 'n search option" where
  "andThen q start r \<equiv> (case r of None \<Rightarrow> None | Some s \<Rightarrow> resume q start s)"

lemma loop_step: "searchLoop q start s = andThen q start (searchStep q s)"
  by (subst searchLoop.simps) (simp add: resume_def split: option.split)

definition withBest :: "'n option \<times> rat \<Rightarrow> 'n search \<Rightarrow> 'n search" where
  "withBest z s = s\<lparr>s_best := fst z, s_dist := snd z\<rparr>"

abbreviation bestOf :: "'n search \<Rightarrow> 'n option \<times> rat" where
  "bestOf s \<equiv> (s_best s, s_dist s)"

lemma withBest_sel [simp]:
  "s_cur (withBest z s) = s_cur s" "s_visit (withBest z s) = s_visit s"
  "s_stack (withBest z s) = s_stack s" "s_axis (withBest z s) = s_axis s"
  "s_dom (withBest z s) = s_dom s" "s_best (withBest z s) = fst z" "s_dist (withBest z s) = snd z"
  "withBest z (withBest y s) = withBest z s" "withBest (bestOf s) s = s"
  by (simp_all add: withBest_def)

text \<open>The state after a whole subtree: the parent is current again.\<close>

definition popped :: "'n params \<Rightarrow> 'n search \<Rightarrow> 'n search" where
  "popped q s =
     (let a = (if s_axis s \<noteq> 0 then s_axis s - 1 else 2); (n, w, lo, hi) = hd (s_stack s)
      in s\<lparr>s_axis := a, s_stack := tl (s_stack s), s_visit := w, s_cur := n,
           s_dom := putc (s_dom s) a ((sel (s_dom s) a)\<lparr>bmin := lo, bmax := hi\<rparr>)\<rparr>)"

definition walks :: "'n params \<Rightarrow> 'n \<Rightarrow> 'n shape \<Rightarrow> bool" where
  "walks q start t \<longleftrightarrow>
     (\<forall>s. rootOf t = Some (s_cur s) \<and> s_visit s = FIRST_VISIT \<and> s_stack s \<noteq> [] \<and> s_axis s < 3 \<and>
          length (s_stack s) + height t \<le> Suc (sp_cap q) \<longrightarrow>
          searchLoop q start s =
            resume q start (popped q (withBest (promote q (s_cur s) (kids q (s_axis s) (s_dom s) t (bestOf s))) s)))"

lemma putc_putc: "putc (putc c a x) a y = putc c a y"
  by (cases c) simp

lemma putc_same: "a < 3 \<Longrightarrow> putc c a (sel c a) = c"
  by (cases c) (auto simp: numeral_3_eq_3 less_Suc_eq)

lemma sel_putc_same: "sel (putc c a x) a = x"
  by (cases c) auto

lemma restored:
  assumes "a < 3"
  shows "putc (setMax c a x) a ((sel (setMax c a x) a)\<lparr>bmin := bmin (sel c a), bmax := bmax (sel c a)\<rparr>) = c"
    and "putc (setMin c a x) a ((sel (setMin c a x) a)\<lparr>bmin := bmin (sel c a), bmax := bmax (sel c a)\<rparr>) = c"
  using assms by (simp_all add: setMax_def setMin_def putc_putc sel_putc_same putc_same)

lemma axis_back:
  assumes "(a::nat) < 3"
  shows "(if (a + 1) mod 3 \<noteq> 0 then (a + 1) mod 3 - 1 else 2) = a"
proof -
  have "a = 0 \<or> a = 1 \<or> a = 2"
    using assms by linarith
  then show ?thesis
    by (elim disjE) simp_all
qed

text \<open>What trying a child that the search can walk comes to.\<close>

lemma tryChild_walks:
  assumes "walks q start t" "s_axis s < 3" "length (s_stack s) + height t \<le> sp_cap q" "ret \<noteq> FIRST_VISIT"
    and box: "putc box (s_axis s) ((sel box (s_axis s))\<lparr>bmin := bmin (sel (s_dom s) (s_axis s)),
                bmax := bmax (sel (s_dom s) (s_axis s))\<rparr>) = s_dom s"
  shows "case tryChild q (rootOf t) box ret s of
           Fall \<Rightarrow> t = Tip
         | Cut \<Rightarrow> t \<noteq> Tip \<and> srch q ((s_axis s + 1) mod 3) box t (bestOf s) = bestOf s
         | Go s' \<Rightarrow> t \<noteq> Tip \<and> resume q start s' =
             resume q start (withBest (srch q ((s_axis s + 1) mod 3) box t (bestOf s)) (s\<lparr>s_visit := ret\<rparr>))
         | Overflow \<Rightarrow> False"
proof (cases t)
  case (Bin l n r)
  show ?thesis
  proof (cases "sp_cut q box (s_best s) (s_dist s)")
    case False
    define s' where "s' = s\<lparr>s_stack := (s_cur s, ret, bmin (sel (s_dom s) (s_axis s)), bmax (sel (s_dom s) (s_axis s)))
        # s_stack s, s_cur := n, s_visit := FIRST_VISIT, s_axis := (s_axis s + 1) mod 3, s_dom := box\<rparr>"
    have go: "tryChild q (rootOf t) box ret s = Go s'"
      using assms(3) False by (simp add: tryChild_def Bin s'_def not_le)
    have "resume q start s' = searchLoop q start s'"
      by (simp add: resume_def s'_def)
    also have "\<dots> = resume q start (popped q (withBest (promote q (s_cur s')
        (kids q (s_axis s') (s_dom s') t (bestOf s'))) s'))"
      using assms(1,3) unfolding walks_def by (elim allE [of _ s']) (simp add: s'_def Bin)
    also have "promote q (s_cur s') (kids q (s_axis s') (s_dom s') t (bestOf s')) =
        srch q ((s_axis s + 1) mod 3) box t (bestOf s)"
      using False by (simp add: s'_def Bin)
    also have "popped q (withBest z s') = withBest z (s\<lparr>s_visit := ret\<rparr>)" for z
      using axis_back [OF assms(2)] box by (auto simp: popped_def s'_def withBest_def Let_def)
    finally show ?thesis
      using go by (simp add: Bin)
  qed (simp add: Bin tryChild_def)
qed (simp add: tryChild_def)

lemma first_half:
  fixes q :: "'n params"
  assumes "walks q start l" "walks q start r" "kv_left (sp_view q) n = rootOf l" "kv_right (sp_view q) n = rootOf r"
    and "s_cur s = n" "s_axis s < 3" "length (s_stack s) + max (height l) (height r) \<le> sp_cap q"
  shows "andThen q start (firstVisit q s) =
    andThen q start (secondVisit q (withBest
      (let x = sel (kv_pt (sp_view q) n) (s_axis s); a = (s_axis s + 1) mod 3
       in if onLeft q n (s_axis s) then srch q a (setMax (s_dom s) (s_axis s) x) l (bestOf s)
          else srch q a (setMin (s_dom s) (s_axis s) x) r (bestOf s)) (s\<lparr>s_visit := SECOND_VISIT\<rparr>)))"
proof -
  have second: "resume q start t = andThen q start (secondVisit q t)" if "s_visit t = SECOND_VISIT" for t :: "'n search"
    using that by (simp add: resume_def loop_step searchStep_def)
  define x where "x = sel (kv_pt (sp_view q) n) (s_axis s)"
  have len: "length (s_stack s) + height l \<le> sp_cap q" "length (s_stack s) + height r \<le> sp_cap q"
    using assms(7) by auto
  note L = tryChild_walks [where ret = SECOND_VISIT, OF assms(1,6) len(1) _ restored(1) [OF assms(6), of _ x]]
  note R = tryChild_walks [where ret = SECOND_VISIT, OF assms(2,6) len(2) _ restored(2) [OF assms(6), of _ x]]
  have wb: "withBest (bestOf s) (s\<lparr>s_visit := v\<rparr>) = s\<lparr>s_visit := v\<rparr>" for v
    by (simp add: withBest_def)
  show ?thesis
  proof (cases "onLeft q n (s_axis s)")
    case True
    then show ?thesis
      using L by (auto simp: firstVisit_def tryLeft_def assms(3,5) second x_def wb Let_def split: move.splits)
  next
    case False
    then show ?thesis
      using R by (auto simp: firstVisit_def tryRight_def assms(4,5) second x_def wb Let_def split: move.splits)
  qed
qed

lemma second_half:
  fixes q :: "'n params"
  assumes "walks q start l" "walks q start r" "kv_left (sp_view q) n = rootOf l" "kv_right (sp_view q) n = rootOf r"
    and "s_cur s = n" "s_axis s < 3" "length (s_stack s) + max (height l) (height r) \<le> sp_cap q"
  defines "z \<equiv> (let x = sel (kv_pt (sp_view q) n) (s_axis s); a = (s_axis s + 1) mod 3
       in if onLeft q n (s_axis s) then srch q a (setMin (s_dom s) (s_axis s) x) r (bestOf s)
          else srch q a (setMax (s_dom s) (s_axis s) x) l (bestOf s))"
  shows "andThen q start (secondVisit q s) =
    (if (if onLeft q n (s_axis s) then r else l) = Tip
     then resume q start (thirdVisit q (withBest z (s\<lparr>s_visit := THIRD_VISIT\<rparr>)))
     else resume q start (withBest z (s\<lparr>s_visit := THIRD_VISIT\<rparr>)))"
proof -
  define x where "x = sel (kv_pt (sp_view q) n) (s_axis s)"
  have len: "length (s_stack s) + height l \<le> sp_cap q" "length (s_stack s) + height r \<le> sp_cap q"
    using assms(7) by auto
  note L = tryChild_walks [where ret = THIRD_VISIT, OF assms(1,6) len(1) _ restored(1) [OF assms(6), of _ x]]
  note R = tryChild_walks [where ret = THIRD_VISIT, OF assms(2,6) len(2) _ restored(2) [OF assms(6), of _ x]]
  have wb: "withBest (bestOf s) (s\<lparr>s_visit := v\<rparr>) = s\<lparr>s_visit := v\<rparr>" for v
    by (simp add: withBest_def)
  show ?thesis
  proof (cases "onLeft q n (s_axis s)")
    case True
    then show ?thesis
      using R unfolding z_def
      by (auto simp: secondVisit_def tryRight_def assms(4,5) x_def wb Let_def split: move.splits)
  next
    case False
    then show ?thesis
      using L unfolding z_def
      by (auto simp: secondVisit_def tryLeft_def assms(3,5) x_def wb Let_def split: move.splits)
  qed
qed

lemma third_pops:
  fixes s :: "'n search"
  assumes "s_stack s \<noteq> []"
  shows "thirdVisit q (withBest z (s\<lparr>s_visit := v\<rparr>)) = popped q (withBest (promote q (s_cur s) z) s)"
  using assms by (cases "s_stack s") (auto simp: thirdVisit_def popped_def withBest_def Let_def)

lemma loop_third:
  "s_visit s = THIRD_VISIT \<Longrightarrow> s_cur s \<noteq> start \<Longrightarrow> resume q start s = resume q start (thirdVisit q s)"
  by (simp add: resume_def loop_step searchStep_def)

lemma walks_shape:
  fixes q :: "'n params"
  assumes "shaped (sp_view q) t" "start \<notin> nodesOf t"
  shows "walks q start t"
  using assms
proof (induction t)
  case (Bin l n r)
  have w: "walks q start l" "walks q start r" and v: "kv_left (sp_view q) n = rootOf l" "kv_right (sp_view q) n = rootOf r"
    using Bin by auto
  show ?case
    unfolding walks_def
  proof (intro allI impI, elim conjE)
    fix s :: "'n search"
    assume s: "rootOf (Bin l n r) = Some (s_cur s)" "s_visit s = FIRST_VISIT" "s_stack s \<noteq> []"
      "s_axis s < 3" "length (s_stack s) + height (Bin l n r) \<le> Suc (sp_cap q)"
    have cur: "s_cur s = n" "n \<noteq> start" and len: "length (s_stack s) + max (height l) (height r) \<le> sp_cap q"
      using s Bin.prems by auto
    define x where "x = sel (kv_pt (sp_view q) n) (s_axis s)"
    define y where "y = (if onLeft q n (s_axis s) then srch q ((s_axis s + 1) mod 3) (setMax (s_dom s) (s_axis s) x) l (bestOf s)
          else srch q ((s_axis s + 1) mod 3) (setMin (s_dom s) (s_axis s) x) r (bestOf s))"
    define s1 where "s1 = withBest y (s\<lparr>s_visit := SECOND_VISIT\<rparr>)"
    have k: "kids q (s_axis s) (s_dom s) (Bin l n r) (bestOf s) =
        (if onLeft q n (s_axis s1) then srch q ((s_axis s1 + 1) mod 3) (setMin (s_dom s1) (s_axis s1) x) r (bestOf s1)
         else srch q ((s_axis s1 + 1) mod 3) (setMax (s_dom s1) (s_axis s1) x) l (bestOf s1))"
      by (simp add: s1_def y_def x_def Let_def)
    have "searchLoop q start s = andThen q start (firstVisit q s)"
      by (simp add: loop_step searchStep_def s(2))
    also have "\<dots> = andThen q start (secondVisit q s1)"
      using first_half [OF w v cur(1) s(4) len] by (simp add: s1_def y_def x_def Let_def)
    also have "\<dots> = resume q start (thirdVisit q (withBest (kids q (s_axis s) (s_dom s) (Bin l n r) (bestOf s)) (s1\<lparr>s_visit := THIRD_VISIT\<rparr>)))"
      using second_half [of q start l r n s1] w v cur s(4) len
        loop_third [of "withBest z (s1\<lparr>s_visit := THIRD_VISIT\<rparr>)" start q for z]
      unfolding k by (simp add: s1_def x_def Let_def cong: if_cong)
    also have "thirdVisit q (withBest z (s1\<lparr>s_visit := THIRD_VISIT\<rparr>)) = popped q (withBest (promote q n z) s)" for z
      using third_pops [of s1 q z THIRD_VISIT] s(3) cur(1) by (simp add: s1_def popped_def withBest_def Let_def)
    finally show "searchLoop q start s = resume q start (popped q (withBest
        (promote q (s_cur s) (kids q (s_axis s) (s_dom s) (Bin l n r) (bestOf s))) s))"
      by (simp add: cur)
  qed
qed (simp add: walks_def)

text \<open>
  From the start node the loop ends, within its stack arrays, with the result of the recursion
  below the start node. The start node's own point is looked at only if there is no far child.
\<close>

theorem searchLoop_result:
  fixes q :: "'n params" and s :: "'n search"
  assumes "shaped (sp_view q) (Bin l n r)" "n \<notin> nodesOf l" "n \<notin> nodesOf r"
    and "s_cur s = n" "s_visit s = FIRST_VISIT" "s_stack s = []" "s_axis s < 3"
    and "height (Bin l n r) \<le> Suc (sp_cap q)"
  defines "z \<equiv> kids q (s_axis s) (s_dom s) (Bin l n r) (bestOf s)"
  shows "map_option bestOf (searchLoop q n s) =
    Some (if (if onLeft q n (s_axis s) then r else l) = Tip then promote q n z else z)"
proof -
  have w: "walks q n l" "walks q n r" and v: "kv_left (sp_view q) n = rootOf l" "kv_right (sp_view q) n = rootOf r"
    using assms(1-3) walks_shape by auto
  have len: "length (s_stack s) + max (height l) (height r) \<le> sp_cap q"
    using assms(6,8) by simp
  define x where "x = sel (kv_pt (sp_view q) n) (s_axis s)"
  define y where "y = (if onLeft q n (s_axis s) then srch q ((s_axis s + 1) mod 3) (setMax (s_dom s) (s_axis s) x) l (bestOf s)
        else srch q ((s_axis s + 1) mod 3) (setMin (s_dom s) (s_axis s) x) r (bestOf s))"
  define s1 where "s1 = withBest y (s\<lparr>s_visit := SECOND_VISIT\<rparr>)"
  have k: "z = (if onLeft q n (s_axis s1) then srch q ((s_axis s1 + 1) mod 3) (setMin (s_dom s1) (s_axis s1) x) r (bestOf s1)
       else srch q ((s_axis s1 + 1) mod 3) (setMax (s_dom s1) (s_axis s1) x) l (bestOf s1))"
    by (simp add: z_def s1_def y_def x_def Let_def)
  have "searchLoop q n s = andThen q n (firstVisit q s)"
    by (simp add: loop_step searchStep_def assms(5))
  also have "\<dots> = andThen q n (secondVisit q s1)"
    using first_half [OF w v assms(4,7) len] by (simp add: s1_def y_def x_def Let_def)
  also have "\<dots> = (if (if onLeft q n (s_axis s) then r else l) = Tip
      then resume q n (thirdVisit q (withBest z (s1\<lparr>s_visit := THIRD_VISIT\<rparr>)))
      else resume q n (withBest z (s1\<lparr>s_visit := THIRD_VISIT\<rparr>)))"
    using second_half [of q n l r n s1] w v assms(4,7) len
    unfolding k by (simp add: s1_def x_def Let_def cong: if_cong)
  finally show ?thesis
    using assms(4,6) by (simp add: resume_def thirdVisit_def s1_def Let_def)
qed

end
