(* ===== verification/K3DTree.thy ===== *)
theory K3DTree
  imports KDSearch
begin

text \<open>
  The pointer based k-d tree of src/src/backend/filters/algorithms/K3DTree.cpp: its recursive
  construction around medians, the nearest point search and the search for several neighbours. A
  node is a value; a null child is None. \<^verbatim>\<open>std::sort\<close> is a parameter, as in theory \<open>K3DTreeMk2\<close>, and
  so is the abort flag, by the number of times it has been read.
\<close>

section \<open>Nodes and construction\<close>

datatype k3dNode = K3DNode (k_left: "k3dNode option") (k_loc: point) (k_axis: nat) (k_right: "k3dNode option")

record k3dTree1 =
  treeSize :: nat
  tr_maxDepth :: nat
  tr_root :: "k3dNode option"
  curNodeCount :: nat

definition newK3DTree :: "nat \<Rightarrow> k3dTree1" where
  "newK3DTree junk = \<lparr>treeSize = 0, tr_maxDepth = 0, tr_root = None, curNodeCount = junk\<rparr>"

definition killTree :: "k3dTree1 \<Rightarrow> k3dTree1" where
  "killTree t = (case tr_root t of None \<Rightarrow> t | Some _ \<Rightarrow> t\<lparr>tr_root := None, treeSize := 0\<rparr>)"

text \<open>\<open>bs_reads\<close> counts the readings of the abort flag.\<close>

record buildCount =
  bs_depth :: nat
  bs_nodes :: nat
  bs_reads :: nat

lemma shorter_parts:
  fixes n :: nat
  shows "(n - 1) div 2 \<noteq> 0 \<Longrightarrow> length (take ((n - 1) div 2) xs) < n"
    and "(n - 1) div 2 \<noteq> n - 1 \<Longrightarrow> length (take (n - 1 - (n - 1) div 2) ys) < n"
  by (auto simp: min_less_iff_disj)

function buildRecurse :: "(nat \<Rightarrow> point list \<Rightarrow> point list) \<Rightarrow> (nat \<Rightarrow> bool) \<Rightarrow> point list \<Rightarrow> nat \<Rightarrow>
    buildCount \<Rightarrow> k3dNode \<times> buildCount" where
  "buildRecurse srt ab pts depth s =
     (let curAxis = depth mod 3; ptsSize = length pts - 1; median = ptsSize div 2;
          s = (if depth > bs_depth s then s\<lparr>bs_depth := depth\<rparr> else s);
          xs = srt curAxis pts;
          (l, s) = (if median \<noteq> 0
                    then if ab (bs_reads s) then (None, s\<lparr>bs_reads := bs_reads s + 1\<rparr>)
                         else let (n, s) = buildRecurse srt ab (take median xs) (depth + 1) (s\<lparr>bs_reads := bs_reads s + 1\<rparr>)
                              in (Some n, s)
                    else (None, s));
          (r, s) = (if median \<noteq> ptsSize
                    then if ab (bs_reads s) then (None, s\<lparr>bs_reads := bs_reads s + 1\<rparr>)
                         else let (n, s) = buildRecurse srt ab (take (ptsSize - median) (drop (median + 1) xs)) (depth + 1)
                                             (s\<lparr>bs_reads := bs_reads s + 1\<rparr>)
                              in (Some n, s)
                    else (None, s))
      in (K3DNode l (xs ! median) curAxis r, s\<lparr>bs_nodes := bs_nodes s + 1\<rparr>))"
  by pat_completeness auto
termination
  by (relation "measure (\<lambda>(srt, ab, pts, depth, s). length pts)", simp)
     (simp_all only: in_measure prod.case shorter_parts simp_thms)

declare buildRecurse.simps [simp del]

text \<open>\<^verbatim>\<open>build\<close> works on a copy of the points and does not reset the node count, \<^verbatim>\<open>buildByRef\<close> does. An empty
  vector leaves an earlier tree in place.\<close>

definition build1 :: "bool \<Rightarrow> (nat \<Rightarrow> point list \<Rightarrow> point list) \<Rightarrow> (nat \<Rightarrow> bool) \<Rightarrow> point list \<Rightarrow> k3dTree1 \<Rightarrow> k3dTree1" where
  "build1 byRef srt ab pts t =
     (if pts = [] then t\<lparr>tr_maxDepth := 0\<rparr>
      else let t = (killTree t)\<lparr>treeSize := length pts, tr_maxDepth := 1\<rparr>;
               c = (if byRef then 0 else curNodeCount t);
               (n, s) = buildRecurse srt ab pts 0 \<lparr>bs_depth = tr_maxDepth t, bs_nodes = c, bs_reads = 0\<rparr>
           in t\<lparr>tr_root := Some n, tr_maxDepth := bs_depth s, curNodeCount := bs_nodes s\<rparr>)"

section \<open>Searches\<close>

definition viewNode :: "k3dNode view" where
  "viewNode = \<lparr>kv_pt = k_loc, kv_left = k_left, kv_right = k_right\<rparr>"

text \<open>The search cuts a branch whose box misses the sphere around the best point found so far.\<close>

definition findParams :: "nat \<Rightarrow> point \<Rightarrow> rat \<Rightarrow> k3dNode params" where
  "findParams depth searchPt deadDistSqr =
     \<lparr>sp_view = viewNode, sp_pt = searchPt,
      sp_cut = (\<lambda>box best bestDistSqr. case best of None \<Rightarrow> False
                  | Some b \<Rightarrow> \<not> intersects box (k_loc b) bestDistSqr),
      sp_better = (\<lambda>n d bestDistSqr. d < bestDistSqr \<and> deadDistSqr < d),
      sp_cap = depth + 1\<rparr>"

definition findNearest :: "k3dTree1 \<Rightarrow> point \<Rightarrow> boundCube \<Rightarrow> rat \<Rightarrow> k3dNode option option" where
  "findNearest t searchPt domainCube deadDistSqr =
     (case tr_root t of None \<Rightarrow> None
      | Some r \<Rightarrow> map_option s_best (searchLoop (findParams (tr_maxDepth t) searchPt deadDistSqr) r
           \<lparr>s_cur = r, s_visit = FIRST_VISIT, s_stack = [], s_axis = 0, s_dom = domainCube,
            s_best = None, s_dist = FLT_MAX\<rparr>))"

fun findKNearest :: "k3dTree1 \<Rightarrow> point \<Rightarrow> boundCube \<Rightarrow> nat \<Rightarrow> rat \<Rightarrow> k3dNode list option" where
  "findKNearest t searchPt domainCube 0 deadDistSqr = Some []"
| "findKNearest t searchPt domainCube (Suc num) deadDistSqr =
     (case findNearest t searchPt domainCube deadDistSqr of
        None \<Rightarrow> None
      | Some None \<Rightarrow> Some []
      | Some (Some p) \<Rightarrow>
          map_option (Cons p) (findKNearest t searchPt domainCube num
            (f32 (sqrDist (k_loc p) searchPt + FLT_EPSILON))))"

section \<open>The construction\<close>

fun toShape :: "k3dNode \<Rightarrow> k3dNode shape" where
  "toShape (K3DNode l p a r) =
     Bin (case l of None \<Rightarrow> Tip | Some n \<Rightarrow> toShape n) (K3DNode l p a r) (case r of None \<Rightarrow> Tip | Some n \<Rightarrow> toShape n)"

definition optShape :: "k3dNode option \<Rightarrow> k3dNode shape" where
  "optShape x = (case x of None \<Rightarrow> Tip | Some n \<Rightarrow> toShape n)"

lemma toShape_opt: "toShape n = Bin (optShape (k_left n)) n (optShape (k_right n))"
  by (cases n) (simp add: optShape_def)

lemma rootOf_toShape [simp]: "rootOf (toShape n) = Some n"
  by (simp add: toShape_opt)

lemma rootOf_optShape [simp]: "rootOf (optShape x) = x"
  by (simp add: optShape_def split: option.split)

fun pointsOf :: "k3dNode shape \<Rightarrow> point multiset" where
  "pointsOf Tip = {#}"
| "pointsOf (Bin l n r) = add_mset (k_loc n) (pointsOf l + pointsOf r)"

fun medianTree :: "nat \<Rightarrow> k3dNode shape \<Rightarrow> bool" where
  "medianTree a Tip \<longleftrightarrow> True"
| "medianTree a (Bin l n r) \<longleftrightarrow>
     k_axis n = a \<and> (\<forall>p \<in># pointsOf l. sel p a \<le> sel (k_loc n) a) \<and> (\<forall>p \<in># pointsOf r. sel (k_loc n) a \<le> sel p a) \<and>
     (size (pointsOf r) = size (pointsOf l) \<or> size (pointsOf r) = size (pointsOf l) + 1) \<and>
     medianTree ((a + 1) mod 3) l \<and> medianTree ((a + 1) mod 3) r"

definition ptSorts :: "(nat \<Rightarrow> point list \<Rightarrow> point list) \<Rightarrow> bool" where
  "ptSorts srt \<longleftrightarrow> (\<forall>a xs. mset (srt a xs) = mset xs \<and> sorted (map (\<lambda>x. sel x a) (srt a xs)))"

definition deeper :: "nat \<Rightarrow> buildCount \<Rightarrow> buildCount" where
  "deeper depth s = (if depth > bs_depth s then s\<lparr>bs_depth := depth\<rparr> else s)"

definition buildPart :: "(nat \<Rightarrow> point list \<Rightarrow> point list) \<Rightarrow> (nat \<Rightarrow> bool) \<Rightarrow> point list \<Rightarrow> nat \<Rightarrow>
    buildCount \<Rightarrow> k3dNode option \<times> buildCount" where
  "buildPart srt ab xs depth s =
     (if xs = [] then (None, s)
      else let (n, s) = buildRecurse srt ab xs depth (s\<lparr>bs_reads := bs_reads s + 1\<rparr>) in (Some n, s))"

lemma buildRecurse_parts:
  fixes depth :: nat and s :: buildCount
  assumes "ptSorts srt" "\<forall>i. \<not> ab i" "pts \<noteq> []"
  defines "m \<equiv> (length pts - 1) div 2" and "xs \<equiv> srt (depth mod 3) pts"
  defines "L \<equiv> buildPart srt ab (take m xs) (depth + 1) (deeper depth s)"
  defines "R \<equiv> buildPart srt ab (drop (m + 1) xs) (depth + 1) (snd L)"
  shows "buildRecurse srt ab pts depth s =
    (K3DNode (fst L) (xs ! m) (depth mod 3) (fst R), (snd R)\<lparr>bs_nodes := bs_nodes (snd R) + 1\<rparr>)"
proof -
  have len: "length xs = length pts"
    using assms(1) mset_eq_length [of "srt (depth mod 3) pts" pts] by (simp add: ptSorts_def xs_def)
  have rest: "take (length pts - 1 - m) (drop (m + 1) xs) = drop (m + 1) xs"
    using len by simp
  have e: "take m xs = [] \<longleftrightarrow> m = 0" "drop (m + 1) xs = [] \<longleftrightarrow> m = length pts - 1"
    using len assms(3) by (auto simp: m_def)
  show ?thesis
    using assms(2) unfolding R_def L_def buildPart_def e
    by (subst buildRecurse.simps)
       (simp only: Let_def split_beta xs_def [symmetric] m_def [symmetric] rest deeper_def [symmetric]
         if_False if_True simp_thms fst_conv snd_conv if_distrib [of fst] if_distrib [of snd] cong: if_cong,
        cases "m = 0"; cases "m = length pts - 1"; simp)
qed

definition builtOver :: "nat \<Rightarrow> point list \<Rightarrow> buildCount \<Rightarrow> k3dNode option \<Rightarrow> buildCount \<Rightarrow> bool" where
  "builtOver depth pts s n s' \<longleftrightarrow>
     pointsOf (optShape n) = mset pts \<and> shaped viewNode (optShape n) \<and> medianTree (depth mod 3) (optShape n) \<and>
     (height (optShape n) = 0 \<or> depth + height (optShape n) \<le> Suc (bs_depth s')) \<and> bs_depth s \<le> bs_depth s' \<and>
     bs_nodes s' = bs_nodes s + length pts"

lemma viewNode_sel [simp]: "kv_pt viewNode = k_loc" "kv_left viewNode = k_left" "kv_right viewNode = k_right"
  by (simp_all add: viewNode_def)

lemma sorted_median:
  assumes "sorted (map f xs)" "m < length xs"
  shows "\<forall>x \<in> set (take m xs). f x \<le> f (xs ! m)" "\<forall>x \<in> set (drop (m + 1) xs). f (xs ! m) \<le> f x"
proof -
  have mono: "f (xs ! i) \<le> f (xs ! j)" if "i \<le> j" "j < length xs" for i j
    using sorted_nth_mono [OF assms(1), of i j] that by simp
  show "\<forall>x \<in> set (take m xs). f x \<le> f (xs ! m)"
    using mono assms(2) by (auto simp: in_set_conv_nth)
  show "\<forall>x \<in> set (drop (m + 1) xs). f (xs ! m) \<le> f x"
  proof
    fix x assume "x \<in> set (drop (m + 1) xs)"
    then obtain i where "i < length xs - (m + 1)" "x = xs ! (m + 1 + i)"
      by (auto simp: in_set_conv_nth)
    then show "f (xs ! m) \<le> f x"
      using mono [of m "m + 1 + i"] by simp
  qed
qed

lemma buildRecurse_result:
  assumes "ptSorts srt" "\<forall>i. \<not> ab i" "pts \<noteq> []"
  shows "builtOver depth pts s (Some (fst (buildRecurse srt ab pts depth s))) (snd (buildRecurse srt ab pts depth s)) \<and>
    depth \<le> bs_depth (snd (buildRecurse srt ab pts depth s))"
  using assms(3)
proof (induction "length pts" arbitrary: pts depth s rule: less_induct)
  case less
  define m where "m = (length pts - 1) div 2"
  define xs where "xs = srt (depth mod 3) pts"
  define L where "L = buildPart srt ab (take m xs) (depth + 1) (deeper depth s)"
  define R where "R = buildPart srt ab (drop (m + 1) xs) (depth + 1) (snd L)"
  have ms: "mset xs = mset pts" and so: "sorted (map (\<lambda>x. sel x (depth mod 3)) xs)"
    using assms(1) by (auto simp: ptSorts_def xs_def)
  have len: "length xs = length pts"
    using mset_eq_length [OF ms] .
  have "0 < length pts"
    using less.prems by simp
  then have m: "m < length xs" "0 < length pts"
    unfolding m_def len by linarith+
  have part: "builtOver (depth + 1) ys s1 (fst (buildPart srt ab ys (depth + 1) s1)) (snd (buildPart srt ab ys (depth + 1) s1))"
    if "length ys < length pts" for ys s1
  proof (cases "ys = []")
    case True
    then show ?thesis
      by (simp add: buildPart_def builtOver_def optShape_def)
  next
    case False
    then show ?thesis
      using less.hyps [OF that False, of "depth + 1" "s1\<lparr>bs_reads := bs_reads s1 + 1\<rparr>"]
      by (auto simp: buildPart_def builtOver_def split_beta)
  qed
  have l: "builtOver (depth + 1) (take m xs) (deeper depth s) (fst L) (snd L)"
    using part [of "take m xs"] m len by (simp add: L_def)
  have r: "builtOver (depth + 1) (drop (m + 1) xs) (snd L) (fst R) (snd R)"
    using part [of "drop (m + 1) xs"] m len by (simp add: R_def)
  have B: "buildRecurse srt ab pts depth s =
      (K3DNode (fst L) (xs ! m) (depth mod 3) (fst R), (snd R)\<lparr>bs_nodes := bs_nodes (snd R) + 1\<rparr>)"
    using buildRecurse_parts [OF assms(1,2) less.prems] by (simp add: m_def xs_def L_def R_def)
  have x: "mset xs = add_mset (xs ! m) (mset (take m xs) + mset (drop (m + 1) xs))"
    using take_drop_Cons [OF m(1)] by (metis Suc_eq_plus1 mset.simps(2) mset_append union_mset_add_mset_right)
  have sz: "length (drop (m + 1) xs) = length (take m xs) \<or> length (drop (m + 1) xs) = length (take m xs) + 1"
    using m len unfolding m_def by simp linarith
  have d: "bs_depth s \<le> bs_depth (deeper depth s)" "depth \<le> bs_depth (deeper depth s)" "bs_nodes (deeper depth s) = bs_nodes s"
    by (auto simp: deeper_def)
  note S = sorted_median [OF so m(1)]
  have sh: "optShape (Some (K3DNode (fst L) (xs ! m) (depth mod 3) (fst R))) =
      Bin (optShape (fst L)) (K3DNode (fst L) (xs ! m) (depth mod 3) (fst R)) (optShape (fst R))"
    by (simp add: optShape_def)
  have pl: "pointsOf (optShape (fst L)) = mset (take m xs)" "pointsOf (optShape (fst R)) = mset (drop (m + 1) xs)"
    using l r by (simp_all add: builtOver_def)
  have 1: "pointsOf (optShape (fst L)) + pointsOf (optShape (fst R)) + {#xs ! m#} = mset pts"
    using x ms by (simp add: pl)
  have 2: "shaped viewNode (optShape (fst L))" "shaped viewNode (optShape (fst R))"
    "medianTree (Suc depth mod 3) (optShape (fst L))" "medianTree (Suc depth mod 3) (optShape (fst R))"
    using l r by (simp_all add: builtOver_def)
  have 3: "\<forall>p \<in># pointsOf (optShape (fst L)). sel p (depth mod 3) \<le> sel (xs ! m) (depth mod 3)"
    "\<forall>p \<in># pointsOf (optShape (fst R)). sel (xs ! m) (depth mod 3) \<le> sel p (depth mod 3)"
    unfolding pl using S by simp_all
  have 4: "bs_depth (deeper depth s) \<le> bs_depth (snd L)" "bs_depth (snd L) \<le> bs_depth (snd R)"
    "bs_nodes (snd R) = bs_nodes s + length (take m xs) + length (drop (m + 1) xs)"
    using l r d by (simp_all add: builtOver_def)
  have 5: "height (optShape (fst L)) = 0 \<or> depth + 1 + height (optShape (fst L)) \<le> Suc (bs_depth (snd L))"
    "height (optShape (fst R)) = 0 \<or> depth + 1 + height (optShape (fst R)) \<le> Suc (bs_depth (snd R))"
    using l r by (simp_all add: builtOver_def)
  show ?case
    unfolding B builtOver_def sh fst_conv snd_conv
  proof (intro conjI)
    show "pointsOf (Bin (optShape (fst L)) (K3DNode (fst L) (xs ! m) (depth mod 3) (fst R)) (optShape (fst R))) = mset pts"
      using 1 by simp
    show "shaped viewNode (Bin (optShape (fst L)) (K3DNode (fst L) (xs ! m) (depth mod 3) (fst R)) (optShape (fst R)))"
      using 2 by simp
    show "medianTree (depth mod 3) (Bin (optShape (fst L)) (K3DNode (fst L) (xs ! m) (depth mod 3) (fst R)) (optShape (fst R)))"
      using 2 3 sz by (simp add: pl mod_Suc_eq)
    show "height (Bin (optShape (fst L)) (K3DNode (fst L) (xs ! m) (depth mod 3) (fst R)) (optShape (fst R))) = 0 \<or>
        depth + height (Bin (optShape (fst L)) (K3DNode (fst L) (xs ! m) (depth mod 3) (fst R)) (optShape (fst R)))
        \<le> Suc (bs_depth (snd R\<lparr>bs_nodes := bs_nodes (snd R) + 1\<rparr>))"
      using 4 5 d by (simp add: max_def) linarith
    show "bs_depth s \<le> bs_depth (snd R\<lparr>bs_nodes := bs_nodes (snd R) + 1\<rparr>)"
      "depth \<le> bs_depth (snd R\<lparr>bs_nodes := bs_nodes (snd R) + 1\<rparr>)"
      using 4 d by simp_all
    show "bs_nodes (snd R\<lparr>bs_nodes := bs_nodes (snd R) + 1\<rparr>) = bs_nodes s + length pts"
      using 4 m len by simp
  qed
qed

text \<open>
  Property C27. Without an abort \<^verbatim>\<open>build\<close> makes a tree that holds the points given, splits every range at its
  median (the two sides differ by one point at most), is ordered along the axes, and is no deeper
  than \<^verbatim>\<open>maxDepth\<close> records.
\<close>

theorem build1_median_tree:
  assumes "ptSorts srt" "\<forall>i. \<not> ab i" "pts \<noteq> []"
  shows "\<exists>n. tr_root (build1 byRef srt ab pts t) = Some n \<and> pointsOf (toShape n) = mset pts \<and>
    shaped viewNode (toShape n) \<and> medianTree 0 (toShape n) \<and>
    height (toShape n) \<le> Suc (tr_maxDepth (build1 byRef srt ab pts t)) \<and>
    treeSize (build1 byRef srt ab pts t) = length pts"
proof -
  let ?t = "(killTree t)\<lparr>treeSize := length pts, tr_maxDepth := 1\<rparr>"
  let ?b = "buildRecurse srt ab pts 0 \<lparr>bs_depth = 1, bs_nodes = (if byRef then 0 else curNodeCount ?t), bs_reads = 0\<rparr>"
  have "builtOver 0 pts \<lparr>bs_depth = 1, bs_nodes = (if byRef then 0 else curNodeCount ?t), bs_reads = 0\<rparr> (Some (fst ?b)) (snd ?b)"
    using buildRecurse_result [OF assms] by blast
  moreover have "height (toShape n) \<noteq> 0" for n
    by (simp add: toShape_opt)
  ultimately show ?thesis
    using assms(3) by (auto simp: build1_def Let_def split_beta builtOver_def optShape_def simp del: toShape.simps)
qed

section \<open>What the search returns\<close>

lemma nodes_size: "x \<in> nodesOf (toShape m) \<Longrightarrow> size x \<le> size m"
  by (induction m rule: toShape.induct) (auto split: option.splits)

lemma root_not_below:
  "r \<notin> nodesOf (optShape (k_left r))" "r \<notin> nodesOf (optShape (k_right r))"
  using nodes_size [of r] by (cases r; force simp: optShape_def split: option.splits)+

definition candidate :: "point \<Rightarrow> rat \<Rightarrow> k3dNode \<Rightarrow> bool" where
  "candidate p dead n \<longleftrightarrow> dead < sqrDist (k_loc n) p \<and> sqrDist (k_loc n) p < FLT_MAX"

text \<open>\<open>z\<close> is a candidate of \<open>S\<close>, or none has been found among the nodes \<open>V\<close>.\<close>

definition foundIn :: "point \<Rightarrow> rat \<Rightarrow> k3dNode set \<Rightarrow> k3dNode option \<times> rat \<Rightarrow> bool" where
  "foundIn p dead S z \<longleftrightarrow>
     (case fst z of Some n \<Rightarrow> n \<in> S \<and> candidate p dead n \<and> snd z = sqrDist (k_loc n) p
      | None \<Rightarrow> snd z = FLT_MAX \<and> (\<forall>n \<in> S. \<not> candidate p dead n))"

lemma findParams_sel [simp]:
  "sp_view (findParams d p dead) = viewNode" "sp_pt (findParams d p dead) = p" "sp_cap (findParams d p dead) = Suc d"
  "sp_cut (findParams d p dead) box None x \<longleftrightarrow> False"
  "sp_better (findParams d p dead) n y x \<longleftrightarrow> y < x \<and> dead < y"
  by (simp_all add: findParams_def)

lemma promote_found:
  "foundIn p dead S z \<Longrightarrow> foundIn p dead (insert n S) (promote (findParams d p dead) n z)"
  by (auto simp: foundIn_def promote_def Let_def candidate_def split: option.splits)

lemma foundIn_more:
  "foundIn p dead S z \<Longrightarrow> fst z \<noteq> None \<Longrightarrow> foundIn p dead (S \<union> V) z"
  by (auto simp: foundIn_def split: option.splits)

lemma srch_found:
  "foundIn p dead S z \<Longrightarrow> foundIn p dead (S \<union> nodesOf T) (srch (findParams d p dead) a box T z)"
  "foundIn p dead S z \<Longrightarrow> T = Bin l n r \<Longrightarrow>
     foundIn p dead (S \<union> (nodesOf l \<union> nodesOf r)) (kids (findParams d p dead) a box T z)"
proof (induction "findParams d p dead" a box T z and "findParams d p dead" a box T z
    arbitrary: S and S l n r rule: srch_kids.induct)
  case (2 a box l n r z)
  show ?case
  proof (cases "sp_cut (findParams d p dead) box (fst z) (snd z)")
    case True
    then have "fst z \<noteq> None"
      by (cases "fst z") auto
    then show ?thesis
      using True foundIn_more [OF 2(2), of "nodesOf (Bin l n r)"] by simp
  next
    case False
    then show ?thesis
      using promote_found [OF 2(1) [OF False 2(2) refl], of n d] by simp
  qed
next
  case (4 a box l' n' r' z)
  note L = 4(1) [OF refl refl] and R = 4(2) [OF refl refl refl]
  show ?case
    using R [OF L [OF 4(3)]] L [OF R [OF 4(3)]] 4(4) by (auto simp: Let_def Un_ac)
qed simp_all

text \<open>
  Property C28. On a built tree \<^verbatim>\<open>findNearest\<close> ends within its stack arrays; what it returns is a point of
  the tree beyond the dead distance, and it returns null only if no point except the root's is. It
  never returns the root's point when the root has two children.
\<close>

theorem findNearest_result:
  assumes "tr_root t = Some r" "height (toShape r) \<le> Suc (tr_maxDepth t)"
  shows "\<exists>b. findNearest t p domainCube dead = Some b \<and>
    (case b of Some n \<Rightarrow> n \<in> nodesOf (toShape r) \<and> candidate p dead n
     | None \<Rightarrow> \<forall>n \<in> nodesOf (toShape r) - {r}. \<not> candidate p dead n) \<and>
    (k_left r \<noteq> None \<and> k_right r \<noteq> None \<longrightarrow> b \<noteq> Some r)"
proof -
  let ?q = "findParams (tr_maxDepth t) p dead"
  let ?l = "optShape (k_left r)" and ?r = "optShape (k_right r)"
  define s0 where "s0 = \<lparr>s_cur = r, s_visit = FIRST_VISIT, s_stack = [], s_axis = 0, s_dom = domainCube,
            s_best = None :: k3dNode option, s_dist = FLT_MAX\<rparr>"
  define z where "z = kids ?q (s_axis s0) (s_dom s0) (Bin ?l r ?r) (bestOf s0)"
  define z' where "z' = (if (if onLeft ?q r (s_axis s0) then ?r else ?l) = Tip then promote ?q r z else z)"
  have sh: "shaped viewNode (toShape n)" for n
    by (induction n rule: toShape.induct) (auto split: option.splits simp: toShape_opt optShape_def)
  have below: "shaped viewNode (optShape x)" for x
    using sh by (simp add: optShape_def split: option.split)
  have run: "map_option bestOf (searchLoop ?q r s0) = Some z'"
    unfolding z'_def z_def using below assms(2) root_not_below [of r]
    by (intro searchLoop_result) (auto simp: s0_def toShape_opt)
  have "foundIn p dead ({} \<union> (nodesOf ?l \<union> nodesOf ?r)) z"
    unfolding z_def by (rule srch_found(2) [OF _ refl]) (simp add: foundIn_def s0_def)
  then have f: "foundIn p dead (nodesOf ?l \<union> nodesOf ?r) z"
    by simp
  have f': "foundIn p dead (nodesOf (toShape r)) z' \<or> z' = z"
    using promote_found [OF f, of r] by (auto simp: z'_def toShape_opt)
  have two: "z' = z" if "k_left r \<noteq> None" "k_right r \<noteq> None"
    using that by (auto simp: z'_def optShape_def toShape_opt split: option.splits)
  have "case fst z' of Some n \<Rightarrow> n \<in> nodesOf (toShape r) \<and> candidate p dead n
     | None \<Rightarrow> \<forall>n \<in> nodesOf (toShape r) - {r}. \<not> candidate p dead n"
    using f f' by (auto simp: foundIn_def toShape_opt split: option.splits)
  moreover have "fst z' \<noteq> Some r" if "k_left r \<noteq> None" "k_right r \<noteq> None"
    using two [OF that] f root_not_below [of r] by (auto simp: foundIn_def)
  ultimately show ?thesis
    using run assms(1) by (auto simp: findNearest_def s0_def [symmetric])
qed

section \<open>Where it errs\<close>

definition sortAxis :: "nat \<Rightarrow> point list \<Rightarrow> point list" where
  "sortAxis a xs = sort_key (\<lambda>x. sel x a) xs"

text \<open>
  The nearest point is missed: with the points (0,0,0), (1,0,0) and (2,0,0) the search from
  (9/8,0,0) returns (2,0,0), because the root, (1,0,0), is not compared once it has two children.
\<close>

theorem findNearest_misses_root:
  "map_option (map_option k_loc)
     (findNearest (build1 True sortAxis (\<lambda>i. False) [Tri 0 0 0, Tri 1 0 0, Tri 2 0 0] (newK3DTree 0))
         (Tri (9/8) 0 0) (setBoundsPts (Tri 0 0 0) (Tri 2 0 0)) 0) = Some (Some (Tri 2 0 0)) \<and>
   sqrDist (Tri 1 0 0) (Tri (9/8) 0 0) < sqrDist (Tri 2 0 0) (Tri (9/8) 0 0)"
  by code_simp

text \<open>
  An example: a branch is cut off wrongly, because the test puts the sphere around the best point and
  not around the search point: from (1,0,0) the search returns (0,0,0) at distance 1 although
  (3/2,0,0) is in the tree.
\<close>

lemma findNearest_misses_branch:
  "map_option (map_option k_loc)
     (findNearest (build1 True sortAxis (\<lambda>i. False) [Tri 0 0 0, Tri (5/4) 50 0, Tri (3/2) 0 0] (newK3DTree 0))
         (Tri 1 0 0) (setBoundsPts (Tri 0 0 0) (Tri 2 50 0)) 0) = Some (Some (Tri 0 0 0)) \<and>
   sqrDist (Tri (3/2) 0 0) (Tri 1 0 0) < sqrDist (Tri 0 0 0) (Tri 1 0 0)"
  by code_simp

end
