(* ===== verification/K3DTreeMk2.thy ===== *)
theory K3DTreeMk2
  imports KDSearch
begin

text \<open>
  The index based k-d tree of src/src/backend/filters/algorithms/K3DTree-mk2.cpp: an array of points,
  sorted range by range, and beside it an array of nodes with the indices of the children. An index
  of \<^verbatim>\<open>(size_t)-1\<close> is None. \<^verbatim>\<open>std::sort\<close> is a parameter \<open>srt\<close>: it may arrange points with equal keys
  in any order, so all that is used of it is \<open>axisSorts\<close>. A write or read outside an array, or of
  the top of an empty stack, is None.
\<close>

section \<open>The tree and its construction\<close>

record knode =
  childLeft :: "nat option"
  childRight :: "nat option"
  tagged :: bool

record k3dTree =
  maxDepth :: nat
  indexedPoints :: "(point \<times> nat) list"
  nodes :: "knode list"
  treeRoot :: "nat option"
  treeBounds :: boundCube

text \<open>\<^verbatim>\<open>std::vector::resize\<close>: the old elements stay, new ones are default values.\<close>

definition resizeTo :: "nat \<Rightarrow> 'a \<Rightarrow> 'a list \<Rightarrow> 'a list" where
  "resizeTo n x xs = take n xs @ replicate (n - length xs) x"

definition resetPts :: "knode \<Rightarrow> point list \<Rightarrow> k3dTree \<Rightarrow> k3dTree" where
  "resetPts junk p t =
     t\<lparr>treeBounds := setBoundsVec p, indexedPoints := zip p [0..<length p],
       nodes := resizeTo (length p) junk (nodes t)\<rparr>"

definition resetPtsIon :: "knode \<Rightarrow> ionHit list \<Rightarrow> k3dTree \<Rightarrow> k3dTree" where
  "resetPtsIon junk p t =
     (let t1 = t\<lparr>indexedPoints := zip (map ih_pos p) [0..<length p],
                 nodes := resizeTo (length p) junk (nodes t)\<rparr>
      in if p = [] then t1 else t1\<lparr>treeBounds := getBoundCubeSerial p\<rparr>)"

definition clearAllTags :: "k3dTree \<Rightarrow> k3dTree" where
  "clearAllTags t = t\<lparr>nodes := map (\<lambda>n. n\<lparr>tagged := False\<rparr>) (nodes t)\<rparr>"

definition clearTags :: "nat list \<Rightarrow> k3dTree \<Rightarrow> k3dTree" where
  "clearTags is t = t\<lparr>nodes := fold (\<lambda>i ns. ns[i := (ns ! i)\<lparr>tagged := False\<rparr>]) is (nodes t)\<rparr>"

definition tagNode :: "nat \<Rightarrow> bool \<Rightarrow> k3dTree \<Rightarrow> k3dTree" where
  "tagNode i v t = t\<lparr>nodes := (nodes t)[i := (nodes t ! i)\<lparr>tagged := v\<rparr>]\<rparr>"

definition getTag :: "k3dTree \<Rightarrow> nat \<Rightarrow> bool" where
  "getTag t i = tagged (nodes t ! i)"

definition tagCount :: "k3dTree \<Rightarrow> nat" where
  "tagCount t = length (filter tagged (nodes t))"

definition getOrigIndex :: "k3dTree \<Rightarrow> nat \<Rightarrow> nat" where
  "getOrigIndex t i = snd (indexedPoints t ! i)"

definition ptAt :: "k3dTree \<Rightarrow> nat \<Rightarrow> point" where
  "ptAt t i = fst (indexedPoints t ! i)"

text \<open>A child link is written; outside of the array of nodes this is None.\<close>

definition setLeft :: "nat \<Rightarrow> nat option \<Rightarrow> k3dTree \<Rightarrow> k3dTree option" where
  "setLeft i c t = (if i < length (nodes t) then Some (t\<lparr>nodes := (nodes t)[i := (nodes t ! i)\<lparr>childLeft := c\<rparr>]\<rparr>) else None)"

definition setRight :: "nat \<Rightarrow> nat option \<Rightarrow> k3dTree \<Rightarrow> k3dTree option" where
  "setRight i c t = (if i < length (nodes t) then Some (t\<lparr>nodes := (nodes t)[i := (nodes t ! i)\<lparr>childRight := c\<rparr>]\<rparr>) else None)"

text \<open>Sorting the elements \<open>lo\<close> to \<open>hi\<close>, both included, and moving the split index up over equal keys
  until it is \<open>hi\<close>.\<close>

definition sortRange :: "(nat \<Rightarrow> (point \<times> nat) list \<Rightarrow> (point \<times> nat) list) \<Rightarrow> nat \<Rightarrow> nat \<Rightarrow> nat \<Rightarrow>
    (point \<times> nat) list \<Rightarrow> (point \<times> nat) list option" where
  "sortRange srt a lo hi xs =
     (if lo \<le> hi + 1 \<and> hi + 1 \<le> length xs
      then Some (take lo xs @ srt a (take (hi + 1 - lo) (drop lo xs)) @ drop (hi + 1) xs) else None)"

function slideSplit :: "(point \<times> nat) list \<Rightarrow> nat \<Rightarrow> nat \<Rightarrow> nat \<Rightarrow> nat option" where
  "slideSplit xs a hi i =
     (if i = hi then Some i
      else if i + 1 < length xs
      then (if sel (fst (xs ! i)) a = sel (fst (xs ! (i + 1))) a then slideSplit xs a hi (i + 1) else Some i)
      else None)"
  by pat_completeness auto
termination by (relation "measure (\<lambda>(xs, a, hi, i). length xs - i)") auto

declare slideSplit.simps [simp del]

datatype buildStatus = BUILT_NONE | BUILT_LEFT | BUILT_BOTH

text \<open>The stacks of \<^verbatim>\<open>build\<close>; \<open>b_ptr\<close> is \<^verbatim>\<open>childPtr\<close>, a node with True for its left child.\<close>

record buildState =
  b_tree :: k3dTree
  b_limits :: "(nat \<times> nat) list"
  b_status :: "buildStatus list"
  b_splits :: "nat option list"
  b_ptr :: "(nat \<times> bool) option"

definition writePtr :: "nat \<times> bool \<Rightarrow> nat option \<Rightarrow> k3dTree \<Rightarrow> k3dTree option" where
  "writePtr p c t = (if snd p then setLeft (fst p) c t else setRight (fst p) c t)"

definition stepNone :: "(nat \<Rightarrow> (point \<times> nat) list \<Rightarrow> (point \<times> nat) list) \<Rightarrow> nat \<times> nat \<Rightarrow> buildStatus list \<Rightarrow>
    buildState \<Rightarrow> buildState option" where
  "stepNone srt lm B s =
     (let (lo, hi) = lm; a = (length (b_limits s) - 1) mod 3
      in Option.bind (sortRange srt a lo hi (indexedPoints (b_tree s))) (\<lambda>xs.
         Option.bind (slideSplit xs a hi ((hi + lo) div 2)) (\<lambda>sp.
         let t = (b_tree s)\<lparr>indexedPoints := xs\<rparr>
         in Option.bind (if length (b_limits s) = 1 then Some (t\<lparr>treeRoot := Some sp\<rparr>)
                         else Option.bind (b_ptr s) (\<lambda>p. writePtr p (Some sp) t)) (\<lambda>t.
            if sp > lo
            then Some (s\<lparr>b_tree := t, b_limits := (lo, sp - 1) # b_limits s,
                         b_status := BUILT_NONE # BUILT_LEFT # B, b_splits := Some sp # b_splits s,
                         b_ptr := Some (sp, True)\<rparr>)
            else map_option (\<lambda>t. s\<lparr>b_tree := t, b_status := BUILT_LEFT # B, b_splits := Some sp # b_splits s\<rparr>)
                   (setLeft sp None t)))))"

definition stepLeft :: "nat \<times> nat \<Rightarrow> buildStatus list \<Rightarrow> buildState \<Rightarrow> buildState option" where
  "stepLeft lm B s =
     (case b_splits s of Some sp # _ \<Rightarrow>
        if sp < snd lm
        then Some (s\<lparr>b_limits := (sp + 1, snd lm) # b_limits s,
                     b_status := BUILT_NONE # BUILT_BOTH # B, b_ptr := Some (sp, False)\<rparr>)
        else map_option (\<lambda>t. s\<lparr>b_tree := t, b_status := BUILT_BOTH # B\<rparr>) (setRight sp None (b_tree s))
      | _ \<Rightarrow> None)"

definition stepBoth :: "buildState \<Rightarrow> buildState option" where
  "stepBoth s =
     (case (b_limits s, b_status s, b_splits s) of
        (_ # ls, _ # B, _ # sps) \<Rightarrow>
          Some (s\<lparr>b_tree := (b_tree s)\<lparr>maxDepth := max (maxDepth (b_tree s)) (length (b_limits s))\<rparr>,
                  b_limits := ls, b_status := B, b_splits := sps\<rparr>)
      | _ \<Rightarrow> None)"

definition buildStep :: "(nat \<Rightarrow> (point \<times> nat) list \<Rightarrow> (point \<times> nat) list) \<Rightarrow> buildState \<Rightarrow> buildState option" where
  "buildStep srt s =
     (case (b_limits s, b_status s) of
        (lm # _, BUILT_NONE # B) \<Rightarrow> stepNone srt lm B s
      | (lm # _, BUILT_LEFT # B) \<Rightarrow> stepLeft lm B s
      | (lm # _, BUILT_BOTH # B) \<Rightarrow> stepBoth s
      | _ \<Rightarrow> None)"

text \<open>\<open>ab i\<close> is the abort flag as it is read after the step number \<open>i\<close>.\<close>

partial_function (option) buildLoop :: "(nat \<Rightarrow> (point \<times> nat) list \<Rightarrow> (point \<times> nat) list) \<Rightarrow> (nat \<Rightarrow> bool) \<Rightarrow>
    nat \<Rightarrow> buildState \<Rightarrow> (bool \<times> k3dTree) option" where
  "buildLoop srt ab i s =
     (case buildStep srt s of None \<Rightarrow> None
      | Some s' \<Rightarrow> if ab i then Some (False, b_tree s')
                 else if b_limits s' = [] then Some (True, b_tree s')
                 else buildLoop srt ab (i + 1) s')"

declare buildLoop.simps [code]

definition buildTree :: "(nat \<Rightarrow> (point \<times> nat) list \<Rightarrow> (point \<times> nat) list) \<Rightarrow> (nat \<Rightarrow> bool) \<Rightarrow> k3dTree \<Rightarrow>
    (bool \<times> k3dTree) option" where
  "buildTree srt ab t =
     (let t0 = (clearAllTags t)\<lparr>maxDepth := 0\<rparr>
      in if indexedPoints t0 = [] then Some (True, t0)
         else buildLoop srt ab 0 \<lparr>b_tree = t0, b_limits = [(0, length (indexedPoints t0) - 1)],
                                 b_status = [BUILT_NONE], b_splits = [None], b_ptr = None\<rparr>)"

text \<open>What is used of \<^verbatim>\<open>std::sort\<close>: a rearrangement of the elements in ascending order of the axis.\<close>

definition axisSorts :: "(nat \<Rightarrow> (point \<times> nat) list \<Rightarrow> (point \<times> nat) list) \<Rightarrow> bool" where
  "axisSorts srt \<longleftrightarrow> (\<forall>a xs. mset (srt a xs) = mset xs \<and> sorted (map (\<lambda>x. sel (fst x) a) (srt a xs)))"

section \<open>The steps within the arrays\<close>

text \<open>What the guarded operations do when their indices are in range.\<close>

definition withLeft :: "nat \<Rightarrow> nat option \<Rightarrow> k3dTree \<Rightarrow> k3dTree" where
  "withLeft i c t = t\<lparr>nodes := (nodes t)[i := (nodes t ! i)\<lparr>childLeft := c\<rparr>]\<rparr>"

definition withRight :: "nat \<Rightarrow> nat option \<Rightarrow> k3dTree \<Rightarrow> k3dTree" where
  "withRight i c t = t\<lparr>nodes := (nodes t)[i := (nodes t ! i)\<lparr>childRight := c\<rparr>]\<rparr>"

definition withPtr :: "nat \<times> bool \<Rightarrow> nat option \<Rightarrow> k3dTree \<Rightarrow> k3dTree" where
  "withPtr p c t = (if snd p then withLeft (fst p) c t else withRight (fst p) c t)"

definition sortedRange :: "(nat \<Rightarrow> (point \<times> nat) list \<Rightarrow> (point \<times> nat) list) \<Rightarrow> nat \<Rightarrow> nat \<Rightarrow> nat \<Rightarrow>
    (point \<times> nat) list \<Rightarrow> (point \<times> nat) list" where
  "sortedRange srt a lo hi xs = take lo xs @ srt a (take (hi + 1 - lo) (drop lo xs)) @ drop (hi + 1) xs"

function slid :: "(point \<times> nat) list \<Rightarrow> nat \<Rightarrow> nat \<Rightarrow> nat \<Rightarrow> nat" where
  "slid xs a hi i =
     (if i < hi \<and> sel (fst (xs ! i)) a = sel (fst (xs ! (i + 1))) a then slid xs a hi (i + 1) else i)"
  by pat_completeness auto
termination by (relation "measure (\<lambda>(xs, a, hi, i). hi - i)") auto

declare slid.simps [simp del]

lemma guarded_in_range:
  "i < length (nodes t) \<Longrightarrow> setLeft i c t = Some (withLeft i c t)"
  "i < length (nodes t) \<Longrightarrow> setRight i c t = Some (withRight i c t)"
  "fst p < length (nodes t) \<Longrightarrow> writePtr p c t = Some (withPtr p c t)"
  "lo \<le> hi \<Longrightarrow> hi < length xs \<Longrightarrow> sortRange srt a lo hi xs = Some (sortedRange srt a lo hi xs)"
  by (simp_all add: setLeft_def setRight_def writePtr_def sortRange_def withLeft_def withRight_def withPtr_def sortedRange_def)

lemma slideSplit_in_range: "i \<le> hi \<Longrightarrow> hi < length xs \<Longrightarrow> slideSplit xs a hi i = Some (slid xs a hi i)"
proof (induction xs a hi i rule: slid.induct)
  case (1 xs a hi i)
  then show ?case
    by (subst slideSplit.simps, subst slid.simps) auto
qed

section \<open>What a k-d tree is\<close>

definition viewOf :: "k3dTree \<Rightarrow> nat view" where
  "viewOf t = \<lparr>kv_pt = ptAt t, kv_left = (\<lambda>i. childLeft (nodes t ! i)), kv_right = (\<lambda>i. childRight (nodes t ! i))\<rparr>"

text \<open>The points left of a node do not exceed it on its axis, those right of it are not below it.\<close>

fun splits :: "'n view \<Rightarrow> nat \<Rightarrow> 'n shape \<Rightarrow> bool" where
  "splits v a Tip \<longleftrightarrow> True"
| "splits v a (Bin l n r) \<longleftrightarrow>
     (\<forall>m \<in> nodesOf l. sel (kv_pt v m) a \<le> sel (kv_pt v n) a) \<and>
     (\<forall>m \<in> nodesOf r. sel (kv_pt v n) a \<le> sel (kv_pt v m) a) \<and>
     splits v ((a + 1) mod 3) l \<and> splits v ((a + 1) mod 3) r"

text \<open>The nodes of a subtree are a contiguous block of the array.\<close>

fun block :: "nat \<Rightarrow> nat \<Rightarrow> nat shape \<Rightarrow> bool" where
  "block lo hi Tip \<longleftrightarrow> lo = hi"
| "block lo hi (Bin l n r) \<longleftrightarrow> block lo n l \<and> block (n + 1) hi r"

definition kdTree :: "k3dTree \<Rightarrow> nat shape \<Rightarrow> bool" where
  "kdTree t T \<longleftrightarrow>
     shaped (viewOf t) T \<and> splits (viewOf t) 0 T \<and> block 0 (length (indexedPoints t)) T \<and>
     treeRoot t = rootOf T \<and> height T \<le> maxDepth t \<and> length (nodes t) = length (indexedPoints t)"

lemma block_nodes: "block lo hi T \<Longrightarrow> lo \<le> hi \<and> nodesOf T = {lo..<hi}"
proof (induction T arbitrary: lo hi)
  case (Bin l n r)
  then have "lo \<le> n" "nodesOf l = {lo..<n}" "n + 1 \<le> hi" "nodesOf r = {n + 1..<hi}"
    by auto
  then show ?case
    by auto
qed simp

lemma shaped_cong:
  "\<forall>m \<in> nodesOf T. kv_left v m = kv_left w m \<and> kv_right v m = kv_right w m \<Longrightarrow> shaped v T = shaped w T"
  by (induction T) auto

lemma splits_cong:
  "\<forall>m \<in> nodesOf T. kv_pt v m = kv_pt w m \<Longrightarrow> splits v a T = splits w a T"
  by (induction T arbitrary: a) auto

section \<open>The construction gives a k-d tree\<close>

lemma setChild_sel [simp]:
  "indexedPoints (withLeft i c t) = indexedPoints t" "indexedPoints (withRight i c t) = indexedPoints t"
  "treeRoot (withLeft i c t) = treeRoot t" "treeRoot (withRight i c t) = treeRoot t"
  "treeBounds (withLeft i c t) = treeBounds t" "treeBounds (withRight i c t) = treeBounds t"
  "maxDepth (withLeft i c t) = maxDepth t" "maxDepth (withRight i c t) = maxDepth t"
  "length (nodes (withLeft i c t)) = length (nodes t)" "length (nodes (withRight i c t)) = length (nodes t)"
  by (simp_all add: withLeft_def withRight_def)

lemma setChild_nth:
  "j \<noteq> i \<Longrightarrow> nodes (withLeft i c t) ! j = nodes t ! j" "j \<noteq> i \<Longrightarrow> nodes (withRight i c t) ! j = nodes t ! j"
  "i < length (nodes t) \<Longrightarrow> nodes (withLeft i c t) ! i = (nodes t ! i)\<lparr>childLeft := c\<rparr>"
  "i < length (nodes t) \<Longrightarrow> nodes (withRight i c t) ! i = (nodes t ! i)\<lparr>childRight := c\<rparr>"
  by (simp_all add: withLeft_def withRight_def)

lemma setChild_tagged:
  "map tagged (nodes (withLeft i c t)) = map tagged (nodes t)"
  "map tagged (nodes (withRight i c t)) = map tagged (nodes t)"
proof -
  have *: "map tagged (xs[i := x]) = map tagged xs" if "tagged x = tagged (xs ! i)" for xs :: "knode list" and x
  proof (rule nth_equalityI)
    fix j assume "j < length (map tagged (xs[i := x]))"
    with that show "map tagged (xs[i := x]) ! j = map tagged xs ! j"
      by (cases "j = i") auto
  qed simp
  show "map tagged (nodes (withLeft i c t)) = map tagged (nodes t)"
    "map tagged (nodes (withRight i c t)) = map tagged (nodes t)"
    by (simp_all add: withLeft_def withRight_def *)
qed

lemma withPtr_sel [simp]:
  "indexedPoints (withPtr p c t) = indexedPoints t" "treeRoot (withPtr p c t) = treeRoot t"
  "treeBounds (withPtr p c t) = treeBounds t" "maxDepth (withPtr p c t) = maxDepth t"
  "length (nodes (withPtr p c t)) = length (nodes t)" "map tagged (nodes (withPtr p c t)) = map tagged (nodes t)"
  by (simp_all add: withPtr_def setChild_tagged)

text \<open>\<open>rebuilt lo hi t u\<close>: from \<open>t\<close> to \<open>u\<close> only the entries \<open>lo\<close> to \<open>hi - 1\<close> changed, and the points among
  them are the same.\<close>

definition rebuilt :: "nat \<Rightarrow> nat \<Rightarrow> k3dTree \<Rightarrow> k3dTree \<Rightarrow> bool" where
  "rebuilt lo hi t u \<longleftrightarrow>
     length (indexedPoints u) = length (indexedPoints t) \<and> length (nodes u) = length (nodes t) \<and>
     mset (indexedPoints u) = mset (indexedPoints t) \<and> map tagged (nodes u) = map tagged (nodes t) \<and>
     treeBounds u = treeBounds t \<and> treeRoot u = treeRoot t \<and>
     (\<forall>j. j < lo \<or> hi \<le> j \<longrightarrow> indexedPoints u ! j = indexedPoints t ! j \<and> nodes u ! j = nodes t ! j) \<and>
     (!) (indexedPoints u) ` {lo..<hi} = (!) (indexedPoints t) ` {lo..<hi}"

lemma rebuilt_refl: "rebuilt lo hi t t"
  by (simp add: rebuilt_def)

lemma rebuilt_trans:
  assumes "rebuilt lo hi t u" "rebuilt lo hi u w"
  shows "rebuilt lo hi t w"
  using assms unfolding rebuilt_def by (elim conjE, intro conjI) simp_all

lemma rebuilt_widen:
  assumes "rebuilt a b t u" "lo \<le> a" "a \<le> b" "b \<le> hi"
  shows "rebuilt lo hi t u"
proof -
  have e: "{lo..<hi} = {lo..<a} \<union> {a..<b} \<union> {b..<hi}"
    using assms by auto
  have "(!) (indexedPoints u) ` {lo..<a} = (!) (indexedPoints t) ` {lo..<a}"
    "(!) (indexedPoints u) ` {b..<hi} = (!) (indexedPoints t) ` {b..<hi}"
    using assms by (auto simp: rebuilt_def intro!: image_cong)
  then have "(!) (indexedPoints u) ` {lo..<hi} = (!) (indexedPoints t) ` {lo..<hi}"
    using assms(1) unfolding e rebuilt_def by (simp add: image_Un)
  then show ?thesis
    using assms unfolding rebuilt_def by auto
qed

lemma rebuilt_points:
  assumes "rebuilt lo hi t u" "\<forall>j \<in> {lo..<hi}. P (indexedPoints t ! j)" "j \<in> {lo..<hi}"
  shows "P (indexedPoints u ! j)"
proof -
  have "indexedPoints u ! j \<in> (!) (indexedPoints t) ` {lo..<hi}"
    using assms(1,3) unfolding rebuilt_def by blast
  with assms(2) show ?thesis
    by auto
qed

subsection \<open>Sorting and splitting a range\<close>

lemma slid_bounds: "i \<le> hi \<Longrightarrow> i \<le> slid xs a hi i \<and> slid xs a hi i \<le> hi"
  by (induction xs a hi i rule: slid.induct) (subst (1 2) slid.simps, auto)

lemma slid_stops:
  "i \<le> hi \<Longrightarrow> slid xs a hi i = hi \<or>
     sel (fst (xs ! slid xs a hi i)) a \<noteq> sel (fst (xs ! (slid xs a hi i + 1))) a"
proof (induction xs a hi i rule: slid.induct)
  case (1 xs a hi i)
  show ?case
  proof (cases "i < hi \<and> sel (fst (xs ! i)) a = sel (fst (xs ! (i + 1))) a")
    case True
    then have "slid xs a hi i = slid xs a hi (i + 1)"
      by (subst slid.simps) simp
    with 1 True show ?thesis
      by simp
  next
    case False
    then have "slid xs a hi i = i"
      by (subst slid.simps) (simp only: if_False)
    with 1 False show ?thesis
      by auto
  qed
qed

lemma sortedRange_nth:
  assumes "axisSorts srt" "lo \<le> hi" "hi < length xs"
  shows "length (sortedRange srt a lo hi xs) = length xs"
    and "mset (sortedRange srt a lo hi xs) = mset xs"
    and "j < lo \<or> hi + 1 \<le> j \<Longrightarrow> sortedRange srt a lo hi xs ! j = xs ! j"
    and "(!) (sortedRange srt a lo hi xs) ` {lo..<hi + 1} = (!) xs ` {lo..<hi + 1}"
    and "lo \<le> i \<Longrightarrow> i \<le> j \<Longrightarrow> j \<le> hi \<Longrightarrow>
      sel (fst (sortedRange srt a lo hi xs ! i)) a \<le> sel (fst (sortedRange srt a lo hi xs ! j)) a"
proof -
  define ys where "ys = take (hi + 1 - lo) (drop lo xs)"
  define zs where "zs = srt a ys"
  have z: "mset zs = mset ys" "sorted (map (\<lambda>x. sel (fst x) a) zs)"
    using assms(1) by (auto simp: axisSorts_def zs_def)
  have ly: "length ys = hi + 1 - lo"
    using assms by (simp add: ys_def)
  then have lz: "length zs = hi + 1 - lo"
    using mset_eq_length [OF z(1)] by simp
  have S: "sortedRange srt a lo hi xs = take lo xs @ zs @ drop (hi + 1) xs"
    by (simp add: sortedRange_def zs_def ys_def)
  have X: "xs = take lo xs @ ys @ drop (hi + 1) xs"
    using assms unfolding ys_def
    by (metis append_take_drop_id drop_drop le_add_diff_inverse2 trans_le_add1)
  show "length (sortedRange srt a lo hi xs) = length xs"
    unfolding S using assms lz by simp
  show "mset (sortedRange srt a lo hi xs) = mset xs"
    unfolding S using arg_cong [OF X, of mset] z(1) by simp
  show "sortedRange srt a lo hi xs ! j = xs ! j" if "j < lo \<or> hi + 1 \<le> j"
    unfolding S using that assms lz by (auto simp: nth_append)
  have at: "sortedRange srt a lo hi xs ! j = zs ! (j - lo)" if "lo \<le> j" "j \<le> hi" for j
    unfolding S using that assms lz by (auto simp: nth_append)
  have img: "(!) ws ` {lo..<hi + 1} = set vs" if "\<And>j. lo \<le> j \<Longrightarrow> j \<le> hi \<Longrightarrow> ws ! j = vs ! (j - lo)"
    "length vs = hi + 1 - lo" for ws vs :: "(point \<times> nat) list"
  proof -
    have "(!) ws ` {lo..<hi + 1} = (\<lambda>j. vs ! (j - lo)) ` {lo..<hi + 1}"
      using that(1) by (intro image_cong) auto
    also have "\<dots> = (!) vs ` ((\<lambda>j. j - lo) ` {lo..<hi + 1})"
      by (simp add: image_image)
    also have "(\<lambda>j. j - lo) ` {lo..<hi + 1} = {..<length vs}"
      using that(2) assms(2) by (auto simp: image_iff intro!: bexI [of _ "_ + lo"])
    also have "(!) vs ` {..<length vs} = set vs"
      by (simp add: lessThan_atLeast0 nth_image)
    finally show ?thesis .
  qed
  have "(!) xs ` {lo..<hi + 1} = set ys"
    using assms by (intro img) (simp_all add: ys_def)
  moreover have "(!) (sortedRange srt a lo hi xs) ` {lo..<hi + 1} = set zs"
    using at lz by (intro img) simp_all
  moreover have "set zs = set ys"
    using z(1) by (metis set_mset_mset)
  ultimately show "(!) (sortedRange srt a lo hi xs) ` {lo..<hi + 1} = (!) xs ` {lo..<hi + 1}"
    by simp
  show "sel (fst (sortedRange srt a lo hi xs ! i)) a \<le> sel (fst (sortedRange srt a lo hi xs ! j)) a"
    if "lo \<le> i" "i \<le> j" "j \<le> hi" for i j
  proof -
    have "sel (fst (zs ! (i - lo))) a \<le> sel (fst (zs ! (j - lo))) a"
      using sorted_nth_mono [OF z(2), of "i - lo" "j - lo"] that lz by simp
    with that show ?thesis
      by (simp add: at)
  qed
qed

subsection \<open>One segment of the array\<close>

definition resumeB :: "(nat \<Rightarrow> (point \<times> nat) list \<Rightarrow> (point \<times> nat) list) \<Rightarrow> (nat \<Rightarrow> bool) \<Rightarrow>
    nat \<Rightarrow> buildState \<Rightarrow> (bool \<times> k3dTree) option" where
  "resumeB srt ab i s = (if b_limits s = [] then Some (True, b_tree s) else buildLoop srt ab i s)"

lemma buildLoop_step:
  assumes "\<not> ab i" "buildStep srt s = Some s'"
  shows "buildLoop srt ab i s = resumeB srt ab (i + 1) s'"
  using assms by (subst buildLoop.simps) (simp add: resumeB_def)

definition writeRoot :: "buildState \<Rightarrow> nat option \<Rightarrow> k3dTree" where
  "writeRoot s c = (if tl (b_limits s) = [] then (b_tree s)\<lparr>treeRoot := c\<rparr>
                    else withPtr (the (b_ptr s)) c (b_tree s))"

lemma writeRoot_sel [simp]:
  "indexedPoints (writeRoot s c) = indexedPoints (b_tree s)" "maxDepth (writeRoot s c) = maxDepth (b_tree s)"
  "length (nodes (writeRoot s c)) = length (nodes (b_tree s))"
  by (simp_all add: writeRoot_def)

lemma stepNone_eq:
  fixes srt :: "nat \<Rightarrow> (point \<times> nat) list \<Rightarrow> (point \<times> nat) list" and s :: buildState
    and lo hi :: nat and L :: "(nat \<times> nat) list"
  assumes srt: "axisSorts srt" and s: "b_limits s = (lo, hi) # L" "lo \<le> hi" "hi < length (indexedPoints (b_tree s))"
      "length (nodes (b_tree s)) = length (indexedPoints (b_tree s))"
      "L = [] \<or> (\<exists>p. b_ptr s = Some p \<and> fst p < length (nodes (b_tree s)))"
  defines "xs \<equiv> sortedRange srt (length L mod 3) lo hi (indexedPoints (b_tree s))"
  defines "sp \<equiv> slid xs (length L mod 3) hi ((hi + lo) div 2)"
  shows "stepNone srt (lo, hi) B s =
    (let t = (writeRoot s (Some sp))\<lparr>indexedPoints := xs\<rparr> in
     Some (if sp > lo
           then s\<lparr>b_tree := t, b_limits := (lo, sp - 1) # (lo, hi) # L, b_status := BUILT_NONE # BUILT_LEFT # B,
                  b_splits := Some sp # b_splits s, b_ptr := Some (sp, True)\<rparr>
           else s\<lparr>b_tree := withLeft sp None t, b_status := BUILT_LEFT # B, b_splits := Some sp # b_splits s\<rparr>))"
proof -
  let ?t = "(b_tree s)\<lparr>indexedPoints := xs\<rparr>"
  have w: "withPtr p c (t\<lparr>indexedPoints := xs\<rparr>) = (withPtr p c t)\<lparr>indexedPoints := xs\<rparr>" for p c t
    by (simp add: withPtr_def withLeft_def withRight_def)
  have wr: "t\<lparr>treeRoot := c, indexedPoints := ys\<rparr> = t\<lparr>indexedPoints := ys, treeRoot := c\<rparr>" for t :: k3dTree and c ys
    by simp
  have len: "length xs = length (indexedPoints (b_tree s))"
    unfolding xs_def by (rule sortedRange_nth(1) [OF srt s(2,3)])
  have a: "(length (b_limits s) - 1) mod 3 = length L mod 3"
    by (simp add: s(1))
  have sort: "sortRange srt (length L mod 3) lo hi (indexedPoints (b_tree s)) = Some xs"
    unfolding xs_def by (rule guarded_in_range(4) [OF s(2,3)])
  have slide: "slideSplit xs (length L mod 3) hi ((hi + lo) div 2) = Some sp"
    unfolding sp_def by (rule slideSplit_in_range) (use s(2,3) len in simp_all)
  have "sp \<le> hi"
    using slid_bounds [of "(hi + lo) div 2" hi xs "length L mod 3"] s(2) unfolding sp_def by linarith
  then have left: "setLeft sp None t = Some (withLeft sp None t)" if "length (nodes t) = length (nodes (b_tree s))" for t
    using that s(3,4) by (intro guarded_in_range(1)) simp
  have root: "(if length (b_limits s) = 1 then Some (?t\<lparr>treeRoot := Some sp\<rparr>)
      else Option.bind (b_ptr s) (\<lambda>p. writePtr p (Some sp) ?t)) = Some ((writeRoot s (Some sp))\<lparr>indexedPoints := xs\<rparr>)"
  proof (cases "L = []")
    case False
    then obtain p where "b_ptr s = Some p" "fst p < length (nodes (b_tree s))"
      using s(5) by blast
    then show ?thesis
      using False s(1) by (simp add: writeRoot_def w guarded_in_range(3))
  qed (simp add: s(1) writeRoot_def wr)
  show ?thesis
    unfolding stepNone_def Let_def a prod.case
    by (simp only: sort slide root Option.bind.simps split del: if_split) (simp add: left s(1))
qed

text \<open>What the steps on one segment achieve, up to and including its removal from the stacks.\<close>

definition segmentDone :: "buildState \<Rightarrow> nat \<Rightarrow> nat \<Rightarrow> nat shape \<Rightarrow> buildState \<Rightarrow> bool" where
  "segmentDone s lo hi T s' \<longleftrightarrow>
     b_limits s' = tl (b_limits s) \<and> b_status s' = tl (b_status s) \<and> b_splits s' = b_splits s \<and>
     T \<noteq> Tip \<and> rebuilt lo (hi + 1) (writeRoot s (rootOf T)) (b_tree s') \<and>
     shaped (viewOf (b_tree s')) T \<and> splits (viewOf (b_tree s')) (length (tl (b_limits s)) mod 3) T \<and>
     block lo (hi + 1) T \<and> maxDepth (b_tree s') = max (maxDepth (b_tree s)) (length (tl (b_limits s)) + height T)"

text \<open>A child's part of the array, when it may be empty. \<open>u\<close> is the tree with the child link written.\<close>

definition childDone :: "nat \<Rightarrow> nat \<Rightarrow> nat \<Rightarrow> nat shape \<Rightarrow> k3dTree \<Rightarrow> k3dTree \<Rightarrow> bool" where
  "childDone d lo hi T u t \<longleftrightarrow>
     rebuilt lo hi u t \<and> shaped (viewOf t) T \<and> splits (viewOf t) (Suc d mod 3) T \<and> block lo hi T \<and>
     max (maxDepth t) (Suc d) = max (maxDepth u) (Suc d + height T)"

lemma childDone_Tip: "childDone d lo lo Tip u u"
  by (simp add: childDone_def rebuilt_refl)

lemma segment_child:
  assumes "segmentDone s lo hi T s'" "length (b_limits s) = Suc (Suc d)"
  shows "childDone d lo (hi + 1) T (writeRoot s (rootOf T)) (b_tree s')"
  using assms by (auto simp: segmentDone_def childDone_def)

text \<open>Putting the two children of a node together.\<close>

lemma children_node:
  assumes sp: "lo \<le> sp" "sp \<le> hi" "hi < length (indexedPoints t1)" "length (nodes t1) = length (indexedPoints t1)"
    and L: "childDone d lo sp Tl (withLeft sp (rootOf Tl) t1) t2"
    and R: "childDone d (sp + 1) (hi + 1) Tr (withRight sp (rootOf Tr) t2) t3"
    and le: "\<forall>j \<in> {lo..<sp}. sel (ptAt t1 j) (d mod 3) \<le> sel (ptAt t1 sp) (d mod 3)"
    and ge: "\<forall>j \<in> {sp + 1..<hi + 1}. sel (ptAt t1 sp) (d mod 3) \<le> sel (ptAt t1 j) (d mod 3)"
  defines "t4 \<equiv> t3\<lparr>maxDepth := max (maxDepth t3) (Suc d)\<rparr>"
  shows "rebuilt lo (hi + 1) t1 t4" "shaped (viewOf t4) (Bin Tl sp Tr)" "splits (viewOf t4) (d mod 3) (Bin Tl sp Tr)"
    "block lo (hi + 1) (Bin Tl sp Tr)" "maxDepth t4 = max (maxDepth t1) (d + height (Bin Tl sp Tr))"
proof -
  note Ld = L [unfolded childDone_def] and Rd = R [unfolded childDone_def]
  have r2: "rebuilt lo sp (withLeft sp (rootOf Tl) t1) t2" and r3: "rebuilt (sp + 1) (hi + 1) (withRight sp (rootOf Tr) t2) t3"
    using Ld Rd by auto
  have sl: "rebuilt lo (hi + 1) t (withLeft sp c t)" "rebuilt lo (hi + 1) t (withRight sp c t)" for c t
    using sp by (auto simp: rebuilt_def setChild_nth setChild_tagged)
  have "rebuilt lo (hi + 1) t1 t3"
    using rebuilt_trans [OF rebuilt_trans [OF rebuilt_trans [OF sl(1)
        rebuilt_widen [OF r2, of lo "hi + 1"]] sl(2)] rebuilt_widen [OF r3, of lo "hi + 1"]] sp
    by simp
  then show "rebuilt lo (hi + 1) t1 t4"
    by (simp add: rebuilt_def t4_def)
  have len: "length (nodes t2) = length (nodes t1)" "length (nodes t3) = length (nodes t1)"
    "length (indexedPoints t2) = length (indexedPoints t1)"
    using r2 r3 by (auto simp: rebuilt_def)
  have nl: "nodesOf Tl = {lo..<sp}" and nr: "nodesOf Tr = {sp + 1..<hi + 1}"
    using Ld Rd block_nodes by blast+
  have at2: "nodes t3 ! j = nodes t2 ! j" "indexedPoints t3 ! j = indexedPoints t2 ! j" if "j < sp" for j
    using r3 that by (auto simp: rebuilt_def setChild_nth)
  have sp2: "nodes t2 ! sp = (nodes t1 ! sp)\<lparr>childLeft := rootOf Tl\<rparr>" "indexedPoints t2 ! sp = indexedPoints t1 ! sp"
    using r2 sp by (auto simp: rebuilt_def setChild_nth)
  have sp3: "nodes t3 ! sp = (nodes t2 ! sp)\<lparr>childRight := rootOf Tr\<rparr>" "indexedPoints t3 ! sp = indexedPoints t1 ! sp"
    using r3 sp sp2(2) len by (auto simp: rebuilt_def setChild_nth)
  have view: "kv_pt (viewOf t4) = ptAt t3" "kv_left (viewOf t4) = (\<lambda>j. childLeft (nodes t3 ! j))"
    "kv_right (viewOf t4) = (\<lambda>j. childRight (nodes t3 ! j))"
    by (auto simp: viewOf_def t4_def ptAt_def)
  have "shaped (viewOf t4) Tl = shaped (viewOf t2) Tl"
    by (rule shaped_cong) (auto simp: nl at2 viewOf_def t4_def)
  moreover have "splits (viewOf t4) a Tl = splits (viewOf t2) a Tl" for a
    by (rule splits_cong) (auto simp: nl at2 viewOf_def ptAt_def t4_def)
  ultimately have "shaped (viewOf t4) Tl" "splits (viewOf t4) (Suc d mod 3) Tl"
    using Ld by auto
  moreover have "shaped (viewOf t4) Tr = shaped (viewOf t3) Tr"
    by (rule shaped_cong) (simp add: viewOf_def t4_def)
  moreover have "splits (viewOf t4) a Tr = splits (viewOf t3) a Tr" for a
    by (rule splits_cong) (simp add: viewOf_def ptAt_def t4_def)
  ultimately have "shaped (viewOf t4) Tl" "splits (viewOf t4) (Suc d mod 3) Tl"
    "shaped (viewOf t4) Tr" "splits (viewOf t4) (Suc d mod 3) Tr"
    using Rd by auto
  moreover have "sel (ptAt t3 j) (d mod 3) \<le> sel (ptAt t3 sp) (d mod 3)" if "j \<in> {lo..<sp}" for j
    using rebuilt_points [OF r2, of "\<lambda>x. sel (fst x) (d mod 3) \<le> sel (ptAt t1 sp) (d mod 3)" j] le that at2 sp3
    by (auto simp: ptAt_def)
  moreover have "sel (ptAt t3 sp) (d mod 3) \<le> sel (ptAt t3 j) (d mod 3)" if "j \<in> {sp + 1..<hi + 1}" for j
  proof -
    have "indexedPoints t2 ! k = indexedPoints t1 ! k" if "k \<in> {sp + 1..<hi + 1}" for k
      using r2 that by (auto simp: rebuilt_def)
    then show ?thesis
      using rebuilt_points [OF r3, of "\<lambda>x. sel (ptAt t1 sp) (d mod 3) \<le> sel (fst x) (d mod 3)" j] ge that sp3
      by (auto simp: ptAt_def)
  qed
  ultimately show "shaped (viewOf t4) (Bin Tl sp Tr)" "splits (viewOf t4) (d mod 3) (Bin Tl sp Tr)"
    using sp2 sp3 by (auto simp: view nl nr mod_Suc_eq)
  show "block lo (hi + 1) (Bin Tl sp Tr)"
    using Ld Rd by simp
  show "maxDepth t4 = max (maxDepth t1) (d + height (Bin Tl sp Tr))"
    using Ld Rd by (simp add: t4_def) linarith
qed

lemma build_segment:
  assumes srt: "axisSorts srt" and ab: "\<forall>i. \<not> ab i"
    and s: "b_limits s = (lo, hi) # L" "b_status s = BUILT_NONE # B" "lo \<le> hi"
      "hi < length (indexedPoints (b_tree s))" "length (nodes (b_tree s)) = length (indexedPoints (b_tree s))"
      "L = [] \<or> (\<exists>p. b_ptr s = Some p \<and> fst p < length (nodes (b_tree s)) \<and> \<not> (lo \<le> fst p \<and> fst p \<le> hi))"
      "b_splits s \<noteq> []"
  shows "\<exists>i' s' T. buildLoop srt ab i s = resumeB srt ab i' s' \<and> segmentDone s lo hi T s'"
  using s
proof (induction "hi - lo" arbitrary: s lo hi L B i rule: less_induct)
  case less
  define d where "d = length L"
  define xs where "xs = sortedRange srt (d mod 3) lo hi (indexedPoints (b_tree s))"
  define sp where "sp = slid xs (d mod 3) hi ((hi + lo) div 2)"
  define t1 where "t1 = (writeRoot s (Some sp))\<lparr>indexedPoints := xs\<rparr>"
  have sp: "lo \<le> sp" "sp \<le> hi"
    using slid_bounds [of "(hi + lo) div 2" hi xs "d mod 3"] less.prems(3)
    unfolding sp_def by linarith+
  note so = sortedRange_nth [OF srt less.prems(3,4), where a = "d mod 3", folded xs_def]
  have len: "hi < length (indexedPoints t1)" "length (nodes t1) = length (indexedPoints t1)"
    using less.prems so(1) by (simp_all add: t1_def)
  have key: "sel (fst (xs ! i)) (d mod 3) \<le> sel (fst (xs ! j)) (d mod 3)" if "lo \<le> i" "i \<le> j" "j \<le> hi" for i j
    using so(5) that by blast
  have le: "\<forall>j \<in> {lo..<sp}. sel (ptAt t1 j) (d mod 3) \<le> sel (ptAt t1 sp) (d mod 3)"
    and ge: "\<forall>j \<in> {sp + 1..<hi + 1}. sel (ptAt t1 sp) (d mod 3) \<le> sel (ptAt t1 j) (d mod 3)"
    using key sp by (auto simp: ptAt_def t1_def)
  have step: "buildStep srt s = stepNone srt (lo, hi) B s"
    by (simp add: buildStep_def less.prems)
  have none: "stepNone srt (lo, hi) B s =
     Some (if sp > lo
           then s\<lparr>b_tree := t1, b_limits := (lo, sp - 1) # (lo, hi) # L, b_status := BUILT_NONE # BUILT_LEFT # B,
                  b_splits := Some sp # b_splits s, b_ptr := Some (sp, True)\<rparr>
           else s\<lparr>b_tree := withLeft sp None t1, b_status := BUILT_LEFT # B, b_splits := Some sp # b_splits s\<rparr>)"
    using less.prems(6)
    by (subst stepNone_eq [OF srt less.prems(1,3,4,5)]) (auto simp: Let_def t1_def sp_def xs_def d_def)
  have "\<exists>i2 s2 Tl. buildLoop srt ab i s = resumeB srt ab i2 s2 \<and> b_limits s2 = (lo, hi) # L \<and>
      b_status s2 = BUILT_LEFT # B \<and> b_splits s2 = Some sp # b_splits s \<and>
      childDone d lo sp Tl (withLeft sp (rootOf Tl) t1) (b_tree s2)"
  proof (cases "lo < sp")
    case True
    define s1 where "s1 = s\<lparr>b_tree := t1, b_limits := (lo, sp - 1) # (lo, hi) # L, b_status := BUILT_NONE # BUILT_LEFT # B,
                  b_splits := Some sp # b_splits s, b_ptr := Some (sp, True)\<rparr>"
    have "buildLoop srt ab i s = buildLoop srt ab (i + 1) s1"
      using buildLoop_step [of ab i srt s s1] ab step none True by (simp add: resumeB_def s1_def)
    moreover have "\<exists>i' s' T. buildLoop srt ab (i + 1) s1 = resumeB srt ab i' s' \<and> segmentDone s1 lo (sp - 1) T s'"
    proof (rule less.hyps)
      show "sp - 1 - lo < hi - lo" "lo \<le> sp - 1"
        using True sp by linarith+
      show "b_limits s1 = (lo, sp - 1) # (lo, hi) # L" "b_status s1 = BUILT_NONE # BUILT_LEFT # B"
        "(lo, hi) # L = [] \<or> (\<exists>p. b_ptr s1 = Some p \<and> fst p < length (nodes (b_tree s1)) \<and> \<not> (lo \<le> fst p \<and> fst p \<le> sp - 1))"
        "sp - 1 < length (indexedPoints (b_tree s1))" "length (nodes (b_tree s1)) = length (indexedPoints (b_tree s1))"
        "b_splits s1 \<noteq> []"
        using True sp len by (simp_all add: s1_def)
    qed
    then obtain i2 s2 Tl where *: "buildLoop srt ab (i + 1) s1 = resumeB srt ab i2 s2" "segmentDone s1 lo (sp - 1) Tl s2"
      by blast
    moreover have "childDone d lo sp Tl (withLeft sp (rootOf Tl) t1) (b_tree s2)"
      using segment_child [OF *(2), of d] True by (simp add: s1_def d_def writeRoot_def withPtr_def)
    ultimately show ?thesis
      using True by (intro exI [of _ i2] exI [of _ s2] exI [of _ Tl]) (simp add: segmentDone_def s1_def)
  next
    case False
    define s1 where "s1 = s\<lparr>b_tree := withLeft sp None t1, b_status := BUILT_LEFT # B, b_splits := Some sp # b_splits s\<rparr>"
    have "buildLoop srt ab i s = resumeB srt ab (i + 1) s1"
      using buildLoop_step [of ab i srt s s1] ab step none False by (simp add: s1_def)
    then show ?thesis
      using False sp less.prems
      by (intro exI [of _ "i + 1"] exI [of _ s1] exI [of _ Tip]) (simp add: s1_def childDone_Tip)
  qed
  then obtain i2 s2 Tl where s2: "buildLoop srt ab i s = resumeB srt ab i2 s2" "b_limits s2 = (lo, hi) # L"
      "b_status s2 = BUILT_LEFT # B" "b_splits s2 = Some sp # b_splits s"
      and L: "childDone d lo sp Tl (withLeft sp (rootOf Tl) t1) (b_tree s2)"
    by blast
  have len2: "length (indexedPoints (b_tree s2)) = length (indexedPoints t1)"
    "length (nodes (b_tree s2)) = length (indexedPoints t1)"
    using L len by (auto simp: childDone_def rebuilt_def)
  have step2: "buildStep srt s2 = Some (if sp < hi
        then s2\<lparr>b_limits := (sp + 1, hi) # (lo, hi) # L, b_status := BUILT_NONE # BUILT_BOTH # B, b_ptr := Some (sp, False)\<rparr>
        else s2\<lparr>b_tree := withRight sp None (b_tree s2), b_status := BUILT_BOTH # B\<rparr>)"
    using sp len len2 by (simp add: buildStep_def stepLeft_def s2 guarded_in_range(2))
  have "\<exists>i3 s3 Tr. resumeB srt ab i2 s2 = resumeB srt ab i3 s3 \<and> b_limits s3 = (lo, hi) # L \<and>
      b_status s3 = BUILT_BOTH # B \<and> b_splits s3 = Some sp # b_splits s \<and>
      childDone d (sp + 1) (hi + 1) Tr (withRight sp (rootOf Tr) (b_tree s2)) (b_tree s3)"
  proof (cases "sp < hi")
    case True
    define s1 where "s1 = s2\<lparr>b_limits := (sp + 1, hi) # (lo, hi) # L, b_status := BUILT_NONE # BUILT_BOTH # B,
        b_ptr := Some (sp, False)\<rparr>"
    have "resumeB srt ab i2 s2 = buildLoop srt ab (i2 + 1) s1"
      using buildLoop_step [of ab i2 srt s2 s1] ab step2 True by (simp add: resumeB_def s1_def s2)
    moreover have "\<exists>i' s' T. buildLoop srt ab (i2 + 1) s1 = resumeB srt ab i' s' \<and> segmentDone s1 (sp + 1) hi T s'"
    proof (rule less.hyps)
      show "hi - (sp + 1) < hi - lo" "sp + 1 \<le> hi"
        using True sp by linarith+
      show "b_limits s1 = (sp + 1, hi) # (lo, hi) # L" "b_status s1 = BUILT_NONE # BUILT_BOTH # B"
        "(lo, hi) # L = [] \<or> (\<exists>p. b_ptr s1 = Some p \<and> fst p < length (nodes (b_tree s1)) \<and> \<not> (sp + 1 \<le> fst p \<and> fst p \<le> hi))"
        "hi < length (indexedPoints (b_tree s1))" "length (nodes (b_tree s1)) = length (indexedPoints (b_tree s1))"
        "b_splits s1 \<noteq> []"
        using True sp len len2 by (simp_all add: s1_def s2)
    qed
    then obtain i3 s3 Tr where *: "buildLoop srt ab (i2 + 1) s1 = resumeB srt ab i3 s3" "segmentDone s1 (sp + 1) hi Tr s3"
      by blast
    moreover have "childDone d (sp + 1) (hi + 1) Tr (withRight sp (rootOf Tr) (b_tree s2)) (b_tree s3)"
      using segment_child [OF *(2), of d] True by (simp add: s1_def d_def writeRoot_def withPtr_def)
    ultimately show ?thesis
      by (intro exI [of _ i3] exI [of _ s3] exI [of _ Tr]) (simp add: segmentDone_def s1_def s2)
  next
    case False
    define s1 where "s1 = s2\<lparr>b_tree := withRight sp None (b_tree s2), b_status := BUILT_BOTH # B\<rparr>"
    have "resumeB srt ab i2 s2 = resumeB srt ab (i2 + 1) s1"
      using buildLoop_step [of ab i2 srt s2 s1] ab step2 False by (simp add: resumeB_def s1_def s2)
    then show ?thesis
      using False sp
      by (intro exI [of _ "i2 + 1"] exI [of _ s1] exI [of _ Tip]) (simp add: s1_def s2 childDone_Tip)
  qed
  then obtain i3 s3 Tr where s3: "resumeB srt ab i2 s2 = resumeB srt ab i3 s3" "b_limits s3 = (lo, hi) # L"
      "b_status s3 = BUILT_BOTH # B" "b_splits s3 = Some sp # b_splits s"
      and R: "childDone d (sp + 1) (hi + 1) Tr (withRight sp (rootOf Tr) (b_tree s2)) (b_tree s3)"
    by blast
  define s4 where "s4 = s3\<lparr>b_tree := (b_tree s3)\<lparr>maxDepth := max (maxDepth (b_tree s3)) (length (b_limits s3))\<rparr>,
      b_limits := L, b_status := B, b_splits := b_splits s\<rparr>"
  have "stepBoth s3 = Some s4"
    by (simp add: stepBoth_def s3 s4_def)
  then have "resumeB srt ab i3 s3 = resumeB srt ab (i3 + 1) s4"
    using buildLoop_step [of ab i3 srt s3 s4] ab by (simp add: buildStep_def s3 resumeB_def)
  moreover have "segmentDone s lo hi (Bin Tl sp Tr) s4"
  proof -
    note C = children_node [OF sp len L R le ge]
    have "rebuilt lo (hi + 1) (writeRoot s (Some sp)) t1"
      using so less.prems by (auto simp: rebuilt_def t1_def)
    from rebuilt_trans [OF this C(1)] C(2-) show ?thesis
      by (simp add: segmentDone_def s4_def s3 less.prems d_def t1_def)
  qed
  ultimately show ?case
    using s2(1) s3(1) by metis
qed

text \<open>
  Property C4. Unless it is told to abort, \<^verbatim>\<open>build\<close> returns, never leaves its arrays and stacks, and
  leaves a k-d tree over the same points whose depth is within \<^verbatim>\<open>maxDepth\<close>, with no point tagged.
\<close>

theorem build_correct:
  assumes "axisSorts srt" "\<forall>i. \<not> ab i" "indexedPoints t \<noteq> []" "length (nodes t) = length (indexedPoints t)"
  shows "\<exists>t' T. buildTree srt ab t = Some (True, t') \<and> kdTree t' T \<and> T \<noteq> Tip \<and>
    mset (indexedPoints t') = mset (indexedPoints t) \<and> tagCount t' = 0 \<and> treeBounds t' = treeBounds t"
proof -
  define t0 where "t0 = (clearAllTags t)\<lparr>maxDepth := 0\<rparr>"
  define s where "s = \<lparr>b_tree = t0, b_limits = [(0, length (indexedPoints t0) - 1)],
                                 b_status = [BUILT_NONE], b_splits = [None], b_ptr = None\<rparr>"
  have n: "indexedPoints t0 = indexedPoints t" "length (nodes t0) = length (indexedPoints t0)"
    using assms(4) by (simp_all add: t0_def clearAllTags_def)
  obtain i' s' T where *: "buildLoop srt ab 0 s = resumeB srt ab i' s'"
      "segmentDone s 0 (length (indexedPoints t) - 1) T s'"
    using build_segment [OF assms(1,2), of s 0 "length (indexedPoints t) - 1" "[]" "[]" 0] assms(3) n
    by (auto simp: s_def)
  have run: "buildTree srt ab t = Some (True, b_tree s')"
    using *(1) *(2) assms(3) n(1) unfolding buildTree_def t0_def [symmetric]
    by (simp add: s_def [symmetric] resumeB_def segmentDone_def) (simp add: s_def)
  have seg: "T \<noteq> Tip" "rebuilt 0 (length (indexedPoints t)) (t0\<lparr>treeRoot := rootOf T\<rparr>) (b_tree s')"
    "shaped (viewOf (b_tree s')) T" "splits (viewOf (b_tree s')) 0 T" "block 0 (length (indexedPoints t)) T"
    "maxDepth (b_tree s') = height T"
    using *(2) assms(3) by (auto simp: segmentDone_def s_def writeRoot_def t0_def)
  then have "map tagged (nodes (b_tree s')) = map tagged (nodes t0)"
    by (simp add: rebuilt_def)
  then have "\<forall>x \<in> set (map tagged (nodes (b_tree s'))). \<not> x"
    by (auto simp: t0_def clearAllTags_def)
  then have "tagCount (b_tree s') = 0"
    by (simp add: tagCount_def)
  moreover have "kdTree (b_tree s') T"
    using seg n by (simp add: kdTree_def rebuilt_def)
  ultimately show ?thesis
    using run seg n by (auto simp: rebuilt_def t0_def clearAllTags_def)
qed

end
