(* ===== verification/K3DTreeSearch.thy ===== *)
theory K3DTreeSearch
  imports K3DTreeMk2
begin

text \<open>
  The queries on the index based k-d tree (src/src/backend/filters/algorithms/K3DTree-mk2.cpp): the
  nearest point that is not tagged or not in a set, the points in a sphere, the contiguous blocks
  that lie wholly in a sphere, and the subtree around a box. Distances are the rounded ones the code
  computes; the theorems hold for them, not only up to rounding.
\<close>

section \<open>The nearest point\<close>

definition nearestParams :: "k3dTree \<Rightarrow> point \<Rightarrow> (nat \<Rightarrow> bool) \<Rightarrow> nat params" where
  "nearestParams t searchPt skipped =
     \<lparr>sp_view = viewOf t, sp_pt = searchPt,
      sp_cut = (\<lambda>box best bestDistSqr. \<not> intersects box searchPt bestDistSqr),
      sp_better = (\<lambda>n d bestDistSqr. \<not> skipped n \<and> d < bestDistSqr),
      sp_cap = maxDepth t + 1\<rparr>"

text \<open>The search proper: the start node is tried first, then the loop runs from it.\<close>

definition nearestFrom :: "k3dTree \<Rightarrow> point \<Rightarrow> boundCube \<Rightarrow> (nat \<Rightarrow> bool) \<Rightarrow> nat \<Rightarrow> nat option option" where
  "nearestFrom t searchPt domainCube skipped start =
     (let q = nearestParams t searchPt skipped; z = promote q start (None, FLT_MAX)
      in map_option s_best (searchLoop q start
           \<lparr>s_cur = start, s_visit = FIRST_VISIT, s_stack = [], s_axis = 0, s_dom = domainCube,
            s_best = fst z, s_dist = snd z\<rparr>))"

definition startNode :: "k3dTree \<Rightarrow> nat option \<Rightarrow> nat option" where
  "startNode t pseudoRoot = (case pseudoRoot of None \<Rightarrow> treeRoot t | Some r \<Rightarrow> Some r)"

definition findNearestUntagged :: "k3dTree \<Rightarrow> point \<Rightarrow> boundCube \<Rightarrow> bool \<Rightarrow> nat option \<Rightarrow>
    (k3dTree \<times> nat option) option" where
  "findNearestUntagged t searchPt domainCube shouldTag pseudoRoot =
     (if nodes t = [] then Some (t, None)
      else case startNode t pseudoRoot of None \<Rightarrow> None
      | Some start \<Rightarrow>
          (case nearestFrom t searchPt domainCube (getTag t) start of None \<Rightarrow> None
           | Some None \<Rightarrow> Some (t, None)
           | Some (Some b) \<Rightarrow> Some (tagNode b (getTag t b \<or> shouldTag) t, Some b)))"

definition findNearestWithSkip :: "k3dTree \<Rightarrow> point \<Rightarrow> boundCube \<Rightarrow> nat set \<Rightarrow> nat option \<Rightarrow>
    nat option option" where
  "findNearestWithSkip t searchPt domainCube skipPts pseudoRoot =
     (if nodes t = [] then Some None
      else case startNode t pseudoRoot of None \<Rightarrow> None
      | Some start \<Rightarrow> nearestFrom t searchPt domainCube (\<lambda>i. getTag t i \<or> i \<in> skipPts) start)"

section \<open>Points in a sphere\<close>

text \<open>
  A \<^verbatim>\<open>NodeWalk\<close> entry; its constructor takes the index as an \<^verbatim>\<open>unsigned int\<close>. \<open>childWalk\<close> is what the loop
  does for one child with its box: nothing, the queue of whole subtrees, or the queue of nodes.
\<close>

record nodeWalk =
  w_index :: nat
  w_cube :: boundCube
  w_depth :: nat

definition mkWalk :: "nat \<Rightarrow> boundCube \<Rightarrow> nat \<Rightarrow> nodeWalk" where
  "mkWalk i c d = \<lparr>w_index = i mod 2 ^ 32, w_cube = c, w_depth = d\<rparr>"

definition childWalk :: "point \<Rightarrow> rat \<Rightarrow> nat option \<Rightarrow> boundCube \<Rightarrow> nat \<Rightarrow> nodeWalk list \<times> nat list \<Rightarrow>
    nodeWalk list \<times> nat list" where
  "childWalk origin sqrRadius child cube depth qs =
     (case child of None \<Rightarrow> qs
      | Some c \<Rightarrow>
          if intersects cube origin sqrRadius
          then if containedInSphere cube origin sqrRadius then (fst qs, snd qs @ [c])
               else (fst qs @ [mkWalk c cube (depth + 1)], snd qs)
          else qs)"

partial_function (option) walkNodes :: "k3dTree \<Rightarrow> point \<Rightarrow> rat \<Rightarrow> nodeWalk list \<Rightarrow> nat list \<Rightarrow> nat list \<Rightarrow>
    (nat list \<times> nat list) option" where
  "walkNodes t origin sqrRadius nodeQueue idxQueue pts =
     (case nodeQueue of [] \<Rightarrow> Some (idxQueue, pts)
      | w # ws \<Rightarrow>
          (let i = w_index w; a = w_depth w mod 3; x = sel (ptAt t i) a;
               qs = childWalk origin sqrRadius (childLeft (nodes t ! i)) (setMax (w_cube w) a x) (w_depth w) (ws, idxQueue);
               rs = childWalk origin sqrRadius (childRight (nodes t ! i)) (setMin (w_cube w) a x) (w_depth w) qs
           in walkNodes t origin sqrRadius (fst rs) (snd rs)
                (if sqrDist (ptAt t i) origin < sqrRadius then pts @ [i] else pts)))"

definition optList :: "'a option \<Rightarrow> 'a list" where
  "optList x = (case x of None \<Rightarrow> [] | Some y \<Rightarrow> [y])"

partial_function (option) walkSubtrees :: "k3dTree \<Rightarrow> nat list \<Rightarrow> nat list \<Rightarrow> nat list option" where
  "walkSubtrees t idxQueue pts =
     (case idxQueue of [] \<Rightarrow> Some pts
      | i # is \<Rightarrow> walkSubtrees t (is @ optList (childLeft (nodes t ! i)) @ optList (childRight (nodes t ! i)))
                    (pts @ [i]))"

text \<open>The first test hands the radius itself to \<^verbatim>\<open>intersects\<close>, which expects its square.\<close>

definition ptsInSphere :: "k3dTree \<Rightarrow> point \<Rightarrow> rat \<Rightarrow> nat list \<Rightarrow> nat list option" where
  "ptsInSphere t origin radius pts =
     (if \<not> intersects (treeBounds t) origin radius then Some pts
      else case treeRoot t of None \<Rightarrow> None
      | Some r \<Rightarrow>
          (let sqrRadius = f32 (radius * radius)
           in case walkNodes t origin sqrRadius [mkWalk r (treeBounds t) 0] [] pts of None \<Rightarrow> None
              | Some (idxQueue, pts) \<Rightarrow> walkSubtrees t idxQueue pts))"

section \<open>Blocks in a sphere and the subtree of a box\<close>

text \<open>
  The queues of \<^verbatim>\<open>getTreesInSphere\<close> and the loop variable of \<^verbatim>\<open>getBoxInTree\<close> hold the indices as \<^verbatim>\<open>int\<close>: an index is
  narrowed to 32 signed bits when it is stored and widened, with its sign, when it is used. An access outside of
  the arrays is None.
\<close>

definition toInt :: "nat \<Rightarrow> int" where
  "toInt n = signed_take_bit 31 (int n)"

definition toSizeT :: "int \<Rightarrow> nat" where
  "toSizeT i = nat (i mod 2 ^ 64)"

definition sizeMinusOne :: "nat \<Rightarrow> nat" where
  "sizeMinusOne n = (n + (2 ^ 64 - 1)) mod 2 ^ 64"

text \<open>An entry of the four parallel queues: node, box, axis and the limits of its block.\<close>

record treeWalk =
  tw_node :: int
  tw_cube :: boundCube
  tw_axis :: nat
  tw_limits :: "int \<times> int"

definition pushTree :: "point \<Rightarrow> rat \<Rightarrow> nat option \<Rightarrow> boundCube \<Rightarrow> nat \<Rightarrow> int \<times> int \<Rightarrow> treeWalk list" where
  "pushTree pt sqrRad child cube axis limits =
     (case child of None \<Rightarrow> []
      | Some c \<Rightarrow> if intersects cube pt sqrRad
                  then [\<lparr>tw_node = toInt c, tw_cube = cube, tw_axis = (axis + 1) mod 3, tw_limits = limits\<rparr>] else [])"

partial_function (option) treesLoop :: "k3dTree \<Rightarrow> point \<Rightarrow> rat \<Rightarrow> treeWalk list \<Rightarrow> (nat \<times> nat) list \<Rightarrow>
    (nat \<times> nat) list option" where
  "treesLoop t pt sqrRad queue blocks =
     (case queue of [] \<Rightarrow> Some blocks
      | w # ws \<Rightarrow>
          if containedInSphere (tw_cube w) pt sqrRad
          then treesLoop t pt sqrRad ws (blocks @ [map_prod toSizeT toSizeT (tw_limits w)])
          else if intersects (tw_cube w) pt sqrRad
          then (let i = toSizeT (tw_node w); a = tw_axis w; x = sel (ptAt t i) a
                in if i < length (nodes t) \<and> i < length (indexedPoints t)
                   then treesLoop t pt sqrRad
                     (ws @ pushTree pt sqrRad (childLeft (nodes t ! i)) (setMax (tw_cube w) a x) a
                             (fst (tw_limits w), toInt (sizeMinusOne i))
                         @ pushTree pt sqrRad (childRight (nodes t ! i)) (setMin (tw_cube w) a x) a
                             (toInt (i + 1), snd (tw_limits w)))
                     blocks
                   else None)
          else treesLoop t pt sqrRad ws blocks)"

definition getTreesInSphere :: "k3dTree \<Rightarrow> point \<Rightarrow> rat \<Rightarrow> boundCube \<Rightarrow> (nat \<times> nat) list \<Rightarrow>
    (nat \<times> nat) list option" where
  "getTreesInSphere t pt sqrRad domainCube blocks =
     (case treeRoot t of None \<Rightarrow> Some blocks
      | Some r \<Rightarrow> treesLoop t pt sqrRad
          [\<lparr>tw_node = toInt r, tw_cube = domainCube, tw_axis = 0,
            tw_limits = (toInt 0, toInt (sizeMinusOne (length (nodes t))))\<rparr>] blocks)"

partial_function (option) boxLoop :: "k3dTree \<Rightarrow> boundCube \<Rightarrow> boundCube \<Rightarrow> boundCube \<Rightarrow> int \<Rightarrow> nat \<Rightarrow> nat option" where
  "boxLoop t box subBox curB curNode curAxis =
     (let i = toSizeT curNode
      in if \<not> containsCube curB subBox then Some i
         else if i < length (nodes t) \<and> i < length (indexedPoints t)
         then (let x = sel (ptAt t i) curAxis; k = segmentTriple box curAxis x
               in if k = 1 then Some i
                  else case (if k = 0 then childRight (nodes t ! i) else childLeft (nodes t ! i)) of
                         None \<Rightarrow> Some i
                       | Some c \<Rightarrow> boxLoop t box subBox (setBound curB curAxis (if k = 0 then 0 else 1) x) (toInt c)
                                     ((curAxis + 1) mod 3))
         else None)"

definition getBoxInTree :: "k3dTree \<Rightarrow> boundCube \<Rightarrow> nat option" where
  "getBoxInTree t box =
     (case treeRoot t of None \<Rightarrow> None
      | Some r \<Rightarrow> boxLoop t box (makeUnion (treeBounds t) box) (treeBounds t) (toInt r) 0)"

lemma toSizeT_toInt [simp]: "n < 2 ^ 31 \<Longrightarrow> toSizeT (toInt n) = n"
  by (simp add: toInt_def toSizeT_def signed_take_bit_int_eq_self)

lemma toSizeT_int [simp]: "n < 2 ^ 31 \<Longrightarrow> toSizeT (int n) = n"
  by (simp add: toSizeT_def)

lemma toInt_small [simp]: "n < 2 ^ 31 \<Longrightarrow> toInt n = int n"
  by (simp add: toInt_def signed_take_bit_int_eq_self)

lemma sizeMinusOne_pos: "0 < n \<Longrightarrow> n \<le> 2 ^ 31 \<Longrightarrow> sizeMinusOne n = n - 1"
proof -
  assume n: "0 < n" "n \<le> 2 ^ 31"
  then have "n + (2 ^ 64 - 1) = (n - 1) + 2 ^ 64"
    by simp
  then show "sizeMinusOne n = n - 1"
    unfolding sizeMinusOne_def using n(2) by (simp only: mod_add_self2) simp
qed

declare walkNodes.simps [code] walkSubtrees.simps [code] treesLoop.simps [code] boxLoop.simps [code]

section \<open>Correctness of the nearest point search\<close>

text \<open>\<open>z\<close> is the best of the nodes \<open>S\<close>, or none of them counts.\<close>

definition bestOver :: "k3dTree \<Rightarrow> point \<Rightarrow> (nat \<Rightarrow> bool) \<Rightarrow> nat set \<Rightarrow> nat option \<times> rat \<Rightarrow> bool" where
  "bestOver t p skipped S z \<longleftrightarrow>
     (\<forall>m \<in> S. \<not> skipped m \<longrightarrow> snd z \<le> sqrDist (ptAt t m) p) \<and> snd z \<le> FLT_MAX \<and>
     (case fst z of None \<Rightarrow> snd z = FLT_MAX
      | Some k \<Rightarrow> k \<in> S \<and> \<not> skipped k \<and> snd z = sqrDist (ptAt t k) p)"

lemma view_sel [simp]:
  "kv_pt (viewOf t) = ptAt t" "kv_left (viewOf t) = (\<lambda>i. childLeft (nodes t ! i))"
  "kv_right (viewOf t) = (\<lambda>i. childRight (nodes t ! i))"
  by (simp_all add: viewOf_def)

lemma params_sel [simp]:
  "sp_view (nearestParams t p sk) = viewOf t" "sp_pt (nearestParams t p sk) = p"
  "sp_cap (nearestParams t p sk) = Suc (maxDepth t)"
  "sp_cut (nearestParams t p sk) box b d \<longleftrightarrow> \<not> intersects box p d"
  "sp_better (nearestParams t p sk) n d d' \<longleftrightarrow> \<not> sk n \<and> d < d'"
  by (simp_all add: nearestParams_def)

lemma promote_best:
  "bestOver t p sk S z \<Longrightarrow> bestOver t p sk (insert n S) (promote (nearestParams t p sk) n z)"
  by (auto simp: bestOver_def promote_def Let_def split: option.splits)

lemma containsPt_setMax:
  "a < 3 \<Longrightarrow> containsPt c q \<Longrightarrow> sel q a \<le> x \<Longrightarrow> containsPt (setMax c a x) q"
  by (auto simp: containsPt_iff setMax_def sel_putc)

lemma containsPt_setMin:
  "a < 3 \<Longrightarrow> containsPt c q \<Longrightarrow> x \<le> sel q a \<Longrightarrow> containsPt (setMin c a x) q"
  by (auto simp: containsPt_iff setMin_def sel_putc)

text \<open>A branch that is cut off holds no better point.\<close>

lemma cut_best:
  assumes "bestOver t p sk S z" "\<not> intersects box p (snd z)" "\<forall>m \<in> N. containsPt box (ptAt t m)"
  shows "bestOver t p sk (S \<union> N) z"
proof -
  have "snd z \<le> sqrDist (ptAt t m) p" if "m \<in> N" for m
    using intersects_mono [of box "ptAt t m" p "snd z"] assms(2,3) that by (meson linear)
  then show ?thesis
    using assms(1) by (auto simp: bestOver_def split: option.splits)
qed

definition searchesBest :: "k3dTree \<Rightarrow> point \<Rightarrow> (nat \<Rightarrow> bool) \<Rightarrow> nat shape \<Rightarrow> bool" where
  "searchesBest t p sk T \<longleftrightarrow>
     (\<forall>a box S z. a < 3 \<and> splits (viewOf t) a T \<and> (\<forall>m \<in> nodesOf T. containsPt box (ptAt t m)) \<and>
        bestOver t p sk S z \<longrightarrow>
        bestOver t p sk (S \<union> nodesOf T) (srch (nearestParams t p sk) a box T z))"

lemma kids_best:
  assumes "searchesBest t p sk l" "searchesBest t p sk r" "a < 3" "splits (viewOf t) a (Bin l n r)"
    and "\<forall>m \<in> nodesOf (Bin l n r). containsPt box (ptAt t m)" "bestOver t p sk S z"
  shows "bestOver t p sk (S \<union> (nodesOf l \<union> nodesOf r)) (kids (nearestParams t p sk) a box (Bin l n r) z)"
proof -
  let ?q = "nearestParams t p sk" and ?x = "sel (ptAt t n) a" and ?a = "(a + 1) mod 3"
  have L: "bestOver t p sk (S' \<union> nodesOf l) (srch ?q ?a (setMax box a ?x) l y)" if "bestOver t p sk S' y" for S' y
    using assms(1) unfolding searchesBest_def
    by (elim allE [of _ ?a] allE [of _ "setMax box a ?x"] allE [of _ S'] allE [of _ y])
       (use assms(3-5) that in \<open>auto intro: containsPt_setMax\<close>)
  have R: "bestOver t p sk (S' \<union> nodesOf r) (srch ?q ?a (setMin box a ?x) r y)" if "bestOver t p sk S' y" for S' y
    using assms(2) unfolding searchesBest_def
    by (elim allE [of _ ?a] allE [of _ "setMin box a ?x"] allE [of _ S'] allE [of _ y])
       (use assms(3-5) that in \<open>auto intro: containsPt_setMin\<close>)
  show ?thesis
    using R [OF L [OF assms(6)]] L [OF R [OF assms(6)]] by (auto simp: Let_def Un_ac)
qed

lemma srch_best: "searchesBest t p sk T"
proof (induction T)
  case (Bin l n r)
  show ?case
    unfolding searchesBest_def
  proof (intro allI impI, elim conjE)
    fix a box S z
    assume *: "a < 3" "splits (viewOf t) a (Bin l n r)"
      "\<forall>m \<in> nodesOf (Bin l n r). containsPt box (ptAt t m)" "bestOver t p sk S z"
    show "bestOver t p sk (S \<union> nodesOf (Bin l n r)) (srch (nearestParams t p sk) a box (Bin l n r) z)"
    proof (cases "intersects box p (snd z)")
      case True
      then show ?thesis
        using promote_best [OF kids_best [OF Bin * ], of n] by simp
    next
      case False
      then show ?thesis
        using cut_best [OF *(4) False *(3)] by simp
    qed
  qed
qed (simp add: searchesBest_def)

lemma block_distinct: "block lo hi (Bin l n r) \<Longrightarrow> n \<notin> nodesOf l \<and> n \<notin> nodesOf r"
  using block_nodes by fastforce

lemma kdTree_nodes: "kdTree t T \<Longrightarrow> nodesOf T = {..<length (indexedPoints t)}"
  using block_nodes [of 0 "length (indexedPoints t)" T] by (simp add: kdTree_def lessThan_atLeast0)

lemma kdTree_root:
  assumes "kdTree t (Bin l n r)"
  shows "treeRoot t = Some n" "n < length (indexedPoints t)" "nodes t \<noteq> []"
  using assms kdTree_nodes [OF assms] by (auto simp: kdTree_def)

lemma nearestFrom_root:
  assumes "kdTree t (Bin l n r)" "\<forall>i < length (indexedPoints t). containsPt domainCube (ptAt t i)"
  shows "\<exists>z. nearestFrom t p domainCube sk n = Some (fst z) \<and>
    bestOver t p sk {..<length (indexedPoints t)} z"
proof -
  let ?q = "nearestParams t p sk"
  define z0 where "z0 = promote ?q n (None, FLT_MAX)"
  define z where "z = kids ?q 0 domainCube (Bin l n r) z0"
  have nodes: "nodesOf (Bin l n r) = {..<length (indexedPoints t)}"
    using assms(1) by (rule kdTree_nodes)
  have z0: "bestOver t p sk {n} z0"
    unfolding z0_def by (rule promote_best) (simp add: bestOver_def)
  have "bestOver t p sk ({n} \<union> (nodesOf l \<union> nodesOf r)) z"
    unfolding z_def using assms z0 nodes
    by (intro kids_best srch_best) (auto simp: kdTree_def)
  then have z: "bestOver t p sk {..<length (indexedPoints t)} z"
    using nodes by simp
  then have again: "promote ?q n z = z"
    using nodes by (auto simp: promote_def Let_def bestOver_def)
  define s0 where "s0 = \<lparr>s_cur = n, s_visit = FIRST_VISIT, s_stack = [], s_axis = 0,
      s_dom = domainCube, s_best = fst z0, s_dist = snd z0\<rparr>"
  have k: "kids ?q (s_axis s0) (s_dom s0) (Bin l n r) (bestOf s0) = z"
    by (simp add: s0_def z_def del: kids.simps)
  have "map_option bestOf (searchLoop ?q n s0) = Some z"
    using assms(1) block_distinct [of 0 "length (indexedPoints t)" l n r]
    by (subst searchLoop_result [of ?q l n r s0, unfolded k again])
       (auto simp: kdTree_def s0_def)
  then show ?thesis
    using z by (auto simp: nearestFrom_def Let_def z0_def [symmetric] s0_def)
qed

text \<open>
  Property C3. On a built tree, with a domain box around its points, \<^verbatim>\<open>findNearestUntagged\<close> ends within
  its stack arrays and returns an untagged point no other untagged point is closer than; it returns
  -1 only if every untagged point is at least the largest float away. The point found is tagged on request.
\<close>

theorem findNearestUntagged_nearest:
  assumes "kdTree t T" "T \<noteq> Tip" "\<forall>i < length (indexedPoints t). containsPt domainCube (ptAt t i)"
  shows "\<exists>t' b. findNearestUntagged t p domainCube shouldTag None = Some (t', b) \<and>
    (case b of
       None \<Rightarrow> t' = t \<and> (\<forall>i < length (indexedPoints t). \<not> getTag t i \<longrightarrow> FLT_MAX \<le> sqrDist (ptAt t i) p)
     | Some k \<Rightarrow> t' = tagNode k shouldTag t \<and> k < length (indexedPoints t) \<and> \<not> getTag t k \<and>
         (\<forall>i < length (indexedPoints t). \<not> getTag t i \<longrightarrow> sqrDist (ptAt t k) p \<le> sqrDist (ptAt t i) p))"
proof -
  obtain l n r where T: "T = Bin l n r"
    using assms(2) by (cases T) auto
  obtain z where z: "nearestFrom t p domainCube (getTag t) n = Some (fst z)"
      "bestOver t p (getTag t) {..<length (indexedPoints t)} z"
    using nearestFrom_root [OF _ assms(3)] assms(1) T by blast
  have "nodes t \<noteq> []" "startNode t None = Some n"
    using assms(1) kdTree_root by (auto simp: T startNode_def)
  then show ?thesis
    using z by (cases "fst z") (auto simp: findNearestUntagged_def bestOver_def)
qed

text \<open>
  \<^verbatim>\<open>findNearestWithSkip\<close> returns a nearest point among those neither tagged nor listed.
\<close>

theorem findNearestWithSkip_nearest:
  assumes "kdTree t T" "T \<noteq> Tip" "\<forall>i < length (indexedPoints t). containsPt domainCube (ptAt t i)"
  shows "\<exists>b. findNearestWithSkip t p domainCube skipPts None = Some b \<and>
    (case b of
       None \<Rightarrow> \<forall>i < length (indexedPoints t). getTag t i \<or> i \<in> skipPts \<or> FLT_MAX \<le> sqrDist (ptAt t i) p
     | Some k \<Rightarrow> k < length (indexedPoints t) \<and> \<not> getTag t k \<and> k \<notin> skipPts \<and>
         (\<forall>i < length (indexedPoints t). getTag t i \<or> i \<in> skipPts \<or> sqrDist (ptAt t k) p \<le> sqrDist (ptAt t i) p))"
proof -
  obtain l n r where T: "T = Bin l n r"
    using assms(2) by (cases T) auto
  obtain z where z: "nearestFrom t p domainCube (\<lambda>i. getTag t i \<or> i \<in> skipPts) n = Some (fst z)"
      "bestOver t p (\<lambda>i. getTag t i \<or> i \<in> skipPts) {..<length (indexedPoints t)} z"
    using nearestFrom_root [OF _ assms(3)] assms(1) T by blast
  have "nodes t \<noteq> []" "startNode t None = Some n"
    using assms(1) kdTree_root by (auto simp: T startNode_def)
  then show ?thesis
    using z by (cases "fst z") (auto simp: findNearestWithSkip_def bestOver_def)
qed

section \<open>Correctness of the sphere query\<close>

fun mnodes :: "'n shape \<Rightarrow> 'n multiset" where
  "mnodes Tip = {#}"
| "mnodes (Bin l n r) = add_mset n (mnodes l + mnodes r)"

lemma set_mnodes [simp]: "set_mset (mnodes T) = nodesOf T"
  by (induction T) auto

lemma block_mnodes: "block lo hi T \<Longrightarrow> mnodes T = mset_set {lo..<hi}"
proof (induction T arbitrary: lo hi)
  case (Bin l n r)
  then have "lo \<le> n" "n + 1 \<le> hi"
    using block_nodes by auto
  then have e: "{lo..<hi} = insert n ({lo..<n} \<union> {n + 1..<hi})"
    by auto
  have "mset_set {lo..<hi} = add_mset n (mset_set {lo..<n} + mset_set {n + 1..<hi})"
    unfolding e by (subst mset_set.insert) (auto simp: mset_set_Union)
  moreover have "mnodes l = mset_set {lo..<n}" "mnodes r = mset_set {n + 1..<hi}"
    using Bin by auto
  ultimately show ?case
    by simp
qed simp

definition walkOf :: "nat shape \<times> boundCube \<times> nat \<Rightarrow> nodeWalk" where
  "walkOf e = (case e of (T, c, d) \<Rightarrow> mkWalk (the (rootOf T)) c d)"

definition goodEntry :: "k3dTree \<Rightarrow> nat shape \<times> boundCube \<times> nat \<Rightarrow> bool" where
  "goodEntry t e \<longleftrightarrow> (case e of (T, c, d) \<Rightarrow>
     T \<noteq> Tip \<and> shaped (viewOf t) T \<and> splits (viewOf t) (d mod 3) T \<and>
     (\<forall>m \<in> nodesOf T. m < 2 ^ 32 \<and> containsPt c (ptAt t m)))"

definition insideTree :: "k3dTree \<Rightarrow> point \<Rightarrow> rat \<Rightarrow> nat shape \<Rightarrow> bool" where
  "insideTree t origin sqrRadius F \<longleftrightarrow>
     F \<noteq> Tip \<and> shaped (viewOf t) F \<and> (\<forall>m \<in> nodesOf F. sqrDist (ptAt t m) origin \<le> sqrRadius)"

definition farNodes :: "k3dTree \<Rightarrow> point \<Rightarrow> rat \<Rightarrow> nat multiset \<Rightarrow> bool" where
  "farNodes t origin sqrRadius D \<longleftrightarrow> (\<forall>m \<in># D. sqrRadius \<le> sqrDist (ptAt t m) origin)"

abbreviation msum :: "nat shape list \<Rightarrow> nat multiset" where
  "msum Ts \<equiv> sum_list (map mnodes Ts)"

lemma childWalk_result:
  assumes "shaped (viewOf t) C" "splits (viewOf t) (Suc d mod 3) C"
    and "\<forall>m \<in> nodesOf C. m < 2 ^ 32 \<and> containsPt cube (ptAt t m)"
  shows "\<exists>Es Fs D. childWalk origin sq (rootOf C) cube d (ws, is) =
      (ws @ map walkOf Es, is @ map (the \<circ> rootOf) Fs) \<and> (\<forall>e \<in> set Es. goodEntry t e) \<and>
      (\<forall>F \<in> set Fs. insideTree t origin sq F) \<and> farNodes t origin sq D \<and>
      msum (map fst Es) + msum Fs + D = mnodes C"
proof -
  consider (none) "C = Tip" | (out) "C \<noteq> Tip" "\<not> intersects cube origin sq"
    | (whole) "C \<noteq> Tip" "intersects cube origin sq" "containedInSphere cube origin sq"
    | (part) "C \<noteq> Tip" "intersects cube origin sq" "\<not> containedInSphere cube origin sq"
    by blast
  then show ?thesis
  proof cases
    case none
    then show ?thesis
      by (intro exI [of _ "[]"] exI [of _ "{#}"]) (simp add: childWalk_def farNodes_def)
  next
    case out
    have "sq \<le> sqrDist (ptAt t m) origin" if "m \<in> nodesOf C" for m
      using intersects_mono [of cube "ptAt t m" origin sq] out(2) assms(3) that by (meson linear)
    then show ?thesis
      using out by (cases C) (auto simp: childWalk_def farNodes_def intro!: exI [of _ "[]"])
  next
    case whole
    have "sqrDist (ptAt t m) origin \<le> sq" if "m \<in> nodesOf C" for m
      using containedInSphere_all [OF whole(3), of "ptAt t m"] assms(3) that by (metis sqrDist_commute)
    then have "insideTree t origin sq C"
      using assms whole(1) by (auto simp: insideTree_def)
    then show ?thesis
      using whole by (cases C)
        (auto simp: childWalk_def farNodes_def intro!: exI [of _ "[]"] exI [of _ "[C]"] exI [of _ "{#}"])
  next
    case part
    then have "goodEntry t (C, cube, Suc d)"
      using assms by (auto simp: goodEntry_def)
    then show ?thesis
      using part
      by (cases C, simp) (rule exI [of _ "[(C, cube, Suc d)]"], rule exI [of _ "[]"], rule exI [of _ "{#}"],
          simp add: childWalk_def walkOf_def farNodes_def)
  qed
qed

lemma walkNodes_result:
  assumes "\<forall>e \<in> set Es. goodEntry t e"
  shows "\<exists>Fs ps D. walkNodes t origin sq (map walkOf Es) is pts = Some (is @ map (the \<circ> rootOf) Fs, pts @ ps) \<and>
      (\<forall>F \<in> set Fs. insideTree t origin sq F) \<and> farNodes t origin sq D \<and>
      (\<forall>i \<in> set ps. sqrDist (ptAt t i) origin < sq) \<and> mset ps + msum Fs + D = msum (map fst Es)"
  using assms
proof (induction "size (msum (map fst Es))" arbitrary: Es "is" pts rule: less_induct)
  case less
  show ?case
  proof (cases Es)
    case Nil
    then show ?thesis
      by (subst walkNodes.simps) (auto simp: farNodes_def intro: exI [of _ "[]"])
  next
    case (Cons e Es')
    obtain T c d where e: "e = (T, c, d)"
      by (cases e)
    have good: "goodEntry t (T, c, d)"
      using less.prems Cons e by simp
    then obtain l i r where T: "T = Bin l i r"
      by (cases T) (auto simp: goodEntry_def)
    have i: "i < 2 ^ 32"
      using good by (simp add: goodEntry_def T)
    let ?x = "sel (ptAt t i) (d mod 3)" and ?ws = "map walkOf Es'"
    have a: "d mod 3 < 3" "(d mod 3 + 1) mod 3 = Suc d mod 3"
      by (simp_all add: mod_Suc_eq)
    obtain E1 F1 D1 where 1: "childWalk origin sq (rootOf l) (setMax c (d mod 3) ?x) d (?ws, is) =
        (?ws @ map walkOf E1, is @ map (the \<circ> rootOf) F1)" "\<forall>e \<in> set E1. goodEntry t e"
        "\<forall>F \<in> set F1. insideTree t origin sq F" "farNodes t origin sq D1"
        "msum (map fst E1) + msum F1 + D1 = mnodes l"
      using childWalk_result [of t l d "setMax c (d mod 3) ?x" origin sq ?ws "is"] good a
      by (auto simp: goodEntry_def T containsPt_setMax mod_Suc_eq)
    obtain E2 F2 D2 where 2: "childWalk origin sq (rootOf r) (setMin c (d mod 3) ?x) d
          (?ws @ map walkOf E1, is @ map (the \<circ> rootOf) F1) =
        ((?ws @ map walkOf E1) @ map walkOf E2, (is @ map (the \<circ> rootOf) F1) @ map (the \<circ> rootOf) F2)"
        "\<forall>e \<in> set E2. goodEntry t e"
        "\<forall>F \<in> set F2. insideTree t origin sq F" "farNodes t origin sq D2"
        "msum (map fst E2) + msum F2 + D2 = mnodes r"
      using childWalk_result [of t r d "setMin c (d mod 3) ?x" origin sq "?ws @ map walkOf E1" "is @ map (the \<circ> rootOf) F1"] good a
      by (auto simp: goodEntry_def T containsPt_setMin mod_Suc_eq)
    define hit where "hit = (sqrDist (ptAt t i) origin < sq)"
    define Es2 where "Es2 = Es' @ E1 @ E2"
    define is2 where "is2 = is @ map (the \<circ> rootOf) (F1 @ F2)"
    define pts2 where "pts2 = (if hit then pts @ [i] else pts)"
    have w: "walkOf e = \<lparr>w_index = i, w_cube = c, w_depth = d\<rparr>"
      using i by (simp add: walkOf_def e T mkWalk_def)
    have ch: "childLeft (nodes t ! i) = rootOf l" "childRight (nodes t ! i) = rootOf r"
      using good by (simp_all add: goodEntry_def T)
    have step: "walkNodes t origin sq (map walkOf Es) is pts = walkNodes t origin sq (map walkOf Es2) is2 pts2"
      by (subst walkNodes.simps) (simp add: Cons w Let_def ch 1(1) 2(1) Es2_def is2_def pts2_def hit_def)
    have tot: "msum (map fst Es) = add_mset i (mnodes l + mnodes r) + msum (map fst Es')"
      by (simp add: Cons e T)
    also have "mnodes l + mnodes r = msum (map fst E1) + msum F1 + D1 + (msum (map fst E2) + msum F2 + D2)"
      by (simp only: 1(5) [symmetric] 2(5) [symmetric])
    finally have tot: "msum (map fst Es) = add_mset i (msum (map fst Es2) + msum (F1 @ F2) + (D1 + D2))"
      by (simp add: Es2_def ac_simps)
    then have "size (msum (map fst Es2)) < size (msum (map fst Es))"
      by simp
    moreover have "\<forall>e \<in> set Es2. goodEntry t e"
      using less.prems 1(2) 2(2) Cons by (auto simp: Es2_def)
    ultimately obtain Fs ps D where IH: "walkNodes t origin sq (map walkOf Es2) is2 pts2 = Some (is2 @ map (the \<circ> rootOf) Fs, pts2 @ ps)"
        "\<forall>F \<in> set Fs. insideTree t origin sq F" "farNodes t origin sq D"
        "\<forall>i \<in> set ps. sqrDist (ptAt t i) origin < sq" "mset ps + msum Fs + D = msum (map fst Es2)"
      using less.hyps by blast
    show ?thesis
    proof (intro exI conjI)
      show "walkNodes t origin sq (map walkOf Es) is pts =
          Some (is @ map (the \<circ> rootOf) (F1 @ F2 @ Fs), pts @ ((if hit then [i] else []) @ ps))"
        unfolding step IH(1) by (simp add: is2_def pts2_def)
      show "\<forall>F \<in> set (F1 @ F2 @ Fs). insideTree t origin sq F"
        using 1(3) 2(3) IH(2) by auto
      show "farNodes t origin sq ((if hit then {#} else {#i#}) + D1 + D2 + D)"
        using 1(4) 2(4) IH(3) by (auto simp: farNodes_def hit_def)
      show "\<forall>j \<in> set ((if hit then [i] else []) @ ps). sqrDist (ptAt t j) origin < sq"
        using IH(4) by (auto simp: hit_def)
      show "mset ((if hit then [i] else []) @ ps) + msum (F1 @ F2 @ Fs) +
          ((if hit then {#} else {#i#}) + D1 + D2 + D) = msum (map fst Es)"
        unfolding tot IH(5) [symmetric] by (simp add: ac_simps)
    qed
  qed
qed

lemma walkSubtrees_result:
  assumes "\<forall>F \<in> set Fs. F \<noteq> Tip \<and> shaped (viewOf t) F"
  shows "\<exists>ps. walkSubtrees t (map (the \<circ> rootOf) Fs) pts = Some (pts @ ps) \<and> mset ps = msum Fs"
  using assms
proof (induction "size (msum Fs)" arbitrary: Fs pts rule: less_induct)
  case less
  show ?case
  proof (cases Fs)
    case (Cons F Fs')
    then obtain l i r where F: "F = Bin l i r"
      using less.prems by (cases F) auto
    define Gs where "Gs = Fs' @ filter (\<lambda>G. G \<noteq> Tip) [l, r]"
    have "map (the \<circ> rootOf) Gs = map (the \<circ> rootOf) Fs' @ optList (rootOf l) @ optList (rootOf r)"
      by (cases l; cases r) (simp_all add: Gs_def optList_def)
    then have step: "walkSubtrees t (map (the \<circ> rootOf) Fs) pts = walkSubtrees t (map (the \<circ> rootOf) Gs) (pts @ [i])"
      using less.prems Cons F by (subst walkSubtrees.simps) simp
    have tot: "msum Fs = add_mset i (msum Gs)"
      by (cases l; cases r) (simp_all add: Cons F Gs_def ac_simps)
    have "\<forall>G \<in> set Gs. G \<noteq> Tip \<and> shaped (viewOf t) G"
      using less.prems Cons F by (auto simp: Gs_def)
    then obtain ps where "walkSubtrees t (map (the \<circ> rootOf) Gs) (pts @ [i]) = Some ((pts @ [i]) @ ps)" "mset ps = msum Gs"
      using less.hyps [of Gs "pts @ [i]"] tot by auto
    then show ?thesis
      using step tot by (intro exI [of _ "i # ps"]) simp
  qed (subst walkSubtrees.simps, simp)
qed

lemma ptsInSphere_result:
  assumes "kdTree t T" "T \<noteq> Tip" "length (indexedPoints t) \<le> 2 ^ 32"
    and "\<forall>i < length (indexedPoints t). containsPt (treeBounds t) (ptAt t i)"
    and "intersects (treeBounds t) origin radius"
  shows "\<exists>ps. ptsInSphere t origin radius pts = Some (pts @ ps) \<and> distinct ps \<and>
    (\<forall>i \<in> set ps. i < length (indexedPoints t) \<and> sqrDist (ptAt t i) origin \<le> f32 (radius * radius)) \<and>
    (\<forall>i < length (indexedPoints t). sqrDist (ptAt t i) origin < f32 (radius * radius) \<longrightarrow> i \<in> set ps)"
proof -
  let ?n = "length (indexedPoints t)" and ?sq = "f32 (radius * radius)"
  obtain l k r where T: "T = Bin l k r"
    using assms(2) by (cases T) auto
  have root: "treeRoot t = Some k" and nodes: "nodesOf T = {..<?n}"
    using kdTree_root(1) [of t l k r] kdTree_nodes [OF assms(1)] assms(1) T by simp_all
  have "goodEntry t (T, treeBounds t, 0)"
    using assms nodes by (auto simp: goodEntry_def kdTree_def simp del: nodesOf.simps)
  then obtain Fs ps D where w: "walkNodes t origin ?sq [mkWalk k (treeBounds t) 0] [] pts =
        Some (map (the \<circ> rootOf) Fs, pts @ ps)"
      "\<forall>F \<in> set Fs. insideTree t origin ?sq F" "farNodes t origin ?sq D"
      "\<forall>i \<in> set ps. sqrDist (ptAt t i) origin < ?sq" "mset ps + msum Fs + D = mnodes T"
    using walkNodes_result [of "[(T, treeBounds t, 0)]" t origin ?sq "[]" pts]
    by (auto simp: walkOf_def T)
  obtain qs where q: "walkSubtrees t (map (the \<circ> rootOf) Fs) (pts @ ps) = Some ((pts @ ps) @ qs)" "mset qs = msum Fs"
    using walkSubtrees_result [of Fs t "pts @ ps"] w(2) by (auto simp: insideTree_def)
  have all: "mset (ps @ qs) + D = mset_set {0..<?n}"
    using w(5) q(2) assms(1) block_mnodes by (simp add: kdTree_def)
  have "ptsInSphere t origin radius pts = Some (pts @ (ps @ qs))"
    using assms(5) by (simp add: ptsInSphere_def root Let_def w(1) q(1))
  moreover have "distinct (ps @ qs)"
  proof -
    have "count (mset (ps @ qs)) i \<le> count (mset_set {0..<?n}) i" for i
      unfolding all [symmetric] by simp
    moreover have "count (mset_set {0..<?n}) i \<le> 1" for i
      by (simp add: count_mset_set')
    ultimately have "count (mset (ps @ qs)) i \<le> 1" for i
      using le_trans by blast
    then show ?thesis
      unfolding distinct_count_atmost_1 by (metis count_eq_zero_iff count_greater_zero_iff
          le_neq_implies_less less_one set_mset_mset)
  qed
  moreover have "i < ?n" if "i \<in> set (ps @ qs)" for i
  proof -
    have "i \<in># mset (ps @ qs) + D"
      using that by simp
    then show ?thesis
      unfolding all by simp
  qed
  moreover have "sqrDist (ptAt t i) origin \<le> ?sq" if "i \<in> set (ps @ qs)" for i
  proof (cases "i \<in> set ps")
    case False
    then have "i \<in># msum Fs"
      using that q(2) by (metis Un_iff set_append set_mset_mset)
    then show ?thesis
      using w(2) by (induction Fs) (auto simp: insideTree_def)
  qed (use w(4) in \<open>auto simp: less_imp_le\<close>)
  moreover have "i \<in> set (ps @ qs)" if "i < ?n" "sqrDist (ptAt t i) origin < ?sq" for i
  proof -
    have "i \<in># mset (ps @ qs) + D"
      unfolding all using that(1) by simp
    moreover have "i \<notin># D"
      using w(3) that(2) by (auto simp: farNodes_def)
    ultimately show ?thesis
      by simp
  qed
  ultimately show ?thesis
    by (intro exI [of _ "ps @ qs"]) blast
qed

text \<open>
  Property C5. If the box of the tree passes the first test, \<^verbatim>\<open>ptsInSphere\<close> returns and appends, each once,
  every point closer than the radius and only points within it; the squared radius is rounded.
\<close>

theorem ptsInSphere_exact:
  assumes "kdTree t T" "T \<noteq> Tip" "length (indexedPoints t) \<le> 2 ^ 32"
    and "\<forall>i < length (indexedPoints t). containsPt (treeBounds t) (ptAt t i)"
    and "intersects (treeBounds t) origin radius"
  shows "\<exists>ps. ptsInSphere t origin radius pts = Some (pts @ ps) \<and> distinct ps \<and>
    (\<forall>i \<in> set ps. i < length (indexedPoints t) \<and> sqrDist (ptAt t i) origin \<le> f32 (radius * radius)) \<and>
    (\<forall>i < length (indexedPoints t). sqrDist (ptAt t i) origin < f32 (radius * radius) \<longrightarrow> i \<in> set ps)"
  by (rule ptsInSphere_result[OF assms])

text \<open>The points closer than the radius.\<close>

definition closePts :: "k3dTree \<Rightarrow> point \<Rightarrow> rat \<Rightarrow> nat set" where
  "closePts t origin radius = {i. i < length (indexedPoints t) \<and> sqrDist (ptAt t i) origin < f32 (radius * radius)}"

text \<open>
  Property C29. The first test takes the radius for its square. What the query appends is always right, but it is complete
  only if the box of the tree passes that test or no point is closer than the radius: otherwise every point of the
  sphere is missed. A radius of at most 1 is never at fault.
\<close>

theorem ptsInSphere_first_test:
  assumes "kdTree t T" "T \<noteq> Tip" "length (indexedPoints t) \<le> 2 ^ 32"
    and "\<forall>i < length (indexedPoints t). containsPt (treeBounds t) (ptAt t i)"
  shows "\<exists>ps. ptsInSphere t origin radius pts = Some (pts @ ps) \<and> distinct ps \<and>
    (\<forall>i \<in> set ps. i < length (indexedPoints t) \<and> sqrDist (ptAt t i) origin \<le> f32 (radius * radius)) \<and>
    (closePts t origin radius \<subseteq> set ps \<longleftrightarrow> intersects (treeBounds t) origin radius \<or> closePts t origin radius = {}) \<and>
    (0 \<le> radius \<and> radius \<le> 1 \<and> f32 radius = radius \<longrightarrow> closePts t origin radius \<subseteq> set ps)"
proof -
  have small: "intersects (treeBounds t) origin radius"
    if r: "0 \<le> radius" "radius \<le> 1" "f32 radius = radius" and i: "i \<in> closePts t origin radius" for i
  proof -
    have "radius * radius \<le> radius" using r(1,2) by (simp add: mult_left_le)
    then have "f32 (radius * radius) \<le> radius" using f32.mono r(3) by metis
    then have "sqrDist (ptAt t i) origin \<le> radius" using i by (simp add: closePts_def)
    moreover have "containsPt (treeBounds t) (ptAt t i)" using assms(4) i by (simp add: closePts_def)
    ultimately show ?thesis by (rule intersects_mono[rotated])
  qed
  show ?thesis
  proof (cases "intersects (treeBounds t) origin radius")
    case True
    from ptsInSphere_result[OF assms(1-4) True, of pts] show ?thesis using True by (auto simp: closePts_def)
  next
    case False
    then have "ptsInSphere t origin radius pts = Some (pts @ [])" by (simp add: ptsInSphere_def)
    moreover have "closePts t origin radius = {}" if "0 \<le> radius \<and> radius \<le> 1 \<and> f32 radius = radius" using that small False by blast
    ultimately show ?thesis using False by (intro exI[of _ "[]"]) auto
  qed
qed

section \<open>Correctness of the block and box queries\<close>

definition treeEntry :: "nat shape \<times> boundCube \<times> nat \<times> nat \<times> nat \<Rightarrow> treeWalk" where
  "treeEntry e = (case e of (T, c, a, lo, hi) \<Rightarrow>
     \<lparr>tw_node = int (the (rootOf T)), tw_cube = c, tw_axis = a, tw_limits = (int lo, int hi)\<rparr>)"

definition goodTree :: "k3dTree \<Rightarrow> nat shape \<times> boundCube \<times> nat \<times> nat \<times> nat \<Rightarrow> bool" where
  "goodTree t e \<longleftrightarrow> (case e of (T, c, a, lo, hi) \<Rightarrow>
     T \<noteq> Tip \<and> shaped (viewOf t) T \<and> splits (viewOf t) a T \<and> a < 3 \<and> block lo (hi + 1) T \<and> hi < 2 ^ 31 \<and>
     hi < length (indexedPoints t) \<and> length (nodes t) = length (indexedPoints t) \<and>
     (\<forall>m \<in> nodesOf T. containsPt c (ptAt t m)))"

abbreviation blockSum :: "(nat \<times> nat) list \<Rightarrow> nat multiset" where
  "blockSum bs \<equiv> sum_list (map (\<lambda>(lo, hi). mset_set {lo..hi}) bs)"

lemma block_root: "block lo hi (Bin l n r) \<Longrightarrow> lo \<le> n \<and> n < hi"
  using block_nodes [of lo n l] block_nodes [of "n + 1" hi r] by simp

lemma pushTree_result:
  assumes "shaped (viewOf t) C" "splits (viewOf t) ((a + 1) mod 3) C" "C \<noteq> Tip \<Longrightarrow> block lo (hi + 1) C"
    and "\<forall>m \<in> nodesOf C. containsPt cube (ptAt t m)" "hi < 2 ^ 31" "hi < length (indexedPoints t)"
      "length (nodes t) = length (indexedPoints t)"
  shows "\<exists>Es. pushTree pt sq (rootOf C) cube a (int lo, int hi) = map treeEntry Es \<and> (\<forall>e \<in> set Es. goodTree t e) \<and>
    msum (map fst Es) \<subseteq># mnodes C"
proof (cases "C \<noteq> Tip \<and> intersects cube pt sq")
  case True
  then have "goodTree t (C, cube, (a + 1) mod 3, lo, hi)"
    using assms by (auto simp: goodTree_def)
  moreover obtain l m r where C: "C = Bin l m r"
    using True by (cases C) auto
  moreover have "m < 2 ^ 31"
    using block_root [of lo "hi + 1" l m r] assms(3,5) C by simp
  ultimately show ?thesis
    using True by (intro exI [of _ "[(C, cube, (a + 1) mod 3, lo, hi)]"])
      (simp add: pushTree_def treeEntry_def)
next
  case False
  then show ?thesis
    by (intro exI [of _ "[]"]) (cases C; simp add: pushTree_def)
qed

lemma block_Tip: "block lo hi T \<Longrightarrow> T \<noteq> Tip \<Longrightarrow> lo < hi"
proof (cases T)
  case (Bin l n r)
  assume "block lo hi T"
  then show "lo < hi"
    using block_nodes [of lo n l] block_nodes [of "n + 1" hi r] by (auto simp: Bin)
qed simp

lemma treesLoop_result:
  assumes "\<forall>e \<in> set Es. goodTree t e"
  shows "\<exists>bs. treesLoop t pt sq (map treeEntry Es) blocks = Some (blocks @ bs) \<and>
    (\<forall>(lo, hi) \<in> set bs. lo \<le> hi \<and> (\<forall>i \<in> {lo..hi}. sqrDist (ptAt t i) pt \<le> sq)) \<and>
    blockSum bs \<subseteq># msum (map fst Es)"
  using assms
proof (induction "size (msum (map fst Es))" arbitrary: Es blocks rule: less_induct)
  case less
  show ?case
  proof (cases Es)
    case Nil
    then show ?thesis
      by (subst treesLoop.simps) (auto intro: exI [of _ "[]"])
  next
    case (Cons e Es')
    obtain T c a lo hi where e: "e = (T, c, a, lo, hi)"
      by (cases e)
    have good: "goodTree t (T, c, a, lo, hi)"
      using less.prems Cons e by simp
    then obtain l i r where T: "T = Bin l i r"
      by (cases T) (auto simp: goodTree_def)
    have bl: "block lo (hi + 1) T" and a: "a < 3"
      using good by (auto simp: goodTree_def)
    have ms: "mnodes T = mset_set {lo..hi}"
      using block_mnodes [OF bl] by (simp add: atLeastLessThanSuc_atLeastAtMost)
    have w: "treeEntry e = \<lparr>tw_node = int i, tw_cube = c, tw_axis = a, tw_limits = (int lo, int hi)\<rparr>"
      by (simp add: treeEntry_def e T)
    have fit: "hi < 2 ^ 31" "hi < length (indexedPoints t)" "length (nodes t) = length (indexedPoints t)"
      using good by (auto simp: goodTree_def)
    have "lo \<le> i" "i \<le> hi"
      using block_root [of lo "hi + 1" l i r] bl by (simp_all add: T)
    then have widened: "toSizeT (int lo) = lo" "toSizeT (int i) = i" "toSizeT (int hi) = hi"
      and ins: "i < length (nodes t)" "i < length (indexedPoints t)" "i < 2 ^ 31"
      using fit by simp_all
    consider (whole) "containedInSphere c pt sq" | (part) "\<not> containedInSphere c pt sq" "intersects c pt sq"
      | (out) "\<not> containedInSphere c pt sq" "\<not> intersects c pt sq"
      by blast
    then show ?thesis
    proof cases
      case whole
      have sub: "size (msum (map fst Es')) < size (msum (map fst Es))"
        by (simp add: Cons e T)
      obtain bs where bs: "treesLoop t pt sq (map treeEntry Es') (blocks @ [(lo, hi)]) = Some ((blocks @ [(lo, hi)]) @ bs)"
          "\<forall>(lo, hi) \<in> set bs. lo \<le> hi \<and> (\<forall>i \<in> {lo..hi}. sqrDist (ptAt t i) pt \<le> sq)"
          "blockSum bs \<subseteq># msum (map fst Es')"
        using less.hyps [OF sub, of "blocks @ [(lo, hi)]"] less.prems Cons by auto
      have "treesLoop t pt sq (map treeEntry Es) blocks = Some (blocks @ ((lo, hi) # bs))"
        using bs(1) whole by (subst treesLoop.simps) (simp add: Cons w widened)
      moreover have "sqrDist (ptAt t j) pt \<le> sq" if "j \<in> {lo..hi}" for j
        using good that block_nodes [OF bl] containedInSphere_all [OF whole, of "ptAt t j"]
        by (auto simp: goodTree_def sqrDist_commute [of pt])
      moreover have "lo \<le> hi"
        using block_Tip [OF bl] T by auto
      moreover have "blockSum ((lo, hi) # bs) \<subseteq># msum (map fst Es)"
        using bs(3) by (simp add: Cons e ms del: mnodes.simps)
      ultimately show ?thesis
        using bs(2) by (intro exI [of _ "(lo, hi) # bs"]) auto
    next
      case part
      let ?x = "sel (ptAt t i) a"
      have bl2: "block lo i l" "block (i + 1) (hi + 1) r"
        using bl by (simp_all add: T)
      have "l \<noteq> Tip \<Longrightarrow> block lo (i - 1 + 1) l"
        using bl2 block_Tip [of lo i l] by auto
      then have "\<exists>E1. pushTree pt sq (rootOf l) (setMax c a ?x) a (int lo, int (i - 1)) = map treeEntry E1 \<and>
          (\<forall>e \<in> set E1. goodTree t e) \<and> msum (map fst E1) \<subseteq># mnodes l"
        by (intro pushTree_result) (use good a fit ins in \<open>auto simp: goodTree_def T containsPt_setMax\<close>)
      then obtain E1 where E1: "pushTree pt sq (rootOf l) (setMax c a ?x) a (int lo, int (i - 1)) = map treeEntry E1"
          "\<forall>e \<in> set E1. goodTree t e" "msum (map fst E1) \<subseteq># mnodes l"
        by blast
      have "\<exists>E2. pushTree pt sq (rootOf r) (setMin c a ?x) a (int (i + 1), int hi) = map treeEntry E2 \<and>
          (\<forall>e \<in> set E2. goodTree t e) \<and> msum (map fst E2) \<subseteq># mnodes r"
        by (intro pushTree_result) (use good a fit bl2 in \<open>auto simp: goodTree_def T containsPt_setMin\<close>)
      then obtain E2 where E2: "pushTree pt sq (rootOf r) (setMin c a ?x) a (int (i + 1), int hi) = map treeEntry E2"
          "\<forall>e \<in> set E2. goodTree t e" "msum (map fst E2) \<subseteq># mnodes r"
        by blast
      have lim: "pushTree pt sq (rootOf l) (setMax c a ?x) a (int lo, toInt (sizeMinusOne i)) = map treeEntry E1"
      proof (cases "l = Tip")
        case True
        then show ?thesis
          using E1(1) by (simp add: pushTree_def)
      next
        case False
        then have "toInt (sizeMinusOne i) = int (i - 1)"
          using block_Tip [OF bl2(1)] ins(3) by (simp add: sizeMinusOne_pos)
        then show ?thesis
          using E1(1) by simp
      qed
      have lim2: "pushTree pt sq (rootOf r) (setMin c a ?x) a (toInt (Suc i), int hi) = map treeEntry E2"
      proof (cases "r = Tip")
        case True
        then show ?thesis
          using E2(1) by (simp add: pushTree_def)
      next
        case False
        then have "toInt (Suc i) = int (i + 1)"
          using block_Tip [OF bl2(2)] fit(1) by simp
        then show ?thesis
          using E2(1) by (simp only:)
      qed
      define Es2 where "Es2 = Es' @ E1 @ E2"
      have ch: "childLeft (nodes t ! i) = rootOf l" "childRight (nodes t ! i) = rootOf r"
        using good by (simp_all add: goodTree_def T)
      have sub2: "msum (map fst Es2) \<subseteq># msum (map fst Es') + (mnodes l + mnodes r)"
        unfolding Es2_def using E1(3) E2(3) by (simp add: subset_mset.add_mono)
      then have sub: "size (msum (map fst Es2)) < size (msum (map fst Es))"
        using size_mset_mono [OF sub2] by (simp add: Cons e T)
      have "\<forall>e \<in> set Es2. goodTree t e"
        using less.prems E1(2) E2(2) Cons by (auto simp: Es2_def)
      then obtain bs where bs: "treesLoop t pt sq (map treeEntry Es2) blocks = Some (blocks @ bs)"
          "\<forall>(lo, hi) \<in> set bs. lo \<le> hi \<and> (\<forall>i \<in> {lo..hi}. sqrDist (ptAt t i) pt \<le> sq)"
          "blockSum bs \<subseteq># msum (map fst Es2)"
        using less.hyps [OF sub, of blocks] by auto
      have "treesLoop t pt sq (map treeEntry Es) blocks = Some (blocks @ bs)"
        using bs(1) part ins(1,2)
        by (subst treesLoop.simps)
          (simp add: Cons w Let_def ch Es2_def widened lim lim2 del: toInt_small)
      moreover have "msum (map fst Es') + (mnodes l + mnodes r) \<subseteq># msum (map fst Es)"
        by (simp add: Cons e T subset_mset.add_increasing ac_simps mset_subset_eq_add_left
            flip: add_mset_add_single)
      then have "blockSum bs \<subseteq># msum (map fst Es)"
        using subset_mset.order_trans [OF bs(3) sub2] subset_mset.order_trans by blast
      ultimately show ?thesis
        using bs(2) by blast
    next
      case out
      have sub: "size (msum (map fst Es')) < size (msum (map fst Es))"
        by (simp add: Cons e T)
      obtain bs where bs: "treesLoop t pt sq (map treeEntry Es') blocks = Some (blocks @ bs)"
          "\<forall>(lo, hi) \<in> set bs. lo \<le> hi \<and> (\<forall>i \<in> {lo..hi}. sqrDist (ptAt t i) pt \<le> sq)"
          "blockSum bs \<subseteq># msum (map fst Es')"
        using less.hyps [OF sub, of blocks] less.prems Cons by auto
      have "treesLoop t pt sq (map treeEntry Es) blocks = Some (blocks @ bs)"
        using bs(1) out by (subst treesLoop.simps) (simp add: Cons w)
      moreover have "blockSum bs \<subseteq># msum (map fst Es)"
        using bs(3) by (simp add: Cons subset_mset.add_increasing)
      ultimately show ?thesis
        using bs(2) by blast
    qed
  qed
qed

text \<open>
  Property C30. \<^verbatim>\<open>getTreesInSphere\<close> returns, and the blocks it appends are disjoint ranges of the tree whose
  points all lie within the sphere, provided that the tree has at most \<open>2 ^ 31\<close> points, for the indices are kept as
  \<^verbatim>\<open>int\<close>.
\<close>

theorem getTreesInSphere_blocks:
  assumes "kdTree t T" "T \<noteq> Tip" "\<forall>i < length (indexedPoints t). containsPt domainCube (ptAt t i)"
    and "length (indexedPoints t) \<le> 2 ^ 31"
  shows "\<exists>bs. getTreesInSphere t pt sqrRad domainCube blocks = Some (blocks @ bs) \<and>
    (\<forall>(lo, hi) \<in> set bs. lo \<le> hi \<and> (\<forall>i \<in> {lo..hi}. sqrDist (ptAt t i) pt \<le> sqrRad)) \<and>
    blockSum bs \<subseteq># mset_set {0..<length (indexedPoints t)}"
proof -
  let ?n = "length (indexedPoints t)"
  obtain l k r where T: "T = Bin l k r"
    using assms(2) by (cases T) auto
  have root: "treeRoot t = Some k" and nodes: "nodesOf T = {..<?n}"
    using kdTree_root(1) [of t l k r] kdTree_nodes [OF assms(1)] assms(1) T by simp_all
  have bl: "block 0 ?n T" "length (nodes t) = ?n"
    using assms(1) by (auto simp: kdTree_def)
  then have "0 < ?n"
    using block_Tip [OF bl(1) assms(2)] by simp
  then have "goodTree t (T, domainCube, 0, 0, ?n - 1)"
    using assms bl nodes by (simp add: goodTree_def kdTree_def del: nodesOf.simps)
  moreover have "k < ?n"
    using nodes T by auto
  then have "toInt k = int k" "toInt (sizeMinusOne (length (nodes t))) = int (?n - 1)"
    using assms(4) bl(2) \<open>0 < ?n\<close> by (simp_all add: sizeMinusOne_pos)
  ultimately show ?thesis
    using treesLoop_result [of "[(T, domainCube, 0, 0, ?n - 1)]" t pt sqrRad blocks] block_mnodes [OF bl(1)] bl(2)
    by (simp add: getTreesInSphere_def root treeEntry_def T del: mnodes.simps)
qed

definition insideHalfOpen :: "boundCube \<Rightarrow> point \<Rightarrow> bool" where
  "insideHalfOpen box p \<longleftrightarrow> (\<forall>d<3. bmin (sel box d) \<le> sel p d \<and> sel p d < bmax (sel box d))"

lemma boxLoop_result:
  assumes "shaped (viewOf t) T" "splits (viewOf t) a T" "a < 3" "rootOf T = Some c"
    and "\<forall>i \<in> nodesOf T. i < 2 ^ 31 \<and> i < length (nodes t) \<and> i < length (indexedPoints t)"
  shows "\<exists>c' S. boxLoop t box subBox curB (int c) a = Some c' \<and> rootOf S = Some c' \<and> shaped (viewOf t) S \<and>
    (\<forall>i \<in> nodesOf T. insideHalfOpen box (ptAt t i) \<longrightarrow> i \<in> nodesOf S)"
  using assms
proof (induction T arbitrary: a c curB)
  case (Bin l n r)
  have c: "c = n" and sh: "shaped (viewOf t) (Bin l n r)"
    using Bin.prems by simp_all
  have n: "toSizeT (int n) = n" "n < length (nodes t)" "n < length (indexedPoints t)"
    using Bin.prems(5) by simp_all
  have a': "(a + 1) mod 3 < 3"
    by simp
  let ?x = "sel (ptAt t n) a"
  consider (stop) "\<not> containsCube curB subBox \<or> segmentTriple box a ?x = 1"
    | (right) "containsCube curB subBox" "segmentTriple box a ?x = 0"
    | (left) "containsCube curB subBox" "segmentTriple box a ?x = 2"
  proof -
    have "segmentTriple box a ?x \<in> {0, 1, 2}"
      by (simp add: segmentTriple_def)
    then show thesis
      using that by blast
  qed
  then show ?case
  proof cases
    case stop
    then have "boxLoop t box subBox curB (int n) a = Some n"
      using n by (subst boxLoop.simps) (auto simp: Let_def)
    then show ?thesis
      using sh by (intro exI [of _ n] exI [of _ "Bin l n r"]) (simp add: c)
  next
    case right
    have low: "?x < bmin (sel box a)"
      using right(2) by (simp add: segmentTriple_def split: if_splits)
    have out: "\<not> insideHalfOpen box (ptAt t i)" if "i \<in> insert n (nodesOf l)" for i
    proof -
      have "sel (ptAt t i) a \<le> ?x"
        using that Bin.prems(2) by auto
      then show ?thesis
        using low Bin.prems(3) by (auto simp: insideHalfOpen_def intro!: exI [of _ a])
    qed
    show ?thesis
    proof (cases "rootOf r")
      case None
      then have "boxLoop t box subBox curB (int n) a = Some n"
        using right sh n by (subst boxLoop.simps) (simp add: Let_def)
      then show ?thesis
        using sh by (intro exI [of _ n] exI [of _ "Bin l n r"]) (simp add: c)
    next
      case (Some m)
      then have "m \<in> nodesOf r"
        by (cases r) auto
      then have m31: "m < 2 ^ 31"
        using Bin.prems(5) by simp
      have "boxLoop t box subBox curB (int n) a = boxLoop t box subBox (setBound curB a 0 ?x) (int m) ((a + 1) mod 3)"
        using right sh n Some m31 by (subst boxLoop.simps) (simp add: Let_def)
      moreover obtain c' S where "boxLoop t box subBox (setBound curB a 0 ?x) (int m) ((a + 1) mod 3) = Some c'"
          "rootOf S = Some c'" "shaped (viewOf t) S"
          "\<forall>i \<in> nodesOf r. insideHalfOpen box (ptAt t i) \<longrightarrow> i \<in> nodesOf S"
        using Bin.IH(2) [OF _ _ a' Some] Bin.prems by fastforce
      ultimately show ?thesis
        using out by (intro exI [of _ c'] exI [of _ S]) (auto simp: c)
    qed
  next
    case left
    have high: "bmax (sel box a) \<le> ?x"
      using left(2) by (simp add: segmentTriple_def split: if_splits)
    have out: "\<not> insideHalfOpen box (ptAt t i)" if "i \<in> insert n (nodesOf r)" for i
    proof -
      have "?x \<le> sel (ptAt t i) a"
        using that Bin.prems(2) by auto
      then show ?thesis
        using high Bin.prems(3) by (auto simp: insideHalfOpen_def intro!: exI [of _ a])
    qed
    show ?thesis
    proof (cases "rootOf l")
      case None
      then have "boxLoop t box subBox curB (int n) a = Some n"
        using left sh n by (subst boxLoop.simps) (simp add: Let_def)
      then show ?thesis
        using sh by (intro exI [of _ n] exI [of _ "Bin l n r"]) (simp add: c)
    next
      case (Some m)
      then have "m \<in> nodesOf l"
        by (cases l) auto
      then have m31: "m < 2 ^ 31"
        using Bin.prems(5) by simp
      have "boxLoop t box subBox curB (int n) a = boxLoop t box subBox (setBound curB a 1 ?x) (int m) ((a + 1) mod 3)"
        using left sh n Some m31 by (subst boxLoop.simps) (simp add: Let_def)
      moreover obtain c' S where "boxLoop t box subBox (setBound curB a 1 ?x) (int m) ((a + 1) mod 3) = Some c'"
          "rootOf S = Some c'" "shaped (viewOf t) S"
          "\<forall>i \<in> nodesOf l. insideHalfOpen box (ptAt t i) \<longrightarrow> i \<in> nodesOf S"
        using Bin.IH(1) [OF _ _ a' Some] Bin.prems by fastforce
      ultimately show ?thesis
        using out by (intro exI [of _ c'] exI [of _ S]) (auto simp: c)
    qed
  qed
qed simp

text \<open>
  \<^verbatim>\<open>getBoxInTree\<close> returns the root of a subtree that holds every point of the tree inside the
  box, upper faces excluded.
\<close>

theorem getBoxInTree_holds:
  assumes "kdTree t T" "T \<noteq> Tip" "length (indexedPoints t) \<le> 2 ^ 31"
  shows "\<exists>c S. getBoxInTree t box = Some c \<and> rootOf S = Some c \<and> shaped (viewOf t) S \<and>
    (\<forall>i < length (indexedPoints t). insideHalfOpen box (ptAt t i) \<longrightarrow> i \<in> nodesOf S)"
proof -
  obtain l k r where T: "T = Bin l k r"
    using assms(2) by (cases T) auto
  have root: "treeRoot t = Some k" and nodes: "nodesOf T = {..<length (indexedPoints t)}"
    using kdTree_root(1) [of t l k r] kdTree_nodes [OF assms(1)] assms(1) T by simp_all
  have "k \<in> nodesOf T"
    by (simp add: T)
  then have k: "toInt k = int k"
    unfolding nodes using assms(3) by (intro toInt_small) simp
  have "\<exists>c S. boxLoop t box (makeUnion (treeBounds t) box) (treeBounds t) (int k) 0 = Some c \<and> rootOf S = Some c \<and>
      shaped (viewOf t) S \<and> (\<forall>i \<in> nodesOf T. insideHalfOpen box (ptAt t i) \<longrightarrow> i \<in> nodesOf S)"
  proof (rule boxLoop_result)
    show "shaped (viewOf t) T" "splits (viewOf t) 0 T" "rootOf T = Some k" "(0::nat) < 3"
      using assms(1) by (simp_all add: kdTree_def T)
    have "length (nodes t) = length (indexedPoints t)"
      using assms(1) by (simp add: kdTree_def)
    then show "\<forall>i \<in> nodesOf T. i < 2 ^ 31 \<and> i < length (nodes t) \<and> i < length (indexedPoints t)"
      unfolding nodes using assms(3) by simp
  qed
  then show ?thesis
    by (simp add: getBoxInTree_def root k nodes Ball_def)
qed

end
