(* ===== verification/SamplesSpatial.thy ===== *)
theory SamplesSpatial
  imports K3DTree K3DTreeSearch
begin

text \<open>
  Concrete points and trees at which the theorems on boxes and spatial trees are applied, and runs of
  the searches that show where they err.
\<close>

definition samplePts :: "point list" where
  "samplePts = [Tri 2 0 0, Tri 0 0 0, Tri 1 0 0]"

definition sampleHit :: "rat \<Rightarrow> ionHit" where
  "sampleHit x = \<lparr>ih_pos = Tri x 0 1, ih_mass = 27\<rparr>"

definition sortTree :: "nat \<Rightarrow> (point \<times> nat) list \<Rightarrow> (point \<times> nat) list" where
  "sortTree a xs = sort_key (\<lambda>x. sel (fst x) a) xs"

definition unbuilt :: "k3dTree" where
  "unbuilt = resetPts \<lparr>childLeft = None, childRight = None, tagged = True\<rparr> samplePts
     \<lparr>maxDepth = 0, indexedPoints = [], nodes = [], treeRoot = None, treeBounds = setInverseLimits False\<rparr>"

definition leafNode :: knode where
  "leafNode = \<lparr>childLeft = None, childRight = None, tagged = False\<rparr>"

definition sampleTree :: "k3dTree" where
  "sampleTree = \<lparr>maxDepth = 2, indexedPoints = [(Tri 0 0 0, 1), (Tri 1 0 0, 2), (Tri 2 0 0, 0)],
     nodes = [leafNode, leafNode\<lparr>childLeft := Some 0, childRight := Some 2\<rparr>, leafNode],
     treeRoot = Some 1, treeBounds = setBoundsPts (Tri 0 0 0) (Tri 2 0 0)\<rparr>"

abbreviation sampleShape :: "nat shape" where
  "sampleShape \<equiv> Bin (Bin Tip 0 Tip) 1 (Bin Tip 2 Tip)"

lemma sampleTree_kd: "kdTree sampleTree sampleShape"
  by (auto simp: kdTree_def sampleTree_def leafNode_def ptAt_def)

lemma sampleTree_inside:
  "\<forall>i < length (indexedPoints sampleTree). containsPt (treeBounds sampleTree) (ptAt sampleTree i)"
  by (auto simp: sampleTree_def ptAt_def less_Suc_eq setBoundsPts_def containsPt_def)

section \<open>Boxes\<close>

lemma sorts_pts: "axisSorts sortTree" "ptSorts sortAxis"
  by (auto simp: axisSorts_def ptSorts_def sortTree_def sortAxis_def)

theorem setBoundsVec_smallest_witness:
  "isValid (setBoundsVec samplePts) \<and> containsPt (setBoundsVec samplePts) (Tri 1 0 0)"
  using setBoundsVec_smallest [of samplePts] by (simp add: samplePts_def FLT_MAX_def)

theorem containedInSphere_iff_witness:
  "containedInSphere (setBoundsPts (Tri 0 0 0) (Tri 2 0 0)) (Tri 1 0 0) 1 \<and>
   sqrDist (Tri 1 0 0) (Tri (1/2) 0 0) \<le> 1"
proof -
  let ?c = "setBoundsPts (Tri 0 0 0) (Tri 2 0 0)"
  have o: "ordered ?c"
    by (simp add: setBoundsPts_def)
  have "[0..<8] = [0, 1, 2, 3, 4, 5, 6, 7 :: nat]"
    by code_simp
  then have c: "containedInSphere ?c (Tri 1 0 0) 1"
    by (simp add: containedInSphere_def setBoundsPts_def getVertex_def boundOf_def sqrDist_def)
  moreover have "containsPt ?c (Tri (1/2) 0 0)"
    by (simp add: containsPt_def setBoundsPts_def)
  ultimately show ?thesis
    using containedInSphere_iff [OF o, of "Tri 1 0 0" 1] by blast
qed

theorem getBoundCube_schedule_witness:
  "getBoundCubePar 2 [(1, sampleHit 3), (0, sampleHit 1), (1, sampleHit 2)] =
   getBoundCubeSerial [sampleHit 1, sampleHit 2, sampleHit 3]"
  by (rule getBoundCube_schedule) simp_all

section \<open>The index based tree\<close>

theorem build_correct_witness:
  "\<exists>t' T. buildTree sortTree (\<lambda>i. False) unbuilt = Some (True, t') \<and> kdTree t' T \<and> T \<noteq> Tip \<and> tagCount t' = 0"
  using build_correct [of sortTree "\<lambda>i. False" unbuilt] sorts_pts(1)
  by (auto simp: unbuilt_def resetPts_def samplePts_def resizeTo_def)

theorem findNearestUntagged_nearest_witness:
  "\<exists>t' k. findNearestUntagged sampleTree (Tri (9/8) 0 0) (treeBounds sampleTree) True None = Some (t', Some k) \<and>
     sqrDist (ptAt sampleTree k) (Tri (9/8) 0 0) \<le> sqrDist (ptAt sampleTree 1) (Tri (9/8) 0 0)"
proof -
  obtain t' b where b: "findNearestUntagged sampleTree (Tri (9/8) 0 0) (treeBounds sampleTree) True None = Some (t', b)"
      "case b of
         None \<Rightarrow> t' = sampleTree \<and> (\<forall>i < length (indexedPoints sampleTree). \<not> getTag sampleTree i \<longrightarrow>
           FLT_MAX \<le> sqrDist (ptAt sampleTree i) (Tri (9/8) 0 0))
       | Some k \<Rightarrow> t' = tagNode k True sampleTree \<and> k < length (indexedPoints sampleTree) \<and> \<not> getTag sampleTree k \<and>
           (\<forall>i < length (indexedPoints sampleTree). \<not> getTag sampleTree i \<longrightarrow>
             sqrDist (ptAt sampleTree k) (Tri (9/8) 0 0) \<le> sqrDist (ptAt sampleTree i) (Tri (9/8) 0 0))"
    using findNearestUntagged_nearest [OF sampleTree_kd _ sampleTree_inside, of "Tri (9/8) 0 0" True] by auto
  have n: "length (indexedPoints sampleTree) = 3" "\<not> getTag sampleTree 1" "ptAt sampleTree 1 = Tri 1 0 0"
    by (simp_all add: sampleTree_def getTag_def leafNode_def ptAt_def)
  have "sqrDist (Tri 1 0 0) (Tri (9/8) 0 0) < FLT_MAX"
    by code_simp
  then show ?thesis
    using b n by (cases b) (auto simp: not_le dest: spec [of _ 1])
qed

theorem ptsInSphere_exact_witness:
  "\<exists>ps. ptsInSphere sampleTree (Tri 0 0 0) (3/2) [] = Some ps \<and> distinct ps \<and> 1 \<in> set ps"
proof -
  have i: "intersects (treeBounds sampleTree) (Tri 0 0 0) (3/2)"
    "sqrDist (ptAt sampleTree 1) (Tri 0 0 0) < f32 (3/2 * (3/2))" "1 < length (indexedPoints sampleTree)"
    by code_simp+
  have "length (indexedPoints sampleTree) \<le> 2 ^ 32"
    by (simp add: sampleTree_def)
  then show ?thesis
    using ptsInSphere_exact [OF sampleTree_kd _ _ sampleTree_inside i(1), of "[]"] i(2,3) by auto
qed

text \<open>
  The point (0,0,0) lies at distance 3/2 of (3/2,0,0), but the query with radius 2 misses it; within radius 1 nothing can
  be missed.
\<close>

definition onePoint :: k3dTree where
  "onePoint = \<lparr>maxDepth = 1, indexedPoints = [(Tri 0 0 0, 0)], nodes = [leafNode], treeRoot = Some 0,
     treeBounds = setBoundsPts (Tri 0 0 0) (Tri 0 0 0)\<rparr>"

theorem ptsInSphere_first_test_witness:
  "(\<exists>ps. ptsInSphere onePoint (Tri (3/2) 0 0) 2 [] = Some ps \<and> 0 \<in> closePts onePoint (Tri (3/2) 0 0) 2 \<and>
     \<not> closePts onePoint (Tri (3/2) 0 0) 2 \<subseteq> set ps) \<and>
   (\<exists>ps. ptsInSphere onePoint (Tri (1/2) 0 0) 1 [] = Some ps \<and> closePts onePoint (Tri (1/2) 0 0) 1 \<subseteq> set ps)"
proof -
  have far: "\<not> intersects (treeBounds onePoint) (Tri (3/2) 0 0) 2"
    "sqrDist (Tri 0 0 0) (Tri (3/2) 0 0) < f32 (2 * 2)" by code_simp+
  have in0: "0 \<in> closePts onePoint (Tri (3/2) 0 0) 2"
    using far(2) by (simp add: closePts_def ptAt_def onePoint_def)
  have kd: "kdTree onePoint (Bin Tip 0 Tip)" "length (indexedPoints onePoint) \<le> 2 ^ 32"
    by (simp_all add: onePoint_def kdTree_def leafNode_def)
  have inside: "\<forall>i < length (indexedPoints onePoint). containsPt (treeBounds onePoint) (ptAt onePoint i)"
    by (simp add: onePoint_def ptAt_def) code_simp
  note main = ptsInSphere_first_test [OF kd(1) _ kd(2) inside, of _ _ "[]"]
  show ?thesis using main [of "Tri (3/2) 0 0" 2] main [of "Tri (1/2) 0 0" 1] far(1) in0 by auto
qed

theorem getTreesInSphere_blocks_witness:
  "\<exists>bs. getTreesInSphere sampleTree (Tri 0 0 0) 1 (treeBounds sampleTree) [] = Some bs \<and>
     blockSum bs \<subseteq># mset_set {0..<length (indexedPoints sampleTree)}"
  using getTreesInSphere_blocks [OF sampleTree_kd _ sampleTree_inside, of "Tri 0 0 0" 1 "[]"]
  by (auto simp: sampleTree_def)

theorem getBoxInTree_holds_witness:
  "\<exists>c S. getBoxInTree sampleTree (setBoundsPts (Tri 2 0 0) (Tri 3 1 1)) = Some c \<and> rootOf S = Some c \<and>
     (2::nat) \<in> nodesOf S"
proof -
  have "insideHalfOpen (setBoundsPts (Tri 2 0 0) (Tri 3 1 1)) (ptAt sampleTree 2)" "2 < length (indexedPoints sampleTree)"
    by (auto simp: insideHalfOpen_def setBoundsPts_def ptAt_def sampleTree_def)
  moreover have "length (indexedPoints sampleTree) \<le> 2 ^ 31"
    by (simp add: sampleTree_def)
  ultimately show ?thesis
    using getBoxInTree_holds [OF sampleTree_kd, of "setBoundsPts (Tri 2 0 0) (Tri 3 1 1)"] by blast
qed

section \<open>The pointer based tree\<close>

theorem build1_median_tree_witness:
  "\<exists>n. tr_root (build1 True sortAxis (\<lambda>i. False) samplePts (newK3DTree 0)) = Some n \<and>
     pointsOf (toShape n) = mset samplePts \<and> medianTree 0 (toShape n)"
  using build1_median_tree [OF sorts_pts(2), of "\<lambda>i. False" samplePts True "newK3DTree 0"]
  by (auto simp: samplePts_def)

theorem findNearest_result_witness:
  "\<exists>r t b. tr_root t = Some r \<and> k_loc r = Tri 1 0 0 \<and>
     findNearest t (Tri 1 0 0) (setInverseLimits True) 0 = Some b \<and> (b = None \<or> b = Some r)"
proof -
  define r where "r = K3DNode None (Tri 1 0 0) 0 None"
  define t where "t = \<lparr>treeSize = 1, tr_maxDepth = 1, tr_root = Some r, curNodeCount = 1\<rparr>"
  have "tr_root t = Some r" "height (toShape r) \<le> Suc (tr_maxDepth t)"
    by (simp_all add: t_def r_def)
  then obtain b where "findNearest t (Tri 1 0 0) (setInverseLimits True) 0 = Some b"
      "case b of Some n \<Rightarrow> n \<in> nodesOf (toShape r) \<and> candidate (Tri 1 0 0) 0 n
       | None \<Rightarrow> \<forall>n \<in> nodesOf (toShape r) - {r}. \<not> candidate (Tri 1 0 0) 0 n"
    using findNearest_result [of t r "Tri 1 0 0" "setInverseLimits True" 0] by blast
  then show ?thesis
    by (intro exI [of _ r] exI [of _ t] exI [of _ b]) (auto simp: t_def r_def split: option.splits)
qed

end
