(* ===== verification/PlotRegions.thy ===== *)
theory PlotRegions
  imports Float32 RangeFilterProps
begin

text \<open>
  The regions a user can drag in a plot (\<^verbatim>\<open>PlotRegion\<close> and \<^verbatim>\<open>RegionGroup\<close> of
  src/src/backend/plot.cpp): what a drag does to the region and to the filter or range file
  it belongs to, how far a region may be dragged, and the overlaps of the regions of a plot with
  their cache. A filter's reaction to a drag is its virtual method \<^verbatim>\<open>setPropFromRegion\<close>, the
  parameter \<open>setProp\<close>.
\<close>

section \<open>Regions and their owners\<close>

datatype accessMode = ACCESS_MODE_FILTER | ACCESS_MODE_RANGEFILE | ACCESS_MODE_ENUM_END

record plotRegion =
  pr_accessMode :: accessMode
  pr_parent :: nat
  pr_bounds :: "(rat \<times> rat) list"
  pr_colour :: "rat \<times> rat \<times> rat"
  pr_id :: nat
  pr_label :: string

text \<open>The objects that regions point to.\<close>

record 'f parents =
  par_filters :: "nat \<Rightarrow> 'f option"
  par_rngs :: "nat \<Rightarrow> rangeFile option"

abbreviation ends :: "plotRegion \<Rightarrow> rat \<times> rat" where
  "ends r \<equiv> pr_bounds r ! 0"

definition setUpdateMethod :: "accessMode \<Rightarrow> nat \<Rightarrow> plotRegion \<Rightarrow> plotRegion" where
  "setUpdateMethod m p r = r\<lparr>pr_parent := p, pr_accessMode := m\<rparr>"

section \<open>Dragging\<close>

fun orderEnds :: "rat \<times> rat \<Rightarrow> rat \<times> rat" where
  "orderEnds (lo, hi) = (if lo > hi then (hi, lo) else (lo, hi))"

fun centreOn :: "rat \<Rightarrow> rat \<times> rat \<Rightarrow> rat \<times> rat" where
  "centreOn x (lo, hi) = (let delta = f32 (f32 (hi - lo) / 2) in (f32 (x - delta), f32 (x + delta)))"

text \<open>A range of a range file refuses to become empty, the region's own bounds do not.\<close>

fun rangeEnds :: "regionMove \<Rightarrow> rat \<Rightarrow> rat \<times> rat \<Rightarrow> rat \<times> rat" where
  "rangeEnds REGION_MOVE_EXTEND_XMINUS x (lo, hi) = (if hi = x then (lo, hi) else (x, hi))"
| "rangeEnds REGION_MOVE_EXTEND_XPLUS x (lo, hi) = (if lo = x then (lo, hi) else (lo, x))"
| "rangeEnds REGION_MOVE_TRANSLATE_X x e = centreOn x e"

fun ownEnds :: "regionMove \<Rightarrow> rat \<Rightarrow> rat \<times> rat \<Rightarrow> rat \<times> rat" where
  "ownEnds REGION_MOVE_EXTEND_XMINUS x (lo, hi) = (x, hi)"
| "ownEnds REGION_MOVE_EXTEND_XPLUS x (lo, hi) = (lo, x)"
| "ownEnds REGION_MOVE_TRANSLATE_X x e = centreOn x e"

definition dragRange :: "regionMove \<Rightarrow> nat \<Rightarrow> rat \<Rightarrow> rangeFile \<Rightarrow> rangeFile option" where
  "dragRange mv k x rf = map_option (\<lambda>e. rf\<lparr>ranges := (ranges rf)[k := orderEnds (rangeEnds mv x e)]\<rparr>) (elem_at (ranges rf) k)"

definition dragSelf :: "regionMove \<Rightarrow> rat \<Rightarrow> plotRegion \<Rightarrow> plotRegion" where
  "dragSelf mv x r = r\<lparr>pr_bounds := (pr_bounds r)[0 := orderEnds (ownEnds mv x (ends r))]\<rparr>"

definition updateParent ::
  "(regionMove \<Rightarrow> nat \<Rightarrow> rat \<Rightarrow> 'f \<Rightarrow> 'f option) \<Rightarrow> regionMove \<Rightarrow> rat list \<Rightarrow> bool \<Rightarrow> 'f parents \<Rightarrow> plotRegion \<Rightarrow> ('f parents \<times> plotRegion) option" where
  "updateParent setProp mv newPositions updateSelf w r =
     Option.bind (elem_at newPositions 0) (\<lambda>x.
       map_option (\<lambda>w'. (w', if updateSelf then dragSelf mv x r else r))
         (case pr_accessMode r of
            ACCESS_MODE_FILTER \<Rightarrow> Option.bind (par_filters w (pr_parent r)) (\<lambda>f.
              map_option (\<lambda>f'. w\<lparr>par_filters := (par_filters w)(pr_parent r \<mapsto> f')\<rparr>) (setProp mv (pr_id r) x f))
          | ACCESS_MODE_RANGEFILE \<Rightarrow> Option.bind (par_rngs w (pr_parent r)) (\<lambda>rf.
              map_option (\<lambda>rf'. w\<lparr>par_rngs := (par_rngs w)(pr_parent r \<mapsto> rf')\<rparr>) (dragRange mv (pr_id r) x rf))
          | ACCESS_MODE_ENUM_END \<Rightarrow> Some w))"

section \<open>Groups of regions\<close>

record regionGroup =
  regions :: "plotRegion list"
  overlapIdCache :: "(nat \<times> nat) list"
  overlapCoordsCache :: "(rat \<times> rat) list"
  haveOverlapCache :: bool

definition newRegionGroup :: regionGroup where
  "newRegionGroup = \<lparr>regions = [], overlapIdCache = [], overlapCoordsCache = [], haveOverlapCache = False\<rparr>"

definition rgrp_clear :: "regionGroup \<Rightarrow> regionGroup" where
  "rgrp_clear g = g\<lparr>regions := []\<rparr>"

definition addRegion :: "nat \<Rightarrow> string \<Rightarrow> rat \<Rightarrow> rat \<Rightarrow> rat \<times> rat \<times> rat \<Rightarrow> nat \<Rightarrow> regionGroup \<Rightarrow> regionGroup" where
  "addRegion regionID name start end colour parentFilter g = g\<lparr>regions := regions g @
     [\<lparr>pr_accessMode = ACCESS_MODE_FILTER, pr_parent = parentFilter, pr_bounds = [(start, end)],
       pr_colour = colour, pr_id = regionID, pr_label = name\<rparr>]\<rparr>"

definition getRegionIdAtPosition :: "regionGroup \<Rightarrow> rat \<Rightarrow> nat option" where
  "getRegionIdAtPosition g x = find_index (\<lambda>r. fst (ends r) < x \<and> snd (ends r) > x) (regions g)"

definition regionMean :: "plotRegion \<Rightarrow> rat" where
  "regionMean r = f32 (f32 (fst (ends r) + snd (ends r)) / 2)"

text \<open>The loops over the other regions: \<open>sel\<close> is the end that is tested and \<open>lim\<close> the end that limits.\<close>

definition limitFrom :: "plotRegion list \<Rightarrow> nat \<Rightarrow> (rat \<times> rat \<Rightarrow> bool) \<Rightarrow> (rat \<Rightarrow> rat \<times> rat \<Rightarrow> rat) \<Rightarrow> rat \<Rightarrow> rat" where
  "limitFrom rs offset hit push x =
     fold (\<lambda>ui x. if hit (ends (rs ! ui)) \<and> ui \<noteq> offset then push x (ends (rs ! ui)) else x) [0..<length rs] x"

definition findRegionLimit :: "regionGroup \<Rightarrow> nat \<Rightarrow> regionMove \<Rightarrow> rat \<Rightarrow> rat" where
  "findRegionLimit g offset mv newPosX =
     (let rs = regions g; m = regionMean (rs ! offset) in
      case mv of
        REGION_MOVE_EXTEND_XMINUS \<Rightarrow>
          min (limitFrom rs offset (\<lambda>e. snd e < m) (\<lambda>x e. max x (snd e)) newPosX) (snd (ends (rs ! offset)))
      | REGION_MOVE_TRANSLATE_X \<Rightarrow>
          (if newPosX > m then limitFrom rs offset (\<lambda>e. fst e > m) (\<lambda>x e. min x (fst e)) newPosX
           else limitFrom rs offset (\<lambda>e. snd e < m) (\<lambda>x e. max x (snd e)) newPosX)
      | REGION_MOVE_EXTEND_XPLUS \<Rightarrow>
          max (limitFrom rs offset (\<lambda>e. snd e > m) (\<lambda>x e. min x (fst e)) newPosX) (fst (ends (rs ! offset))))"

definition rgrp_moveRegion ::
  "(regionMove \<Rightarrow> nat \<Rightarrow> rat \<Rightarrow> 'f \<Rightarrow> 'f option) \<Rightarrow> nat \<Rightarrow> regionMove \<Rightarrow> bool \<Rightarrow> rat \<Rightarrow> rat \<Rightarrow> 'f parents \<Rightarrow> regionGroup \<Rightarrow> ('f parents \<times> regionGroup) option" where
  "rgrp_moveRegion setProp offset mv selfUpdate newPosX newPosY w g =
     Option.bind (elem_at (regions g) offset) (\<lambda>r.
       map_option (\<lambda>(w', r'). (w', g\<lparr>regions := (regions g)[offset := r'], haveOverlapCache := False\<rparr>))
         (updateParent setProp mv [newPosX, newPosY] selfUpdate w r))"

text \<open>The double loop over the upper triangle of pairs.\<close>

definition overlapOf :: "rat \<times> rat \<Rightarrow> rat \<times> rat \<Rightarrow> rat \<times> rat" where
  "overlapOf a b = (max (fst a) (fst b), min (snd a) (snd b))"

definition overlapPairs :: "plotRegion list \<Rightarrow> ((nat \<times> nat) \<times> (rat \<times> rat)) list" where
  "overlapPairs rs = concat (map (\<lambda>ui. concat (map (\<lambda>uj.
       let a = ends (rs ! ui); b = ends (rs ! uj) in
       if rangesOverlap (fst a) (snd a) (fst b) (snd b) then [((ui, uj), overlapOf a b)] else [])
     [ui + 1..<length rs])) [0..<length rs])"

definition fillCache :: "regionGroup \<Rightarrow> regionGroup" where
  "fillCache g = (if haveOverlapCache g then g
     else g\<lparr>overlapIdCache := map fst (overlapPairs (regions g)),
            overlapCoordsCache := map snd (overlapPairs (regions g)), haveOverlapCache := True\<rparr>)"

definition getOverlaps :: "regionGroup \<Rightarrow> (nat \<times> nat) list \<Rightarrow> (rat \<times> rat) list \<Rightarrow> regionGroup \<times> (nat \<times> nat) list \<times> (rat \<times> rat) list" where
  "getOverlaps g ids coords =
     (let g' = fillCache g in (g', ids @ overlapIdCache g', coords @ overlapCoordsCache g'))"

section \<open>Dragged ranges\<close>

lemma orderEnds_le: "fst (orderEnds e) \<le> snd (orderEnds e)"
  by (cases e) simp

lemma orderEnds_id: "fst e \<le> snd e \<Longrightarrow> orderEnds e = e"
  by (cases e) simp

lemma rangeEnds_neq:
  "mv \<noteq> REGION_MOVE_TRANSLATE_X \<Longrightarrow> fst e < snd e \<Longrightarrow> fst (rangeEnds mv x e) \<noteq> snd (rangeEnds mv x e)"
  by (cases mv; cases e) auto

text \<open>Dragging an end of a range of a range file never makes the range empty or inverted,
  wherever it is dragged to, and changes no other range.\<close>

theorem dragRange_nonempty:
  assumes "mv \<noteq> REGION_MOVE_TRANSLATE_X" "\<forall>e \<in> set (ranges rf). fst e < snd e" "k < length (ranges rf)"
  shows "\<exists>e. dragRange mv k x rf = Some (rf\<lparr>ranges := (ranges rf)[k := e]\<rparr>) \<and> fst e < snd e"
proof -
  let ?e = "orderEnds (rangeEnds mv x (ranges rf ! k))"
  have "fst (ranges rf ! k) < snd (ranges rf ! k)" using assms by simp
  from rangeEnds_neq [OF assms(1) this, of x] have "fst ?e \<noteq> snd ?e"
    by (cases "rangeEnds mv x (ranges rf ! k)") auto
  with orderEnds_le [of "rangeEnds mv x (ranges rf ! k)"] have "fst ?e < snd ?e" by simp
  with assms(3) show ?thesis by (intro exI [of _ ?e]) (simp add: dragRange_def elem_at_def)
qed

text \<open>
  The region itself does become empty: dragging an end onto the other one leaves the range of the
  range file as it was and gives the region that shows it the width 0.
\<close>

theorem drag_onto_other_end:
  assumes "pr_accessMode r = ACCESS_MODE_RANGEFILE" "par_rngs w (pr_parent r) = Some rf"
    and "pr_id r < length (ranges rf)" "ranges rf ! pr_id r = (lo, hi)" "lo \<le> hi" "pr_bounds r = [(lo, hi)]"
  shows "updateParent setProp REGION_MOVE_EXTEND_XMINUS [hi, y] True w r
     = Some (w\<lparr>par_rngs := (par_rngs w)(pr_parent r \<mapsto> rf)\<rparr>, r\<lparr>pr_bounds := [(hi, hi)]\<rparr>)"
proof -
  have "rf\<lparr>ranges := (ranges rf)[pr_id r := (lo, hi)]\<rparr> = rf" using assms(3,4) by (metis list_update_id rangeFile.surjective rangeFile.update_convs(3))
  then show ?thesis
    using assms by (simp add: updateParent_def dragRange_def dragSelf_def elem_at_def)
qed

section \<open>Limits keep regions apart\<close>

definition apart :: "rat \<times> rat \<Rightarrow> rat \<times> rat \<Rightarrow> bool" where
  "apart a b \<longleftrightarrow> snd a \<le> fst b \<or> snd b \<le> fst a"

text \<open>The regions of a plot: one axis each, ordered, and pairwise non-overlapping.\<close>

definition separated :: "plotRegion list \<Rightarrow> bool" where
  "separated rs \<longleftrightarrow> (\<forall>r \<in> set rs. length (pr_bounds r) = 1 \<and> fst (ends r) \<le> snd (ends r)) \<and>
     (\<forall>i < length rs. \<forall>j < length rs. i \<noteq> j \<longrightarrow> apart (ends (rs ! i)) (ends (rs ! j)))"

lemma fold_push_max:
  fixes f :: "nat \<Rightarrow> rat"
  shows "x \<le> fold (\<lambda>u x. if P u then max x (f u) else x) us x"
    and "u \<in> set us \<Longrightarrow> P u \<Longrightarrow> f u \<le> fold (\<lambda>u x. if P u then max x (f u) else x) us x"
proof -
  have le: "x \<le> fold (\<lambda>u x. if P u then max x (f u) else x) us x" for us x
  proof (induction us arbitrary: x)
    case (Cons v us)
    have "x \<le> (if P v then max x (f v) else x)" by simp
    also have "\<dots> \<le> fold (\<lambda>u x. if P u then max x (f u) else x) us \<dots>" by (rule Cons.IH)
    finally show ?case by simp
  qed simp
  show "x \<le> fold (\<lambda>u x. if P u then max x (f u) else x) us x" by (rule le)
  show "f u \<le> fold (\<lambda>u x. if P u then max x (f u) else x) us x" if "u \<in> set us" "P u"
    using that
  proof (induction us arbitrary: x)
    case (Cons v us)
    show ?case
    proof (cases "u = v")
      case True
      have "f u \<le> max x (f u)" by simp
      also have "\<dots> \<le> fold (\<lambda>u x. if P u then max x (f u) else x) us (max x (f u))" by (rule le)
      finally show ?thesis using True Cons.prems by simp
    qed (use Cons in auto)
  qed simp
qed

lemma fold_push_min:
  fixes f :: "nat \<Rightarrow> rat"
  shows "u \<in> set us \<Longrightarrow> P u \<Longrightarrow> fold (\<lambda>u x. if P u then min x (f u) else x) us x \<le> f u"
proof -
  have neg: "fold (\<lambda>u x. if P u then min x (f u) else x) us x = - fold (\<lambda>u x. if P u then max x (- f u) else x) us (- x)" for us x
  proof (induction us arbitrary: x)
    case (Cons v us)
    have "- min x (f v) = max (- x) (- f v)" by (simp add: minus_min_eq_max)
    with Cons.IH show ?case by simp
  qed simp
  show "u \<in> set us \<Longrightarrow> P u \<Longrightarrow> fold (\<lambda>u x. if P u then min x (f u) else x) us x \<le> f u"
    using fold_push_max(2) [of u us P "\<lambda>u. - f u" "- x"] by (simp add: neg)
qed

lemma limitFrom_max:
  "j < length rs \<Longrightarrow> j \<noteq> i \<Longrightarrow> hit (ends (rs ! j)) \<Longrightarrow> snd (ends (rs ! j)) \<le> limitFrom rs i hit (\<lambda>x e. max x (snd e)) x"
  unfolding limitFrom_def
  by (rule fold_push_max(2) [where P = "\<lambda>u. hit (ends (rs ! u)) \<and> u \<noteq> i" and f = "\<lambda>u. snd (ends (rs ! u))"]) auto

lemma limitFrom_min:
  "j < length rs \<Longrightarrow> j \<noteq> i \<Longrightarrow> hit (ends (rs ! j)) \<Longrightarrow> limitFrom rs i hit (\<lambda>x e. min x (fst e)) x \<le> fst (ends (rs ! j))"
  unfolding limitFrom_def
  by (rule fold_push_min [where P = "\<lambda>u. hit (ends (rs ! u)) \<and> u \<noteq> i" and f = "\<lambda>u. fst (ends (rs ! u))"]) auto

text \<open>The ends that a limited drag leaves.\<close>

lemma limited_ends_apart:
  fixes x :: rat
  assumes sep: "separated (regions g)" and i: "i < length (regions g)" and j: "j < length (regions g)" "j \<noteq> i"
    and mid: "fst (ends (regions g ! i)) < regionMean (regions g ! i)" "regionMean (regions g ! i) < snd (ends (regions g ! i))"
    and mv: "mv \<noteq> REGION_MOVE_TRANSLATE_X"
  defines "e \<equiv> ownEnds mv (findRegionLimit g i mv x) (ends (regions g ! i))"
  shows "fst e \<le> snd e \<and> apart e (ends (regions g ! j))"
proof -
  obtain lo hi where e0: "ends (regions g ! i) = (lo, hi)" by force
  let ?o = "ends (regions g ! j)" and ?m = "regionMean (regions g ! i)"
  have "apart (ends (regions g ! i)) ?o" using sep i j unfolding separated_def by metis
  then have ap: "hi \<le> fst ?o \<or> snd ?o \<le> lo" by (simp add: apart_def e0)
  have ord: "fst ?o \<le> snd ?o" "lo \<le> hi" using sep i j e0 by (auto simp: separated_def all_set_conv_all_nth)
  consider "mv = REGION_MOVE_EXTEND_XMINUS" | "mv = REGION_MOVE_EXTEND_XPLUS" using mv by (cases mv) auto
  then show ?thesis
  proof cases
    case 1
    let ?l = "limitFrom (regions g) i (\<lambda>e. snd e < ?m) (\<lambda>x e. max x (snd e)) x"
    have e: "e = (min ?l hi, hi)" using 1 e0 by (simp add: e_def findRegionLimit_def Let_def)
    from ap show ?thesis
    proof
      assume "snd ?o \<le> lo"
      with mid(1) e0 have "snd ?o < ?m" by simp
      from limitFrom_max [where hit = "\<lambda>e. snd e < ?m", OF j this] \<open>snd ?o \<le> lo\<close> ord e
      show ?thesis by (simp add: apart_def)
    qed (simp add: e apart_def)
  next
    case 2
    let ?l = "limitFrom (regions g) i (\<lambda>e. snd e > ?m) (\<lambda>x e. min x (fst e)) x"
    have e: "e = (lo, max ?l lo)" using 2 e0 by (simp add: e_def findRegionLimit_def Let_def)
    from ap show ?thesis
    proof
      assume h: "hi \<le> fst ?o"
      with mid(2) e0 ord have "snd ?o > ?m" by simp
      from limitFrom_min [where hit = "\<lambda>e. snd e > ?m", OF j this] h ord e
      show ?thesis by (simp add: apart_def)
    qed (simp add: e apart_def)
  qed
qed

lemma limited_ends_ordered:
  fixes x :: rat
  assumes "separated (regions g)" "i < length (regions g)" "mv \<noteq> REGION_MOVE_TRANSLATE_X"
  shows "fst (ownEnds mv (findRegionLimit g i mv x) (ends (regions g ! i)))
    \<le> snd (ownEnds mv (findRegionLimit g i mv x) (ends (regions g ! i)))"
  using assms(3) by (cases mv; cases "ends (regions g ! i)") (auto simp: findRegionLimit_def Let_def)

text \<open>Property C14. Dragging an end of a region to where \<^verbatim>\<open>findRegionLimit\<close> allows leaves the regions of
  a plot ordered and without overlap.\<close>

theorem drag_end_separated:
  assumes "separated (regions g)" "i < length (regions g)" "mv \<noteq> REGION_MOVE_TRANSLATE_X"
    and "fst (ends (regions g ! i)) < regionMean (regions g ! i)" "regionMean (regions g ! i) < snd (ends (regions g ! i))"
    and "rgrp_moveRegion setProp i mv True (findRegionLimit g i mv x) y w g = Some (w', g')"
  shows "separated (regions g')"
proof -
  let ?rs = "regions g"
  let ?e = "ownEnds mv (findRegionLimit g i mv x) (ends (?rs ! i))"
  let ?r = "dragSelf mv (findRegionLimit g i mv x) (?rs ! i)"
  have g': "regions g' = ?rs[i := ?r]"
    using assms(2,6) by (auto simp: rgrp_moveRegion_def updateParent_def elem_at_def bind_eq_Some_conv)
  note lim = limited_ends_apart [OF assms(1,2) _ _ assms(4,5,3)]
  have one: "length (pr_bounds (?rs ! i)) = 1" using assms(1,2) by (simp add: separated_def)
  have le: "fst ?e \<le> snd ?e"
    using limited_ends_ordered [OF assms(1,2,3)] .
  have r: "length (pr_bounds ?r) = 1" "ends ?r = ?e"
    using one by (simp_all add: dragSelf_def orderEnds_id [OF le])
  show ?thesis
    unfolding separated_def
  proof (intro conjI ballI allI impI)
    fix r assume "r \<in> set (regions g')"
    then consider "r = ?r" | "r \<in> set ?rs" unfolding g' using set_update_subset_insert by fastforce
    then have "length (pr_bounds r) = 1 \<and> fst (ends r) \<le> snd (ends r)"
      by cases (use r le assms(1) in \<open>simp_all add: separated_def\<close>)
    then show "length (pr_bounds r) = 1" "fst (ends r) \<le> snd (ends r)" by auto
  next
    fix a b assume ab: "a < length (regions g')" "b < length (regions g')" "a \<noteq> b"
    then have "apart (ends (?rs ! a)) (ends (?rs ! b))" using assms(1) by (simp add: separated_def g')
    moreover have "apart x y \<longleftrightarrow> apart y x" for x y by (auto simp: apart_def)
    ultimately show "apart (ends (regions g' ! a)) (ends (regions g' ! b))"
      using lim [of a x] lim [of b x] ab r assms(2) unfolding g' by (auto simp: nth_list_update)
  qed
qed

section \<open>Overlaps and their cache\<close>

lemma set_overlapPairs:
  "(ij, c) \<in> set (overlapPairs rs) \<longleftrightarrow> (\<exists>i j. ij = (i, j) \<and> i < j \<and> j < length rs \<and>
     rangesOverlap (fst (ends (rs ! i))) (snd (ends (rs ! i))) (fst (ends (rs ! j))) (snd (ends (rs ! j))) \<and>
     c = overlapOf (ends (rs ! i)) (ends (rs ! j)))"
  by (auto simp: overlapPairs_def Let_def split: if_splits)

lemma map_fst_overlapPairs:
  "map fst (overlapPairs rs) = filter (\<lambda>(i, j). rangesOverlap (fst (ends (rs ! i))) (snd (ends (rs ! i))) (fst (ends (rs ! j))) (snd (ends (rs ! j))))
     (concat (map (\<lambda>i. map (Pair i) [i + 1..<length rs]) [0..<length rs]))"
proof -
  have inner: "concat (map (\<lambda>uj. map fst (let a = ends (rs ! ui); b = ends (rs ! uj) in
       if rangesOverlap (fst a) (snd a) (fst b) (snd b) then [((ui, uj), overlapOf a b)] else [])) us)
    = filter (\<lambda>(i, j). rangesOverlap (fst (ends (rs ! i))) (snd (ends (rs ! i))) (fst (ends (rs ! j))) (snd (ends (rs ! j)))) (map (Pair ui) us)" for ui us
    by (induction us) (auto simp: Let_def)
  show ?thesis
    unfolding overlapPairs_def map_concat filter_concat map_map comp_def inner ..
qed

lemma distinct_pairs: "distinct us \<Longrightarrow> \<forall>u. distinct (f u) \<Longrightarrow> distinct (concat (map (\<lambda>u. map (Pair u) (f u)) us))"
  by (induction us) (auto simp: distinct_map inj_on_def)

lemma distinct_overlapPairs: "distinct (map fst (overlapPairs rs))"
  unfolding map_fst_overlapPairs by (intro distinct_filter distinct_pairs) auto

lemma rangesOverlap_common:
  fixes a b c d :: rat
  shows "a \<le> b \<Longrightarrow> c \<le> d \<Longrightarrow> rangesOverlap a b c d \<longleftrightarrow> max a c \<le> min b d"
  by (auto simp: rangesOverlap_ends)

lemma interval_meet_iff:
  fixes lo hi a b c d :: rat
  shows "lo \<le> hi \<and> (\<forall>x. lo \<le> x \<and> x \<le> hi \<longleftrightarrow> (a \<le> x \<and> x \<le> b) \<and> (c \<le> x \<and> x \<le> d))
    \<longleftrightarrow> max a c \<le> min b d \<and> lo = max a c \<and> hi = min b d"
proof -
  have eq: "(a \<le> x \<and> x \<le> b) \<and> (c \<le> x \<and> x \<le> d) \<longleftrightarrow> x \<in> {max a c..min b d}" for x by auto
  have "(\<forall>x. lo \<le> x \<and> x \<le> hi \<longleftrightarrow> x \<in> {max a c..min b d}) \<longleftrightarrow> {lo..hi} = {max a c..min b d}"
    unfolding set_eq_iff by (simp only: atLeastAtMost_iff)
  then have "?thesis \<longleftrightarrow> (lo \<le> hi \<and> {lo..hi} = {max a c..min b d} \<longleftrightarrow> max a c \<le> min b d \<and> lo = max a c \<and> hi = min b d)"
    unfolding eq by (simp only:)
  also have "\<dots>" unfolding Icc_eq_Icc by auto
  finally show ?thesis by simp
qed

definition cache_ok :: "regionGroup \<Rightarrow> bool" where
  "cache_ok g \<longleftrightarrow> (haveOverlapCache g \<longrightarrow>
     overlapIdCache g = map fst (overlapPairs (regions g)) \<and> overlapCoordsCache g = map snd (overlapPairs (regions g)))"

lemma fillCache_ok: "cache_ok g \<Longrightarrow> cache_ok (fillCache g) \<and> haveOverlapCache (fillCache g) \<and> regions (fillCache g) = regions g"
  by (auto simp: fillCache_def cache_ok_def)

lemma moveRegion_cache: "rgrp_moveRegion setProp i mv u x y w g = Some (w', g') \<Longrightarrow> cache_ok g'"
  by (auto simp: rgrp_moveRegion_def cache_ok_def bind_eq_Some_conv)

text \<open>Property C15. With a valid cache, \<^verbatim>\<open>getOverlaps\<close> reports the pairs of regions that have a common point, each
  once and with the common interval.\<close>

theorem getOverlaps_exact:
  assumes "cache_ok g" "\<forall>r \<in> set (regions g). fst (ends r) \<le> snd (ends r)"
    and "getOverlaps g [] [] = (g', ids, coords)"
  shows "cache_ok g' \<and> length ids = length coords \<and> distinct ids \<and>
     (\<forall>i j lo hi. ((i, j), (lo, hi)) \<in> set (zip ids coords) \<longleftrightarrow>
        i < j \<and> j < length (regions g) \<and> lo \<le> hi \<and>
        (\<forall>x. lo \<le> x \<and> x \<le> hi \<longleftrightarrow> (fst (ends (regions g ! i)) \<le> x \<and> x \<le> snd (ends (regions g ! i)))
                \<and> (fst (ends (regions g ! j)) \<le> x \<and> x \<le> snd (ends (regions g ! j)))))"
proof -
  have g': "g' = fillCache g" "ids = map fst (overlapPairs (regions g))" "coords = map snd (overlapPairs (regions g))"
    using assms(1,3) fillCache_ok [OF assms(1)] by (auto simp: getOverlaps_def Let_def cache_ok_def)
  have z: "zip ids coords = overlapPairs (regions g)" by (simp add: g' zip_map_fst_snd)
  show ?thesis
    unfolding z
  proof (intro conjI allI)
    show "cache_ok g'" using fillCache_ok [OF assms(1)] g' by simp
    show "length ids = length coords" by (simp add: g')
    show "distinct ids" unfolding g' by (rule distinct_overlapPairs)
  next
    fix i j lo hi
    show "((i, j), (lo, hi)) \<in> set (overlapPairs (regions g)) \<longleftrightarrow>
        i < j \<and> j < length (regions g) \<and> lo \<le> hi \<and>
        (\<forall>x. lo \<le> x \<and> x \<le> hi \<longleftrightarrow> (fst (ends (regions g ! i)) \<le> x \<and> x \<le> snd (ends (regions g ! i)))
                \<and> (fst (ends (regions g ! j)) \<le> x \<and> x \<le> snd (ends (regions g ! j))))"
      (is "?L \<longleftrightarrow> ?R")
    proof (cases "i < j \<and> j < length (regions g)")
      case True
      then have o: "fst (ends (regions g ! i)) \<le> snd (ends (regions g ! i))" "fst (ends (regions g ! j)) \<le> snd (ends (regions g ! j))"
        using assms(2) by auto
      have "?L \<longleftrightarrow> max (fst (ends (regions g ! i))) (fst (ends (regions g ! j))) \<le> min (snd (ends (regions g ! i))) (snd (ends (regions g ! j)))
          \<and> lo = max (fst (ends (regions g ! i))) (fst (ends (regions g ! j))) \<and> hi = min (snd (ends (regions g ! i))) (snd (ends (regions g ! j)))"
        using True rangesOverlap_common [OF o] by (simp add: set_overlapPairs overlapOf_def)
      also have "\<dots> \<longleftrightarrow> ?R"
        using True interval_meet_iff [of lo hi] by simp
      finally show ?thesis .
    qed (auto simp: set_overlapPairs)
  qed
qed

text \<open>
  Adding a region (or clearing the group) leaves a filled cache as it is, so the overlaps of the
  new region are not reported until some region is moved.
\<close>

theorem addRegion_stale:
  "haveOverlapCache g \<Longrightarrow> getOverlaps (addRegion k name start end colour p g) ids coords
     = (addRegion k name start end colour p g, ids @ overlapIdCache g, coords @ overlapCoordsCache g)"
  by (simp add: getOverlaps_def fillCache_def addRegion_def)

section \<open>Moving a whole region\<close>

text \<open>Two regions, from 0 to 4 and from 6 to 10.\<close>

definition twoRegions :: regionGroup where
  "twoRegions = addRegion 1 ''b'' 6 10 (1, 0, 0) 1 (addRegion 0 ''a'' 0 4 (1, 0, 0) 1 newRegionGroup)"

lemma twoRegions_separated: "separated (regions twoRegions)"
  by (auto simp: separated_def apart_def twoRegions_def addRegion_def newRegionGroup_def nth_Cons less_Suc_eq)

text \<open>
  \<^verbatim>\<open>findRegionLimit\<close> limits the centre of a moved region by the near edge of its neighbour, not the
  region's own edge: moving the first region to 5 is allowed and makes it the region from 3 to 7.
\<close>

theorem translate_overlaps:
  "findRegionLimit twoRegions 0 REGION_MOVE_TRANSLATE_X 5 = 5 \<and>
   map ends (regions (snd (the (rgrp_moveRegion (\<lambda>mv k x f. Some f) 0 REGION_MOVE_TRANSLATE_X True 5 0
      \<lparr>par_filters = \<lambda>p. Some (), par_rngs = \<lambda>p. None\<rparr> twoRegions)))) = [(3, 7), (6, 10)]"
  by (simp add: twoRegions_def addRegion_def newRegionGroup_def findRegionLimit_def limitFrom_def regionMean_def
      rgrp_moveRegion_def updateParent_def dragSelf_def elem_at_def numeral_2_eq_2 upt_rec)

end
