(* ===== verification/Plots.thy ===== *)
theory Plots
  imports PlotRegions
begin

text \<open>
  The plot classes of src/src/backend/plot.cpp: the base class with its labels, bounds and
  regions, the one-dimensional function with its error bars, the density map and the scatter
  plot. A plot is a record with the fields of \<^verbatim>\<open>PlotBase\<close> and the data of its subclass. Fields
  that a constructor leaves uninitialised keep the value of the memory \<open>raw\<close> it is given.
  The translation of messages \<open>tr\<close> and the square root \<open>sq\<close> are parameters.
\<close>

section \<open>Kinds of plots\<close>

definition PLOT_LINE_LINES :: nat where "PLOT_LINE_LINES = 0"
definition PLOT_LINE_BARS :: nat where "PLOT_LINE_BARS = 1"
definition PLOT_LINE_STEPS :: nat where "PLOT_LINE_STEPS = 2"
definition PLOT_LINE_STEM :: nat where "PLOT_LINE_STEM = 3"
definition PLOT_LINE_POINTS :: nat where "PLOT_LINE_POINTS = 4"
definition PLOT_2D_DENS :: nat where "PLOT_2D_DENS = 6"
definition PLOT_2D_SCATTER :: nat where "PLOT_2D_SCATTER = 7"
definition PLOT_TYPE_ENUM_END :: nat where "PLOT_TYPE_ENUM_END = 8"

definition PLOT_MODE_1D :: nat where "PLOT_MODE_1D = 0"
definition PLOT_MODE_2D :: nat where "PLOT_MODE_2D = 1"
definition PLOT_MODE_MIXED :: nat where "PLOT_MODE_MIXED = 3"
definition PLOT_MODE_ENUM_END :: nat where "PLOT_MODE_ENUM_END = 4"

definition PLOT_ERROR_NONE :: nat where "PLOT_ERROR_NONE = 0"
definition PLOT_ERROR_MOVING_AVERAGE :: nat where "PLOT_ERROR_MOVING_AVERAGE = 1"
definition PLOT_ERROR_ENDOFENUM :: nat where "PLOT_ERROR_ENDOFENUM = 2"

lemmas plot_types = PLOT_LINE_LINES_def PLOT_LINE_BARS_def PLOT_LINE_STEPS_def PLOT_LINE_STEM_def
  PLOT_LINE_POINTS_def PLOT_2D_DENS_def PLOT_2D_SCATTER_def PLOT_TYPE_ENUM_END_def

lemmas plot_modes = PLOT_MODE_1D_def PLOT_MODE_2D_def PLOT_MODE_MIXED_def PLOT_MODE_ENUM_END_def

lemmas plot_errors = PLOT_ERROR_NONE_def PLOT_ERROR_MOVING_AVERAGE_def PLOT_ERROR_ENDOFENUM_def

definition errModeStrings :: "string list" where
  "errModeStrings = [''None'', ''Moving avg.'']"

definition plotTypeStrings :: "string list" where
  "plotTypeStrings = [''Lines'', ''Bars'', ''Steps'', ''Stem'', ''Points'', '''', ''Density'', ''Scatter'']"

definition plotString :: "(string \<Rightarrow> string) \<Rightarrow> nat \<Rightarrow> string option" where
  "plotString tr plotMode = map_option tr (elem_at plotTypeStrings plotMode)"

definition plotID :: "(string \<Rightarrow> string) \<Rightarrow> string \<Rightarrow> nat option" where
  "plotID tr s = find_index (\<lambda>t. s = tr t) (take PLOT_TYPE_ENUM_END plotTypeStrings)"

definition plotErrmodeID :: "string \<Rightarrow> nat option" where
  "plotErrmodeID s = find_index (\<lambda>t. s = t) (take PLOT_ERROR_ENDOFENUM errModeStrings)"

definition plotErrmodeString :: "nat \<Rightarrow> string option" where
  "plotErrmodeString m = elem_at errModeStrings m"

section \<open>The plots\<close>

record plot1D =
  logarithmic :: bool
  xValues :: "rat list"
  yValues :: "rat list"
  errBars :: "rat list"
  errMode :: "nat \<times> nat"

record plot2DScatter =
  sc_points :: "(rat \<times> rat) list"
  sc_intensity :: "rat list"
  scatterIntensityLog :: bool

text \<open>The two-dimensional array \<open>F2\<close> holds is the list of its rows.\<close>

datatype plotData = D1 plot1D | F2 "rat list list" | S2 plot2DScatter

record plot =
  pl_mode :: nat
  pl_xLabel :: string
  pl_yLabel :: string
  pl_title :: string
  pl_colour :: "rat \<times> rat \<times> rat"
  pl_type :: nat
  pl_xBounds :: "rat \<times> rat"
  pl_yBounds :: "rat \<times> rat"
  pl_visible :: bool
  titleAsRawDataLabel :: bool
  pl_parent :: nat
  pl_index :: "32 word"
  pl_regions :: regionGroup
  pl_data :: plotData

definition newPlotBase :: "plot \<Rightarrow> plot" where
  "newPlotBase raw = raw\<lparr>pl_parent := 0, pl_index := - 1, pl_visible := True, pl_regions := newRegionGroup,
     pl_xLabel := '''', pl_yLabel := '''', pl_title := ''''\<rparr>"

definition newPlot1D :: "plot \<Rightarrow> plot1D \<Rightarrow> plot" where
  "newPlot1D raw raw1 = (newPlotBase raw)\<lparr>pl_type := PLOT_LINE_LINES, pl_mode := PLOT_MODE_1D,
     pl_xLabel := '''', pl_yLabel := '''', pl_title := '''', pl_colour := (0, 0, 1),
     pl_data := D1 (raw1\<lparr>xValues := [], yValues := [], errBars := []\<rparr>)\<rparr>"

definition newPlot2DFunc :: "plot \<Rightarrow> plot" where
  "newPlot2DFunc raw = (newPlotBase raw)\<lparr>pl_mode := PLOT_MODE_2D, pl_type := PLOT_2D_DENS, pl_data := F2 []\<rparr>"

definition newPlot2DScatter :: "plot \<Rightarrow> plot" where
  "newPlot2DScatter raw = (newPlotBase raw)\<lparr>pl_type := PLOT_2D_SCATTER,
     pl_data := S2 \<lparr>sc_points = [], sc_intensity = [], scatterIntensityLog = False\<rparr>\<rparr>"

text \<open>\<^verbatim>\<open>copyBase\<close> assigns every field of the base class.\<close>

definition copyBase :: "plot \<Rightarrow> plot \<Rightarrow> plot" where
  "copyBase p target = target\<lparr>pl_type := pl_type p, pl_xBounds := pl_xBounds p, pl_yBounds := pl_yBounds p,
     pl_colour := pl_colour p, pl_visible := pl_visible p, pl_mode := pl_mode p, pl_xLabel := pl_xLabel p,
     pl_yLabel := pl_yLabel p, pl_title := pl_title p, titleAsRawDataLabel := titleAsRawDataLabel p,
     pl_parent := pl_parent p, pl_regions := pl_regions p, pl_index := pl_index p\<rparr>"

definition cloneData :: "plot1D \<Rightarrow> plotData \<Rightarrow> plotData" where
  "cloneData raw1 d = (case d of
      D1 q \<Rightarrow> D1 (raw1\<lparr>logarithmic := logarithmic q, xValues := xValues q, yValues := yValues q, errBars := errBars q\<rparr>)
    | F2 a \<Rightarrow> F2 a
    | S2 q \<Rightarrow> S2 \<lparr>sc_points = sc_points q, sc_intensity = [], scatterIntensityLog = False\<rparr>)"

definition newLike :: "plot \<Rightarrow> plot1D \<Rightarrow> plotData \<Rightarrow> plot" where
  "newLike raw raw1 d = (case d of D1 q \<Rightarrow> newPlot1D raw raw1 | F2 a \<Rightarrow> newPlot2DFunc raw | S2 q \<Rightarrow> newPlot2DScatter raw)"

definition clonePlot :: "plot \<Rightarrow> plot1D \<Rightarrow> plot \<Rightarrow> plot" where
  "clonePlot raw raw1 p = copyBase p ((newLike raw raw1 (pl_data p))\<lparr>pl_data := cloneData raw1 (pl_data p)\<rparr>)"

definition getMode :: "plot \<Rightarrow> nat option" where
  "getMode p =
     (if pl_type p \<in> {PLOT_LINE_LINES, PLOT_LINE_BARS, PLOT_LINE_STEPS, PLOT_LINE_STEM, PLOT_LINE_POINTS} then Some PLOT_MODE_1D
      else if pl_type p \<in> {PLOT_2D_DENS, PLOT_2D_SCATTER} then Some PLOT_MODE_2D
      else None)"

definition pl_setStrings :: "string \<Rightarrow> string \<Rightarrow> string \<Rightarrow> plot \<Rightarrow> plot" where
  "pl_setStrings x y t p = p\<lparr>pl_xLabel := x, pl_yLabel := y, pl_title := t\<rparr>"

definition pl_setColour :: "rat \<times> rat \<times> rat \<Rightarrow> plot \<Rightarrow> plot" where
  "pl_setColour c p = p\<lparr>pl_colour := c\<rparr>"

definition pl_setPlotMode :: "nat \<Rightarrow> plot \<Rightarrow> plot" where
  "pl_setPlotMode m p = p\<lparr>pl_mode := m\<rparr>"

definition pl_isEmpty :: "plot \<Rightarrow> bool" where
  "pl_isEmpty p = (case pl_data p of D1 q \<Rightarrow> xValues q = [] | F2 a \<Rightarrow> a = [] | S2 q \<Rightarrow> sc_points q = [])"

section \<open>Bounds\<close>

text \<open>\<^verbatim>\<open>AXIS_MIN_TOLERANCE\<close> is ten times \<^verbatim>\<open>sqrtf(FLT_EPSILON)\<close>, rounded.\<close>

definition AXIS_MIN_TOLERANCE :: rat where
  "AXIS_MIN_TOLERANCE = f32 (10 * SQRT_FLT_EPSILON)"

definition dataBounds :: "rat list \<Rightarrow> rat \<times> rat" where
  "dataBounds d = fold (\<lambda>v (lo, hi). (min lo v, max hi v)) d (FLT_MAX, - FLT_MAX)"

definition errorBounds :: "rat list \<Rightarrow> rat list \<Rightarrow> (rat \<times> rat) option" where
  "errorBounds d vErr = (if length vErr < length d then None
     else Some (fold (\<lambda>(v, e) (lo, hi). (min lo (f32 (v - e)), max hi (f32 (v + e)))) (zip d vErr) (FLT_MAX, - FLT_MAX)))"

definition widen :: "rat \<times> rat \<Rightarrow> rat \<times> rat" where
  "widen b = (if f32 (snd b - fst b) < AXIS_MIN_TOLERANCE
     then (f32 (fst b - AXIS_MIN_TOLERANCE), f32 (snd b + AXIS_MIN_TOLERANCE)) else b)"

text \<open>The two forms of \<^verbatim>\<open>Plot1D::setData\<close>: from two vectors, and from a vector of pairs.\<close>

definition setDataVecs :: "rat list \<Rightarrow> rat list \<Rightarrow> rat list \<Rightarrow> plot1D \<Rightarrow> plot \<Rightarrow> plot" where
  "setDataVecs vX vY vErr q p = p\<lparr>pl_data := D1 (q\<lparr>xValues := vX, yValues := vY, errBars := vErr\<rparr>),
     pl_xBounds := widen (dataBounds vX), pl_yBounds := widen (dataBounds vY)\<rparr>"

definition setDataPairs :: "(rat \<times> rat) list \<Rightarrow> rat list \<Rightarrow> plot1D \<Rightarrow> plot \<Rightarrow> plot option" where
  "setDataPairs v vErr q p =
     (let q' = q\<lparr>xValues := map fst v, yValues := map snd v\<rparr>;
          p' = p\<lparr>pl_xBounds := dataBounds (map fst v)\<rparr> in
      if vErr = [] then Some (p'\<lparr>pl_data := D1 q', pl_yBounds := dataBounds (map snd v)\<rparr>)
      else map_option (\<lambda>b. p'\<lparr>pl_data := D1 (q'\<lparr>errBars := vErr\<rparr>), pl_xBounds := b\<rparr>) (errorBounds (map snd v) vErr))"

definition setFunc :: "rat list list \<Rightarrow> rat \<Rightarrow> rat \<Rightarrow> rat \<Rightarrow> rat \<Rightarrow> plot \<Rightarrow> plot" where
  "setFunc a xLow xHigh yLow yHigh p = p\<lparr>pl_data := F2 a, pl_xBounds := (xLow, xHigh), pl_yBounds := (yLow, yHigh)\<rparr>"

definition setScatter :: "(rat \<times> rat) list \<Rightarrow> rat list option \<Rightarrow> plot2DScatter \<Rightarrow> plot \<Rightarrow> plot" where
  "setScatter f inten q p = p\<lparr>pl_data := S2 (case inten of
        None \<Rightarrow> q\<lparr>sc_points := f\<rparr> | Some i \<Rightarrow> q\<lparr>sc_points := f, sc_intensity := i\<rparr>),
     pl_xBounds := dataBounds (map fst f), pl_yBounds := dataBounds (map snd f)\<rparr>"

definition getSmallestNonzero :: "plot1D \<Rightarrow> rat" where
  "getSmallestNonzero q = (let m = fold (\<lambda>v m. if v > 0 then min v m else m) (yValues q) FLT_MAX
     in if m = FLT_MAX then 0 else m)"

section \<open>Error bars\<close>

text \<open>The index of the sample \<open>uj\<close> of the window around \<open>ui\<close>, clamped to the data (signed arithmetic).\<close>

definition windowIdx :: "nat \<Rightarrow> nat \<Rightarrow> nat \<Rightarrow> nat \<Rightarrow> nat" where
  "windowIdx len num ui uj = nat (min (max (int ui + int uj - int num div 2) 0) (int len - 1))"

definition windowMean :: "rat list \<Rightarrow> nat \<Rightarrow> nat \<Rightarrow> rat" where
  "windowMean ys num ui =
     f32 (fold (\<lambda>uj m. f32 (m + ys ! windowIdx (length ys) num ui uj)) [0..<num] 0 / of_nat num)"

definition windowDev :: "(rat \<Rightarrow> rat) \<Rightarrow> rat list \<Rightarrow> nat \<Rightarrow> nat \<Rightarrow> rat" where
  "windowDev sq ys num ui =
     (let mean = windowMean ys num ui;
          dev = (\<lambda>uj. f32 (ys ! windowIdx (length ys) num ui uj - mean))
      in sq (f32 (fold (\<lambda>uj s. f32 (s + f32 (dev uj * dev uj))) [0..<num] 0 / of_nat num)))"

definition genErrBars :: "(rat \<Rightarrow> rat) \<Rightarrow> plot1D \<Rightarrow> plot1D" where
  "genErrBars sq q =
     (if fst (errMode q) = PLOT_ERROR_MOVING_AVERAGE
      then q\<lparr>errBars := map (windowDev sq (yValues q) (snd (errMode q))) [0..<length (yValues q)]\<rparr>
      else q)"

definition setErrMode :: "(rat \<Rightarrow> rat) \<Rightarrow> nat \<times> nat \<Rightarrow> plot1D \<Rightarrow> plot1D" where
  "setErrMode sq m q = genErrBars sq (q\<lparr>errMode := m\<rparr>)"

section \<open>Raw data\<close>

text \<open>The columns and labels that are exported; None is a read past the end of the intensities.\<close>

definition raw1D :: "(string \<Rightarrow> string) \<Rightarrow> plot \<Rightarrow> plot1D \<Rightarrow> rat list list \<times> string list" where
  "raw1D tr p q =
     ([xValues q, yValues q] @ (if errBars q = [] then [] else [errBars q]),
      [pl_xLabel p, if titleAsRawDataLabel p then pl_title p else pl_yLabel p]
        @ (if errBars q = [] then [] else [tr ''error'']))"

definition rawScatter :: "(string \<Rightarrow> string) \<Rightarrow> plot \<Rightarrow> plot2DScatter \<Rightarrow> (rat list list \<times> string list) option" where
  "rawScatter tr p q =
     (if sc_intensity q = [] then Some ([map fst (sc_points q), map snd (sc_points q)], [pl_xLabel p, pl_yLabel p])
      else if length (sc_intensity q) < length (sc_points q) then None
      else Some ([map fst (sc_points q), map snd (sc_points q), take (length (sc_points q)) (sc_intensity q)],
                 [pl_xLabel p, pl_yLabel p, tr ''Amplitude'']))"

definition pl_getRawData :: "(string \<Rightarrow> string) \<Rightarrow> plot \<Rightarrow> (rat list list \<times> string list) option" where
  "pl_getRawData tr p = (case pl_data p of
      D1 q \<Rightarrow> Some (raw1D tr p q)
    | F2 a \<Rightarrow> Some (a, replicate (length a) (pl_title p))
    | S2 q \<Rightarrow> rawScatter tr p q)"

section \<open>Facts about the plots\<close>

lemma plotErrmode_roundtrip: "m < PLOT_ERROR_ENDOFENUM \<Longrightarrow> Option.bind (plotErrmodeString m) plotErrmodeID = Some m"
  by (auto simp: plotErrmodeString_def plotErrmodeID_def elem_at_def errModeStrings_def plot_errors less_Suc_eq numeral_2_eq_2)

lemma find_index_nth:
  "inj_on f (set xs) \<Longrightarrow> distinct xs \<Longrightarrow> i < length xs \<Longrightarrow> find_index (\<lambda>t. f (xs ! i) = f t) xs = Some i"
proof (induction xs arbitrary: i)
  case (Cons x xs)
  show ?case
  proof (cases i)
    case (Suc k)
    then have "xs ! k \<in> set xs" "xs ! k \<noteq> x" using Cons.prems by auto
    then have "f (xs ! k) \<noteq> f x" using Cons.prems(1) unfolding inj_on_def by (metis list.set_intros(1) list.set_intros(2))
    then show ?thesis using Cons Suc by simp
  qed simp
qed simp

text \<open>The name of a plot type is read back as that type, in every translation that keeps names distinct.\<close>

lemma plotID_plotString:
  assumes "inj_on tr (set plotTypeStrings)" "m < PLOT_TYPE_ENUM_END"
  shows "Option.bind (plotString tr m) (plotID tr) = Some m"
proof -
  have l: "length plotTypeStrings = PLOT_TYPE_ENUM_END" "distinct plotTypeStrings"
    by (simp_all add: plotTypeStrings_def plot_types)
  from find_index_nth [OF assms(1) l(2), of m] assms(2) show ?thesis
    by (simp add: plotString_def plotID_def elem_at_def l(1))
qed

text \<open>
  A clone has the base fields, the x, y and error values of its original; the error mode of a
  clone is that of uninitialised memory, and a scatter plot loses its intensities.
\<close>

theorem clonePlot_base: "clonePlot raw raw1 p = p\<lparr>pl_data := cloneData raw1 (pl_data p)\<rparr>"
  by (simp add: clonePlot_def copyBase_def)

lemma fold_bounds:
  "fold (\<lambda>v (lo, hi). (min lo v, max hi v)) d (lo, hi) = (fold min d lo, fold max d (hi :: rat))"
  by (induction d arbitrary: lo hi) (auto simp: min.commute max.commute)

lemma fold_min_le: "fold min d m \<le> m \<and> (\<forall>x \<in> set d. fold min d m \<le> (x :: rat))"
proof (induction d arbitrary: m)
  case (Cons v d)
  from Cons.IH [of "min v m"] show ?case by (auto simp: min_le_iff_disj)
qed simp

lemma fold_max_ge: "m \<le> fold max d m \<and> (\<forall>x \<in> set d. (x :: rat) \<le> fold max d m)"
proof (induction d arbitrary: m)
  case (Cons v d)
  from Cons.IH [of "max v m"] show ?case by auto
qed simp

lemma fold_min_in: "fold min d m \<in> insert m (set d)" for m :: rat
proof (induction d arbitrary: m)
  case (Cons v d)
  from Cons.IH [of "min v m"] show ?case by (auto simp: min_def split: if_splits)
qed simp

lemma fold_max_in: "fold max d m \<in> insert m (set d)" for m :: rat
proof (induction d arbitrary: m)
  case (Cons v d)
  from Cons.IH [of "max v m"] show ?case by (auto simp: max_def split: if_splits)
qed simp

lemma dataBounds_eq: "dataBounds d = (fold min d FLT_MAX, fold max d (- FLT_MAX))"
  by (simp add: dataBounds_def fold_bounds)

lemma dataBounds_in: "x \<in> set d \<Longrightarrow> fst (dataBounds d) \<le> x \<and> x \<le> snd (dataBounds d)"
  using fold_min_le fold_max_ge by (auto simp: dataBounds_eq)

text \<open>For data within the range of floats the bounds are attained.\<close>

lemma dataBounds_attained:
  assumes "d \<noteq> []" "\<forall>x \<in> set d. \<bar>x\<bar> \<le> FLT_MAX"
  shows "fst (dataBounds d) \<in> set d \<and> snd (dataBounds d) \<in> set d"
proof -
  obtain x where x: "x \<in> set d" using assms(1) by (cases d) auto
  have "fold min d FLT_MAX \<in> set d"
  proof (cases "fold min d FLT_MAX = FLT_MAX")
    case True
    then have "FLT_MAX \<le> x" using fold_min_le [of d FLT_MAX] x by auto
    moreover have "x \<le> FLT_MAX" using assms(2) x by (auto simp: abs_le_iff)
    ultimately show ?thesis using True x by simp
  qed (use fold_min_in [of d FLT_MAX] in auto)
  moreover have "fold max d (- FLT_MAX) \<in> set d"
  proof (cases "fold max d (- FLT_MAX) = - FLT_MAX")
    case True
    then have "x \<le> - FLT_MAX" using fold_max_ge [of "- FLT_MAX" d] x by auto
    moreover have "- FLT_MAX \<le> x" using assms(2) x by (auto simp: abs_le_iff)
    ultimately show ?thesis using True x by simp
  qed (use fold_max_in [of d "- FLT_MAX"] in auto)
  ultimately show ?thesis by (simp add: dataBounds_eq)
qed

lemma tolerance_nonneg: "0 \<le> AXIS_MIN_TOLERANCE"
  unfolding AXIS_MIN_TOLERANCE_def by (rule f32.nonneg) (simp add: SQRT_FLT_EPSILON_def)

lemma widen_grows:
  assumes "f32 (fst b) = fst b" "f32 (snd b) = snd b"
  shows "fst (widen b) \<le> fst b \<and> snd b \<le> snd (widen b)"
proof -
  have "f32 (fst b - AXIS_MIN_TOLERANCE) \<le> f32 (fst b)" "f32 (snd b) \<le> f32 (snd b + AXIS_MIN_TOLERANCE)"
    using tolerance_nonneg by (auto intro: f32.mono)
  with assms show ?thesis by (simp add: widen_def)
qed

text \<open>After \<^verbatim>\<open>setData\<close> the bounds of a plot contain every point of its data.\<close>

theorem setData_contains:
  assumes "length vX = length vY" "vX \<noteq> []" "\<forall>x \<in> set vX \<union> set vY. f32 x = x \<and> \<bar>x\<bar> \<le> FLT_MAX" "i < length vX"
  shows "let p' = setDataVecs vX vY vErr q p in
     fst (pl_xBounds p') \<le> vX ! i \<and> vX ! i \<le> snd (pl_xBounds p') \<and>
     fst (pl_yBounds p') \<le> vY ! i \<and> vY ! i \<le> snd (pl_yBounds p')"
proof -
  have bounds: "fst (widen (dataBounds d)) \<le> x \<and> x \<le> snd (widen (dataBounds d))"
    if "x \<in> set d" "\<forall>x \<in> set d. f32 x = x \<and> \<bar>x\<bar> \<le> FLT_MAX" for x d
  proof -
    from that have "fst (dataBounds d) \<in> set d \<and> snd (dataBounds d) \<in> set d"
      by (intro dataBounds_attained) auto
    then have "fst (widen (dataBounds d)) \<le> fst (dataBounds d) \<and> snd (dataBounds d) \<le> snd (widen (dataBounds d))"
      using that(2) by (intro widen_grows) auto
    with dataBounds_in [OF that(1)] show ?thesis by (meson order_trans)
  qed
  have "vX ! i \<in> set vX" "vY ! i \<in> set vY" using assms(1,4) by auto
  with bounds [of "vX ! i" vX] bounds [of "vY ! i" vY] assms(3) show ?thesis
    by (simp add: setDataVecs_def Let_def)
qed

text \<open>
  The widening of a flat axis is absolute: from 2 to the 17 on it is rounded away, and the two bounds of
  constant data stay equal.
\<close>

theorem widen_absorbed: "widen (dataBounds [131072, 131072]) = (131072, 131072)"
  by code_simp

text \<open>
  \<^verbatim>\<open>setData\<close> with error bars stores the range of the values in the bounds of the x axis and leaves those of
  the y axis as they were.
\<close>

theorem setDataPairs_error_bounds:
  assumes "vErr \<noteq> []" "setDataPairs v vErr q p = Some p'"
  shows "Some (pl_xBounds p') = errorBounds (map snd v) vErr \<and> pl_yBounds p' = pl_yBounds p"
  using assms by (auto simp: setDataPairs_def Let_def)

text \<open>Without error bars, those of the data before are kept.\<close>

theorem setDataPairs_keeps_errors:
  "setDataPairs v [] q p = Some p' \<Longrightarrow> pl_data p' = D1 (q\<lparr>xValues := map fst v, yValues := map snd v\<rparr>)"
  by (auto simp: setDataPairs_def Let_def)

text \<open>Error bars: one per value, none negative, and every sample of a window lies within the data,
  also at its two ends.\<close>

theorem genErrBars_safe:
  assumes "\<forall>x. 0 \<le> x \<longrightarrow> 0 \<le> sq x" "fst (errMode q) = PLOT_ERROR_MOVING_AVERAGE"
  shows "length (errBars (genErrBars sq q)) = length (yValues q) \<and>
     (\<forall>e \<in> set (errBars (genErrBars sq q)). 0 \<le> e) \<and>
     (\<forall>ui < length (yValues q). \<forall>uj. windowIdx (length (yValues q)) (snd (errMode q)) ui uj < length (yValues q))"
proof -
  have step: "0 \<le> fold (\<lambda>uj s. f32 (s + f32 (f uj * f uj))) us s" if "0 \<le> s" for f and us :: "nat list" and s
    using that
  proof (induction us arbitrary: s)
    case (Cons u us)
    have "0 \<le> f32 (s + f32 (f u * f u))" using Cons.prems by (intro f32.nonneg add_nonneg_nonneg) auto
    from Cons.IH [OF this] show ?case by simp
  qed simp
  have "0 \<le> windowDev sq ys num ui" for ys num ui
    unfolding windowDev_def Let_def
    by (rule assms(1) [rule_format]) (intro f32.nonneg divide_nonneg_nonneg step; simp)
  moreover have "windowIdx len num ui uj < len" if "ui < len" for len num ui uj
    using that by (auto simp: windowIdx_def min_def max_def)
  ultimately show ?thesis by (auto simp: genErrBars_def assms(2))
qed

end
