(* ===== verification/UniqueIDs.thy ===== *)
theory UniqueIDs
  imports FreshNames
begin

text \<open>
  \<^verbatim>\<open>UniqueIDHandler\<close> of src/src/common/basics.cpp and its two clients' common contract. The
  handler keeps (position, identifier) pairs, so that an element of a vector can be named by an
  identifier that stays the same while elements before it are erased. The locale
  \<open>id_handler\<close> states what the clients (the plots of \<^verbatim>\<open>PlotWrapper\<close> and the effects of
  \<^verbatim>\<open>Scene\<close>) rely on: a vector with a handler is a map from identifiers to elements, to which
  adding adds one entry and from which removing removes one.
\<close>

section \<open>The contract\<close>

definition erase_nth :: "nat \<Rightarrow> 'a list \<Rightarrow> 'a list" where
  "erase_nth p xs = take p xs @ drop (Suc p) xs"

lemma length_erase_nth [simp]: "p < length xs \<Longrightarrow> length (erase_nth p xs) = length xs - 1"
  by (simp add: erase_nth_def)

lemma erase_nth_nth:
  "p < length xs \<Longrightarrow> q < length xs \<Longrightarrow> q \<noteq> p \<Longrightarrow> erase_nth p xs ! (if p < q then q - 1 else q) = xs ! q"
  by (auto simp: erase_nth_def nth_append min_def)

locale id_handler =
  fixes ok :: "'h \<Rightarrow> nat \<Rightarrow> bool"
    and ids :: "'h \<Rightarrow> nat set"
    and pos :: "'h \<Rightarrow> nat \<Rightarrow> nat"
    and gen :: "'h \<Rightarrow> nat \<Rightarrow> nat \<times> 'h"
    and kill :: "'h \<Rightarrow> nat \<Rightarrow> 'h"
  assumes gen_ok: "ok h n \<Longrightarrow> ok (snd (gen h n)) (Suc n)"
    and gen_fresh: "ok h n \<Longrightarrow> fst (gen h n) \<notin> ids h"
    and gen_ids: "ok h n \<Longrightarrow> ids (snd (gen h n)) = insert (fst (gen h n)) (ids h)"
    and gen_pos: "ok h n \<Longrightarrow> pos (snd (gen h n)) i = (if i = fst (gen h n) then n else if i \<in> ids h then pos h i else pos (snd (gen h n)) i)"
    and pos_less: "ok h n \<Longrightarrow> i \<in> ids h \<Longrightarrow> pos h i < n"
    and pos_inj: "ok h n \<Longrightarrow> inj_on (pos h) (ids h)"
    and kill_ok: "ok h n \<Longrightarrow> i \<in> ids h \<Longrightarrow> ok (kill h (pos h i)) (n - 1)"
    and kill_ids: "ok h n \<Longrightarrow> i \<in> ids h \<Longrightarrow> ids (kill h (pos h i)) = ids h - {i}"
    and kill_pos: "ok h n \<Longrightarrow> i \<in> ids h \<Longrightarrow> j \<in> ids h \<Longrightarrow> j \<noteq> i \<Longrightarrow>
      pos (kill h (pos h i)) j = (if pos h i < pos h j then pos h j - 1 else pos h j)"
begin

text \<open>The vector \<open>xs\<close> seen through the handler.\<close>

definition elems :: "'a list \<Rightarrow> 'h \<Rightarrow> nat \<Rightarrow> 'a option" where
  "elems xs h i = (if i \<in> ids h then Some (xs ! pos h i) else None)"

lemma elems_add:
  assumes "ok h (length xs)"
  shows "elems (xs @ [x]) (snd (gen h (length xs))) = (elems xs h)(fst (gen h (length xs)) \<mapsto> x)"
proof
  fix i
  show "elems (xs @ [x]) (snd (gen h (length xs))) i = ((elems xs h)(fst (gen h (length xs)) \<mapsto> x)) i"
  proof (cases "i = fst (gen h (length xs))")
    case True
    then show ?thesis
      using gen_ids [OF assms] gen_pos [OF assms, where i = i] by (simp add: elems_def)
  next
    case False
    then show ?thesis
      using gen_ids [OF assms] gen_pos [OF assms, where i = i] pos_less [OF assms]
      by (auto simp: elems_def nth_append)
  qed
qed

lemma elems_remove:
  assumes "ok h (length xs)" "i \<in> ids h"
  shows "elems (erase_nth (pos h i) xs) (kill h (pos h i)) = (elems xs h)(i := None)"
proof
  fix j
  show "elems (erase_nth (pos h i) xs) (kill h (pos h i)) j = ((elems xs h)(i := None)) j"
  proof (cases "j \<in> ids h \<and> j \<noteq> i")
    case True
    then have "pos h j \<noteq> pos h i"
      using pos_inj [OF assms(1)] assms(2) by (auto dest: inj_onD)
    then have "erase_nth (pos h i) xs ! (if pos h i < pos h j then pos h j - 1 else pos h j) = xs ! pos h j"
      using pos_less [OF assms(1)] assms(2) True by (intro erase_nth_nth) auto
    with True show ?thesis
      using kill_ids [OF assms] kill_pos [OF assms, where j = j] by (simp add: elems_def)
  next
    case False
    then show ?thesis using kill_ids [OF assms] by (auto simp: elems_def)
  qed
qed

lemma elems_inj:
  assumes "ok h (length xs)" "distinct xs" "elems xs h i = Some x" "elems xs h j = Some x"
  shows "i = j"
proof -
  from assms(3,4) have i: "i \<in> ids h" "j \<in> ids h" "xs ! pos h i = xs ! pos h j"
    by (auto simp: elems_def split: if_splits)
  with pos_less [OF assms(1)] assms(2) have "pos h i = pos h j"
    by (simp add: nth_eq_iff_index_eq)
  with pos_inj [OF assms(1)] i show ?thesis by (auto dest: inj_onD)
qed

end

section \<open>The handler\<close>

text \<open>The list of (position, identifier) pairs; a failed search returns 0 (in debug builds it aborts).\<close>

type_synonym idHandler = "(nat \<times> nat) list"

fun getPos :: "idHandler \<Rightarrow> nat \<Rightarrow> nat" where
  "getPos [] i = 0"
| "getPos ((p, j) # h) i = (if i = j then p else getPos h i)"

fun getId :: "idHandler \<Rightarrow> nat \<Rightarrow> nat" where
  "getId [] p = 0"
| "getId ((q, j) # h) p = (if p = q then j else getId h p)"

definition getIds :: "idHandler \<Rightarrow> nat list" where
  "getIds h = map snd h"

fun dropPos :: "nat \<Rightarrow> idHandler \<Rightarrow> idHandler" where
  "dropPos p [] = []"
| "dropPos p ((q, j) # h) = (if p = q then h else (q, j) # dropPos p h)"

definition killByPos :: "idHandler \<Rightarrow> nat \<Rightarrow> idHandler" where
  "killByPos h p = map (\<lambda>(q, j). (if q > p then q - 1 else q, j)) (dropPos p h)"

text \<open>
  \<^verbatim>\<open>genId\<close> tries the numbers from 0 to the size of the list; the loop is \<open>fresh_loop\<close> with as
  many rounds. Running out of them would return 0 without storing anything.
\<close>

definition genId :: "idHandler \<Rightarrow> nat \<Rightarrow> nat \<times> idHandler" where
  "genId h p = (case fresh_loop (\<lambda>k. k) (set (getIds h)) (Suc (length h)) 0 of
      None \<Rightarrow> (0, h)
    | Some i \<Rightarrow> (i, h @ [(p, i)]))"

section \<open>Its correctness\<close>

text \<open>Every identifier occurs once, and the positions are those of a vector with \<open>n\<close> elements.\<close>

definition ids_ok :: "idHandler \<Rightarrow> nat \<Rightarrow> bool" where
  "ids_ok h n \<longleftrightarrow> distinct (getIds h) \<and> distinct (map fst h) \<and> set (map fst h) = {..<n}"

interpretation numbers: fresh_names "\<lambda>k. k :: nat"
  by unfold_locales (auto intro: injI)

lemma genId_fresh:
  "\<exists>i. genId h p = (i, h @ [(p, i)]) \<and> i \<notin> set (getIds h) \<and> (\<forall>j < i. j \<in> set (getIds h))"
proof -
  have "card (set (getIds h)) < Suc (length h)"
    using card_length [of "getIds h"] by (simp add: getIds_def)
  then obtain i where i: "fresh_loop (\<lambda>k. k) (set (getIds h)) (Suc (length h)) 0 = Some i"
    using numbers.fresh_total [of "set (getIds h)" "Suc (length h)" 0] by auto
  from fresh_loop_Some [OF i] show ?thesis by (simp add: genId_def i del: fresh_loop.simps)
qed

lemma genIdE:
  obtains i where "genId h p = (i, h @ [(p, i)])" "i \<notin> set (getIds h)" "\<forall>j < i. j \<in> set (getIds h)"
  using genId_fresh [of h p] by auto

lemma getPos_in: "i \<in> set (getIds h) \<Longrightarrow> (getPos h i, i) \<in> set h"
  by (induction h i rule: getPos.induct) (auto simp: getIds_def)

lemma getPos_eq: "distinct (getIds h) \<Longrightarrow> (p, i) \<in> set h \<Longrightarrow> getPos h i = p"
  by (induction h) (auto simp: getIds_def image_iff)

lemma getId_eq: "distinct (map fst h) \<Longrightarrow> (p, i) \<in> set h \<Longrightarrow> getId h p = i"
  by (induction h) (auto simp: image_iff)

lemma getPos_snoc: "getPos (h @ [(p, j)]) i = (if i \<in> set (getIds h) then getPos h i else if i = j then p else 0)"
  by (induction h i rule: getPos.induct) (simp_all add: getIds_def)

lemma filter_other: "p \<notin> set (map fst h) \<Longrightarrow> filter (\<lambda>x. fst x \<noteq> p) h = h"
  by (rule filter_True) auto

lemma dropPos_filter: "distinct (map fst h) \<Longrightarrow> dropPos p h = filter (\<lambda>x. fst x \<noteq> p) h"
  by (induction p h rule: dropPos.induct) (auto simp: filter_other)

lemma set_killByPos:
  "distinct (map fst h) \<Longrightarrow> set (killByPos h p) = (\<lambda>(q, j). (if q > p then q - 1 else q, j)) ` {x \<in> set h. fst x \<noteq> p}"
  by (auto simp: killByPos_def dropPos_filter split_def)

lemma getIds_killByPos: "getIds (killByPos h p) = map snd (dropPos p h)"
  by (simp add: getIds_def killByPos_def split_def comp_def)

lemma kill_distinct: "distinct (map fst h) \<Longrightarrow> distinct (map fst (killByPos h p))"
proof -
  assume d: "distinct (map fst h)"
  have "inj_on (\<lambda>q. if q > p then q - 1 else q) {q. q \<noteq> p}" by (auto simp: inj_on_def split: if_splits)
  moreover have "map fst (killByPos h p) = map (\<lambda>q. if q > p then q - 1 else q) (filter (\<lambda>q. q \<noteq> p) (map fst h))"
    using d by (simp add: killByPos_def dropPos_filter split_def comp_def filter_map)
  ultimately show ?thesis using d by (auto simp: distinct_map inj_on_def)
qed

lemma kill_positions: "p < (n :: nat) \<Longrightarrow> (\<lambda>q. if q > p then q - 1 else q) ` ({..<n} - {p}) = {..<n - 1}"
proof
  assume "p < n"
  show "{..<n - 1} \<subseteq> (\<lambda>q. if q > p then q - 1 else q) ` ({..<n} - {p})"
  proof
    fix q assume "q \<in> {..<n - 1}"
    then show "q \<in> (\<lambda>q. if q > p then q - 1 else q) ` ({..<n} - {p})"
      by (intro image_eqI [where x = "if q < p then q else Suc q"]) (auto split: if_splits)
  qed
qed auto

lemma kill_ids_ok:
  assumes "ids_ok h n" "p < n"
  shows "ids_ok (killByPos h p) (n - 1)"
proof -
  have d: "distinct (map fst h)" "distinct (getIds h)" "set (map fst h) = {..<n}"
    using assms(1) by (auto simp: ids_ok_def)
  have "set (map fst (killByPos h p)) = (\<lambda>q. if q > p then q - 1 else q) ` (set (map fst h) - {p})"
  proof -
    have "map fst (killByPos h p) = map (\<lambda>q. if q > p then q - 1 else q) (filter (\<lambda>q. q \<noteq> p) (map fst h))"
      using d by (simp add: killByPos_def dropPos_filter split_def comp_def filter_map)
    then have "set (map fst (killByPos h p)) = (\<lambda>q. if q > p then q - 1 else q) ` set (filter (\<lambda>q. q \<noteq> p) (map fst h))"
      by (metis set_map)
    moreover have "set (filter (\<lambda>q. q \<noteq> p) (map fst h)) = set (map fst h) - {p}" by auto
    ultimately show ?thesis by simp
  qed
  moreover have "distinct (getIds (killByPos h p))"
    using d(2) distinct_map_filter [of snd h] unfolding getIds_killByPos dropPos_filter [OF d(1)] by (simp add: getIds_def)
  ultimately show ?thesis
    using kill_distinct [OF d(1)] kill_positions [OF assms(2)] d(3) by (simp add: ids_ok_def)
qed

lemma kill_getPos:
  assumes "ids_ok h n" "(p, i) \<in> set h" "(q, j) \<in> set h" "j \<noteq> i"
  shows "getPos (killByPos h p) j = (if p < q then q - 1 else q)"
proof (rule getPos_eq)
  have d: "distinct (map fst h)" "distinct (getIds h)" using assms(1) by (auto simp: ids_ok_def)
  have "p < n" using assms(1,2) by (force simp: ids_ok_def)
  with kill_ids_ok [OF assms(1)] show "distinct (getIds (killByPos h p))" by (simp add: ids_ok_def)
  have "q \<noteq> p" using getId_eq [OF d(1)] assms(2-4) by blast
  then show "(if p < q then q - 1 else q, j) \<in> set (killByPos h p)"
    unfolding set_killByPos [OF d(1)]
    by (intro image_eqI [where x = "(q, j)"]) (use assms(3) in auto)
qed

interpretation uid: id_handler ids_ok "\<lambda>h. set (getIds h)" getPos genId killByPos
proof
  fix h n i j
  assume ok: "ids_ok h n"
  then have d: "distinct (map fst h)" "distinct (getIds h)" "set (map fst h) = {..<n}"
    by (auto simp: ids_ok_def)
  obtain k where k: "genId h n = (k, h @ [(n, k)])" "k \<notin> set (getIds h)" by (rule genIdE)
  show "ids_ok (snd (genId h n)) (Suc n)"
    using k d by (auto simp: ids_ok_def getIds_def)
  show "fst (genId h n) \<notin> set (getIds h)" using k by simp
  show "set (getIds (snd (genId h n))) = insert (fst (genId h n)) (set (getIds h))"
    using k by (simp add: getIds_def)
  show "getPos (snd (genId h n)) i = (if i = fst (genId h n) then n else if i \<in> set (getIds h) then getPos h i else getPos (snd (genId h n)) i)"
    using k by (auto simp: getPos_snoc)
  show "inj_on (getPos h) (set (getIds h))"
  proof
    fix a b assume "a \<in> set (getIds h)" "b \<in> set (getIds h)" "getPos h a = getPos h b"
    then show "a = b" using getPos_in [of a h] getPos_in [of b h] getId_eq [OF d(1)] by metis
  qed
  assume i: "i \<in> set (getIds h)"
  then have p: "(getPos h i, i) \<in> set h" by (rule getPos_in)
  then show less: "getPos h i < n" using d(3) by force
  show "ids_ok (killByPos h (getPos h i)) (n - 1)" by (rule kill_ids_ok [OF ok less])
  show "set (getIds (killByPos h (getPos h i))) = set (getIds h) - {i}"
  proof -
    have "x \<in> set h \<Longrightarrow> fst x = getPos h i \<longleftrightarrow> snd x = i" for x
      using p getId_eq [OF d(1)] getPos_eq [OF d(2)] by (metis prod.collapse)
    then have "snd ` {x \<in> set h. fst x \<noteq> getPos h i} = set (getIds h) - {i}"
      unfolding getIds_def set_map by blast
    then show ?thesis
      unfolding getIds_killByPos dropPos_filter [OF d(1)] by (simp add: split_def)
  qed
  assume "j \<in> set (getIds h)" "j \<noteq> i"
  then show "getPos (killByPos h (getPos h i)) j = (if getPos h i < getPos h j then getPos h j - 1 else getPos h j)"
    using kill_getPos [OF ok p getPos_in] by simp
qed

lemma ids_ok_Nil: "ids_ok [] 0"
  by (simp add: ids_ok_def getIds_def)

text \<open>\<^verbatim>\<open>genId\<close> ends with the smallest identifier that is not in use, and appends the pair.\<close>

theorem genId_smallest:
  "\<exists>i. genId h p = (i, h @ [(p, i)]) \<and> i \<notin> set (getIds h) \<and> (\<forall>j < i. j \<in> set (getIds h)) \<and> i \<le> length h"
proof -
  obtain i where i: "genId h p = (i, h @ [(p, i)])" "i \<notin> set (getIds h)" "\<forall>j < i. j \<in> set (getIds h)"
    by (rule genIdE)
  have "card {..<i} \<le> card (set (getIds h))" by (rule card_mono) (use i(3) in auto)
  then have "i \<le> length h" using card_length [of "getIds h"] by (simp add: getIds_def)
  with i show ?thesis by simp
qed

text \<open>Position and identifier searches are inverse to each other.\<close>

lemma getId_getPos: "ids_ok h n \<Longrightarrow> i \<in> set (getIds h) \<Longrightarrow> getId h (getPos h i) = i"
  using getId_eq getPos_in by (simp add: ids_ok_def)

lemma getPos_getId: "ids_ok h n \<Longrightarrow> p < n \<Longrightarrow> getPos h (getId h p) = p"
proof -
  assume ok: "ids_ok h n" and p: "p < n"
  then have "p \<in> set (map fst h)" by (simp add: ids_ok_def)
  then obtain i where "(p, i) \<in> set h" by auto
  with ok show ?thesis using getId_eq getPos_eq by (metis ids_ok_def)
qed

section \<open>A vector that only grows\<close>

text \<open>While nothing is removed, identifier and position agree.\<close>

definition same_ids :: "nat \<Rightarrow> idHandler" where
  "same_ids n = map (\<lambda>k. (k, k)) [0..<n]"

lemma getIds_same [simp]: "getIds (same_ids n) = [0..<n]"
  by (simp add: getIds_def same_ids_def comp_def)

lemma getPos_same [simp]: "i < n \<Longrightarrow> getPos (same_ids n) i = i"
  by (rule getPos_eq) (auto simp: same_ids_def getIds_def comp_def)

lemma genId_same [simp]: "genId (same_ids n) n = (n, same_ids (Suc n))"
proof -
  obtain i where i: "genId (same_ids n) n = (i, same_ids n @ [(n, i)])" "i \<notin> {..<n}" "\<forall>j < i. j \<in> {..<n}"
    using genIdE [of "same_ids n" n] by (auto simp: atLeast0LessThan)
  have "i = n"
  proof (rule antisym)
    show "i \<le> n" using i(3) by (metis lessThan_iff less_irrefl not_le)
    show "n \<le> i" using i(2) by simp
  qed
  with i(1) show ?thesis by (simp add: same_ids_def)
qed

end
