(* ===== verification/PlotWrapper.thy ===== *)
theory PlotWrapper
  imports Plots UniqueIDs
begin

text \<open>
  \<^verbatim>\<open>PlotWrapper\<close> of src/src/backend/plot.cpp, the collection of plots of the plot pane: its plots, the
  identifiers they are addressed by, the bounds the user zoomed to, and the memory of which plots
  were visible before the last refresh. Drawing is MathGL's and not modelled, apart from what
  \<^verbatim>\<open>drawPlot\<close> computes itself: the labels, the use of a logarithmic axis and its lower end.
\<close>

section \<open>State\<close>

record overlay =
  ov_coords :: "(rat \<times> rat) list"
  ov_title :: string
  ov_enabled :: bool

record plotWrapper =
  pw_changed :: bool
  pw_plots :: "plot list"
  pw_lastVisible :: "(nat \<times> 32 word) list"
  pw_ids :: idHandler
  pw_applyUserBounds :: bool
  pw_xUser :: "rat \<times> rat"
  pw_yUser :: "rat \<times> rat"
  pw_drawLegend :: bool
  pw_locked :: bool
  pw_highlight :: bool
  pw_overlaysOn :: bool
  pw_overlays :: "overlay list"

definition newPlotWrapper :: "plotWrapper \<Rightarrow> plotWrapper" where
  "newPlotWrapper raw = raw\<lparr>pw_applyUserBounds := False, pw_changed := True, pw_drawLegend := True,
     pw_locked := False, pw_highlight := False, pw_plots := [], pw_lastVisible := [], pw_ids := [],
     pw_overlaysOn := True, pw_overlays := []\<rparr>"

text \<open>Assignment clones the plots; the overlays are those of the target. The second argument is the
  memory the clones are made in.\<close>

definition pw_assign :: "plot \<Rightarrow> plot1D \<Rightarrow> plotWrapper \<Rightarrow> plotWrapper \<Rightarrow> plotWrapper" where
  "pw_assign raw raw1 w p = w\<lparr>pw_changed := pw_changed p, pw_plots := map (clonePlot raw raw1) (pw_plots p),
     pw_lastVisible := pw_lastVisible p, pw_ids := pw_ids p, pw_applyUserBounds := pw_applyUserBounds p,
     pw_xUser := pw_xUser p, pw_yUser := pw_yUser p, pw_highlight := pw_highlight p,
     pw_drawLegend := pw_drawLegend p, pw_locked := pw_locked p\<rparr>"

section \<open>Plots by identifier\<close>

definition plotAt :: "plotWrapper \<Rightarrow> nat \<Rightarrow> plot option" where
  "plotAt w i = elem_at (pw_plots w) (getPos (pw_ids w) i)"

definition onPlot :: "(plot \<Rightarrow> plot) \<Rightarrow> nat \<Rightarrow> plotWrapper \<Rightarrow> plotWrapper option" where
  "onPlot f i w = map_option (\<lambda>p. w\<lparr>pw_plots := (pw_plots w)[getPos (pw_ids w) i := f p]\<rparr>) (plotAt w i)"

definition touch :: "plotWrapper \<Rightarrow> plotWrapper" where
  "touch w = w\<lparr>pw_changed := True\<rparr>"

definition pw_getTitle :: "plotWrapper \<Rightarrow> nat \<Rightarrow> string option" where
  "pw_getTitle w i = map_option pl_title (plotAt w i)"

definition addPlot :: "plot \<Rightarrow> plotWrapper \<Rightarrow> nat \<times> plotWrapper" where
  "addPlot p w = (case genId (pw_ids w) (length (pw_plots w)) of
     (i, h) \<Rightarrow> (i, w\<lparr>pw_plots := pw_plots w @ [p], pw_ids := h, pw_changed := True\<rparr>))"

definition plotKey :: "plot \<Rightarrow> nat \<times> 32 word" where
  "plotKey p = (pl_parent p, pl_index p)"

definition pw_clear :: "bool \<Rightarrow> plotWrapper \<Rightarrow> plotWrapper" where
  "pw_clear preserve w = w\<lparr>
     pw_lastVisible := (if preserve then map plotKey (filter (\<lambda>p. pl_visible p \<and> pl_parent p \<noteq> 0) (pw_plots w)) else []),
     pw_applyUserBounds := (if preserve then pw_applyUserBounds w else False),
     pw_plots := [], pw_ids := [], pw_changed := True\<rparr>"

definition pw_setStrings :: "nat \<Rightarrow> string \<Rightarrow> string \<Rightarrow> string \<Rightarrow> plotWrapper \<Rightarrow> plotWrapper option" where
  "pw_setStrings i x y t w = map_option touch (onPlot (pl_setStrings x y t) i w)"

definition setTraceStyle :: "nat \<Rightarrow> nat \<Rightarrow> plotWrapper \<Rightarrow> plotWrapper option" where
  "setTraceStyle i m w = map_option touch (onPlot (pl_setPlotMode m) i w)"

definition pw_setColours :: "nat \<Rightarrow> rat \<times> rat \<times> rat \<Rightarrow> plotWrapper \<Rightarrow> plotWrapper option" where
  "pw_setColours i c w = map_option touch (onPlot (pl_setColour c) i w)"

definition pw_setVisible :: "nat \<Rightarrow> bool \<Rightarrow> plotWrapper \<Rightarrow> plotWrapper option" where
  "pw_setVisible i v w = map_option touch (onPlot (\<lambda>p. p\<lparr>pl_visible := v\<rparr>) i w)"

definition hideAll :: "plotWrapper \<Rightarrow> plotWrapper" where
  "hideAll w = w\<lparr>pw_plots := map (\<lambda>p. p\<lparr>pl_visible := False\<rparr>) (pw_plots w), pw_changed := True\<rparr>"

definition getNumVisible :: "plotWrapper \<Rightarrow> nat" where
  "getNumVisible w = length (filter pl_visible (pw_plots w))"

definition isPlotVisible :: "plotWrapper \<Rightarrow> nat \<Rightarrow> bool option" where
  "isPlotVisible w i = map_option pl_visible (plotAt w i)"

definition pw_plotType :: "plotWrapper \<Rightarrow> nat \<Rightarrow> nat option" where
  "pw_plotType w i = map_option pl_mode (plotAt w i)"

text \<open>Positions are passed where identifiers are expected.\<close>

definition getVisibleIDs :: "plotWrapper \<Rightarrow> nat list" where
  "getVisibleIDs w = filter (\<lambda>ui. isPlotVisible w ui = Some True) [0..<length (pw_plots w)]"

section \<open>Visibility across refreshes\<close>

text \<open>The inner loop: the first plot with the key becomes visible.\<close>

fun showFirst :: "nat \<times> 32 word \<Rightarrow> plot list \<Rightarrow> plot list" where
  "showFirst k [] = []"
| "showFirst k (p # ps) = (if plotKey p = k then p\<lparr>pl_visible := True\<rparr> # ps else p # showFirst k ps)"

definition bestEffortRestoreVisibility :: "plotWrapper \<Rightarrow> plotWrapper" where
  "bestEffortRestoreVisibility w = w\<lparr>
     pw_plots := fold showFirst (pw_lastVisible w) (map (\<lambda>p. p\<lparr>pl_visible := False\<rparr>) (pw_plots w)),
     pw_lastVisible := [], pw_changed := True\<rparr>"

definition overrideLastVisible :: "(nat \<times> 32 word) list \<Rightarrow> plotWrapper \<Rightarrow> plotWrapper" where
  "overrideLastVisible l w = w\<lparr>pw_lastVisible := l\<rparr>"

section \<open>Bounds\<close>

text \<open>The two intervals of the visible plots, starting from the inverted range of floats.\<close>

definition growTo :: "rat \<times> rat \<Rightarrow> rat \<times> rat \<Rightarrow> rat \<times> rat" where
  "growTo b a = (min (fst a) (fst b), max (snd a) (snd b))"

definition scanBounds :: "plotWrapper \<Rightarrow> (rat \<times> rat) \<times> (rat \<times> rat)" where
  "scanBounds w = fold (\<lambda>p (x, y). if pl_visible p then (growTo (pl_xBounds p) x, growTo (pl_yBounds p) y) else (x, y))
     (pw_plots w) ((FLT_MAX, - FLT_MAX), (FLT_MAX, - FLT_MAX))"

definition pw_setBounds :: "rat \<times> rat \<Rightarrow> rat \<times> rat \<Rightarrow> plotWrapper \<Rightarrow> plotWrapper" where
  "pw_setBounds x y w = w\<lparr>pw_xUser := x, pw_yUser := y, pw_applyUserBounds := True, pw_changed := True\<rparr>"

definition disableUserBounds :: "plotWrapper \<Rightarrow> plotWrapper" where
  "disableUserBounds w = w\<lparr>pw_changed := True, pw_applyUserBounds := False\<rparr>"

definition disableUserAxisBounds :: "bool \<Rightarrow> plotWrapper \<Rightarrow> plotWrapper" where
  "disableUserAxisBounds xBound w =
     (let (x, y) = scanBounds w;
          w1 = (if xBound then w\<lparr>pw_xUser := x\<rparr> else w\<lparr>pw_yUser := (max 0 (fst y), snd y)\<rparr>);
          w2 = (if \<bar>f32 (fst (pw_xUser w1) - fst x)\<bar> \<le> FLT_EPSILON \<and> \<bar>f32 (fst (pw_yUser w1) - fst y)\<bar> \<le> FLT_EPSILON
                then w1\<lparr>pw_applyUserBounds := False\<rparr> else w1)
      in touch w2)"

definition pw_getBounds :: "plotWrapper \<Rightarrow> (rat \<times> rat) \<times> (rat \<times> rat)" where
  "pw_getBounds w = (if pw_applyUserBounds w then (pw_xUser w, pw_yUser w) else scanBounds w)"

section \<open>The mode of the visible plots\<close>

fun visMode :: "nat \<Rightarrow> plot list \<Rightarrow> nat option" where
  "visMode m [] = Some m"
| "visMode m (p # ps) =
     (if pl_visible p \<and> pl_mode p \<noteq> m
      then if m = PLOT_MODE_ENUM_END then Option.bind (getMode p) (\<lambda>m'. visMode m' ps) else Some PLOT_MODE_MIXED
      else visMode m ps)"

definition getVisibleMode :: "plotWrapper \<Rightarrow> nat option" where
  "getVisibleMode w = visMode PLOT_MODE_ENUM_END (pw_plots w)"

definition pw_getRawData :: "(string \<Rightarrow> string) \<Rightarrow> plotWrapper \<Rightarrow> (rat list list \<times> string list) list option" where
  "pw_getRawData tr w = (if pw_plots w = [] then Some []
     else Option.bind (getVisibleMode w) (\<lambda>m.
       if m = PLOT_MODE_1D \<or> m = PLOT_MODE_2D
       then map_option (filter (\<lambda>d. fst d \<noteq> [])) (those (map (pl_getRawData tr) (filter pl_visible (pw_plots w))))
       else Some []))"

section \<open>Regions\<close>

text \<open>One entry per identifier; the entry of a skipped plot is the default \<open>(0, [])\<close>.\<close>

definition pw_getRegions :: "bool \<Rightarrow> plotWrapper \<Rightarrow> (nat \<times> plotRegion list) list option" where
  "pw_getRegions visibleOnly w = those (map (\<lambda>i. map_option (\<lambda>p.
       if pl_visible p \<or> \<not> visibleOnly then (i, regions (pl_regions p)) else (0, []))
     (elem_at (pw_plots w) i)) (getIds (pw_ids w)))"

fun regionAtFrom :: "rat \<Rightarrow> nat \<Rightarrow> plot list \<Rightarrow> (nat \<times> nat) option" where
  "regionAtFrom x ui [] = None"
| "regionAtFrom x ui (p # ps) =
     (case (if pl_visible p then getRegionIdAtPosition (pl_regions p) x else None) of
        Some r \<Rightarrow> Some (ui, r)
      | None \<Rightarrow> regionAtFrom x (Suc ui) ps)"

definition pw_getRegionIdAtPosition :: "plotWrapper \<Rightarrow> rat \<Rightarrow> (nat \<times> nat) option" where
  "pw_getRegionIdAtPosition w x = regionAtFrom x 0 (pw_plots w)"

fun plotOverlaps :: "plot list \<Rightarrow> plot list \<times> (nat \<times> nat) list \<times> (rat \<times> rat) list" where
  "plotOverlaps [] = ([], [], [])"
| "plotOverlaps (p # ps) =
     (let (g, ids, coords) = getOverlaps (pl_regions p) [] []; (ps', ids', coords') = plotOverlaps ps
      in (p\<lparr>pl_regions := g\<rparr> # ps', ids @ ids', coords @ coords'))"

definition getRegionOverlaps :: "plotWrapper \<Rightarrow> plotWrapper \<times> (nat \<times> nat) list \<times> (rat \<times> rat) list" where
  "getRegionOverlaps w = (case plotOverlaps (pw_plots w) of (ps, r) \<Rightarrow> (w\<lparr>pw_plots := ps\<rparr>, r))"

definition pw_getRegion :: "plotWrapper \<Rightarrow> nat \<Rightarrow> nat \<Rightarrow> plotRegion option" where
  "pw_getRegion w i k = Option.bind (plotAt w i) (\<lambda>p. elem_at (regions (pl_regions p)) k)"

definition pw_findRegionLimit :: "plotWrapper \<Rightarrow> nat \<Rightarrow> nat \<Rightarrow> regionMove \<Rightarrow> rat \<Rightarrow> rat option" where
  "pw_findRegionLimit w i k mv x = map_option (\<lambda>p. findRegionLimit (pl_regions p) k mv x) (plotAt w i)"

definition pw_moveRegion ::
  "(regionMove \<Rightarrow> nat \<Rightarrow> rat \<Rightarrow> 'f \<Rightarrow> 'f option) \<Rightarrow> nat \<Rightarrow> nat \<Rightarrow> bool \<Rightarrow> regionMove \<Rightarrow> rat \<Rightarrow> rat \<Rightarrow> 'f parents \<Rightarrow> plotWrapper \<Rightarrow> ('f parents \<times> plotWrapper) option" where
  "pw_moveRegion setProp i k selfUpdate mv newX newY ow w = Option.bind (plotAt w i) (\<lambda>p.
     Option.bind (rgrp_moveRegion setProp k mv selfUpdate newX newY ow (pl_regions p)) (\<lambda>(ow', g).
       map_option (Pair ow') (onPlot (\<lambda>p. p\<lparr>pl_regions := g\<rparr>) i w)))"

definition setRegionGroup :: "nat \<Rightarrow> regionGroup \<Rightarrow> plotWrapper \<Rightarrow> plotWrapper option" where
  "setRegionGroup i g w = onPlot (\<lambda>p. p\<lparr>pl_regions := g\<rparr>) i w"

text \<open>Regions of ranging filters are redirected to the copy of the range file that \<open>switchMap\<close> holds for
  the filter; \<open>ty\<close> is the type of the filter at an address.\<close>

definition switchRegion :: "(nat \<Rightarrow> filterType) \<Rightarrow> (nat \<Rightarrow> nat) \<Rightarrow> plotRegion \<Rightarrow> plotRegion" where
  "switchRegion ty switchMap r = (if ty (pr_parent r) \<noteq> FILTER_TYPE_RANGEFILE then r
     else setUpdateMethod ACCESS_MODE_RANGEFILE (switchMap (pr_parent r)) r)"

definition switchOutRegionParent :: "(nat \<Rightarrow> filterType) \<Rightarrow> (nat \<Rightarrow> nat) \<Rightarrow> plotWrapper \<Rightarrow> plotWrapper" where
  "switchOutRegionParent ty switchMap w = w\<lparr>pw_plots := map (\<lambda>p.
     p\<lparr>pl_regions := (pl_regions p)\<lparr>regions := map (switchRegion ty switchMap) (regions (pl_regions p))\<rparr>\<rparr>) (pw_plots w)\<rparr>"

section \<open>Overlays\<close>

definition ov_add :: "overlay \<Rightarrow> plotWrapper \<Rightarrow> plotWrapper" where
  "ov_add v w = w\<lparr>pw_overlays := pw_overlays w @ [v]\<rparr>"

definition ov_setEnabled :: "nat \<Rightarrow> bool \<Rightarrow> plotWrapper \<Rightarrow> plotWrapper option" where
  "ov_setEnabled k b w = map_option (\<lambda>v. w\<lparr>pw_overlays := (pw_overlays w)[k := v\<lparr>ov_enabled := b\<rparr>]\<rparr>) (elem_at (pw_overlays w) k)"

definition ov_erase :: "nat \<Rightarrow> plotWrapper \<Rightarrow> plotWrapper option" where
  "ov_erase k w = (if k < length (pw_overlays w) then Some (w\<lparr>pw_overlays := erase_nth k (pw_overlays w)\<rparr>) else None)"

section \<open>What drawing computes\<close>

definition joinLabel :: "(string \<Rightarrow> string) \<Rightarrow> string \<Rightarrow> string \<Rightarrow> string" where
  "joinLabel tr l new = (if l = [] then new else if l \<noteq> new then tr ''Multiple data types'' else l)"

definition joinTitle :: "string \<Rightarrow> string \<times> bool \<Rightarrow> string \<times> bool" where
  "joinTitle new a = (case a of (t, multi) \<Rightarrow>
     if \<not> multi \<and> t = [] then (new, multi) else if t \<noteq> new then ([], True) else (t, multi))"

definition plotLabels :: "(string \<Rightarrow> string) \<Rightarrow> plotWrapper \<Rightarrow> string \<times> string \<times> (string \<times> bool)" where
  "plotLabels tr w = (let ps = filter pl_visible (pw_plots w) in
     (foldl (joinLabel tr) [] (map pl_xLabel ps), foldl (joinLabel tr) [] (map pl_yLabel ps),
      fold joinTitle (map pl_title ps) ([], False)))"

definition asPlot1D :: "plot \<Rightarrow> plot1D option" where
  "asPlot1D p = (if pl_visible p \<and> pl_type p = PLOT_MODE_1D then case pl_data p of D1 q \<Rightarrow> Some q | _ \<Rightarrow> None else None)"

definition useLogPlot :: "plotWrapper \<Rightarrow> bool" where
  "useLogPlot w = list_ex logarithmic (List.map_filter asPlot1D (pw_plots w))"

definition logMinY :: "plotWrapper \<Rightarrow> rat" where
  "logMinY w = fold (\<lambda>q m. let t = getSmallestNonzero q in if t > 0 then min t m else m)
     (List.map_filter asPlot1D (pw_plots w)) (f32 (1 / 10))"

section \<open>Identifiers stay positions\<close>

text \<open>
  The operations that change a wrapper. No operation removes a single plot, so the identifiers of
  the plots are their positions in every state the wrapper reaches.
\<close>

inductive pw_step :: "plotWrapper \<Rightarrow> plotWrapper \<Rightarrow> bool" where
  step_add: "addPlot p w = (i, w') \<Longrightarrow> pw_step w w'"
| step_clear: "pw_step w (pw_clear preserve w)"
| step_strings: "pw_setStrings i x y t w = Some w' \<Longrightarrow> pw_step w w'"
| step_style: "setTraceStyle i m w = Some w' \<Longrightarrow> pw_step w w'"
| step_colours: "pw_setColours i c w = Some w' \<Longrightarrow> pw_step w w'"
| step_visible: "pw_setVisible i v w = Some w' \<Longrightarrow> pw_step w w'"
| step_hide: "pw_step w (hideAll w)"
| step_restore: "pw_step w (bestEffortRestoreVisibility w)"
| step_override: "pw_step w (overrideLastVisible l w)"
| step_bounds: "pw_step w (pw_setBounds x y w)"
| step_axis: "pw_step w (disableUserAxisBounds b w)"
| step_noBounds: "pw_step w (disableUserBounds w)"
| step_overlaps: "getRegionOverlaps w = (w', r) \<Longrightarrow> pw_step w w'"
| step_group: "setRegionGroup i g w = Some w' \<Longrightarrow> pw_step w w'"
| step_switch: "pw_step w (switchOutRegionParent ty switchMap w)"
| step_ov_add: "pw_step w (ov_add v w)"
| step_ov_set: "ov_setEnabled k b w = Some w' \<Longrightarrow> pw_step w w'"
| step_ov_erase: "ov_erase k w = Some w' \<Longrightarrow> pw_step w w'"

text \<open>A drag replaces the regions of one plot.\<close>

lemma step_move: "pw_moveRegion setProp i k u mv x y ow w = Some (ow', w') \<Longrightarrow> pw_step w w'"
  by (auto simp: pw_moveRegion_def setRegionGroup_def bind_eq_Some_conv intro: step_group)

inductive pw_reach :: "plotWrapper \<Rightarrow> bool" where
  reach_new: "pw_reach (newPlotWrapper raw)"
| reach_assign: "pw_reach w \<Longrightarrow> pw_reach w' \<Longrightarrow> pw_reach (pw_assign raw raw1 w w')"
| reach_step: "pw_reach w \<Longrightarrow> pw_step w w' \<Longrightarrow> pw_reach w'"

definition pw_ok :: "plotWrapper \<Rightarrow> bool" where
  "pw_ok w \<longleftrightarrow> pw_ids w = same_ids (length (pw_plots w))"

lemma same_ids_0 [simp]: "same_ids 0 = []"
  by (simp add: same_ids_def)

lemma length_showFirst [simp]: "length (showFirst k ps) = length ps"
  by (induction k ps rule: showFirst.induct) auto

lemma length_fold_showFirst [simp]: "length (fold showFirst ks ps) = length ps"
  by (induction ks arbitrary: ps) auto

lemma length_plotOverlaps: "length (fst (plotOverlaps ps)) = length ps"
  by (induction ps rule: plotOverlaps.induct) (auto simp: Let_def split: prod.splits)

lemma onPlot_shape: "onPlot f i w = Some w' \<Longrightarrow> pw_ids w' = pw_ids w \<and> length (pw_plots w') = length (pw_plots w)"
  by (auto simp: onPlot_def)

lemma touch_shape [simp]: "pw_ids (touch w) = pw_ids w" "pw_plots (touch w) = pw_plots w"
  by (simp_all add: touch_def)

lemma addPlot_ok: "pw_ok w \<Longrightarrow> addPlot p w = (i, w') \<Longrightarrow> pw_ok w' \<and> i = length (pw_plots w)"
  by (auto simp: addPlot_def pw_ok_def)

lemma pw_step_shape:
  assumes "pw_step w w'"
  shows "pw_ok w \<longrightarrow> pw_ok w'"
  using assms
proof (induction rule: pw_step.induct)
  case (step_add p w i w')
  then show ?case using addPlot_ok by blast
next
  case (step_axis w b)
  show ?case by (simp add: pw_ok_def disableUserAxisBounds_def Let_def split: prod.splits)
next
  case (step_overlaps w w' r)
  then show ?case using length_plotOverlaps [of "pw_plots w"]
    by (auto simp: pw_ok_def getRegionOverlaps_def split: prod.splits)
qed (auto simp: pw_ok_def pw_clear_def hideAll_def bestEffortRestoreVisibility_def overrideLastVisible_def
      pw_setBounds_def disableUserBounds_def switchOutRegionParent_def ov_add_def ov_setEnabled_def ov_erase_def
      pw_setStrings_def setTraceStyle_def pw_setColours_def pw_setVisible_def setRegionGroup_def
      split: if_splits dest: onPlot_shape)

lemma pw_reach_ok: "pw_reach w \<Longrightarrow> pw_ok w"
proof (induction rule: pw_reach.induct)
  case (reach_step w w')
  then show ?case using pw_step_shape by blast
qed (auto simp: pw_ok_def newPlotWrapper_def pw_assign_def)

text \<open>Property C12. In every reachable wrapper an identifier is the position of its plot: looking a plot up,
  listing the visible ones and listing the regions by identifier all reach the plot at that position.\<close>

theorem plot_ids_are_positions:
  assumes "pw_reach w"
  shows "getIds (pw_ids w) = [0..<length (pw_plots w)] \<and>
    (\<forall>i < length (pw_plots w). plotAt w i = Some (pw_plots w ! i)) \<and>
    getVisibleIDs w = filter (\<lambda>i. pl_visible (pw_plots w ! i)) [0..<length (pw_plots w)] \<and>
    pw_getRegions False w = Some (map (\<lambda>i. (i, regions (pl_regions (pw_plots w ! i)))) [0..<length (pw_plots w)])"
proof -
  have ids: "pw_ids w = same_ids (length (pw_plots w))"
    using pw_reach_ok [OF assms] by (simp add: pw_ok_def)
  have those_some: "those (map (\<lambda>i. Some (f i)) xs) = Some (map f xs)" for f :: "nat \<Rightarrow> 'b" and xs
    by (induction xs) auto
  have "pw_getRegions False w = those (map (\<lambda>i. Some (i, regions (pl_regions (pw_plots w ! i)))) [0..<length (pw_plots w)])"
    unfolding pw_getRegions_def ids getIds_same
    by (intro arg_cong [where f = those] map_cong) (auto simp: elem_at_def)
  then have regs: "pw_getRegions False w = Some (map (\<lambda>i. (i, regions (pl_regions (pw_plots w ! i)))) [0..<length (pw_plots w)])"
    by (simp add: those_some)
  have at: "i < length (pw_plots w) \<Longrightarrow> plotAt w i = Some (pw_plots w ! i)" for i
    by (simp add: plotAt_def ids elem_at_def)
  then have vis: "getVisibleIDs w = filter (\<lambda>i. pl_visible (pw_plots w ! i)) [0..<length (pw_plots w)]"
    unfolding getVisibleIDs_def by (intro filter_cong) (auto simp: isPlotVisible_def)
  show ?thesis using at vis regs by (simp add: ids)
qed

section \<open>Restoring what was visible\<close>

lemma showFirst_keys [simp]: "map plotKey (showFirst k ps) = map plotKey ps"
  by (induction k ps rule: showFirst.induct) (auto simp: plotKey_def)

lemma showFirst_absent: "k \<notin> plotKey ` set ps \<Longrightarrow> showFirst k ps = ps"
  by (induction k ps rule: showFirst.induct) auto

lemma showFirst_map:
  "distinct (map plotKey ps) \<Longrightarrow> showFirst k ps = map (\<lambda>p. p\<lparr>pl_visible := pl_visible p \<or> plotKey p = k\<rparr>) ps"
proof (induction k ps rule: showFirst.induct)
  case (2 k p ps)
  have same: "map (\<lambda>p. p\<lparr>pl_visible := pl_visible p \<or> plotKey p = k\<rparr>) ps = ps" if "k \<notin> plotKey ` set ps"
  proof (rule map_idI)
    fix x assume "x \<in> set ps"
    then have "plotKey x \<noteq> k" using that by auto
    then show "x\<lparr>pl_visible := pl_visible x \<or> plotKey x = k\<rparr> = x" by simp
  qed
  show ?case
  proof (cases "plotKey p = k")
    case True
    then show ?thesis using 2 same by auto
  qed (use 2 in auto)
qed simp

lemma fold_showFirst_map:
  "distinct (map plotKey ps) \<Longrightarrow>
    fold showFirst ks ps = map (\<lambda>p. p\<lparr>pl_visible := pl_visible p \<or> plotKey p \<in> set ks\<rparr>) ps"
proof (induction ks arbitrary: ps)
  case (Cons k ks)
  have "distinct (map plotKey (showFirst k ps))" using Cons.prems by simp
  from Cons.IH [OF this] show ?case
    using showFirst_map [OF Cons.prems, of k] by (auto simp: plotKey_def)
qed simp

lemma addPlots_shape:
  "pw_plots (fold (\<lambda>p w. snd (addPlot p w)) ps w) = pw_plots w @ ps \<and>
   pw_lastVisible (fold (\<lambda>p w. snd (addPlot p w)) ps w) = pw_lastVisible w"
  by (induction ps arbitrary: w) (auto simp: addPlot_def split: prod.splits)

text \<open>Property C13. A refresh that clears the plots, adds plots for the same owners and indices, and restores
  visibility shows the plots that were visible before and hides the others.\<close>

theorem visibility_restored:
  assumes "distinct (map plotKey (pw_plots w))" "\<forall>p \<in> set (pw_plots w). pl_parent p \<noteq> 0"
    and "map plotKey ps = map plotKey (pw_plots w)"
  shows "map pl_visible (pw_plots (bestEffortRestoreVisibility (fold (\<lambda>p w. snd (addPlot p w)) ps (pw_clear True w))))
     = map pl_visible (pw_plots w)"
proof -
  let ?hid = "map (\<lambda>p. p\<lparr>pl_visible := False\<rparr>) ps"
  let ?ks = "map plotKey (filter pl_visible (pw_plots w))"
  have "plotKey (p\<lparr>pl_visible := False\<rparr>) = plotKey p" for p by (simp add: plotKey_def)
  then have keys: "map plotKey ?hid = map plotKey (pw_plots w)"
    using assms(3) by (simp add: comp_def)
  have last: "filter (\<lambda>p. pl_visible p \<and> pl_parent p \<noteq> 0) (pw_plots w) = filter pl_visible (pw_plots w)"
    using assms(2) by (intro filter_cong) auto
  have "pw_plots (bestEffortRestoreVisibility (fold (\<lambda>p w. snd (addPlot p w)) ps (pw_clear True w))) = fold showFirst ?ks ?hid"
    by (simp add: bestEffortRestoreVisibility_def addPlots_shape pw_clear_def last del: neq0_conv)
  also have "\<dots> = map (\<lambda>p. p\<lparr>pl_visible := pl_visible p \<or> plotKey p \<in> set ?ks\<rparr>) ?hid"
    using assms(1) keys by (intro fold_showFirst_map) simp
  finally have "map pl_visible (pw_plots (bestEffortRestoreVisibility (fold (\<lambda>p w. snd (addPlot p w)) ps (pw_clear True w))))
      = map (\<lambda>k. k \<in> set ?ks) (map plotKey ?hid)"
    by (simp add: plotKey_def comp_def)
  also have "\<dots> = map (\<lambda>p. plotKey p \<in> set ?ks) (pw_plots w)" unfolding keys by (simp only: map_map comp_def)
  also have "\<dots> = map pl_visible (pw_plots w)"
    using assms(1) by (auto simp: distinct_map inj_on_def)
  finally show ?thesis .
qed

section \<open>Bounds of the visible plots\<close>

lemma scanBounds_fold:
  "fold (\<lambda>p (x, y). if pl_visible p then (growTo (pl_xBounds p) x, growTo (pl_yBounds p) y) else (x, y)) ps (x, y)
    = (fold growTo (map pl_xBounds (filter pl_visible ps)) x, fold growTo (map pl_yBounds (filter pl_visible ps)) y)"
  by (induction ps arbitrary: x y) auto

lemma fold_growTo:
  "fold growTo bs a = (fold min (map fst bs) (fst a), fold max (map snd bs) (snd a))"
proof (induction bs arbitrary: a)
  case (Cons b bs)
  then show ?case by (simp add: growTo_def min.commute max.commute)
qed simp

text \<open>The scanned x bounds are the smallest interval that contains the bounds of every visible plot.\<close>

theorem scanBounds_smallest:
  assumes "fst (scanBounds w) = (lo, hi)" "\<exists>p \<in> set (pw_plots w). pl_visible p"
    and "\<forall>p \<in> set (pw_plots w). \<bar>fst (pl_xBounds p)\<bar> \<le> FLT_MAX \<and> \<bar>snd (pl_xBounds p)\<bar> \<le> FLT_MAX"
  shows "(\<forall>a b. a \<le> lo \<and> hi \<le> b \<longleftrightarrow> (\<forall>p \<in> set (pw_plots w). pl_visible p \<longrightarrow> a \<le> fst (pl_xBounds p) \<and> snd (pl_xBounds p) \<le> b))"
proof -
  let ?bs = "map pl_xBounds (filter pl_visible (pw_plots w))"
  have lo: "lo = fold min (map fst ?bs) FLT_MAX" and hi: "hi = fold max (map snd ?bs) (- FLT_MAX)"
    using assms(1) by (auto simp: scanBounds_def scanBounds_fold fold_growTo)
  have ne: "map fst ?bs \<noteq> []" "map snd ?bs \<noteq> []" using assms(2) by (auto simp: filter_empty_conv)
  have fin: "\<forall>x \<in> set (map fst ?bs). \<bar>x\<bar> \<le> FLT_MAX" "\<forall>x \<in> set (map snd ?bs). \<bar>x\<bar> \<le> FLT_MAX"
    using assms(3) by auto
  have mem: "lo \<in> set (map fst ?bs)" "hi \<in> set (map snd ?bs)"
    using dataBounds_attained [OF ne(1) fin(1)] dataBounds_attained [OF ne(2) fin(2)]
    by (simp_all add: dataBounds_eq lo hi)
  have all: "\<forall>x \<in> set (map fst ?bs). lo \<le> x" "\<forall>x \<in> set (map snd ?bs). x \<le> hi"
    unfolding lo hi using fold_min_le fold_max_ge by blast+
  have low: "a \<le> lo \<longleftrightarrow> (\<forall>x \<in> set (map fst ?bs). a \<le> x)" for a
    using mem(1) all(1) by (meson order_trans)
  have high: "hi \<le> b \<longleftrightarrow> (\<forall>x \<in> set (map snd ?bs). x \<le> b)" for b
    using mem(2) all(2) by (meson order_trans)
  show ?thesis unfolding low high by auto
qed

text \<open>Removing the zoom of one axis compares lower ends only: a zoom of the y axis that keeps its lower end
  is lost with that of the x axis.\<close>

theorem disableAxis_drops_other:
  assumes "scanBounds w = ((lo, hi), (ylo, yhi))" "pw_yUser w = (ylo, ytop)"
  shows "pw_applyUserBounds (disableUserAxisBounds True w) = False"
  using assms f32.zero by (simp add: disableUserAxisBounds_def Let_def touch_def FLT_EPSILON_def)

section \<open>Modes and labels\<close>

text \<open>The mode of the visible plots is compared with their trace style: two visible line plots, of which the
  second is drawn in another style than the lines, count as plots of mixed kinds and are not drawn.\<close>

theorem styled_plots_mixed:
  assumes "pl_visible p" "pl_visible p'" "getMode p = Some PLOT_MODE_1D" "pl_mode p \<noteq> PLOT_MODE_ENUM_END" "pl_mode p' \<noteq> PLOT_MODE_1D"
  shows "visMode PLOT_MODE_ENUM_END (p # p' # ps) = Some PLOT_MODE_MIXED"
  using assms by (simp add: plot_modes)

lemma visMode_from:
  assumes "\<forall>p \<in> set ps. pl_visible p \<longrightarrow> getMode p = Some (pl_mode p)" "m \<noteq> PLOT_MODE_ENUM_END"
  shows "visMode m ps = Some (if \<forall>p \<in> set ps. pl_visible p \<longrightarrow> pl_mode p = m then m else PLOT_MODE_MIXED)"
  using assms by (induction ps) auto

lemma getMode_not_end: "getMode p \<noteq> Some PLOT_MODE_ENUM_END"
  by (auto simp: getMode_def plot_modes)

text \<open>Visible plots whose trace style is their mode, the state their constructors leave, are
  reported with their common mode, mixed when they differ, and with no mode when there is none.\<close>

theorem getVisibleMode_exact:
  assumes "\<forall>p \<in> set (pw_plots w). pl_visible p \<longrightarrow> getMode p = Some (pl_mode p)"
  shows "getVisibleMode w = Some (case filter pl_visible (pw_plots w) of
      [] \<Rightarrow> PLOT_MODE_ENUM_END
    | p # ps \<Rightarrow> (if \<forall>q \<in> set ps. pl_mode q = pl_mode p then pl_mode p else PLOT_MODE_MIXED))"
proof -
  have "visMode PLOT_MODE_ENUM_END ps = Some (case filter pl_visible ps of
      [] \<Rightarrow> PLOT_MODE_ENUM_END
    | p # qs \<Rightarrow> (if \<forall>q \<in> set qs. pl_mode q = pl_mode p then pl_mode p else PLOT_MODE_MIXED))"
    if "\<forall>p \<in> set ps. pl_visible p \<longrightarrow> getMode p = Some (pl_mode p)" for ps
    using that
  proof (induction ps)
    case (Cons p ps)
    show ?case
    proof (cases "pl_visible p")
      case True
      then have g: "getMode p = Some (pl_mode p)" using Cons.prems by simp
      then have "pl_mode p \<noteq> PLOT_MODE_ENUM_END" using getMode_not_end [of p] by auto
      then show ?thesis
        using True g visMode_from [of ps "pl_mode p"] Cons.prems by auto
    qed (use Cons in auto)
  qed simp
  from this [OF assms] show ?thesis by (simp add: getVisibleMode_def)
qed

lemma getSmallestNonzero_nonneg: "0 \<le> getSmallestNonzero q"
proof -
  have pos: "0 < m \<Longrightarrow> 0 < fold (\<lambda>v m. if v > 0 then min v m else m) ys m" for ys and m :: rat
    by (induction ys arbitrary: m) auto
  have "0 < FLT_MAX" by (simp add: FLT_MAX_def)
  from pos [OF this] show ?thesis by (simp add: getSmallestNonzero_def Let_def less_imp_le)
qed

text \<open>The lower end chosen for a logarithmic axis is positive.\<close>

lemma logMinY_pos: "0 < logMinY w"
proof -
  have tenth: "0 < f32 (1 / 10)" by code_simp
  have "0 < m \<Longrightarrow> 0 < fold (\<lambda>q m. let t = getSmallestNonzero q in if t > 0 then min t m else m) qs m" for qs and m :: rat
    by (induction qs arbitrary: m) (auto simp: Let_def)
  from this [OF tenth] show ?thesis by (simp add: logMinY_def)
qed

end
