(* ===== verification/Effects.thy ===== *)
theory Effects
  imports UniqueIDs Geometry RangeFilterState
begin

text \<open>
  The view effects of src/src/gl/effect.cpp, their state in a state file, and the vector of
  effects of \<^verbatim>\<open>Scene\<close> (src/src/gl/scene.cpp). The calls to OpenGL are not modelled; what the crop
  decides itself (which of the clipping planes it switches on and off, and the box it leaves) is.
  Printing and parsing of real numbers are parameters. None as the result of a reader is a failure
  or a null pointer that is followed.
\<close>

section \<open>Reading an attribute of the next element\<close>

definition nextElemAttrib :: "(string \<Rightarrow> 'v option) \<Rightarrow> string \<Rightarrow> string \<Rightarrow> xmlNode list \<Rightarrow> (xmlNode list \<times> 'v) option" where
  "nextElemAttrib cast nodeName attrib node =
     (let nd = fwdToElem nodeName node in
      if nd = [] then None
      else map_option (Pair nd) (Option.bind (getProp_string attrib nd) cast))"

lemma nextElemAttrib_text:
  "nm \<noteq> ''text'' \<Longrightarrow> nextElemAttrib cast nm a (p # Text s # Elem nm as ks # ns)
     = map_option (Pair (Elem nm as ks # ns)) (Option.bind (map_of as a) cast)"
  by (simp add: nextElemAttrib_def fwdToElem_def getProp_string_def)

section \<open>The effects\<close>

record boxCrop =
  openGLIdStart :: nat
  cropFractions :: "rat list"
  useCamCoordinates :: bool

record anaglyph =
  colourMode :: "32 word"
  eyeFlip :: bool
  baseShift :: rat

datatype effect = BoxCropEffect boxCrop | AnaglyphEffect anaglyph

definition MIN_CROP_FRACTION :: rat where "MIN_CROP_FRACTION = f32 (1 / 10000)"

definition ANAGLYPH_REDBLUE :: "32 word" where "ANAGLYPH_REDBLUE = 0"
definition ANAGLYPH_HALF_COLOUR :: "32 word" where "ANAGLYPH_HALF_COLOUR = 4"
definition ANAGLYPH_ENUM_END :: "32 word" where "ANAGLYPH_ENUM_END = 6"

definition EFFECT_NAMES :: "string list" where
  "EFFECT_NAMES = [''boxcrop'', ''anaglyph'']"

definition effectType :: "effect \<Rightarrow> nat" where
  "effectType e = (case e of BoxCropEffect b \<Rightarrow> 0 | AnaglyphEffect a \<Rightarrow> 1)"

definition effectName :: "effect \<Rightarrow> string" where
  "effectName e = EFFECT_NAMES ! effectType e"

text \<open>The constructors; the crop fractions are uninitialised memory.\<close>

definition newBoxCrop :: "rat list \<Rightarrow> effect" where
  "newBoxCrop raw = BoxCropEffect \<lparr>openGLIdStart = 0, cropFractions = raw, useCamCoordinates = False\<rparr>"

definition newAnaglyph :: effect where
  "newAnaglyph = AnaglyphEffect \<lparr>colourMode = ANAGLYPH_REDBLUE, eyeFlip = False, baseShift = f32 (1 / 100)\<rparr>"

definition makeEffectID :: "rat list \<Rightarrow> nat \<Rightarrow> effect option" where
  "makeEffectID raw i = (if i = 1 then Some newAnaglyph else if i = 0 then Some (newBoxCrop raw) else None)"

text \<open>By name; a name that is not known gives a null pointer.\<close>

definition makeEffect :: "rat list \<Rightarrow> string \<Rightarrow> effect option" where
  "makeEffect raw s = Option.bind (find_index (\<lambda>n. s = n) EFFECT_NAMES) (makeEffectID raw)"

text \<open>
  \<^verbatim>\<open>clone\<close> constructs an effect of the same class and assigns through a pointer to the base class, whose
  only field is the type.
\<close>

definition cloneEffect :: "rat list \<Rightarrow> effect \<Rightarrow> effect" where
  "cloneEffect raw e = (case e of BoxCropEffect b \<Rightarrow> newBoxCrop raw | AnaglyphEffect a \<Rightarrow> newAnaglyph)"

definition setFractions :: "rat list \<Rightarrow> boxCrop \<Rightarrow> boxCrop option" where
  "setFractions fr b = (if length fr < 6 then None else Some (b\<lparr>cropFractions := take 6 fr\<rparr>))"

definition getCropValue :: "boxCrop \<Rightarrow> nat \<Rightarrow> rat option" where
  "getCropValue b k = elem_at (cropFractions b) k"

definition cropWillDoSomething :: "boxCrop \<Rightarrow> bool" where
  "cropWillDoSomething b = list_ex (\<lambda>ui. cropFractions b ! ui \<ge> MIN_CROP_FRACTION) [0..<6]"

definition effectWillDoSomething :: "effect \<Rightarrow> bool" where
  "effectWillDoSomething e = (case e of BoxCropEffect b \<Rightarrow> cropWillDoSomething b | AnaglyphEffect a \<Rightarrow> True)"

definition numPassesNeeded :: "effect \<Rightarrow> nat" where
  "numPassesNeeded e = (case e of BoxCropEffect b \<Rightarrow> 1 | AnaglyphEffect a \<Rightarrow> 2)"

text \<open>
  Cropping along the axes. A margin \<open>c\<close> moves its corner from the side of the box towards the
  opposite one: \<open>1/2 - c\<close> times the diagonal from the centre.
\<close>

definition mulPt :: "point \<Rightarrow> point \<Rightarrow> point" where
  "mulPt p q = zip3 (\<lambda>x y. f32 (x * y)) p q"

definition cropCorner :: "boxCrop \<Rightarrow> nat \<Rightarrow> point \<Rightarrow> point \<Rightarrow> point" where
  "cropCorner b side centre p =
     (let m = (\<lambda>k. f32 (1 / 2 - cropFractions b ! (2 * k + side)))
      in addPt centre (scalePt (mulPt (Tri (m 0) (m 1) (m 2)) (subPt p centre)) 2))"

definition getCroppedBounds :: "boxCrop \<Rightarrow> boundCube \<Rightarrow> boundCube" where
  "getCroppedBounds b c =
     (let (pLow, pHi) = getBounds c; centre = scalePt (addPt pLow pHi) (1 / 2)
      in setBoundsPts (cropCorner b 0 centre pLow) (cropCorner b 1 centre pHi))"

text \<open>
  The clipping planes of \<^verbatim>\<open>enable\<close> in its first pass, along the axes: plane number, side of the box
  (its margin) and normal; and the plane numbers that \<^verbatim>\<open>disable\<close> switches off.
\<close>

fun enableFrom :: "boxCrop \<Rightarrow> nat list \<Rightarrow> nat \<Rightarrow> (nat \<times> nat \<times> point) list" where
  "enableFrom b [] glOffset = []"
| "enableFrom b (ui # uis) glOffset =
     (if cropFractions b ! ui < MIN_CROP_FRACTION then enableFrom b uis glOffset
      else (glOffset, ui, (let n = putc (Tri 0 0 0) (ui div 2) 1 in if odd ui then map_triple uminus n else n))
             # enableFrom b uis (Suc glOffset))"

definition cropEnable :: "boxCrop \<Rightarrow> nat \<Rightarrow> (nat \<times> nat \<times> point) list" where
  "cropEnable b pass = (if pass \<noteq> 0 then [] else enableFrom b [0..<6] (openGLIdStart b))"

fun disableFrom :: "boxCrop \<Rightarrow> nat list \<Rightarrow> nat \<Rightarrow> nat list" where
  "disableFrom b [] startId = []"
| "disableFrom b (ui # uis) startId =
     (if cropFractions b ! ui \<ge> MIN_CROP_FRACTION then startId # disableFrom b uis (Suc startId)
      else disableFrom b uis startId)"

definition cropDisable :: "boxCrop \<Rightarrow> nat list" where
  "cropDisable b = disableFrom b [0..<6] (openGLIdStart b)"

definition ag_setMode :: "32 word \<Rightarrow> anaglyph \<Rightarrow> anaglyph" where
  "ag_setMode m a = a\<lparr>colourMode := m\<rparr>"

text \<open>The colour mask of a pass of the anaglyph; modes without a mask read past the table.\<close>

definition maskArray :: "bool list list" where
  "maskArray = [[True, False, False, False, False, True], [True, False, False, False, True, False],
     [True, False, False, False, True, True], [False, True, False, True, False, True]]"

definition colourMask :: "anaglyph \<Rightarrow> nat \<Rightarrow> (bool \<times> bool \<times> bool) option" where
  "colourMask a passNumber = map_option (\<lambda>m.
     let offset = (if (passNumber = 1) \<noteq> eyeFlip a then 0 else 3) in (m ! offset, m ! (offset + 1), m ! (offset + 2)))
     (elem_at maskArray (unat (colourMode a)))"

section \<open>State files\<close>

definition boxCropLines :: "(rat \<Rightarrow> string) \<Rightarrow> nat \<Rightarrow> boxCrop \<Rightarrow> string" where
  "boxCropLines showReal depth b =
     tabs (depth + 1) @ ''<boxcrop>'' @ nl @
     tabs (depth + 2) @ ''<cropvalues>'' @ nl @
     concat (map (\<lambda>ui. tabs (depth + 3) @ ''<scalar value=\"'' @ showReal (cropFractions b ! ui) @ ''\"/>'' @ nl) [0..<6]) @
     tabs (depth + 2) @ ''</cropvalues>'' @ nl @
     tabs (depth + 2) @ ''<usecamcoordinates value=\"'' @ boolStrEnc (useCamCoordinates b) @ ''\"/>'' @ nl @
     tabs (depth + 1) @ ''</boxcrop>'' @ nl"

definition anaglyphLines :: "(rat \<Rightarrow> string) \<Rightarrow> nat \<Rightarrow> anaglyph \<Rightarrow> string" where
  "anaglyphLines showReal depth a =
     tabs (depth + 1) @ ''<anaglyph>'' @ nl @
     tabs (depth + 2) @ ''<colourmode value=\"'' @ showNat (unat (colourMode a)) @ ''\"/>'' @ nl @
     tabs (depth + 2) @ ''<eyeflip value=\"'' @ boolStrEnc (eyeFlip a) @ ''\"/>'' @ nl @
     tabs (depth + 2) @ ''<baseshift value=\"'' @ showReal (baseShift a) @ ''\"/>'' @ nl @
     tabs (depth + 1) @ ''</anaglyph>'' @ nl"

definition effectLines :: "(rat \<Rightarrow> string) \<Rightarrow> nat \<Rightarrow> effect \<Rightarrow> string" where
  "effectLines showReal depth e = (case e of BoxCropEffect b \<Rightarrow> boxCropLines showReal depth b
     | AnaglyphEffect a \<Rightarrow> anaglyphLines showReal depth a)"

text \<open>The loop over the six \<^verbatim>\<open>scalar\<close> elements.\<close>

fun read_scalars :: "(string \<Rightarrow> rat option) \<Rightarrow> nat \<Rightarrow> xmlNode list \<Rightarrow> rat list option" where
  "read_scalars readReal 0 node = Some []"
| "read_scalars readReal (Suc k) node =
     Option.bind (nextElemAttrib readReal ''scalar'' ''value'' node) (\<lambda>(nd, v).
       map_option (Cons v) (read_scalars readReal k nd))"

definition read_flag :: "string \<Rightarrow> bool option" where
  "read_flag s = (if s = ''0'' then Some False else if s = ''1'' then Some True else None)"

definition boxCrop_readState :: "(string \<Rightarrow> rat option) \<Rightarrow> xmlNode \<Rightarrow> boxCrop \<Rightarrow> boxCrop option" where
  "boxCrop_readState readReal node b =
     (let cs = xmlChildren node; n1 = fwdToElem ''cropvalues'' cs in
      if cs = [] \<or> n1 = [] then None
      else Option.bind (read_scalars readReal 6 (xmlChildren (hd n1))) (\<lambda>fr.
           Option.bind (nextElemAttrib castWord ''usecamcoordinates'' ''value'' n1) (\<lambda>(nd, s).
             map_option (\<lambda>u. b\<lparr>cropFractions := fr, useCamCoordinates := u\<rparr>) (read_flag s))))"

definition anaglyph_readState :: "(string \<Rightarrow> rat option) \<Rightarrow> xmlNode \<Rightarrow> anaglyph \<Rightarrow> anaglyph option" where
  "anaglyph_readState readReal node a =
     (let cs = xmlChildren node in
      if cs = [] then None
      else Option.bind (nextElemAttrib castUInt ''colourmode'' ''value'' cs) (\<lambda>(n1, m).
           if m \<ge> ANAGLYPH_HALF_COLOUR then None
           else Option.bind (nextElemAttrib castWord ''eyeflip'' ''value'' n1) (\<lambda>(n2, s).
             Option.bind (read_flag s) (\<lambda>fl.
               Option.bind (nextElemAttrib readReal ''baseshift'' ''value'' n2) (\<lambda>(n3, sh).
                 Some (a\<lparr>colourMode := m, eyeFlip := fl, baseShift := sh\<rparr>))))))"

definition effect_readState :: "(string \<Rightarrow> rat option) \<Rightarrow> xmlNode \<Rightarrow> effect \<Rightarrow> effect option" where
  "effect_readState readReal node e = (case e of
      BoxCropEffect b \<Rightarrow> map_option BoxCropEffect (boxCrop_readState readReal node b)
    | AnaglyphEffect a \<Rightarrow> map_option AnaglyphEffect (anaglyph_readState readReal node a))"

section \<open>The effects of a scene\<close>

record effectVec =
  ev_effects :: "effect list"
  effectIDs :: idHandler

definition addEffect :: "effect \<Rightarrow> effectVec \<Rightarrow> nat \<times> effectVec" where
  "addEffect e s = (case genId (effectIDs s) (length (ev_effects s)) of
     (i, h) \<Rightarrow> (i, s\<lparr>ev_effects := ev_effects s @ [e], effectIDs := h\<rparr>))"

definition removeEffect :: "nat \<Rightarrow> effectVec \<Rightarrow> effectVec option" where
  "removeEffect i s = (let p = getPos (effectIDs s) i in
     if p < length (ev_effects s)
     then Some (s\<lparr>ev_effects := erase_nth p (ev_effects s), effectIDs := killByPos (effectIDs s) p\<rparr>) else None)"

definition clearEffects :: "effectVec \<Rightarrow> effectVec" where
  "clearEffects s = s\<lparr>ev_effects := [], effectIDs := []\<rparr>"

definition setEffectVec :: "effect list \<Rightarrow> effectVec \<Rightarrow> effectVec" where
  "setEffectVec es s = fold (\<lambda>e s. snd (addEffect e s)) es (clearEffects s)"

text \<open>The effects that a user of the scene can name, by identifier.\<close>

definition effectMap :: "effectVec \<Rightarrow> nat \<Rightarrow> effect option" where
  "effectMap s = uid.elems (ev_effects s) (effectIDs s)"

definition scene_ok :: "effectVec \<Rightarrow> bool" where
  "scene_ok s \<longleftrightarrow> ids_ok (effectIDs s) (length (ev_effects s))"

lemma effects_add_ok: "scene_ok s \<Longrightarrow> scene_ok (snd (addEffect e s))"
  using uid.gen_ok [of "effectIDs s" "length (ev_effects s)"]
  by (auto simp: addEffect_def scene_ok_def split: prod.splits)

text \<open>Property C16. The effects of a scene behave as a map from identifiers to effects: adding one gives an
  unused identifier and adds an entry, removing one deletes its entry, and all others keep theirs.\<close>

theorem effects_are_a_map:
  assumes "scene_ok s"
  shows "(case addEffect e s of (i, s') \<Rightarrow> scene_ok s' \<and> effectMap s i = None \<and> effectMap s' = (effectMap s)(i \<mapsto> e)) \<and>
    (\<forall>j x. effectMap s j = Some x \<longrightarrow>
       (\<exists>s'. removeEffect j s = Some s' \<and> scene_ok s' \<and> effectMap s' = (effectMap s)(j := None)))"
proof (intro conjI allI impI)
  have ok: "ids_ok (effectIDs s) (length (ev_effects s))" using assms by (simp add: scene_ok_def)
  obtain i h where g: "genId (effectIDs s) (length (ev_effects s)) = (i, h)" by force
  show "case addEffect e s of (i, s') \<Rightarrow> scene_ok s' \<and> effectMap s i = None \<and> effectMap s' = (effectMap s)(i \<mapsto> e)"
    using uid.gen_ok [OF ok] uid.gen_fresh [OF ok] uid.elems_add [OF ok, of e] g
    by (simp add: addEffect_def scene_ok_def effectMap_def uid.elems_def [where i = i])
  fix j x assume "effectMap s j = Some x"
  then have j: "j \<in> set (getIds (effectIDs s))" by (auto simp: effectMap_def uid.elems_def split: if_splits)
  from uid.pos_less [OF ok j] uid.kill_ok [OF ok j] uid.elems_remove [OF ok j]
  show "\<exists>s'. removeEffect j s = Some s' \<and> scene_ok s' \<and> effectMap s' = (effectMap s)(j := None)"
    by (simp add: removeEffect_def Let_def scene_ok_def effectMap_def)
qed

lemma setEffectVec_ok: "scene_ok (setEffectVec es s) \<and> ev_effects (setEffectVec es s) = es"
proof -
  have "scene_ok s \<Longrightarrow> scene_ok (fold (\<lambda>e s. snd (addEffect e s)) es s)
      \<and> ev_effects (fold (\<lambda>e s. snd (addEffect e s)) es s) = ev_effects s @ es" for s
  proof (induction es arbitrary: s)
    case (Cons e es)
    have "scene_ok (snd (addEffect e s))" using effects_add_ok [OF Cons.prems] .
    from Cons.IH [OF this] show ?case by (simp add: addEffect_def split: prod.splits)
  qed simp
  note this [of "clearEffects s"]
  moreover have "scene_ok (clearEffects s)" "ev_effects (clearEffects s) = []"
    by (simp_all add: clearEffects_def scene_ok_def ids_ok_Nil)
  ultimately show ?thesis by (simp add: setEffectVec_def)
qed

section \<open>Facts about the effects\<close>

lemma makeEffect_name: "makeEffect raw (effectName e) = Some (cloneEffect raw e)"
  by (cases e) (simp_all add: makeEffect_def effectName_def EFFECT_NAMES_def effectType_def makeEffectID_def cloneEffect_def)

text \<open>A clone of an effect has none of the settings of its original.\<close>

theorem clone_drops_settings: "effectType e = effectType e' \<Longrightarrow> cloneEffect raw e = cloneEffect raw e'"
  by (cases e; cases e') (simp_all add: effectType_def cloneEffect_def)

lemma enable_disable_from: "map fst (enableFrom b uis k) = disableFrom b uis k"
  by (induction b uis k rule: enableFrom.induct) auto

lemma disableFrom_upt: "disableFrom b uis k = [k..<k + length (filter (\<lambda>ui. cropFractions b ! ui \<ge> MIN_CROP_FRACTION) uis)]"
proof (induction b uis k rule: disableFrom.induct)
  case (2 b ui uis startId)
  then show ?case by (cases "cropFractions b ! ui \<ge> MIN_CROP_FRACTION") (simp_all add: upt_conv_Cons del: upt_Suc)
qed simp

text \<open>\<^verbatim>\<open>disable\<close> switches off the clipping planes that the first pass switched on, at most six of
  them, numbered without gaps.\<close>

theorem disable_matches_enable:
  "map fst (cropEnable b 0) = cropDisable b \<and> length (cropDisable b) \<le> 6 \<and>
   (cropDisable b \<noteq> [] \<longleftrightarrow> cropWillDoSomething b)"
proof -
  let ?f = "filter (\<lambda>ui. cropFractions b ! ui \<ge> MIN_CROP_FRACTION) [0..<6]"
  have "length ?f \<le> 6" using length_filter_le [of _ "[0..<6 :: nat]"] by simp
  moreover have "?f \<noteq> [] \<longleftrightarrow> cropWillDoSomething b"
    by (auto simp: cropWillDoSomething_def filter_empty_conv list_ex_iff)
  ultimately show ?thesis
    by (auto simp: cropEnable_def cropDisable_def enable_disable_from disableFrom_upt simp del: upt_Suc)
qed

section \<open>Saving and loading\<close>

definition boxCropDoc :: "(rat \<Rightarrow> string) \<Rightarrow> nat \<Rightarrow> boxCrop \<Rightarrow> xmlNode" where
  "boxCropDoc showReal d b = Elem ''boxcrop'' []
     (lay [(d + 2, Elem ''cropvalues'' [] (lay (map (\<lambda>ui. (d + 3, Elem ''scalar'' [(''value'', showReal (cropFractions b ! ui))] [])) [0..<6]) (d + 2))),
           (d + 2, Elem ''usecamcoordinates'' [(''value'', boolStrEnc (useCamCoordinates b))] [])] (d + 1))"

definition anaglyphDoc :: "(rat \<Rightarrow> string) \<Rightarrow> nat \<Rightarrow> anaglyph \<Rightarrow> xmlNode" where
  "anaglyphDoc showReal d a = Elem ''anaglyph'' []
     (lay [(d + 2, Elem ''colourmode'' [(''value'', showNat (unat (colourMode a)))] []),
           (d + 2, Elem ''eyeflip'' [(''value'', boolStrEnc (eyeFlip a))] []),
           (d + 2, Elem ''baseshift'' [(''value'', showReal (baseShift a))] [])] (d + 1))"

definition effectDoc :: "(rat \<Rightarrow> string) \<Rightarrow> nat \<Rightarrow> effect \<Rightarrow> xmlNode" where
  "effectDoc showReal d e = (case e of BoxCropEffect b \<Rightarrow> boxCropDoc showReal d b | AnaglyphEffect a \<Rightarrow> anaglyphDoc showReal d a)"

lemma effect_text:
  assumes "\<forall>x. escapeXML (showReal x) = showReal x"
  shows "effectLines showReal d e = tabs (d + 1) @ xml_text (escape_doc (effectDoc showReal d e)) @ nl"
  using assms
  by (cases e) (simp_all add: effectLines_def effectDoc_def boxCropLines_def boxCropDoc_def anaglyphLines_def anaglyphDoc_def
      lay_text xml_attr_def comp_def map_concat upt_rec)

lemma read_flag_bool [simp]: "read_flag (boolStrEnc b) = Some b"
  by (simp add: read_flag_def boolStrEnc_def)

lemma castWord_bool [simp]: "castWord (boolStrEnc b) = Some (boolStrEnc b)"
  by (rule read_bool)

definition effectReals :: "effect \<Rightarrow> rat list" where
  "effectReals e = (case e of BoxCropEffect b \<Rightarrow> cropFractions b | AnaglyphEffect a \<Rightarrow> [baseShift a])"

text \<open>What the program can be in: six fractions, and a mode that the reader accepts.\<close>

definition effect_ok :: "effect \<Rightarrow> bool" where
  "effect_ok e = (case e of BoxCropEffect b \<Rightarrow> length (cropFractions b) = 6 | AnaglyphEffect a \<Rightarrow> colourMode a < ANAGLYPH_HALF_COLOUR)"

lemma read_scalars_docs:
  "\<forall>ui \<in> set us. readReal (f ui) = Some (g ui) \<Longrightarrow>
   read_scalars readReal (length us) (p # lay (map (\<lambda>ui. (d, Elem ''scalar'' [(''value'', f ui)] [])) us) k) = Some (map g us)"
proof (induction us arbitrary: p)
  case (Cons u us)
  then show ?case by (simp add: nextElemAttrib_text)
qed simp

lemma read_scalars_first:
  "us \<noteq> [] \<Longrightarrow> \<forall>ui \<in> set us. readReal (f ui) = Some (g ui) \<Longrightarrow>
   read_scalars readReal (length us) (lay (map (\<lambda>ui. (d, Elem ''scalar'' [(''value'', f ui)] [])) us) k) = Some (map g us)"
proof (cases us)
  case (Cons u vs)
  moreover assume "\<forall>ui \<in> set us. readReal (f ui) = Some (g ui)"
  ultimately show ?thesis
    using read_scalars_docs [of vs readReal f g "Elem ''scalar'' [(''value'', f u)] []" d k]
    by (simp add: nextElemAttrib_def fwdToElem_def getProp_string_def)
qed simp

lemma boxCrop_reload:
  assumes "length (cropFractions b) = 6" "\<forall>x \<in> set (cropFractions b). readReal (showReal x) = Some x"
  shows "boxCrop_readState readReal (boxCropDoc showReal d b) b0 =
     Some (b0\<lparr>cropFractions := cropFractions b, useCamCoordinates := useCamCoordinates b\<rparr>)"
proof -
  have "map (\<lambda>ui. cropFractions b ! ui) [0..<6] = cropFractions b"
    using map_nth [of "cropFractions b"] assms(1) by simp
  then have "read_scalars readReal 6 (lay (map (\<lambda>ui. (d + 3, Elem ''scalar'' [(''value'', showReal (cropFractions b ! ui))] [])) [0..<6]) (d + 2)) = Some (cropFractions b)"
    using read_scalars_first [of "[0..<6]" readReal "\<lambda>ui. showReal (cropFractions b ! ui)" "\<lambda>ui. cropFractions b ! ui" "d + 3" "d + 2"] assms
    by (simp del: upt_Suc)
  then show ?thesis
    by (simp add: boxCrop_readState_def boxCropDoc_def Let_def fwdToElem_def nextElemAttrib_def getProp_string_def del: upt_Suc read_scalars.simps)
qed

lemma anaglyph_reload:
  assumes "colourMode a < ANAGLYPH_HALF_COLOUR" "readReal (showReal (baseShift a)) = Some (baseShift a)"
  shows "anaglyph_readState readReal (anaglyphDoc showReal d a) a0 = Some a"
  using assms
  by (simp add: anaglyph_readState_def anaglyphDoc_def Let_def nextElemAttrib_def fwdToElem_def getProp_string_def castUInt_show not_le)

definition openGLIdStart_of :: "effect \<Rightarrow> nat" where
  "openGLIdStart_of e = (case e of BoxCropEffect b \<Rightarrow> openGLIdStart b | AnaglyphEffect a \<Rightarrow> 0)"

text \<open>An effect that is made by the name under which one was saved, and reads the saved element, has
  the settings of the saved effect.\<close>

theorem effect_reload:
  assumes "effect_ok e" "\<forall>x \<in> set (effectReals e). readReal (showReal x) = Some x"
    and "openGLIdStart_of e = 0"
  shows "Option.bind (makeEffect raw (xmlName (effectDoc showReal d e))) (effect_readState readReal (effectDoc showReal d e)) = Some e"
proof (cases e)
  case (BoxCropEffect b)
  then show ?thesis
    using assms boxCrop_reload [of b readReal showReal d]
    by (simp add: effect_ok_def effectReals_def effectDoc_def boxCropDoc_def [THEN arg_cong [where f = xmlName]] makeEffect_def
        EFFECT_NAMES_def makeEffectID_def newBoxCrop_def effect_readState_def openGLIdStart_of_def)
next
  case (AnaglyphEffect a)
  then show ?thesis
    using assms anaglyph_reload [of a readReal showReal d]
    by (simp add: effect_ok_def effectReals_def effectDoc_def anaglyphDoc_def [THEN arg_cong [where f = xmlName]] makeEffect_def
        EFFECT_NAMES_def makeEffectID_def newAnaglyph_def effect_readState_def)
qed

text \<open>A mode that \<^verbatim>\<open>setMode\<close> accepts and \<^verbatim>\<open>writeState\<close> writes, half colour or mixed, is refused on load.\<close>

theorem anaglyph_matrix_modes_refused:
  assumes "ANAGLYPH_HALF_COLOUR \<le> m"
  shows "anaglyph_readState readReal (anaglyphDoc showReal d (ag_setMode m a)) a0 = None"
  using assms
  by (simp add: ag_setMode_def anaglyph_readState_def anaglyphDoc_def Let_def nextElemAttrib_def fwdToElem_def getProp_string_def castUInt_show)

end
