(* ===== verification/Cameras.thy ===== *)
theory Cameras
  imports Effects
begin

text \<open>
  The look-at camera of src/src/gl/cameras.cpp: its state, the properties a user edits, and its
  element in a state file; and the textual form of points (\<^verbatim>\<open>Point3D::parse\<close> and the output operator of
  src/src/common/mathfuncs.cpp) that the properties use. Square roots \<open>sq\<close>, printing and parsing of
  numbers and the translation \<open>tr\<close> of messages are parameters. Not modelled: the motions that turn
  vectors by quaternions (move, pivot, roll), \<^verbatim>\<open>ensureVisible\<close>, and the calls to OpenGL.
\<close>

section \<open>Points as text\<close>

definition showPoint :: "(rat \<Rightarrow> string) \<Rightarrow> point \<Rightarrow> string" where
  "showPoint showReal p = ''('' @ showReal (sel p 0) @ '','' @ showReal (sel p 1) @ '','' @ showReal (sel p 2) @ '')''"

definition OPENERS :: string where "OPENERS = ''([{<'' @ [CHR 0x27]"
definition SEPARATORS :: string where "SEPARATORS = '',; '' @ [CHR 0x09] @ ''|_''"
definition CLOSERS :: string where "CLOSERS = '')]}>'' @ [CHR 0x27]"

text \<open>
  A leading bracket is dropped together with nothing at the end (\<^verbatim>\<open>substr(1, size - 1)\<close> keeps the rest of the
  string). None stands for the result false, and for text of white space only, whose last
  character the code reads before the start of the string.
\<close>

definition parsePoint :: "(string \<Rightarrow> rat option) \<Rightarrow> string \<Rightarrow> point option" where
  "parsePoint readReal str =
     (let t = stripWhite str in
      if length str < 5 \<or> t = [] then None
      else
        let startPos = find_char (hd t) OPENERS; endPos = find_char (last t) CLOSERS;
            u = (if startPos \<noteq> None \<and> endPos \<noteq> None then tl t else t)
        in if (startPos = None \<or> endPos = None) \<and> startPos \<noteq> endPos then None
           else if length (splitStrsRef_any u '',;|_'') \<noteq> 3 then None
           else case filter (\<lambda>s. s \<noteq> []) (map stripWhite (splitStrsRef_any u SEPARATORS)) of
               [a, b, c] \<Rightarrow> (case (readReal a, readReal b, readReal c) of
                   (Some x, Some y, Some z) \<Rightarrow> Some (Tri x y z) | _ \<Rightarrow> None)
             | _ \<Rightarrow> None)"

section \<open>The camera\<close>

definition PROJECTION_MODE_PERSPECTIVE :: "32 word" where "PROJECTION_MODE_PERSPECTIVE = 0"
definition PROJECTION_MODE_ORTHOGONAL :: "32 word" where "PROJECTION_MODE_ORTHOGONAL = 1"
definition PROJECTION_MODE_ENUM_END :: "32 word" where "PROJECTION_MODE_ENUM_END = 2"

lemmas projection_modes = PROJECTION_MODE_PERSPECTIVE_def PROJECTION_MODE_ORTHOGONAL_def PROJECTION_MODE_ENUM_END_def

datatype cameraKey = CAMERA_KEY_LOOKAT_LOCK | CAMERA_KEY_LOOKAT_ORIGIN | CAMERA_KEY_LOOKAT_TARGET
  | CAMERA_KEY_LOOKAT_UPDIRECTION | CAMERA_KEY_LOOKAT_FOV | CAMERA_KEY_LOOKAT_PROJECTIONMODE | CAMERA_KEY_LOOKAT_ORTHOSCALE

datatype cameraDir = CAMERA_DIR_ZPLUS | CAMERA_DIR_YMINUS | CAMERA_DIR_YPLUS | CAMERA_DIR_XPLUS | CAMERA_DIR_ZMINUS | CAMERA_DIR_XMINUS

record camera =
  userString :: string
  cam_lock :: bool
  cam_origin :: point
  viewDirection :: point
  upDirection :: point
  projectionMode :: "32 word"
  orthoScale :: rat
  cam_target :: point
  fovAngle :: rat
  nearPlane :: rat
  farPlane :: rat
  frustumDistortion :: rat

text \<open>\<^verbatim>\<open>farPlane\<close> is not initialised.\<close>

definition newCamera :: "rat \<Rightarrow> camera" where
  "newCamera raw = \<lparr>userString = [], cam_lock = False, cam_origin = Tri 0 0 1, viewDirection = Tri 0 0 (-1),
     upDirection = Tri 0 1 0, projectionMode = PROJECTION_MODE_PERSPECTIVE, orthoScale = 1, cam_target = Tri 0 0 0,
     fovAngle = 90, nearPlane = 1, farPlane = raw, frustumDistortion = 0\<rparr>"

definition cloneCamera :: "rat \<Rightarrow> camera \<Rightarrow> camera" where
  "cloneCamera raw c = (newCamera raw)\<lparr>cam_origin := cam_origin c, viewDirection := viewDirection c,
     upDirection := upDirection c, projectionMode := projectionMode c, orthoScale := orthoScale c,
     userString := userString c, cam_lock := cam_lock c, cam_target := cam_target c, fovAngle := fovAngle c,
     nearPlane := nearPlane c, farPlane := farPlane c\<rparr>"

definition recomputeViewDirection :: "(rat \<Rightarrow> rat) \<Rightarrow> camera \<Rightarrow> camera" where
  "recomputeViewDirection sq c = c\<lparr>viewDirection := normalise sq (subPt (cam_origin c) (cam_target c))\<rparr>"

definition recomputeUpDirection :: "(rat \<Rightarrow> rat) \<Rightarrow> camera \<Rightarrow> camera" where
  "recomputeUpDirection sq c =
     (let up = normalise sq (upDirection c);
          across = normalise sq (crossProd (viewDirection c) up)
      in c\<lparr>upDirection := normalise sq (crossProd across (viewDirection c))\<rparr>)"

definition setTarget :: "(rat \<Rightarrow> rat) \<Rightarrow> point \<Rightarrow> camera \<Rightarrow> camera" where
  "setTarget sq p c = recomputeViewDirection sq (c\<lparr>cam_target := p\<rparr>)"

definition setOrigin :: "(rat \<Rightarrow> rat) \<Rightarrow> point \<Rightarrow> camera \<Rightarrow> camera" where
  "setOrigin sq p c = (if cam_lock c then c else recomputeViewDirection sq (c\<lparr>cam_origin := p\<rparr>))"

fun aroundDir :: "cameraDir \<Rightarrow> point" where
  "aroundDir CAMERA_DIR_ZPLUS = Tri 0 0 1"
| "aroundDir CAMERA_DIR_YMINUS = Tri 0 (-1) 0"
| "aroundDir CAMERA_DIR_XPLUS = Tri 0 1 0"
| "aroundDir CAMERA_DIR_YPLUS = Tri 1 0 0"
| "aroundDir CAMERA_DIR_ZMINUS = Tri 0 0 (-1)"
| "aroundDir CAMERA_DIR_XMINUS = Tri (-1) 0 0"

definition repositionAroundTarget :: "(rat \<Rightarrow> rat) \<Rightarrow> cameraDir \<Rightarrow> camera \<Rightarrow> camera" where
  "repositionAroundTarget sq d c =
     setOrigin sq (addPt (cam_target c) (scalePt (aroundDir d) (sq (sqrDist (cam_origin c) (cam_target c))))) c"

section \<open>Properties\<close>

definition tooNear :: "point \<Rightarrow> point \<Rightarrow> bool" where
  "tooNear p q \<longleftrightarrow> sqrDist p q < SQRT_FLT_EPSILON"

text \<open>None is a rejected value: the camera is as it was.\<close>

definition cam_setProperty :: "(rat \<Rightarrow> rat) \<Rightarrow> (string \<Rightarrow> rat option) \<Rightarrow> (string \<Rightarrow> string) \<Rightarrow> cameraKey \<Rightarrow> string \<Rightarrow> camera \<Rightarrow> camera option" where
  "cam_setProperty sq readReal tr key val c =
     (case key of
        CAMERA_KEY_LOOKAT_LOCK \<Rightarrow> map_option (\<lambda>b. c\<lparr>cam_lock := b\<rparr>) (if val = ''1'' then Some True else if val = ''0'' then Some False else None)
      | CAMERA_KEY_LOOKAT_ORIGIN \<Rightarrow> Option.bind (parsePoint readReal val) (\<lambda>p.
          if tooNear p (cam_target c) then None else Some (c\<lparr>cam_origin := p\<rparr>))
      | CAMERA_KEY_LOOKAT_TARGET \<Rightarrow> Option.bind (parsePoint readReal val) (\<lambda>p.
          if tooNear p (cam_origin c) then None else Some (c\<lparr>cam_target := p\<rparr>))
      | CAMERA_KEY_LOOKAT_UPDIRECTION \<Rightarrow> Option.bind (parsePoint readReal val) (\<lambda>d.
          if sqrMag (crossProd (viewDirection c) d) < SQRT_FLT_EPSILON then None
          else Some (recomputeUpDirection sq (c\<lparr>upDirection := d\<rparr>)))
      | CAMERA_KEY_LOOKAT_FOV \<Rightarrow> map_option (\<lambda>x. c\<lparr>fovAngle := x\<rparr>) (readReal val)
      | CAMERA_KEY_LOOKAT_PROJECTIONMODE \<Rightarrow>
          (if val = tr ''Perspective'' then Some (c\<lparr>projectionMode := PROJECTION_MODE_PERSPECTIVE\<rparr>)
           else if val = tr ''Orthogonal'' then
             Some ((if projectionMode c \<noteq> PROJECTION_MODE_ORTHOGONAL then c\<lparr>orthoScale := sq (sqrDist (cam_target c) (cam_origin c))\<rparr> else c)
                   \<lparr>projectionMode := PROJECTION_MODE_ORTHOGONAL\<rparr>)
           else None)
      | CAMERA_KEY_LOOKAT_ORTHOSCALE \<Rightarrow> map_option (\<lambda>x. c\<lparr>orthoScale := x\<rparr>) (readReal val))"

text \<open>The rows of the property grid: name, key and shown value. A mode that is neither leaves the
  last row as a second row of the mode.\<close>

definition modeChoice :: "(string \<Rightarrow> string) \<Rightarrow> 32 word \<Rightarrow> string" where
  "modeChoice tr m = choiceString [(PROJECTION_MODE_PERSPECTIVE, tr ''Perspective''), (PROJECTION_MODE_ORTHOGONAL, tr ''Orthogonal'')] m"

definition cam_getProperties :: "(rat \<Rightarrow> string) \<Rightarrow> (string \<Rightarrow> string) \<Rightarrow> camera \<Rightarrow> (string \<times> cameraKey \<times> string) list" where
  "cam_getProperties showReal tr c =
     [(tr ''Lock'', CAMERA_KEY_LOOKAT_LOCK, boolStrEnc (cam_lock c)),
      (tr ''Origin'', CAMERA_KEY_LOOKAT_ORIGIN, showPoint showReal (cam_origin c)),
      (tr ''Target'', CAMERA_KEY_LOOKAT_TARGET, showPoint showReal (cam_target c)),
      (tr ''Up Dir.'', CAMERA_KEY_LOOKAT_UPDIRECTION, showPoint showReal (upDirection c)),
      (tr ''Projection'', CAMERA_KEY_LOOKAT_PROJECTIONMODE, modeChoice tr (projectionMode c)),
      (if projectionMode c = PROJECTION_MODE_PERSPECTIVE then (tr ''Field of View (deg)'', CAMERA_KEY_LOOKAT_FOV, showReal (fovAngle c))
       else if projectionMode c = PROJECTION_MODE_ORTHOGONAL then (tr ''View size'', CAMERA_KEY_LOOKAT_ORTHOSCALE, showReal (orthoScale c))
       else (tr ''Projection'', CAMERA_KEY_LOOKAT_PROJECTIONMODE, modeChoice tr (projectionMode c)))]"

section \<open>State files\<close>

definition pointAttrs :: "(rat \<Rightarrow> string) \<Rightarrow> string \<Rightarrow> point \<Rightarrow> string" where
  "pointAttrs showReal n p = ''<'' @ n @ '' x=\"'' @ showReal (sel p 0) @ ''\" y=\"'' @ showReal (sel p 1) @
     ''\" z=\"'' @ showReal (sel p 2) @ ''\"/>'' @ nl"

definition cam_writeState :: "(rat \<Rightarrow> string) \<Rightarrow> nat \<Rightarrow> camera \<Rightarrow> string" where
  "cam_writeState showReal d c =
     tabs d @ ''<persplookat>'' @ nl @
     tabs (d + 1) @ ''<userstring value=\"'' @ escapeXML (userString c) @ ''\"/>'' @ nl @
     tabs (d + 1) @ ''<projectionmode value=\"'' @ showNat (unat (projectionMode c)) @ ''\"/>'' @ nl @
     tabs (d + 1) @ ''<orthoscale value=\"'' @ showReal (orthoScale c) @ ''\"/>'' @ nl @
     tabs (d + 1) @ (if cam_lock c then ''<lock value=\"1\"/>'' else ''<lock value=\"0\"/>'') @ nl @
     tabs (d + 1) @ pointAttrs showReal ''origin'' (cam_origin c) @
     tabs (d + 1) @ pointAttrs showReal ''target'' (cam_target c) @
     tabs (d + 1) @ pointAttrs showReal ''updirection'' (upDirection c) @
     tabs (d + 1) @ ''<fovangle value=\"'' @ showReal (fovAngle c) @ ''\"/>'' @ nl @
     tabs (d + 1) @ ''<nearplane value=\"'' @ showReal (nearPlane c) @ ''\"/>'' @ nl @
     tabs d @ ''</persplookat>'' @ nl"

text \<open>The three attributes of the next element of a name.\<close>

definition nextPoint :: "(string \<Rightarrow> rat option) \<Rightarrow> string \<Rightarrow> xmlNode list \<Rightarrow> (xmlNode list \<times> point) option" where
  "nextPoint readReal n node =
     (let nd = fwdToElem n node in
      if nd = [] then None
      else case (Option.bind (getProp_string ''x'' nd) readReal, Option.bind (getProp_string ''y'' nd) readReal,
                 Option.bind (getProp_string ''z'' nd) readReal) of
          (Some x, Some y, Some z) \<Rightarrow> Some (nd, Tri x y z)
        | _ \<Rightarrow> None)"

text \<open>
  The reader starts at a node whose siblings are the elements. A missing name leaves a null pointer,
  and a missing lock value a null string: both are None.
\<close>

definition cam_readState :: "(rat \<Rightarrow> rat) \<Rightarrow> (string \<Rightarrow> rat option) \<Rightarrow> xmlNode list \<Rightarrow> camera \<Rightarrow> camera option" where
  "cam_readState sq readReal node c =
     (let n1 = fwdToElem ''userstring'' node;
          us = (case Option.bind (getProp_string ''value'' n1) castWord of None \<Rightarrow> [] | Some s \<Rightarrow> s) in
      if node = [] \<or> n1 = [] then None else
      Option.bind (nextElemAttrib castUInt ''projectionmode'' ''value'' n1) (\<lambda>(n2, pm).
      if pm > PROJECTION_MODE_ENUM_END then None else
      Option.bind (nextElemAttrib readReal ''orthoscale'' ''value'' n2) (\<lambda>(n3, os).
      Option.bind (nextElemAttrib read_flag ''lock'' ''value'' n3) (\<lambda>(n4, lk).
      Option.bind (nextPoint readReal ''origin'' n4) (\<lambda>(n5, o').
      Option.bind (nextPoint readReal ''target'' n5) (\<lambda>(n6, t).
      Option.bind (nextPoint readReal ''updirection'' n6) (\<lambda>(n7, u).
      Option.bind (nextElemAttrib readReal ''fovangle'' ''value'' n7) (\<lambda>(n8, fov).
      if fov \<le> 0 then None else
      Option.bind (nextElemAttrib readReal ''nearplane'' ''value'' n8) (\<lambda>(n9, np).
        Some (recomputeViewDirection sq (c\<lparr>userString := us, projectionMode := pm, orthoScale := (if os \<le> 0 then 1 else os),
          cam_lock := lk, cam_origin := o', cam_target := t, upDirection := u, fovAngle := fov, nearPlane := np\<rparr>)))))))))))"

section \<open>Text of points\<close>

text \<open>What the printed form of a number has to be like, and what reading does with it: a number is read up to
  the closing bracket.\<close>

definition plainReal :: "(rat \<Rightarrow> string) \<Rightarrow> (string \<Rightarrow> rat option) \<Rightarrow> rat \<Rightarrow> bool" where
  "plainReal showReal readReal x \<longleftrightarrow> showReal x \<noteq> [] \<and>
     (\<forall>c \<in> set (showReal x). c \<notin> set (NUL # '',;|_'' @ WHITE)) \<and>
     readReal (showReal x) = Some x \<and> readReal (showReal x @ '')'') = Some x"

lemma stripWhite_none: "\<forall>c \<in> set s. c \<notin> set WHITE \<Longrightarrow> stripWhite s = s"
proof -
  have d: "\<forall>c \<in> set xs. c \<notin> set WHITE \<Longrightarrow> dropWhile (\<lambda>c. c \<in> set WHITE) xs = xs" for xs
    by (cases xs) auto
  assume "\<forall>c \<in> set s. c \<notin> set WHITE"
  then show ?thesis using d [of s] d [of "rev s"] by (simp add: stripWhite_def stripChars_def Let_def)
qed

lemma below3: "(\<forall>i < 3. P i) \<longleftrightarrow> P 0 \<and> P (Suc 0) \<and> P (2 :: nat)"
  by (auto simp: less_Suc_eq numeral_3_eq_3 numeral_2_eq_2)

lemma split_three:
  assumes "\<forall>c \<in> set (a @ b @ d). \<not> P c" "P x" "d \<noteq> []"
  shows "split_loop P [] (a @ x # b @ x # d) = [a, b, d]"
proof -
  have "split_loop P [] (a @ x # b @ x # d) = a # split_loop P [] (b @ x # d)"
    using split_no_delim [of a P "[]" "x # b @ x # d"] assms by simp
  also have "split_loop P [] (b @ x # d) = b # split_loop P [] d"
    using split_no_delim [of b P "[]" "x # d"] assms by simp
  also have "split_loop P [] d = [d]"
    using split_no_delim [of d P "[]" "[]"] assms by simp
  finally show ?thesis .
qed

lemma split_any_three:
  assumes "\<forall>c \<in> set (a @ b @ d). c \<noteq> NUL \<and> c \<notin> set ds" "NUL \<notin> set ds" "x \<in> set ds" "x \<noteq> NUL" "d \<noteq> []"
  shows "splitStrsRef_any (a @ x # b @ x # d) ds = [a, b, d]"
proof -
  have "c_str (a @ x # b @ x # d) = a @ x # b @ x # d" "c_str ds = ds"
    using assms by (intro c_str_same; auto)+
  then show ?thesis
    unfolding splitStrsRef_any_def using assms by (simp only:) (rule split_three; auto simp: list_ex_iff)
qed

lemma parse_show_core:
  assumes "\<forall>i < 3. plainReal showReal readReal (sel p i)"
  shows "parsePoint readReal (showPoint showReal p) = Some p"
proof -
  obtain x y z where p: "p = Tri x y z" by (cases p)
  have "plainReal showReal readReal (sel p 0)" "plainReal showReal readReal (sel p 1)" "plainReal showReal readReal (sel p 2)"
    using assms by simp_all
  then have r: "plainReal showReal readReal x" "plainReal showReal readReal y" "plainReal showReal readReal z"
    by (simp_all add: p)
  let ?a = "showReal x" and ?b = "showReal y" and ?d = "showReal z @ '')''"
  let ?u = "?a @ CHR '','' # ?b @ CHR '','' # ?d"
  have t: "showPoint showReal p = CHR ''('' # ?u" by (simp add: showPoint_def p)
  have ok: "\<forall>c \<in> set (?a @ ?b @ ?d). c \<noteq> NUL \<and> c \<notin> set '',;|_'' \<and> c \<notin> set WHITE"
  proof
    fix c assume "c \<in> set (?a @ ?b @ ?d)"
    then consider "c \<in> set ?a" | "c \<in> set ?b" | "c \<in> set (showReal z)" | "c = CHR '')''" by auto
    then have "c = CHR '')'' \<or> c \<notin> set (NUL # '',;|_'' @ WHITE)"
      using r unfolding plainReal_def by cases blast+
    then show "c \<noteq> NUL \<and> c \<notin> set '',;|_'' \<and> c \<notin> set WHITE"
      by (elim disjE) (simp_all only: set_append Un_iff list.set insert_iff de_Morgan_disj HOL.simp_thms, simp_all add: NUL_def WHITE_def)
  qed
  have ne: "?a \<noteq> []" "?b \<noteq> []" "?d \<noteq> []" using r by (auto simp: plainReal_def)
  have strip: "stripWhite (showPoint showReal p) = showPoint showReal p"
    unfolding t by (rule stripWhite_none) (use ok in \<open>auto simp: WHITE_def\<close>)
  have len: "5 \<le> length (showPoint showReal p)"
  proof -
    have "0 < length ?a" "0 < length ?b" "0 < length (showReal z)" using r by (auto simp: plainReal_def)
    then show ?thesis unfolding t length_Cons length_append by linarith
  qed
  have s1: "splitStrsRef_any ?u '',;|_'' = [?a, ?b, ?d]"
    by (rule split_any_three) (use ok in \<open>auto simp: NUL_def\<close>)
  have s2: "splitStrsRef_any ?u SEPARATORS = [?a, ?b, ?d]"
    by (rule split_any_three) (use ok in \<open>auto simp: NUL_def WHITE_def SEPARATORS_def\<close>)
  have w: "stripWhite ?a = ?a" "stripWhite ?b = ?b" "stripWhite ?d = ?d"
    using ok by (intro stripWhite_none; simp)+
  have h: "find_char (hd (showPoint showReal p)) OPENERS \<noteq> None" "find_char (last (showPoint showReal p)) CLOSERS \<noteq> None"
    by (simp_all add: t OPENERS_def CLOSERS_def)
  have u: "tl (showPoint showReal p) = ?u" by (simp add: t)
  have f: "filter (\<lambda>s. s \<noteq> []) (map stripWhite [?a, ?b, ?d]) = [?a, ?b, ?d]" using w ne by simp
  have parts: "readReal ?a = Some x" "readReal ?b = Some y" "readReal ?d = Some z" using r by (simp_all add: plainReal_def)
  have nonempty: "showPoint showReal p \<noteq> []" by (simp add: t)
  from h obtain i j where "find_char (hd (showPoint showReal p)) OPENERS = Some i" "find_char (last (showPoint showReal p)) CLOSERS = Some j" by blast
  then show ?thesis
    unfolding parsePoint_def Let_def strip using len nonempty
    by (simp only: u s1 s2 f parts if_True if_False option.distinct simp_thms list.size) (simp add: p parts)
qed

text \<open>The text of a point is parsed back as that point.\<close>

theorem parse_show:
  assumes "\<forall>i < 3. plainReal showReal readReal (sel p i)"
  shows "parsePoint readReal (showPoint showReal p) = Some p"
  by (rule parse_show_core [OF assms])

text \<open>The two brackets need not match, although they "must be in sync".\<close>

theorem parse_mismatched:
  "parsePoint readReal ''[1,2,3)'' = (case (readReal ''1'', readReal ''2'', readReal ''3)'') of
     (Some x, Some y, Some z) \<Rightarrow> Some (Tri x y z) | _ \<Rightarrow> None)"
  by (simp add: parsePoint_def stripWhite_def stripChars_def WHITE_def OPENERS_def CLOSERS_def SEPARATORS_def splitStrsRef_any_def c_str_def NUL_def)

section \<open>Properties of the camera\<close>

lemma camera_eqI_clone: "cloneCamera raw c = c\<lparr>frustumDistortion := 0\<rparr>"
  by (cases c) (simp add: cloneCamera_def newCamera_def)

lemma recomputeUp_same: "cam_origin (recomputeUpDirection sq c) = cam_origin c" "cam_target (recomputeUpDirection sq c) = cam_target c"
  by (simp_all add: recomputeUpDirection_def Let_def)

text \<open>Property C18. A camera whose origin and target are apart keeps them apart under every property edit, and a
  rejected edit changes nothing.\<close>

theorem setProperty_apart:
  assumes "\<not> tooNear (cam_origin c) (cam_target c)" "cam_setProperty sq readReal tr key val c = Some c'"
  shows "\<not> tooNear (cam_origin c') (cam_target c')"
proof -
  have sym: "tooNear p q \<longleftrightarrow> tooNear q p" for p q by (simp add: tooNear_def sqrDist_commute)
  show ?thesis
    using assms sym [of "cam_origin c" "cam_target c'"]
    by (cases key) (auto simp: cam_setProperty_def bind_eq_Some_conv recomputeUp_same split: if_splits)
qed

text \<open>Setting a row of the property grid to the value it shows leaves the camera as it is.\<close>

theorem setProperty_shown:
  assumes "(n, key, val) \<in> set (cam_getProperties showReal tr c)"
    and "key \<in> {CAMERA_KEY_LOOKAT_LOCK, CAMERA_KEY_LOOKAT_ORIGIN, CAMERA_KEY_LOOKAT_TARGET, CAMERA_KEY_LOOKAT_FOV, CAMERA_KEY_LOOKAT_ORTHOSCALE}"
    and "\<not> tooNear (cam_origin c) (cam_target c)"
    and "\<forall>x \<in> {sel (cam_origin c) 0, sel (cam_origin c) 1, sel (cam_origin c) 2, sel (cam_target c) 0, sel (cam_target c) 1,
        sel (cam_target c) 2, fovAngle c, orthoScale c}. plainReal showReal readReal x"
  shows "cam_setProperty sq readReal tr key val c = Some c"
proof -
  have o: "parsePoint readReal (showPoint showReal (cam_origin c)) = Some (cam_origin c)"
    by (rule parse_show_core) (use assms(4) in \<open>simp add: below3\<close>)
  have t: "parsePoint readReal (showPoint showReal (cam_target c)) = Some (cam_target c)"
    by (rule parse_show_core) (use assms(4) in \<open>simp add: below3\<close>)
  have sym: "tooNear (cam_target c) (cam_origin c) \<longleftrightarrow> tooNear (cam_origin c) (cam_target c)"
    by (simp add: tooNear_def sqrDist_commute)
  have "readReal (showReal (fovAngle c)) = Some (fovAngle c)" "readReal (showReal (orthoScale c)) = Some (orthoScale c)"
    using assms(4) by (simp_all add: plainReal_def)
  with assms(1-3) o t sym show ?thesis
    by (auto simp: cam_getProperties_def cam_setProperty_def boolStrEnc_def split: if_splits)
qed

text \<open>
  The direction that is recomputed points from the target to the origin; the one that the constructor sets
  points from the origin to the target.
\<close>

theorem viewDirection_flips:
  assumes "sq 1 = 1"
  shows "viewDirection (newCamera raw) = Tri 0 0 (-1) \<and> viewDirection (recomputeViewDirection sq (newCamera raw)) = Tri 0 0 1"
  using assms f32.zero f32_int [of 1]
  by (simp add: newCamera_def recomputeViewDirection_def normalise_def subPt_def sqrMag_def divPt_def)

text \<open>Moving to the positive side of the x axis moves along y.\<close>

theorem reposition_swaps_axes:
  assumes "\<not> cam_lock c"
  shows "cam_origin (repositionAroundTarget sq CAMERA_DIR_XPLUS c)
     = addPt (cam_target c) (scalePt (Tri 0 1 0) (sq (sqrDist (cam_origin c) (cam_target c))))"
  using assms by (simp add: repositionAroundTarget_def setOrigin_def recomputeViewDirection_def)

section \<open>Saving and loading\<close>

definition attrsOf :: "(rat \<Rightarrow> string) \<Rightarrow> point \<Rightarrow> (string \<times> string) list" where
  "attrsOf showReal p = [(''x'', showReal (sel p 0)), (''y'', showReal (sel p 1)), (''z'', showReal (sel p 2))]"

definition cameraDoc :: "(rat \<Rightarrow> string) \<Rightarrow> nat \<Rightarrow> camera \<Rightarrow> xmlNode" where
  "cameraDoc showReal d c = Elem ''persplookat'' [] (lay (map (Pair (d + 1))
     [Elem ''userstring'' [(''value'', userString c)] [],
      Elem ''projectionmode'' [(''value'', showNat (unat (projectionMode c)))] [],
      Elem ''orthoscale'' [(''value'', showReal (orthoScale c))] [],
      Elem ''lock'' [(''value'', boolStrEnc (cam_lock c))] [],
      Elem ''origin'' (attrsOf showReal (cam_origin c)) [],
      Elem ''target'' (attrsOf showReal (cam_target c)) [],
      Elem ''updirection'' (attrsOf showReal (upDirection c)) [],
      Elem ''fovangle'' [(''value'', showReal (fovAngle c))] [],
      Elem ''nearplane'' [(''value'', showReal (nearPlane c))] []]) d)"

definition camReals :: "camera \<Rightarrow> rat list" where
  "camReals c = [orthoScale c, sel (cam_origin c) 0, sel (cam_origin c) 1, sel (cam_origin c) 2,
     sel (cam_target c) 0, sel (cam_target c) 1, sel (cam_target c) 2,
     sel (upDirection c) 0, sel (upDirection c) 1, sel (upDirection c) 2, fovAngle c, nearPlane c]"

lemma camera_text:
  assumes "\<forall>x \<in> set (camReals c). \<forall>ch \<in> set (showReal x). escapeChar ch = [ch]"
  shows "cam_writeState showReal d c = tabs d @ xml_text (escape_doc (cameraDoc showReal d c)) @ nl"
proof -
  have flag: "escapeXML ''0'' = ''0''" "escapeXML ''1'' = ''1''" by (rule escape_plain; simp add: escapeChar_def)+
  have "escapeXML (showReal x) = showReal x" if "x \<in> set (camReals c)" for x
    by (rule escape_plain) (use assms that in blast)
  then show ?thesis
    by (simp add: cam_writeState_def cameraDoc_def lay_text xml_attr_def pointAttrs_def attrsOf_def boolStrEnc_def flag camReals_def)
qed

lemma nextPoint_text:
  "n \<noteq> ''text'' \<Longrightarrow> nextPoint readReal n (q # Text s # Elem n (attrsOf showReal p) [] # ns) =
    (case (readReal (showReal (sel p 0)), readReal (showReal (sel p 1)), readReal (showReal (sel p 2))) of
       (Some x, Some y, Some z) \<Rightarrow> Some (Elem n (attrsOf showReal p) [] # ns, Tri x y z) | _ \<Rightarrow> None)"
  by (auto simp: nextPoint_def fwdToElem_def getProp_string_def attrsOf_def Let_def split: option.split)

lemma fwd_text: "nm \<noteq> ''text'' \<Longrightarrow> fwdToElem nm (Text s # Elem nm as ks # ns) = Elem nm as ks # ns"
  by (simp add: fwdToElem_def)

lemma read_flag_bool' [simp]: "read_flag (boolStrEnc b) = Some b"
  by (simp add: read_flag_def boolStrEnc_def)

text \<open>
  Numbers are printed with the six digits of an output stream: \<open>rd x\<close> is the number that the text of \<open>x\<close> denotes.
\<close>

definition printedCamera :: "(rat \<Rightarrow> rat) \<Rightarrow> camera \<Rightarrow> camera" where
  "printedCamera rd c = c\<lparr>cam_origin := map_triple rd (cam_origin c), cam_target := map_triple rd (cam_target c),
     upDirection := map_triple rd (upDirection c), orthoScale := rd (orthoScale c), fovAngle := rd (fovAngle c),
     nearPlane := rd (nearPlane c)\<rparr>"

lemma point_map: "Tri (rd (sel p 0)) (rd (sel p (Suc 0))) (rd (sel p 2)) = map_triple rd p"
  by (cases p) simp

lemma camera_read_core:
  assumes "\<forall>x \<in> set (camReals c). readReal (showReal x) = Some (rd x)"
    and "projectionMode c \<le> PROJECTION_MODE_ENUM_END" "0 < rd (fovAngle c)"
  shows "cam_readState sq readReal (xmlChildren (cameraDoc showReal d c)) c0 =
    Some (recomputeViewDirection sq (c0\<lparr>userString := (case castWord (userString c) of None \<Rightarrow> [] | Some s \<Rightarrow> s),
      projectionMode := projectionMode c, orthoScale := (if rd (orthoScale c) \<le> 0 then 1 else rd (orthoScale c)),
      cam_lock := cam_lock c, cam_origin := map_triple rd (cam_origin c), cam_target := map_triple rd (cam_target c),
      upDirection := map_triple rd (upDirection c), fovAngle := rd (fovAngle c), nearPlane := rd (nearPlane c)\<rparr>))"
  using assms
  by (simp add: cam_readState_def cameraDoc_def Let_def fwd_text nextElemAttrib_text nextPoint_text
      getProp_string_def camReals_def castUInt_show point_map not_less [symmetric])

text \<open>
  Property C17. The text of a saved camera is that of a document, and loading this document gives back its name, when that is
  one word, its projection mode and its lock, and its origin, target, up direction, field of view, near plane and view size
  as the digits printed give them. The view direction is computed from origin and target; the far plane and the
  distortion, which are not written, are those of the new camera.
\<close>

theorem camera_reload:
  assumes "\<forall>x \<in> set (camReals c). readReal (showReal x) = Some (rd x) \<and> (\<forall>ch \<in> set (showReal x). escapeChar ch = [ch])"
    and "projectionMode c < PROJECTION_MODE_ENUM_END" "0 < rd (fovAngle c)" "0 < rd (orthoScale c)"
    and "userString c \<noteq> []" "\<forall>ch \<in> set (userString c). \<not> isSpace ch"
  shows "cam_writeState showReal d c = tabs d @ xml_text (escape_doc (cameraDoc showReal d c)) @ nl \<and>
    cam_readState sq readReal (xmlChildren (cameraDoc showReal d c)) (newCamera raw) =
    Some (recomputeViewDirection sq ((printedCamera rd c)\<lparr>farPlane := raw, frustumDistortion := 0\<rparr>))"
proof -
  have w: "castWord (userString c) = Some (userString c)"
    using assms(5,6) by (cases "userString c") (auto simp: castWord_def Let_def takeWhile_eq_all_conv)
  have mode: "projectionMode c \<le> PROJECTION_MODE_ENUM_END" using assms(2) by simp
  have rd: "\<forall>x \<in> set (camReals c). readReal (showReal x) = Some (rd x)" using assms(1) by blast
  have "cam_writeState showReal d c = tabs d @ xml_text (escape_doc (cameraDoc showReal d c)) @ nl"
    by (rule camera_text) (use assms(1) in blast)
  then show ?thesis
    using camera_read_core [OF rd mode assms(3), of sq d "newCamera raw", unfolded w] assms(4)
    by (cases c) (simp add: newCamera_def recomputeViewDirection_def printedCamera_def)
qed

text \<open>A name of several words comes back as its first word, so that cameras whose names differ later collide.\<close>

theorem camera_name_cut:
  assumes "\<forall>x \<in> set (camReals c). readReal (showReal x) = Some (rd x)" "projectionMode c \<le> PROJECTION_MODE_ENUM_END"
    and "0 < rd (fovAngle c)" "userString c = a @ CHR '' '' # b" "a \<noteq> []" "\<forall>ch \<in> set a. \<not> isSpace ch"
  shows "map_option userString (cam_readState sq readReal (xmlChildren (cameraDoc showReal d c)) c0) = Some a"
proof -
  have "isSpace (CHR '' '')" by (simp add: isSpace_def WHITE_def)
  then have "castWord (userString c) = Some a"
    using assms(4-6) by (cases a) (auto simp: castWord_def Let_def takeWhile_append2)
  then show ?thesis
    using camera_read_core [OF assms(1-3), of sq d c0] by (simp add: recomputeViewDirection_def)
qed

text \<open>The end marker of the projection modes, which is not a mode, is accepted from a file.\<close>

theorem camera_mode_end_accepted:
  assumes "\<forall>x \<in> set (camReals c). readReal (showReal x) = Some (rd x)" "projectionMode c = PROJECTION_MODE_ENUM_END" "0 < rd (fovAngle c)"
  shows "map_option projectionMode (cam_readState sq readReal (xmlChildren (cameraDoc showReal d c)) c0) = Some PROJECTION_MODE_ENUM_END"
  using camera_read_core [OF assms(1) _ assms(3), of sq d c0] assms(2) by (simp add: recomputeViewDirection_def)

end
