(* ===== verification/SamplesView.thy ===== *)
theory SamplesView
  imports PlotWrapper Cameras
begin

text \<open>
  Concrete plots, regions, effects and cameras at which the theorems on the view are applied.
\<close>

section \<open>Plots\<close>

definition samplePlot1D :: plot1D where
  "samplePlot1D = \<lparr>logarithmic = False, xValues = [1, 2], yValues = [3, 5], errBars = [], errMode = (0, 0)\<rparr>"

definition samplePlot :: plot where
  "samplePlot = \<lparr>pl_mode = PLOT_MODE_1D, pl_xLabel = ''Mass'', pl_yLabel = ''Count'', pl_title = ''a'', pl_colour = (0, 0, 1),
     pl_type = PLOT_LINE_LINES, pl_xBounds = (1, 2), pl_yBounds = (3, 5), pl_visible = True, titleAsRawDataLabel = False,
     pl_parent = 7, pl_index = 0, pl_regions = twoRegions, pl_data = D1 samplePlot1D\<rparr>"

definition hiddenPlot :: plot where
  "hiddenPlot = samplePlot\<lparr>pl_index := 1, pl_visible := False\<rparr>"

definition sampleWrapper :: plotWrapper where
  "sampleWrapper = \<lparr>pw_changed = True, pw_plots = [], pw_lastVisible = [], pw_ids = [], pw_applyUserBounds = False,
     pw_xUser = (0, 0), pw_yUser = (0, 0), pw_drawLegend = True, pw_locked = False, pw_highlight = False,
     pw_overlaysOn = True, pw_overlays = []\<rparr>"

definition twoPlots :: plotWrapper where
  "twoPlots = snd (addPlot hiddenPlot (snd (addPlot samplePlot (newPlotWrapper sampleWrapper))))"

lemma addPlot_step: "pw_step w (snd (addPlot p w))"
  by (cases "addPlot p w") (auto intro: step_add)

lemma twoPlots_reach: "pw_reach twoPlots"
  unfolding twoPlots_def by (intro reach_step [OF _ addPlot_step] reach_new)

lemma twoPlots_plots: "pw_plots twoPlots = [samplePlot, hiddenPlot]"
  by (simp add: twoPlots_def addPlot_def newPlotWrapper_def split: prod.splits)

theorem plot_ids_are_positions_witness:
  "getVisibleIDs twoPlots = [0] \<and> plotAt twoPlots 1 = Some hiddenPlot"
  using plot_ids_are_positions [OF twoPlots_reach]
  by (simp add: twoPlots_plots samplePlot_def hiddenPlot_def)

theorem visibility_restored_witness:
  "map pl_visible (pw_plots (bestEffortRestoreVisibility
     (fold (\<lambda>p w. snd (addPlot p w)) [hiddenPlot\<lparr>pl_index := 0\<rparr>, hiddenPlot] (pw_clear True twoPlots)))) = [True, False]"
  using visibility_restored [of twoPlots "[hiddenPlot\<lparr>pl_index := 0\<rparr>, hiddenPlot]"]
  by (simp add: twoPlots_plots samplePlot_def hiddenPlot_def plotKey_def)

theorem scanBounds_smallest_witness: "fst (scanBounds twoPlots) = (1, 2) \<and> (0 :: rat) \<le> 1"
proof -
  have s: "fst (scanBounds twoPlots) = (1, 2)"
    by (simp add: scanBounds_def twoPlots_plots samplePlot_def hiddenPlot_def growTo_def FLT_MAX_def)
  with scanBounds_smallest [OF s] show ?thesis
    by (simp add: twoPlots_plots samplePlot_def hiddenPlot_def FLT_MAX_def)
qed

theorem getVisibleMode_exact_witness: "getVisibleMode twoPlots = Some PLOT_MODE_1D"
  using getVisibleMode_exact [of twoPlots]
  by (simp add: twoPlots_plots samplePlot_def hiddenPlot_def getMode_def)

theorem setData_contains_witness:
  "fst (pl_yBounds (setDataVecs [1, 2] [3, 5] [] samplePlot1D samplePlot)) \<le> 5"
  using setData_contains [of "[1, 2]" "[3, 5]" 1 "[]" samplePlot1D samplePlot]
  by (simp add: FLT_MAX_def Let_def)

theorem genErrBars_safe_witness:
  "length (errBars (genErrBars (\<lambda>x. x) (samplePlot1D\<lparr>errMode := (PLOT_ERROR_MOVING_AVERAGE, 3)\<rparr>))) = 2"
proof -
  let ?q = "samplePlot1D\<lparr>errMode := (PLOT_ERROR_MOVING_AVERAGE, 3)\<rparr>"
  have h: "\<forall>x :: rat. 0 \<le> x \<longrightarrow> 0 \<le> x" "fst (errMode ?q) = PLOT_ERROR_MOVING_AVERAGE" by simp_all
  have "length (yValues ?q) = 2" by (simp add: samplePlot1D_def)
  with genErrBars_safe [OF h] show ?thesis by argo
qed

section \<open>Regions\<close>

definition noParents :: "unit parents" where
  "noParents = \<lparr>par_filters = \<lambda>p. Some (), par_rngs = \<lambda>p. None\<rparr>"

text \<open>The right end of the first region is dragged towards 9 and stops at the second region.\<close>

theorem drag_end_separated_witness:
  "findRegionLimit twoRegions 0 REGION_MOVE_EXTEND_XPLUS 9 = 6 \<and>
   separated (regions (snd (the (rgrp_moveRegion (\<lambda>mv k x f. Some f) 0 REGION_MOVE_EXTEND_XPLUS True 6 0 noParents twoRegions))))"
proof -
  note d = twoRegions_def addRegion_def newRegionGroup_def
  have l: "findRegionLimit twoRegions 0 REGION_MOVE_EXTEND_XPLUS 9 = 6"
  proof -
    have u: "[0..<Suc (Suc 0)] = [0, Suc 0]" by simp
    have m: "regionMean (regions twoRegions ! 0) = 2" by (simp add: d regionMean_def)
    show ?thesis unfolding findRegionLimit_def Let_def m by (simp add: d limitFrom_def u del: upt_Suc)
  qed
  obtain w' g' where m: "rgrp_moveRegion (\<lambda>mv k x f. Some f) 0 REGION_MOVE_EXTEND_XPLUS True 6 0 noParents twoRegions = Some (w', g')"
    by (simp add: d rgrp_moveRegion_def updateParent_def elem_at_def noParents_def)
  have "separated (regions g')"
    using drag_end_separated [OF twoRegions_separated, of 0 REGION_MOVE_EXTEND_XPLUS "\<lambda>mv k x f. Some f" 9 0 noParents w' g'] l m
    by (simp add: d regionMean_def)
  then show ?thesis using l m by simp
qed

theorem getOverlaps_exact_witness:
  "(case getOverlaps twoRegions [] [] of (g, ids, coords) \<Rightarrow> ids) = []"
proof -
  obtain g ids coords where g: "getOverlaps twoRegions [] [] = (g, ids, coords)" by (cases "getOverlaps twoRegions [] []")
  have ok: "cache_ok twoRegions" "\<forall>r \<in> set (regions twoRegions). fst (ends r) \<le> snd (ends r)"
    by (simp_all add: cache_ok_def twoRegions_def addRegion_def newRegionGroup_def)
  note e = getOverlaps_exact [OF ok g]
  have "length ids = length coords" using e by blast
  moreover have "ids = []" using g by (simp add: getOverlaps_def fillCache_def overlapPairs_def twoRegions_def addRegion_def
      newRegionGroup_def rangesOverlap_def Let_def numeral_2_eq_2 upt_rec)
  ultimately show ?thesis using g by simp
qed

definition sampleRange :: rangeFile where
  "sampleRange = newRangeFile\<lparr>ranges := [(1, 2), (5, 6)]\<rparr>"

theorem dragRange_nonempty_witness:
  "map_option (\<lambda>r. fst (ranges r ! 0) < snd (ranges r ! 0)) (dragRange REGION_MOVE_EXTEND_XMINUS 0 2 sampleRange) = Some True"
proof -
  have "\<exists>e. dragRange REGION_MOVE_EXTEND_XMINUS 0 2 sampleRange = Some (sampleRange\<lparr>ranges := (ranges sampleRange)[0 := e]\<rparr>) \<and> fst e < snd e"
    by (rule dragRange_nonempty) (simp_all add: sampleRange_def)
  then show ?thesis by (auto simp: sampleRange_def)
qed

section \<open>Effects\<close>

definition sampleCrop :: boxCrop where
  "sampleCrop = \<lparr>openGLIdStart = 0, cropFractions = [0, 1, 0, 0, 0, 0], useCamCoordinates = True\<rparr>"

definition sampleScene :: effectVec where
  "sampleScene = snd (addEffect newAnaglyph (snd (addEffect (BoxCropEffect sampleCrop) \<lparr>ev_effects = [], effectIDs = []\<rparr>)))"

lemma sampleScene_ok: "scene_ok sampleScene"
  unfolding sampleScene_def by (intro effects_add_ok) (simp add: scene_ok_def ids_ok_Nil)

theorem effects_are_a_map_witness:
  "effectMap (snd (addEffect newAnaglyph sampleScene)) 2 = Some newAnaglyph"
  using effects_are_a_map [OF sampleScene_ok, of newAnaglyph]
  by (simp add: sampleScene_def addEffect_def genId_def getIds_def split: prod.splits)

text \<open>Whole numbers, printed in decimal.\<close>

definition showWhole :: "rat \<Rightarrow> string" where
  "showWhole x = (if x < 0 then CHR ''-'' # showNat (nat \<lfloor>- x\<rfloor>) else showNat (nat \<lfloor>x\<rfloor>))"

definition readWhole :: "string \<Rightarrow> rat option" where
  "readWhole s = map_option of_int (castInt s)"

lemma showNat_small:
  "showNat 0 = ''0''" "showNat 1 = ''1''" "showNat 2 = ''2''" "showNat 3 = ''3''" "showNat 90 = ''90''"
  by code_simp+

lemma plainWhole:
  "plainReal showWhole readWhole 0" "plainReal showWhole readWhole 1" "plainReal showWhole readWhole 2"
  "plainReal showWhole readWhole 3" "plainReal showWhole readWhole 90"
  by (code_simp, code_simp, code_simp, code_simp, code_simp)

theorem effect_reload_witness:
  "Option.bind (makeEffect [] (xmlName (effectDoc showWhole 0 (BoxCropEffect sampleCrop))))
     (effect_readState readWhole (effectDoc showWhole 0 (BoxCropEffect sampleCrop))) = Some (BoxCropEffect sampleCrop)"
  by (rule effect_reload) (use plainWhole in \<open>simp_all add: plainReal_def effect_ok_def sampleCrop_def effectReals_def openGLIdStart_of_def\<close>)

section \<open>Cameras\<close>

theorem parse_show_witness: "parsePoint readWhole (showPoint showWhole (Tri 1 2 3)) = Some (Tri 1 2 3)"
  by (rule parse_show) (simp add: below3 plainWhole)

definition sampleCamera :: camera where
  "sampleCamera = (newCamera 0)\<lparr>userString := ''top'', cam_lock := True\<rparr>"

text \<open>Here only the whole part of a number is printed, so that a near plane of 3/2 comes back as 1.\<close>

theorem camera_reload_witness:
  "cam_writeState showWhole 0 (sampleCamera\<lparr>nearPlane := 3/2\<rparr>) =
     xml_text (escape_doc (cameraDoc showWhole 0 (sampleCamera\<lparr>nearPlane := 3/2\<rparr>))) @ nl \<and>
   cam_readState (\<lambda>x. x) readWhole (xmlChildren (cameraDoc showWhole 0 (sampleCamera\<lparr>nearPlane := 3/2\<rparr>))) (newCamera 0) =
     Some (recomputeViewDirection (\<lambda>x. x) sampleCamera)"
proof -
  let ?c = "sampleCamera\<lparr>nearPlane := 3/2\<rparr>"
  have reals: "set (camReals ?c) = {0, 1, 90, 3/2}"
    by (auto simp: sampleCamera_def newCamera_def camReals_def)
  have shown: "showWhole 0 = ''0''" "showWhole 1 = ''1''" "showWhole 90 = ''90''" "showWhole (3/2) = ''1''"
    by code_simp+
  have whole: "readWhole ''0'' = Some 0" "readWhole ''1'' = Some 1" "readWhole ''90'' = Some 90"
    by code_simp+
  have r: "\<forall>x \<in> set (camReals ?c). readWhole (showWhole x) = Some (of_int \<lfloor>x\<rfloor>) \<and> (\<forall>ch \<in> set (showWhole x). escapeChar ch = [ch])"
    unfolding reals by (simp add: shown whole escapeChar_def floor_eq_iff)
  have p: "printedCamera (\<lambda>x. of_int \<lfloor>x\<rfloor>) ?c = sampleCamera"
    by (simp add: printedCamera_def sampleCamera_def newCamera_def floor_eq_iff)
  show ?thesis
    using camera_reload [OF r, of 0 "\<lambda>x. x" 0, unfolded p]
    by (simp add: sampleCamera_def newCamera_def projection_modes isSpace_def WHITE_def tabs_def)
qed

theorem setProperty_apart_witness:
  "map_option (\<lambda>c. tooNear (cam_origin c) (cam_target c))
     (cam_setProperty (\<lambda>x. x) readWhole (\<lambda>s. s) CAMERA_KEY_LOOKAT_TARGET ''(3,1,2)'' sampleCamera) = Some False"
proof -
  have p: "parsePoint readWhole ''(3,1,2)'' = Some (Tri 3 1 2)" by code_simp
  let ?c = "sampleCamera\<lparr>cam_target := Tri 3 1 2\<rparr>"
  have far: "\<not> tooNear (Tri 3 1 2) (cam_origin sampleCamera)" "\<not> tooNear (cam_origin sampleCamera) (cam_target sampleCamera)"
    by (simp_all add: tooNear_def sampleCamera_def newCamera_def sqrDist_def SQRT_FLT_EPSILON_def)
  then have s: "cam_setProperty (\<lambda>x. x) readWhole (\<lambda>s. s) CAMERA_KEY_LOOKAT_TARGET ''(3,1,2)'' sampleCamera = Some ?c"
    by (simp add: cam_setProperty_def p)
  from setProperty_apart [OF far(2) s] show ?thesis by (simp add: s)
qed

theorem setProperty_shown_witness:
  "cam_setProperty (\<lambda>x. x) readWhole (\<lambda>s. s) CAMERA_KEY_LOOKAT_ORIGIN (showPoint showWhole (Tri 0 0 1)) sampleCamera = Some sampleCamera"
proof (rule setProperty_shown [of "''Origin''"])
  show "(''Origin'', CAMERA_KEY_LOOKAT_ORIGIN, showPoint showWhole (Tri 0 0 1)) \<in> set (cam_getProperties showWhole (\<lambda>s. s) sampleCamera)"
    by (simp add: cam_getProperties_def sampleCamera_def newCamera_def)
qed (simp_all add: plainWhole sampleCamera_def newCamera_def tooNear_def sqrDist_def SQRT_FLT_EPSILON_def)

end
