(* ===== verification/Animator.thy ===== *)
theory Animator
  imports XmlTree
begin

text \<open>
  The animation of filter properties (src/src/backend/animator.cpp and animator.h): key frames for
  a property of a filter, the value of a property at a frame, and the state file. Frame numbers
  are \<^verbatim>\<open>size_t\<close>, so that the differences in the interpolation wrap. Real numbers stand for floats:
  parsing and printing them is a parameter, and their arithmetic is exact.
\<close>

datatype interpMode = INTERP_STEP | INTERP_LINEAR_FLOAT | INTERP_LINEAR_COLOUR | INTERP_LIST
  | INTERP_LINEAR_POINT3D | INTERP_STEP_POINT3D

definition modeNum :: "interpMode \<Rightarrow> nat" where
  "modeNum m = (case m of INTERP_STEP \<Rightarrow> 0 | INTERP_LINEAR_FLOAT \<Rightarrow> 1 | INTERP_LINEAR_COLOUR \<Rightarrow> 2
     | INTERP_LIST \<Rightarrow> 3 | INTERP_LINEAR_POINT3D \<Rightarrow> 4 | INTERP_STEP_POINT3D \<Rightarrow> 5)"

text \<open>The mode is stored as a number; one beyond the enumeration selects nothing.\<close>

definition mode_of :: "64 word \<Rightarrow> interpMode option" where
  "mode_of k = (if k < 6 then Some ([INTERP_STEP, INTERP_LINEAR_FLOAT, INTERP_LINEAR_COLOUR, INTERP_LIST,
     INTERP_LINEAR_POINT3D, INTERP_STEP_POINT3D] ! unat k) else None)"

record frameProperties =
  fr_filterId :: "64 word"
  fr_propertyKey :: "64 word"
  fr_frameData :: "(64 word \<times> string) list"
  fr_interpMode :: "64 word"

definition getMinFrame :: "frameProperties \<Rightarrow> 64 word" where
  "getMinFrame f = fold min (map fst (fr_frameData f)) (- 1)"

definition getMaxFrame :: "frameProperties \<Rightarrow> 64 word" where
  "getMaxFrame f = fold max (map fst (fr_frameData f)) 0"

definition addKeyFrame :: "64 word \<Rightarrow> string \<Rightarrow> frameProperties \<Rightarrow> frameProperties" where
  "addKeyFrame fr s f = f\<lparr>fr_frameData := fr_frameData f @ [(fr, s)]\<rparr>"

text \<open>\<^verbatim>\<open>setInterpMode\<close> only asserts that the mode is one of the enumeration.\<close>

definition setInterpMode :: "64 word \<Rightarrow> frameProperties \<Rightarrow> frameProperties" where
  "setInterpMode m f = f\<lparr>fr_interpMode := m\<rparr>"

definition remapId :: "64 word \<Rightarrow> frameProperties \<Rightarrow> frameProperties" where
  "remapId newId f = f\<lparr>fr_filterId := newId\<rparr>"

section \<open>Interpolation\<close>

record floatText =
  fl_parse :: "string \<Rightarrow> rat option"
  fl_print :: "rat \<Rightarrow> string"
  pt_parse :: "string \<Rightarrow> (rat \<times> rat \<times> rat) option"
  pt_print :: "rat \<times> rat \<times> rat \<Rightarrow> string"

definition frameFrac :: "64 word \<Rightarrow> 64 word \<Rightarrow> 64 word \<Rightarrow> rat" where
  "frameFrac startF endF cur = of_nat (unat (cur - startF)) / of_nat (unat (endF - startF))"

definition interpLinearRamp :: "64 word \<Rightarrow> 64 word \<Rightarrow> 64 word \<Rightarrow> rat \<Rightarrow> rat \<Rightarrow> rat" where
  "interpLinearRamp startF endF cur a b = frameFrac startF endF cur * (b - a) + a"

text \<open>One channel: to a fraction of 255, interpolated, and back to a byte by truncation.\<close>

definition mixChannel :: "rat \<Rightarrow> 8 word \<Rightarrow> 8 word \<Rightarrow> 8 word" where
  "mixChannel delta a b = of_int \<lfloor>(of_nat (unat a) / 255 + (of_nat (unat b) / 255 - of_nat (unat a) / 255) * delta) * 255\<rfloor>"

definition mixColour :: "rat \<Rightarrow> colourRGBA \<Rightarrow> colourRGBA \<Rightarrow> colourRGBA" where
  "mixColour delta c d = \<lparr>c_r = mixChannel delta (c_r c) (c_r d), c_g = mixChannel delta (c_g c) (c_g d),
     c_b = mixChannel delta (c_b c) (c_b d), c_a = mixChannel delta (c_a c) (c_a d)\<rparr>"

text \<open>
  None where the code reads beyond the vector, uses a value that was not parsed, divides by zero,
  or falls out of the switch. For reals the values are swapped when the keys are in reverse order,
  but not the frames; for colours the frames but not the values; for points both.
\<close>

definition interpolate :: "floatText \<Rightarrow> interpMode option \<Rightarrow> (64 word \<times> string) list \<Rightarrow> 64 word \<Rightarrow> string option" where
  "interpolate T mode keyData frame =
     (case mode of
        None \<Rightarrow> None
      | Some INTERP_STEP \<Rightarrow> map_option snd (elem_at keyData 0)
      | Some INTERP_STEP_POINT3D \<Rightarrow> map_option snd (elem_at keyData 0)
      | Some INTERP_LIST \<Rightarrow> (case keyData of [] \<Rightarrow> None
          | k # ks \<Rightarrow> map_option snd (elem_at keyData (unat (frame - fst k))))
      | Some INTERP_LINEAR_FLOAT \<Rightarrow> (case keyData of
          (f0, s0) # (f1, s1) # r \<Rightarrow>
            (case (fl_parse T (if f0 < f1 then s0 else s1), fl_parse T (if f0 < f1 then s1 else s0)) of
               (Some a, Some b) \<Rightarrow> if f0 = f1 then None else Some (fl_print T (interpLinearRamp f0 f1 frame a b))
             | _ \<Rightarrow> None)
          | _ \<Rightarrow> None)
      | Some INTERP_LINEAR_COLOUR \<Rightarrow> (case keyData of
          (f0, s0) # (f1, s1) # r \<Rightarrow>
            (case (parseColour s0, parseColour s1) of
               (Some c, Some d) \<Rightarrow> if f0 = f1 then None
                 else Some (rgbaString (mixColour (frameFrac (min f0 f1) (max f0 f1) frame) c d))
             | _ \<Rightarrow> None)
          | _ \<Rightarrow> None)
      | Some INTERP_LINEAR_POINT3D \<Rightarrow> (case keyData of
          (f0, s0) # (f1, s1) # r \<Rightarrow>
            (case (pt_parse T (if f0 < f1 then s0 else s1), pt_parse T (if f0 < f1 then s1 else s0)) of
               (Some (ax, ay, az), Some (bx, by1, bz)) \<Rightarrow> if f0 = f1 then None
                 else let ramp = interpLinearRamp (min f0 f1) (max f0 f1) frame
                      in Some (pt_print T (ramp ax bx, ramp ay by1, ramp az bz))
             | _ \<Rightarrow> None)
          | _ \<Rightarrow> None))"

definition getInterpolatedData :: "floatText \<Rightarrow> frameProperties \<Rightarrow> 64 word \<Rightarrow> string option" where
  "getInterpolatedData T f frame = interpolate T (mode_of (fr_interpMode f)) (fr_frameData f) frame"

section \<open>The animator\<close>

type_synonym animator = "frameProperties list"

definition addProp :: "frameProperties \<Rightarrow> animator \<Rightarrow> animator" where
  "addProp p A = A @ [p]"

definition getNthKeyFrame :: "animator \<Rightarrow> nat \<Rightarrow> frameProperties option" where
  "getNthKeyFrame A frameNum = elem_at A frameNum"

definition an_getMaxFrame :: "animator \<Rightarrow> 64 word" where
  "an_getMaxFrame A = fold (\<lambda>k m. max m (getMaxFrame k)) A 0"

text \<open>
  \<^verbatim>\<open>removeNthKeyFrame\<close> moves the later key frames down and drops the last one, whatever the number
  is; for an empty animator the bound of the loop wraps (None).
\<close>

definition removeNthKeyFrame :: "animator \<Rightarrow> nat \<Rightarrow> animator option" where
  "removeNthKeyFrame A frameNum = (if A = [] then None
     else Some (butlast (fold (\<lambda>ui B. B[ui := B ! (ui + 1)]) [frameNum..<length A - 1] A)))"

definition removeKeyFrames :: "animator \<Rightarrow> nat list \<Rightarrow> animator option" where
  "removeKeyFrames A vec = foldr (\<lambda>i r. case r of None \<Rightarrow> None | Some B \<Rightarrow> removeNthKeyFrame B i) (sort vec) (Some A)"

definition same_target :: "frameProperties \<Rightarrow> frameProperties \<Rightarrow> bool" where
  "same_target k l \<longleftrightarrow> fr_propertyKey k = fr_propertyKey l \<and> fr_filterId k = fr_filterId l"

fun conflicts_with :: "nat \<Rightarrow> frameProperties \<Rightarrow> nat \<Rightarrow> animator \<Rightarrow> nat set \<Rightarrow> nat set" where
  "conflicts_with ui k uj [] S = S"
| "conflicts_with ui k uj (l # ls) S =
     conflicts_with ui k (Suc uj) ls
       (if same_target k l \<and> rangesOverlap (getMinFrame k) (getMaxFrame k) (getMinFrame l) (getMaxFrame l)
        then insert uj (insert ui S) else S)"

fun conflicts_loop :: "nat \<Rightarrow> animator \<Rightarrow> nat set \<Rightarrow> nat set" where
  "conflicts_loop ui [] S = S"
| "conflicts_loop ui (k # ks) S = conflicts_loop (Suc ui) ks (conflicts_with ui k (Suc ui) ks S)"

definition an_checkSelfConsistent :: "animator \<Rightarrow> nat set \<Rightarrow> nat set \<times> bool" where
  "an_checkSelfConsistent A conflictFrames =
     (let S = conflicts_loop 0 A conflictFrames in (S, S = {}))"

text \<open>
  The value of a property at a frame: the first key frame of the property that covers the frame,
  or the one that ended last before it, held at its end, or the empty string.
\<close>

definition getInterpolatedFilterData :: "floatText \<Rightarrow> animator \<Rightarrow> 64 word \<Rightarrow> 64 word \<Rightarrow> 64 word \<Rightarrow> string option" where
  "getInterpolatedFilterData T A filterId propertyKey frame =
     (let mine = (\<lambda>k. fr_filterId k = filterId \<and> fr_propertyKey k = propertyKey) in
      if \<not> list_ex mine A then Some []
      else case find (\<lambda>k. mine k \<and> getMinFrame k \<le> frame \<and> frame \<le> getMaxFrame k) A of
          Some k \<Rightarrow> getInterpolatedData T k frame
        | None \<Rightarrow>
            (let seenFrames = map (\<lambda>k. (k, getMaxFrame k)) (filter (\<lambda>k. mine k \<and> getMaxFrame k \<le> frame) A)
             in if seenFrames = [] then Some []
                else let (k, fr) = last (sort_key snd seenFrames) in getInterpolatedData T k fr))"

text \<open>
  \<^verbatim>\<open>getPropertiesAtFrame\<close> as the list of key frame numbers: those that cover the frame, then for
  each filter that has none of them the latest one that is over.
\<close>

definition activeFrames :: "animator \<Rightarrow> 64 word \<Rightarrow> nat list" where
  "activeFrames A keyframe = filter (\<lambda>ui. getMaxFrame (A ! ui) \<ge> keyframe \<and> getMinFrame (A ! ui) \<le> keyframe) [0..<length A]"

definition bestStep :: "animator \<Rightarrow> 64 word \<Rightarrow> (64 word) set \<Rightarrow> nat \<Rightarrow> (nat \<times> nat) list \<Rightarrow> (nat \<times> nat) list" where
  "bestStep A keyframe seenIds ui m =
     (let filterId = fr_filterId (A ! ui); maxFrame = getMaxFrame (A ! ui) in
      if filterId \<in> seenIds then m
      else if maxFrame > keyframe then m
      else case map_of m (unat filterId) of
          None \<Rightarrow> map_put (unat filterId) ui m
        | Some b \<Rightarrow> if maxFrame \<ge> getMaxFrame (A ! b) then map_put (unat filterId) ui m else m)"

definition getPropertiesAtFrame :: "animator \<Rightarrow> 64 word \<Rightarrow> nat list" where
  "getPropertiesAtFrame A keyframe =
     (let act = activeFrames A keyframe
      in act @ map snd (fold (bestStep A keyframe (set (map (\<lambda>ui. fr_filterId (A ! ui)) act))) [0..<length A] []))"

definition getIdList :: "animator \<Rightarrow> 32 word list" where
  "getIdList A = sorted_list_of_set (set (map (\<lambda>k. ucast (fr_filterId k)) A))"

definition updateMappings :: "(64 word \<rightharpoonup> 64 word) \<Rightarrow> animator \<Rightarrow> animator" where
  "updateMappings newIdMap A =
     (let killItems = map (\<lambda>k. newIdMap (fr_filterId k) = None) A;
          remapped = map (\<lambda>k. case newIdMap (fr_filterId k) of None \<Rightarrow> k | Some i \<Rightarrow> k\<lparr>fr_filterId := i\<rparr>) A
      in vectorMultiErase remapped killItems)"

section \<open>The state file\<close>

definition show64 :: "64 word \<Rightarrow> string" where "show64 k = showNat (unat k)"

definition writeFrame :: "nat \<Rightarrow> frameProperties \<Rightarrow> string" where
  "writeFrame depth f =
     tabs depth @ ''<frame>'' @ nl @
     tabs (depth + 1) @ ''<filterid val=\"'' @ show64 (fr_filterId f) @ ''\"/>'' @ nl @
     tabs (depth + 1) @ ''<propertykey val=\"'' @ show64 (fr_propertyKey f) @ ''\"/>'' @ nl @
     tabs (depth + 1) @ ''<framedata>'' @ nl @
     concat (map (\<lambda>(fr, s). tabs (depth + 2) @ ''<frame offset=\"'' @ show64 fr @ ''\" data=\"'' @ s @ ''\"/>'' @ nl)
       (fr_frameData f)) @
     tabs (depth + 2) @ ''<interpdata mode=\"'' @ show64 (fr_interpMode f) @ ''\"/>'' @ nl @
     tabs (depth + 1) @ ''</framedata>'' @ nl @
     tabs depth @ ''</frame>'' @ nl"

definition an_writeState :: "nat \<Rightarrow> animator \<Rightarrow> string" where
  "an_writeState depth A = tabs depth @ ''<propertyanimator>'' @ nl @ concat (map (writeFrame (depth + 1)) A) @
     tabs depth @ ''</propertyanimator>'' @ nl"

text \<open>
  The reading of the frames of one property. The loop goes on as long as there is another
  \<^verbatim>\<open>frame\<close> after \<^verbatim>\<open>childPtr\<close>, the \<^verbatim>\<open>framedata\<close> element, while the frames are read through \<^verbatim>\<open>framePtr\<close>.
  None is a failure; the result is the pointer to the last frame read and the property.
\<close>

function read_frames :: "xmlNode list \<Rightarrow> xmlNode list \<Rightarrow> frameProperties \<Rightarrow> (xmlNode list \<times> frameProperties) option" where
  "read_frames framePtr childPtr fp =
     (if framePtr = [] then None else
      let fr = fwdToElem ''frame'' framePtr in
      if fr = [] then None
      else case (getProp_size ''offset'' fr, getProp_string ''data'' fr) of
          (Some offsetVal, Some d) \<Rightarrow>
            (let fp' = addKeyFrame offsetVal d fp; ch = fwdToElem ''frame'' childPtr
             in if ch = [] then Some (fr, fp') else read_frames fr ch fp')
        | _ \<Rightarrow> None)"
  by pat_completeness auto
termination
  by (relation "measure (\<lambda>(fr, ch, fp). length fr)") (auto simp: fwdToElem_length)

declare read_frames.simps [simp del]

definition load_frame :: "xmlNode list \<Rightarrow> frameProperties option" where
  "load_frame childPtr =
     (let c1 = fwdToElem ''filterid'' childPtr; c2 = fwdToElem ''propertykey'' c1; c3 = fwdToElem ''framedata'' c2 in
      if childPtr = [] \<or> c1 = [] \<or> c2 = [] \<or> c3 = [] then None
      else case (getProp_size ''val'' c1, getProp_size ''val'' c2) of
          (Some filterId, Some propKey) \<Rightarrow>
            (case read_frames (xmlChildren (hd c3)) c3
                    \<lparr>fr_filterId = filterId, fr_propertyKey = propKey, fr_frameData = [], fr_interpMode = 0\<rparr> of
               None \<Rightarrow> None
             | Some (framePtr, fp) \<Rightarrow>
                 (let i = fwdToElem ''interpdata'' framePtr in
                  if i = [] then None
                  else case getProp_size ''mode'' i of None \<Rightarrow> None | Some m \<Rightarrow> Some (fp\<lparr>fr_interpMode := m\<rparr>)))
        | _ \<Rightarrow> None)"

function load_loop :: "xmlNode list \<Rightarrow> animator \<Rightarrow> bool \<times> animator" where
  "load_loop nodePtr A =
     (if nodePtr = [] then (True, A)
      else let n = fwdToElem ''frame'' nodePtr
      in if n = [] then (True, A)
         else case load_frame (xmlChildren (hd n)) of None \<Rightarrow> (False, A) | Some fp \<Rightarrow> load_loop n (A @ [fp]))"
  by pat_completeness auto
termination
  by (relation "measure (\<lambda>(n, A). length n)") (auto simp: fwdToElem_length)

declare load_loop.simps [simp del]

definition an_loadState :: "xmlNode list \<Rightarrow> bool \<times> animator" where
  "an_loadState nodePtr = load_loop nodePtr []"

section \<open>Consistency\<close>

lemma fold_min: "fold min xs (m :: 'a :: linorder) \<le> m \<and> (\<forall>x \<in> set xs. fold min xs m \<le> x)"
proof (induction xs arbitrary: m)
  case (Cons a xs)
  then show ?case using Cons[of "min a m"] by (auto intro: order_trans)
qed simp

lemma fold_max: "m \<le> fold max xs (m :: 'a :: linorder) \<and> (\<forall>x \<in> set xs. x \<le> fold max xs m)"
proof (induction xs arbitrary: m)
  case (Cons a xs)
  from Cons[of "max a m"] show ?case by simp
qed simp

lemma min_le_max: "fr_frameData k \<noteq> [] \<Longrightarrow> getMinFrame k \<le> getMaxFrame k"
proof -
  assume "fr_frameData k \<noteq> []"
  then obtain x where "x \<in> set (map fst (fr_frameData k))" by (cases "fr_frameData k") auto
  then show ?thesis
    using fold_min[of "map fst (fr_frameData k)" "- 1"] fold_max[of 0 "map fst (fr_frameData k)"]
    by (auto simp: getMinFrame_def getMaxFrame_def intro: order_trans)
qed

definition covers :: "frameProperties \<Rightarrow> 64 word \<Rightarrow> bool" where
  "covers k x \<longleftrightarrow> getMinFrame k \<le> x \<and> x \<le> getMaxFrame k"

text \<open>Two key frames conflict when they set the same property at a common frame.\<close>

definition conflict :: "frameProperties \<Rightarrow> frameProperties \<Rightarrow> bool" where
  "conflict k l \<longleftrightarrow> same_target k l \<and> (\<exists>x. covers k x \<and> covers l x)"

lemma conflict_sym: "conflict k l \<longleftrightarrow> conflict l k"
  by (auto simp: conflict_def same_target_def)

lemma overlap_conflict:
  "fr_frameData k \<noteq> [] \<Longrightarrow> fr_frameData l \<noteq> [] \<Longrightarrow>
   same_target k l \<and> rangesOverlap (getMinFrame k) (getMaxFrame k) (getMinFrame l) (getMaxFrame l) \<longleftrightarrow> conflict k l"
  using rangesOverlap_iff[OF min_le_max[of k] min_le_max[of l]] by (auto simp: conflict_def covers_def)

lemma conflicts_with_set:
  assumes "fr_frameData k \<noteq> []" "\<forall>l \<in> set ls. fr_frameData l \<noteq> []"
  shows "conflicts_with ui k uj ls S = S \<union> {j. \<exists>i < length ls. j = uj + i \<and> conflict k (ls ! i)} \<union>
    (if \<exists>l \<in> set ls. conflict k l then {ui} else {})"
  using assms(2)
proof (induction ls arbitrary: uj S)
  case (Cons l ls)
  have oc: "same_target k l \<and> rangesOverlap (getMinFrame k) (getMaxFrame k) (getMinFrame l) (getMaxFrame l) \<longleftrightarrow> conflict k l"
    using overlap_conflict[OF assms(1)] Cons.prems by simp
  have "{j. \<exists>i < length (l # ls). j = uj + i \<and> conflict k ((l # ls) ! i)} =
      {j. \<exists>i < length ls. j = Suc uj + i \<and> conflict k (ls ! i)} \<union> (if conflict k l then {uj} else {})"
    by (auto simp: less_Suc_eq_0_disj)
  then show ?case using Cons oc by (simp add: insert_commute)
qed simp

lemma conflicts_loop_set:
  assumes "\<forall>l \<in> set ks. fr_frameData l \<noteq> []"
  shows "conflicts_loop ui ks S = S \<union> {ui + i | i j. i < length ks \<and> j < length ks \<and> i \<noteq> j \<and> conflict (ks ! i) (ks ! j)}"
  using assms
proof (induction ks arbitrary: ui S)
  case (Cons k ks)
  let ?T = "{Suc ui + i | i j. i < length ks \<and> j < length ks \<and> i \<noteq> j \<and> conflict (ks ! i) (ks ! j)}"
  let ?C = "{j. \<exists>i < length ks. j = Suc ui + i \<and> conflict k (ks ! i)}"
  let ?D = "if \<exists>l \<in> set ks. conflict k l then {ui} else {}"
  have "conflicts_loop ui (k # ks) S = S \<union> ?C \<union> ?D \<union> ?T"
    using Cons conflicts_with_set[of k ks ui "Suc ui" S] by simp
  moreover have "{ui + i | i j. i < length (k # ks) \<and> j < length (k # ks) \<and> i \<noteq> j \<and> conflict ((k # ks) ! i) ((k # ks) ! j)} = ?C \<union> ?D \<union> ?T"
    (is "?L = _")
  proof (intro equalityI subsetI)
    fix x assume "x \<in> ?L"
    then obtain i j where ij: "x = ui + i" "i < Suc (length ks)" "j < Suc (length ks)" "i \<noteq> j"
      "conflict ((k # ks) ! i) ((k # ks) ! j)" by auto
    show "x \<in> ?C \<union> ?D \<union> ?T"
    proof (cases i; cases j)
      fix j' assume "i = 0" "j = Suc j'"
      then have "conflict k (ks ! j')" "j' < length ks" using ij by simp_all
      then have "\<exists>l \<in> set ks. conflict k l" using nth_mem by blast
      then show ?thesis using ij(1) \<open>i = 0\<close> by simp
    next
      fix i' assume "i = Suc i'" "j = 0"
      then have "conflict k (ks ! i')" "i' < length ks" using ij conflict_sym[of k] by simp_all
      then show ?thesis using ij(1) \<open>i = Suc i'\<close> by simp
    next
      fix i' j' assume "i = Suc i'" "j = Suc j'"
      then show ?thesis using ij by auto
    qed (use ij in simp)
  next
    fix x assume "x \<in> ?C \<union> ?D \<union> ?T"
    then consider i where "x = Suc ui + i" "i < length ks" "conflict k (ks ! i)"
      | l where "x = ui" "l \<in> set ks" "conflict k l"
      | i j where "x = Suc ui + i" "i < length ks" "j < length ks" "i \<noteq> j" "conflict (ks ! i) (ks ! j)"
      by (auto split: if_splits)
    note cases = this
    have mem: "x = ui + a \<Longrightarrow> a < Suc (length ks) \<Longrightarrow> b < Suc (length ks) \<Longrightarrow> a \<noteq> b \<Longrightarrow>
        conflict ((k # ks) ! a) ((k # ks) ! b) \<Longrightarrow> x \<in> ?L" for a b
      by auto
    from cases show "x \<in> ?L"
    proof cases
      case (1 i)
      have "conflict (ks ! i) k" using 1(3) by (rule iffD1[OF conflict_sym])
      then show ?thesis using 1(1,2) by (intro mem[of "Suc i" 0]) simp_all
    next
      case (2 l)
      then obtain j where "j < length ks" "ks ! j = l" by (auto simp: in_set_conv_nth)
      then show ?thesis using 2(1,3) by (intro mem[of 0 "Suc j"]) simp_all
    next
      case (3 i j)
      then show ?thesis by (intro mem[of "Suc i" "Suc j"]) simp_all
    qed
  qed
  ultimately show ?case by (simp only: Un_assoc)
qed simp

text \<open>
  Property C36. The consistency check of an animation collects exactly the key frames that set the
  same property of the same filter as another one at a common frame, whatever the order of the
  frames inside them.
\<close>

theorem conflicts_exact:
  assumes "\<forall>k \<in> set A. fr_frameData k \<noteq> []"
  shows "fst (an_checkSelfConsistent A {}) = {i. i < length A \<and> (\<exists>j < length A. j \<noteq> i \<and> conflict (A ! i) (A ! j))}"
  using conflicts_loop_set[OF assms, of 0 "{}"] by (auto simp: an_checkSelfConsistent_def Let_def)

section \<open>The value of a property over time\<close>

text \<open>An animation as the program keeps it: no empty key frame, no conflict.\<close>

definition an_ok :: "animator \<Rightarrow> bool" where
  "an_ok A \<longleftrightarrow> (\<forall>k \<in> set A. fr_frameData k \<noteq> []) \<and> snd (an_checkSelfConsistent A {})"

lemma an_ok_unique:
  assumes ok: "an_ok A" and kl: "k \<in> set A" "l \<in> set A" "same_target k l" "covers k x" "covers l x"
  shows "k = l"
proof -
  have ne: "\<forall>k \<in> set A. fr_frameData k \<noteq> []" using ok by (simp add: an_ok_def)
  have none: "conflicts_loop 0 A {} = {}" using ok by (simp add: an_ok_def an_checkSelfConsistent_def Let_def)
  obtain i j where ij: "i < length A" "A ! i = k" "j < length A" "A ! j = l"
    using kl(1,2) by (auto simp: in_set_conv_nth)
  show ?thesis
  proof (rule ccontr)
    assume "k \<noteq> l"
    then have "i \<noteq> j" using ij by blast
    moreover have "conflict (A ! i) (A ! j)" using kl ij by (auto simp: conflict_def)
    ultimately have "0 + i \<in> conflicts_loop 0 A {}" unfolding conflicts_loop_set[OF ne] using ij(1,3) by blast
    then show False using none by simp
  qed
qed

lemma last_sort_key:
  assumes "xs \<noteq> []" shows "last (sort_key f xs) \<in> set xs \<and> (\<forall>x \<in> set xs. f x \<le> f (last (sort_key f xs)))"
proof -
  have ne: "sort_key f xs \<noteq> []" using assms by (metis length_0_conv length_sort)
  then have "last (sort_key f xs) \<in> set xs" using last_in_set[of "sort_key f xs"] by simp
  moreover have "f x \<le> f (last (sort_key f xs))" if "x \<in> set xs" for x
  proof -
    have "sorted (map f (sort_key f xs))" by simp
    moreover have "x \<in> set (sort_key f xs)" using that by simp
    then obtain i where "i < length (sort_key f xs)" "sort_key f xs ! i = x" by (metis in_set_conv_nth)
    ultimately have "map f (sort_key f xs) ! i \<le> map f (sort_key f xs) ! (length (sort_key f xs) - 1)"
      by (intro sorted_nth_mono) (use ne in \<open>auto simp: Suc_le_eq\<close>)
    then show ?thesis using \<open>i < _\<close> \<open>sort_key f xs ! i = x\<close> ne by (simp add: last_conv_nth)
  qed
  ultimately show ?thesis by blast
qed

text \<open>
  In a consistent animation the value of a property at a frame is that of its key
  frame that started last, at the frame or, when it is over, at its end.
\<close>

theorem interpolated_latest:
  assumes ok: "an_ok A" and k: "k \<in> set A" "fr_filterId k = i" "fr_propertyKey k = p" "getMinFrame k \<le> frame"
    and latest: "\<forall>l \<in> set A. same_target k l \<and> getMinFrame l \<le> frame \<longrightarrow> getMinFrame l \<le> getMinFrame k"
  shows "getInterpolatedFilterData T A i p frame = getInterpolatedData T k (min frame (getMaxFrame k))"
proof -
  let ?mine = "\<lambda>k. fr_filterId k = i \<and> fr_propertyKey k = p"
  let ?in = "\<lambda>k. ?mine k \<and> getMinFrame k \<le> frame \<and> frame \<le> getMaxFrame k"
  have any: "list_ex ?mine A" using k by (auto simp: list_ex_iff)
  have ne: "\<And>l. l \<in> set A \<Longrightarrow> getMinFrame l \<le> getMaxFrame l" using ok min_le_max by (simp add: an_ok_def)
  have mine: "?mine l \<longleftrightarrow> same_target k l" for l using k(2,3) by (auto simp: same_target_def)
  show ?thesis
  proof (cases "find ?in A")
    case (Some l)
    then have l: "l \<in> set A" "?mine l" "covers l frame" by (auto dest!: find_Some_in simp: covers_def)
    then have "getMinFrame l \<le> getMinFrame k" using latest mine by (auto simp: covers_def)
    then have "covers l (getMinFrame k)" "covers k (getMinFrame k)"
      using l(3) k(4) ne[OF k(1)] by (auto simp: covers_def intro: order_trans)
    then have "k = l" using an_ok_unique[OF ok k(1) l(1)] mine l(2) by blast
    moreover have "min frame (getMaxFrame l) = frame" using l(3) by (simp add: covers_def)
    ultimately show ?thesis using Some any by (simp add: getInterpolatedFilterData_def)
  next
    case None
    have "\<not> ?in k" using None k(1) by (auto simp: find_None_iff)
    then have over: "getMaxFrame k < frame" using k by simp
    define seen where "seen = map (\<lambda>k. (k, getMaxFrame k)) (filter (\<lambda>k. ?mine k \<and> getMaxFrame k \<le> frame) A)"
    have "(k, getMaxFrame k) \<in> set seen" using k over by (auto simp: seen_def)
    then have sne: "seen \<noteq> []" by auto
    obtain l fr where l: "last (sort_key snd seen) = (l, fr)" by fastforce
    then have ls: "l \<in> set A" "?mine l" "fr = getMaxFrame l" "getMaxFrame l \<le> frame" "getMaxFrame k \<le> getMaxFrame l"
      using last_sort_key[OF sne, of snd] \<open>(k, getMaxFrame k) \<in> set seen\<close> by (auto simp: seen_def)
    have "getMinFrame l \<le> frame" using ne[OF ls(1)] ls(4) by simp
    then have "getMinFrame l \<le> getMinFrame k" using latest mine ls(1,2) by blast
    then have "covers l (getMinFrame k)" "covers k (getMinFrame k)"
      using ls(5) ne[OF k(1)] by (auto simp: covers_def intro: order_trans)
    then have "k = l" using an_ok_unique[OF ok k(1) ls(1)] mine ls(2) by blast
    moreover have "min frame (getMaxFrame k) = getMaxFrame k" using over by simp
    ultimately show ?thesis using None any l ls(3) sne
      by (simp add: getInterpolatedFilterData_def seen_def)
  qed
qed

section \<open>Removal\<close>

lemma shift_down:
  "n \<le> m \<Longrightarrow> m < length A \<Longrightarrow> fold (\<lambda>ui B. B[ui := B ! (ui + 1)]) [n..<m] A = take n A @ take (m - n) (drop (Suc n) A) @ drop m A"
proof (induction m)
  case (Suc m)
  show ?case
  proof (cases "n = Suc m")
    case False
    then have nm: "n \<le> m" using Suc.prems by simp
    let ?B = "take n A @ take (m - n) (drop (Suc n) A) @ drop m A"
    have "fold (\<lambda>ui B. B[ui := B ! (ui + 1)]) [n..<Suc m] A = ?B[m := ?B ! (m + 1)]"
      using nm Suc by simp
    also have "\<dots> = take n A @ take (Suc m - n) (drop (Suc n) A) @ drop (Suc m) A"
      using nm Suc.prems
      by (intro nth_equalityI) (auto simp: nth_append nth_list_update less_Suc_eq)
    finally show ?thesis .
  qed simp
qed simp

lemma removeNth_exact: "i < length A \<Longrightarrow> removeNthKeyFrame A i = Some (take i A @ drop (Suc i) A)"
proof -
  assume i: "i < length A"
  then have "fold (\<lambda>ui B. B[ui := B ! (ui + 1)]) [i..<length A - 1] A =
      take i A @ take (length A - 1 - i) (drop (Suc i) A) @ drop (length A - 1) A"
    by (intro shift_down) auto
  moreover have "take (length A - 1 - i) (drop (Suc i) A) = drop (Suc i) A" by simp
  moreover have "A \<noteq> []" using i by auto
  then have "drop (length A - 1) A = [last A]" using append_butlast_last_id[of A] by (metis append_eq_conv_conj length_butlast)
  ultimately show ?thesis using i by (auto simp: removeNthKeyFrame_def butlast_append)
qed

lemma nths_minus:
  assumes "i < length A" "\<forall>j \<in> J. i < j"
  shows "take i (nths A (- J)) @ drop (Suc i) (nths A (- J)) = nths A (- insert i J)"
proof -
  have len: "length (take i A) = i" "min (length A) i = i" using assms(1) by simp_all
  have A: "A = take i A @ A ! i # drop (Suc i) A" using assms(1) by (simp add: id_take_nth_drop)
  have below: "nths (take i A) (- J) = take i A"
    using assms by (intro nths_all) auto
  have below': "nths (take i A) (- insert i J) = take i A"
    using assms by (intro nths_all) auto
  have iJ: "i \<notin> J" using assms(2) by blast
  define B where "B = nths (drop (Suc i) A) {j. j + Suc i \<in> - J}"
  have "nths A (- J) = take i A @ [A ! i] @ B"
    using iJ by (subst A) (simp add: nths_append nths_Cons len below B_def)
  moreover have "nths A (- insert i J) = take i A @ B"
    using assms(1) by (subst A) (simp add: nths_append nths_Cons len below' B_def)
  ultimately show ?thesis by (simp add: len)
qed

text \<open>
  Removing key frames by their numbers, in any order, removes exactly these and keeps
  the others in order.
\<close>

theorem removeKeyFrames_exact:
  assumes "distinct vec" "\<forall>i \<in> set vec. i < length A"
  shows "removeKeyFrames A vec = Some (nths A (- set vec))"
proof -
  have "foldr (\<lambda>i r. case r of None \<Rightarrow> None | Some B \<Rightarrow> removeNthKeyFrame B i) is (Some A) = Some (nths A (- set is))"
    if "sorted is" "distinct is" "\<forall>i \<in> set is. i < length A" for "is"
    using that
  proof (induction "is")
    case Nil
    then show ?case by (simp add: nths_all)
  next
    case (Cons i "is")
    have lt: "\<forall>j \<in> set is. i < j" using Cons.prems by (auto simp: less_le)
    have "i < length (nths A (- set is))"
    proof -
      have "{0..i} \<subseteq> {j. j < length A \<and> j \<in> - set is}" using lt Cons.prems(3) by auto
      from card_mono[OF _ this] show ?thesis by (simp add: length_nths)
    qed
    then show ?case
      using Cons nths_minus[of i A "set is"] lt by (simp add: removeNth_exact)
  qed
  from this[of "sort vec"] assms show ?thesis by (simp add: removeKeyFrames_def)
qed

text \<open>Key frames of filters without a new number vanish, the others get theirs.\<close>

lemma updateMappings_exact:
  "updateMappings m A = map (\<lambda>k. k\<lparr>fr_filterId := the (m (fr_filterId k))\<rparr>) (filter (\<lambda>k. m (fr_filterId k) \<noteq> None) A)"
proof -
  have "keep_unkilled (map (\<lambda>k. case m (fr_filterId k) of None \<Rightarrow> k | Some i \<Rightarrow> k\<lparr>fr_filterId := i\<rparr>) A) (map (\<lambda>k. m (fr_filterId k) = None) A) =
      map (\<lambda>k. k\<lparr>fr_filterId := the (m (fr_filterId k))\<rparr>) (filter (\<lambda>k. m (fr_filterId k) \<noteq> None) A)"
    by (induction A) auto
  then show ?thesis by (simp add: updateMappings_def Let_def vectorMultiErase_eq)
qed

section \<open>The state file loses frames\<close>

text \<open>The document that the writer prints, when no value needs to be escaped: the writer does not escape.\<close>

definition dataDoc :: "nat \<Rightarrow> 64 word \<times> string \<Rightarrow> xmlNode list" where
  "dataDoc depth = (\<lambda>(fr, s). [Text (nl @ tabs depth), Elem ''frame'' [(''offset'', show64 fr), (''data'', s)] []])"

definition frameDoc :: "nat \<Rightarrow> frameProperties \<Rightarrow> xmlNode" where
  "frameDoc depth f = Elem ''frame'' []
     ([Text (nl @ tabs (depth + 1)), Elem ''filterid'' [(''val'', show64 (fr_filterId f))] [],
       Text (nl @ tabs (depth + 1)), Elem ''propertykey'' [(''val'', show64 (fr_propertyKey f))] [],
       Text (nl @ tabs (depth + 1)), Elem ''framedata'' []
         (concat (map (dataDoc (depth + 2)) (fr_frameData f)) @
          [Text (nl @ tabs (depth + 2)), Elem ''interpdata'' [(''mode'', show64 (fr_interpMode f))] [], Text (nl @ tabs (depth + 1))]),
       Text (nl @ tabs depth)])"

definition animatorDoc :: "nat \<Rightarrow> animator \<Rightarrow> xmlNode" where
  "animatorDoc depth A = Elem ''propertyanimator'' []
     (concat (map (\<lambda>f. [Text (nl @ tabs (depth + 1)), frameDoc (depth + 1) f]) A) @ [Text (nl @ tabs depth)])"

lemma xml_texts_concat: "xml_texts (concat xss) = concat (map xml_texts xss)"
  by (induction xss) auto

lemma data_text: "nl @ concat (map (\<lambda>(fr, s). tabs d @ ''<frame offset=\"'' @ show64 fr @ ''\" data=\"'' @ s @ ''\"/>'' @ nl) ds) =
    concat (map (\<lambda>x. xml_texts (dataDoc d x)) ds) @ nl"
  by (induction ds) (auto simp: dataDoc_def xml_attr_def)

lemma frame_text: "writeFrame d f = tabs d @ xml_text (frameDoc d f) @ nl"
  using data_text[of "d + 2" "fr_frameData f"]
  by (simp add: writeFrame_def frameDoc_def xml_attr_def xml_texts_concat comp_def)

lemma animator_text: "an_writeState d A = tabs d @ xml_text (animatorDoc d A) @ nl"
proof -
  have "nl @ concat (map (writeFrame (d + 1)) A) = concat (map (\<lambda>f. xml_texts [Text (nl @ tabs (d + 1)), frameDoc (d + 1) f]) A) @ nl"
    by (induction A) (auto simp: frame_text)
  then show ?thesis by (simp add: an_writeState_def animatorDoc_def xml_texts_concat comp_def)
qed

lemma getProp_size_show: "getProp_size nm (Elem n ((nm, show64 k) # as) ks # r) = Some k"
  using size_code.dec_enc[of k] by (simp add: getProp_size_def getProp_string_def show64_def)

lemma skip_data: "dropWhile (\<lambda>n. xmlName n \<noteq> ''interpdata'') (concat (map (dataDoc d) xs) @ r) = dropWhile (\<lambda>n. xmlName n \<noteq> ''interpdata'') r"
  by (induction xs) (auto simp: dataDoc_def)

lemma load_frame_doc:
  assumes "fr_frameData f \<noteq> []"
  shows "load_frame (xmlChildren (frameDoc d f)) = Some (f\<lparr>fr_frameData := take 1 (fr_frameData f)\<rparr>)"
proof -
  obtain fr s xs where fd: "fr_frameData f = (fr, s) # xs" using assms by (cases "fr_frameData f") auto
  let ?rest = "concat (map (dataDoc (d + 2)) xs) @
    [Text (nl @ tabs (d + 2)), Elem ''interpdata'' [(''mode'', show64 (fr_interpMode f))] [], Text (nl @ tabs (d + 1))]"
  let ?fr = "Elem ''frame'' [(''offset'', show64 fr), (''data'', s)] [] # ?rest"
  let ?fd = "Elem ''framedata'' [] (Text (nl @ tabs (d + 2)) # ?fr)"
  have "read_frames (Text (nl @ tabs (d + 2)) # ?fr) [?fd, Text (nl @ tabs d)] fp = Some (?fr, addKeyFrame fr s fp)" for fp
    by (subst read_frames.simps) (simp add: fwdToElem_def getProp_size_show getProp_string_def)
  moreover have "fwdToElem ''interpdata'' ?fr =
      [Elem ''interpdata'' [(''mode'', show64 (fr_interpMode f))] [], Text (nl @ tabs (d + 1))]"
    by (simp add: fwdToElem_def skip_data)
  moreover have "xmlChildren (frameDoc d f) =
      [Text (nl @ tabs (d + 1)), Elem ''filterid'' [(''val'', show64 (fr_filterId f))] [],
       Text (nl @ tabs (d + 1)), Elem ''propertykey'' [(''val'', show64 (fr_propertyKey f))] [],
       Text (nl @ tabs (d + 1)), ?fd, Text (nl @ tabs d)]"
    by (simp add: frameDoc_def fd dataDoc_def)
  ultimately show ?thesis
    by (simp add: load_frame_def fwdToElem_def getProp_size_show addKeyFrame_def fd)
qed

lemma load_loop_docs:
  "\<forall>f \<in> set fs. fr_frameData f \<noteq> [] \<Longrightarrow>
   load_loop (x # concat (map (\<lambda>f. [Text t, frameDoc d f]) fs) @ [Text u]) A =
     (True, A @ map (\<lambda>f. f\<lparr>fr_frameData := take 1 (fr_frameData f)\<rparr>) fs)"
proof (induction fs arbitrary: x A)
  case Nil
  then show ?case by (subst load_loop.simps) (simp add: fwdToElem_def)
next
  case (Cons f fs)
  have nm: "xmlName (frameDoc d f) = ''frame''" by (simp add: frameDoc_def)
  have "load_frame (xmlChildren (frameDoc d f)) = Some (f\<lparr>fr_frameData := take 1 (fr_frameData f)\<rparr>)"
    using load_frame_doc[of f d] Cons.prems by simp
  then show ?case
    using Cons.IH[of "frameDoc d f"] Cons.prems
    by (subst load_loop.simps) (simp add: fwdToElem_def nm)
qed

lemma escape_show64 [simp]: "escapeXML (show64 k) = show64 k"
  by (rule escape_plain) (auto simp: show64_def escapeChar_def dest: showNat_digits)

lemma escape_text [simp]: "map escape_doc (concat xss) = concat (map (map escape_doc) xss)"
  by (induction xss) auto

lemma escape_animator:
  assumes "\<forall>k \<in> set A. \<forall>(fr, s) \<in> set (fr_frameData k). \<forall>c \<in> set s. escapeChar c = [c]"
  shows "escape_doc (animatorDoc d A) = animatorDoc d A"
proof -
  have "map escape_doc (dataDoc e x) = dataDoc e x" if "k \<in> set A" "x \<in> set (fr_frameData k)" for e x k
    using assms that by (cases x) (fastforce simp: dataDoc_def)
  then have data: "map (map escape_doc \<circ> dataDoc e) (fr_frameData k) = map (dataDoc e) (fr_frameData k)" if "k \<in> set A" for e k
    using that by (intro map_cong) auto
  have "escape_doc (frameDoc e k) = frameDoc e k" if "k \<in> set A" for e k
    by (simp add: frameDoc_def data [OF that])
  then show ?thesis by (simp add: animatorDoc_def cong: map_cong)
qed

text \<open>
  Property C37. When no value holds one of the five characters that XML escapes, the text of a saved animation is that of a
  document, but loading this document gives back the first frame of every property only: the loop over the frames
  looks for the next one after the wrong pointer and ends. Numbers, keys and modes survive.
\<close>

theorem animation_reload:
  assumes "\<forall>k \<in> set A. fr_frameData k \<noteq> []"
    and "\<forall>k \<in> set A. \<forall>(fr, s) \<in> set (fr_frameData k). \<forall>c \<in> set s. escapeChar c = [c]"
  shows "an_writeState d A = tabs d @ xml_text (escape_doc (animatorDoc d A)) @ nl \<and>
    an_loadState (xmlChildren (animatorDoc d A)) = (True, map (\<lambda>k. k\<lparr>fr_frameData := take 1 (fr_frameData k)\<rparr>) A)"
proof -
  have "load_loop (xmlChildren (animatorDoc d A)) [] = load_loop (Text [] # xmlChildren (animatorDoc d A)) []"
  proof -
    have "fwdToElem ''frame'' (xmlChildren (animatorDoc d A)) = fwdToElem ''frame'' (Text [] # xmlChildren (animatorDoc d A))"
      by (cases A) (simp_all add: animatorDoc_def fwdToElem_def)
    moreover have "xmlChildren (animatorDoc d A) \<noteq> []" by (simp add: animatorDoc_def)
    ultimately show ?thesis by (subst (1 2) load_loop.simps) simp
  qed
  moreover have "an_writeState d A = tabs d @ xml_text (escape_doc (animatorDoc d A)) @ nl"
    by (simp only: animator_text escape_animator [OF assms(2)])
  ultimately show ?thesis
    using load_loop_docs[OF assms(1), of "Text []"] by (simp add: an_loadState_def animatorDoc_def)
qed

section \<open>A small animation\<close>

definition sampleAn :: animator where
  "sampleAn = [\<lparr>fr_filterId = 1, fr_propertyKey = 2, fr_frameData = [(0, ''a''), (5, ''b'')], fr_interpMode = 3\<rparr>,
     \<lparr>fr_filterId = 1, fr_propertyKey = 2, fr_frameData = [(7, ''c'')], fr_interpMode = 0\<rparr>]"

lemma sampleAn_apart: "\<not> conflict (sampleAn ! 0) (sampleAn ! Suc 0)"
  using overlap_conflict[of "sampleAn ! 0" "sampleAn ! Suc 0"]
  by (simp add: sampleAn_def rangesOverlap_def getMinFrame_def getMaxFrame_def)

lemma conflicts_exact_witness: "fst (an_checkSelfConsistent sampleAn {}) = {}"
proof -
  have "fst (an_checkSelfConsistent sampleAn {}) =
      {i. i < length sampleAn \<and> (\<exists>j < length sampleAn. j \<noteq> i \<and> conflict (sampleAn ! i) (sampleAn ! j))}"
    by (rule conflicts_exact) (simp add: sampleAn_def)
  moreover have "\<not> conflict (sampleAn ! i) (sampleAn ! j)"
    if "i < length sampleAn" "j < length sampleAn" "j \<noteq> i" for i j
  proof -
    have "length sampleAn = Suc (Suc 0)" by (simp add: sampleAn_def)
    then consider "i = 0" "j = Suc 0" | "i = Suc 0" "j = 0" using \<open>i < _\<close> \<open>j < _\<close> \<open>j \<noteq> i\<close> by linarith
    then show ?thesis
      using sampleAn_apart conflict_sym[of "sampleAn ! 0" "sampleAn ! Suc 0"] by cases simp_all
  qed
  ultimately show ?thesis by blast
qed

lemma sampleAn_ok: "an_ok sampleAn"
  by (simp add: an_ok_def sampleAn_def an_checkSelfConsistent_def rangesOverlap_def getMinFrame_def getMaxFrame_def)

lemma interpolated_latest_witness:
  "\<forall>T. getInterpolatedFilterData T sampleAn 1 2 100 = getInterpolatedData T (sampleAn ! 1) 7"
proof
  fix T
  show "getInterpolatedFilterData T sampleAn 1 2 100 = getInterpolatedData T (sampleAn ! 1) 7"
    using interpolated_latest[OF sampleAn_ok, of "sampleAn ! 1" 1 2 100 T]
    by (simp add: sampleAn_def getMinFrame_def getMaxFrame_def)
qed

lemma removeKeyFrames_exact_witness: "removeKeyFrames sampleAn [0] = Some [sampleAn ! 1]"
  using removeKeyFrames_exact[of "[0]" sampleAn] by (simp add: sampleAn_def nths_Cons)

lemma animation_reload_witness:
  "an_loadState (xmlChildren (animatorDoc 2 sampleAn)) =
     (True, [(sampleAn ! 0)\<lparr>fr_frameData := [(0, ''a'')]\<rparr>, sampleAn ! 1])"
  using animation_reload[of sampleAn 2] by (simp add: sampleAn_def escapeChar_def)

end
