(* ===== verification/Spec2Isabelle.thy ===== *)
theory Spec2Isabelle
  imports SamplesState SamplesXML SamplesSpatial SamplesView Animator
begin

text \<open>
  3Depict analyses atom probe data with a tree of filters. A data source at the root emits streams
  of ions, every filter below it transforms what its parent emits, and the leaves feed the plots
  and the 3D scene. This development models the part of the program that keeps this tree, runs
  it, edits it and remembers its history (src/src/backend), together with the range files that
  assign ions to mass ranges and the text encodings the state files and property grids rest on.

  The parts, from the bottom up, and the theories that model them:

  \<^item> \<open>Prelude\<close>: shared lemmas on lists and the deletion loop \<^verbatim>\<open>vectorMultiErase\<close> (common/basics.h).

  \<^item> \<open>TreeHH\<close>: the container \<^verbatim>\<open>tree<T>\<close> (backend/tree.hh), as a forest whose nodes keep their
    addresses. The pointer structure of the container is the shape of the value; iterators are
    addresses, and the three iterators the program uses are lists of nodes with their ancestors.

  \<^item> \<open>Filters\<close> and \<open>FilterProps\<close>: \<^verbatim>\<open>Filter\<close> and \<^verbatim>\<open>FilterStreamData\<close> (backend/filter.h, filter.cpp) in an
    explicit heap, the record \<open>world\<close>. The virtual methods are a table of functions, \<open>vtable\<close>, a
    parameter of all that calls them. The flag \<open>ub\<close> records any use of a dangling pointer, so that
    memory safety is the statement that it stays false. \<open>caches_ok\<close> and \<open>world_ok\<close> are the
    ownership invariants of cached streams and of the heap.

  \<^item> \<open>RefreshCollector\<close>: the bookkeeping of intermediate streams during a refresh, by tree level.

  \<^item> \<open>FilterTree\<close>, \<open>FilterTreeOps\<close>, \<open>FilterTreeRefresh\<close>, \<open>FilterTreePaths\<close> (backend/filtertree.cpp): the
    tree of filters, its initialisation, queries and caches; adding, copying, moving and removing
    branches; the refresh with its propagation maps, start filters, explicit stack, caching,
    errors and abort, and the disposal of its output; and the paths that name filters in state
    files, over the locale \<open>fresh_names\<close> of \<open>FreshNames\<close>. The contract of \<^verbatim>\<open>initFilter\<close> is the locale
    \<open>filter_init\<close>, interpreted on the base class.

  \<^item> \<open>FilterTreeAnalyse\<close> (backend/filtertreeAnalyse.cpp): the five checks for likely mistakes.

  \<^item> \<open>Snapshots\<close>: copies of whole trees, their ownership (\<open>trees_ok\<close>) and their \<open>picture\<close>, which is the
    shape of a tree and the values of its filters. The locale \<open>owners\<close> states what a container of
    owned objects needs; the filter tree interprets it.

  \<^item> \<open>TreeState\<close> (backend/state.cpp): the current tree, the numbers of its filters, undo and redo,
    and every edit as the user makes it. \<open>history_step\<close> is the step relation of the program on
    this state.

  \<^item> \<open>RangeFile\<close>, \<open>IonNames\<close> (backend/APT/APTRanges.cpp): ranges and ions with their edits, the
    assignment of ions to masses, the consistency check, and the decomposition of molecular names.
    Masses are rationals: the code compares and copies floats and does no arithmetic on them here.

  \<^item> \<open>Float32\<close>, \<open>Geometry\<close>, \<open>IonHits\<close> (common/mathfuncs.cpp, common/basics.cpp, backend/APT/ionhit.cpp):
    points, boxes and ions. Float operations are exact rational ones followed by \<open>f32\<close>, the
    rounding of IEEE binary32; the locale \<open>rounding\<close> says what the geometry needs of it. The
    bounding box of ions has its serial and its parallel version.

  \<^item> \<open>KDSearch\<close>, \<open>K3DTreeMk2\<close>, \<open>K3DTreeSearch\<close>, \<open>K3DTree\<close> (backend/filters/algorithms): the two k-d trees. The
    search loop they share is shown to be a recursion over the tree and to stay in its stack
    arrays; the sort of the standard library is a parameter.

  \<^item> \<open>StringFuncs\<close> (common/stringFuncs.cpp, basics.cpp): encodings of numbers, colours, choices, file names
    and versions, with the locales \<open>codec\<close> and \<open>fixed_codec\<close> interpreted on each encoding.

  \<^item> \<open>XmlTree\<close>, \<open>Animator\<close> (common/xmlHelper.cpp, backend/animator.cpp): XML documents as the library
    hands them to the program, and the animation of filter properties with its state file. Floats
    are rationals here, and their parser and printer are parameters.

  \<^item> \<open>RangeFilter\<close>, \<open>RangeFilterProps\<close>, \<open>RangeFilterState\<close> (backend/filters/rangeFile.cpp): the filter that
    ranges ions: its run with the cache and the legend, its property grid and the edits through it,
    and its state in a state file. Streams are values here, with their ions.

  \<^item> \<open>FilterTreeXML\<close>, \<open>PackageNames\<close>, \<open>RangeFilterTree\<close> (backend/filtertree.cpp, filters/allFilter.cpp): saving
    and loading the filter tree, and the names of external files in a package. What writing and
    reading a filter must keep is the locale \<open>filter_xml\<close>, interpreted on the ranging filter.

  \<^item> \<open>UniqueIDs\<close> (common/basics.cpp): identifiers for the elements of a vector; what their two clients
    rely on is the locale \<open>id_handler\<close>, interpreted on the handler as \<open>uid\<close>.

  \<^item> \<open>PlotRegions\<close>, \<open>Plots\<close>, \<open>PlotWrapper\<close> (backend/plot.cpp): the regions a user drags in a plot, the
    plot classes, and the collection of plots of the plot pane. \<open>pw_step\<close> and \<open>pw_reach\<close> are the step
    relation and the reachable states of the collection.

  \<^item> \<open>Effects\<close>, \<open>Cameras\<close> (gl/effect.cpp, gl/cameras.cpp, gl/scene.cpp): the effects and the camera of the view,
    with their state files and properties, and the text of points.

  \<^item> \<open>Samples\<close>, \<open>SamplesState\<close>, \<open>SamplesFilter\<close>, \<open>SamplesXML\<close>, \<open>SamplesSpatial\<close>, \<open>SamplesView\<close>: concrete filters, trees, states
    and point sets on which the properties are applied.

  What is shown. The tree: \<^verbatim>\<open>reparentFilter\<close>, \<^verbatim>\<open>copyFilter\<close>, \<^verbatim>\<open>removeSubtree\<close> and \<^verbatim>\<open>addFilter\<close> do exactly
  what they promise and keep the tree well formed; initialisation and refresh with their stacks
  and breadth-first skipping are recursions over the tree; the start filters of a refresh form a
  cut; nothing is freed twice. The history: along any sequence of edits, undo and redo every
  filter is owned by one tree and freed once, the stacks stay within their bound, and undo
  restores the picture of the tree. The analysis: each warning is raised for exactly the
  pairs of filters it describes. Range files: each edit keeps the file consistent and changes
  what it names only. The ranging filter puts out exactly the ions of the enabled ranges and ions, each
  row of its grid leads to the field it shows, and its state is read back as it was written, as is the tree of filters; where
  the code differs from what it means to do, the difference is a theorem. Encodings: round trips.
  Spatial search: the construction of both trees, and of the queries of the newer one that each
  answers exactly what it is asked, for the rounded distances the code computes; of the older
  search what it returns and, by example, what it misses. The view: identifiers of plots stay their
  positions, a refresh restores which plots are visible, dragged ends of regions never make them overlap,
  the overlaps reported are all there are, effects are a map from identifiers, and cameras and effects are read
  back as they were written.

  Bounds. Addresses, counters and list lengths are natural numbers and do not wrap; masks and
  property keys are words of their width. The only loop with fuel is \<open>getBitNum\<close>, which gets 32
  steps, one per bit; the shift loop of the code does not end for 0, which is the result None.
  Loops that stop at the end of a list are recursions on the list, with a measure where they
  skip ahead.

  Not modelled, with the reason. The other filters are numeric algorithms in floating point
  over ion clouds with calls into GSL, qhull and OpenVDB; they enter the filter tree as the table of virtual
  methods, and what the tree relies on from them is a hypothesis (\<open>filter_init\<close>, \<open>set_keeps\<close>).
  Meshes, voxels and the 3D scene are floating point geometry and drawing; of plots, cameras and effects
  the parts that draw, and the camera motions by quaternions, are left out. Infinities are
  one number beyond the largest float and not-a-number does not occur. The readers and
  writers of range files work on stdio streams. The XML library is not modelled: the theories say
  which document a writer prints and what is read from it. The
  dialogs and the main window are event handlers of a toolkit. Threads: a refresh runs alone, and the
  abort flag is read from a parameter.
\<close>

end
